(* ===== verification/Prelude.thy ===== *)
theory Prelude
  imports Complex_Main "HOL-Library.Word" "HOL-Library.Signed_Division"
begin

text \<open>
  What every theory of the development shares: the C integer types, the ways a C
  computation can fail (\<open>fault\<close>), the \<open>result\<close> type with its sequencing operator
  \<open>rbind\<close>, the wrap-around safe time comparison of \<open>wmediumd/inc/usfstl/sched.h\<close>,
  the rounding division of \<open>wmediumd/lib/internal.h\<close>, and list lemmas about
  inserting at the first element with a property, which both the main loop and the
  scheduler do.
\<close>

unbundle bit_operations_syntax

section \<open>C integers\<close>

type_synonym u8 = "8 word"
type_synonym u16 = "16 word"
type_synonym u32 = "32 word"
type_synonym u64 = "64 word"

section \<open>Failing computations\<close>

text \<open>
  \<open>Assertion_failed\<close> is \<open>usfstl_abort\<close> or \<open>assert\<close>; \<open>Null_dereference\<close>,
  \<open>Out_of_bounds\<close>, \<open>Use_after_free\<close>, \<open>Division_by_zero\<close>, \<open>Uninitialized\<close>,
  \<open>Invalid_conversion\<close> (of a double that no int can hold) and \<open>Wild_pointer\<close> (following a list
  link out of its list) are undefined behaviour in C;
  \<open>Starved\<close> is a wait for input that the given finite input never brings; and
  \<open>Out_of_fuel\<close> marks a loop that was cut off by the fuel of its model.
\<close>

datatype fault =
    Assertion_failed
  | Null_dereference
  | Out_of_bounds
  | Use_after_free
  | Division_by_zero
  | Uninitialized
  | Invalid_conversion
  | Wild_pointer
  | Starved
  | Out_of_fuel

type_synonym 'a result = "fault + 'a"

fun rbind :: "'a result \<Rightarrow> ('a \<Rightarrow> 'b result) \<Rightarrow> 'b result" where
  "rbind (Inl e) f = Inl e"
| "rbind (Inr x) f = f x"

text \<open>\<open>USFSTL_ASSERT(cond)\<close> followed by the rest of the function.\<close>

definition rassert :: "bool \<Rightarrow> 'a result \<Rightarrow> 'a result" where
  "rassert b r = (if b then r else Inl Assertion_failed)"

text \<open>Reading through a pointer or a table entry that may be absent.\<close>

definition rget :: "fault \<Rightarrow> 'a option \<Rightarrow> 'a result" where
  "rget e x = (case x of None \<Rightarrow> Inl e | Some v \<Rightarrow> Inr v)"

text \<open>Sequencing a fallible step over a list, first element first.\<close>

fun rfold :: "('a \<Rightarrow> 's \<Rightarrow> 's result) \<Rightarrow> 'a list \<Rightarrow> 's \<Rightarrow> 's result" where
  "rfold f [] s = Inr s"
| "rfold f (x # xs) s = rbind (f x s) (rfold f xs)"

named_theorems result_simps

lemma rbind_eq_Inr [result_simps]:
  "rbind m f = Inr y \<longleftrightarrow> (\<exists>x. m = Inr x \<and> f x = Inr y)"
  by (cases m) auto

lemma rbind_eq_Inl [result_simps]:
  "rbind m f = Inl e \<longleftrightarrow> m = Inl e \<or> (\<exists>x. m = Inr x \<and> f x = Inl e)"
  by (cases m) auto

lemma rassert_eq_Inr [result_simps]: "rassert b r = Inr y \<longleftrightarrow> b \<and> r = Inr y"
  by (simp add: rassert_def)

lemma rassert_True [simp]: "rassert True r = r"
  by (simp add: rassert_def)

lemma rassert_False [simp]: "rassert False r = Inl Assertion_failed"
  by (simp add: rassert_def)

lemma rget_Some [simp]: "rget e (Some x) = Inr x"
  by (simp add: rget_def)

lemma rget_None [simp]: "rget e None = Inl e"
  by (simp add: rget_def)

lemma rget_eq_Inr [result_simps]: "rget e x = Inr y \<longleftrightarrow> x = Some y"
  by (cases x) auto

lemma rbind_assoc: "rbind (rbind m f) g = rbind m (\<lambda>x. rbind (f x) g)"
  by (cases m) auto

lemma rfold_append: "rfold f (xs @ ys) s = rbind (rfold f xs s) (rfold f ys)"
proof (induction xs arbitrary: s)
  case (Cons x xs)
  then show ?case by (cases "f x s") simp_all
qed simp

text \<open>The result of a step as an existence statement, for evaluation.\<close>

lemma returns_iff: "(\<exists>y. m = Inr y) \<longleftrightarrow> rbind m (\<lambda>_. Inr ()) = Inr ()"
  by (cases m) auto

text \<open>An invariant of the step is an invariant of the whole fold.\<close>

lemma rfold_invariant:
  assumes "rfold f xs s = Inr t" and "I s"
    and "\<And>x u v. x \<in> set xs \<Longrightarrow> I u \<Longrightarrow> f x u = Inr v \<Longrightarrow> I v"
  shows "I t"
  using assms
proof (induction xs arbitrary: s)
  case Nil
  then show ?case by simp
next
  case (Cons x xs)
  from Cons.prems(1) obtain u where u: "f x s = Inr u" and rest: "rfold f xs u = Inr t"
    by (auto simp: result_simps)
  have "I u" using Cons.prems(2,3) u by (meson list.set_intros(1))
  with rest show ?case by (rule Cons.IH) (auto intro: Cons.prems(3))
qed

section \<open>Time\<close>

text \<open>
  \<open>usfstl_time_cmp(a, op, b)\<close> is \<open>0 op (int64_t)(b - a)\<close>: one definition per
  operator of the macro.
\<close>

definition time_lt :: "u64 \<Rightarrow> u64 \<Rightarrow> bool" where
  "time_lt a b \<longleftrightarrow> 0 < sint (b - a)"

definition time_gt :: "u64 \<Rightarrow> u64 \<Rightarrow> bool" where
  "time_gt a b \<longleftrightarrow> 0 > sint (b - a)"

definition time_le :: "u64 \<Rightarrow> u64 \<Rightarrow> bool" where
  "time_le a b \<longleftrightarrow> 0 \<le> sint (b - a)"

definition time_ge :: "u64 \<Rightarrow> u64 \<Rightarrow> bool" where
  "time_ge a b \<longleftrightarrow> 0 \<ge> sint (b - a)"

text \<open>\<open>DIV_ROUND_UP(a, b)\<close> at 64 bits: the sum \<open>a + b - 1\<close> wraps.\<close>

definition div_round_up :: "u64 \<Rightarrow> u64 \<Rightarrow> u64" where
  "div_round_up a b = (a + b - 1) div b"

text \<open>
  The signed difference of two times that both lie less than half the range ahead of a
  common base is the difference of their distances from the base: inside such a window
  the wrap-around comparison is an ordinary order.
\<close>

definition ahead :: "u64 \<Rightarrow> u64 \<Rightarrow> nat" where
  "ahead c t = unat (t - c)"

definition in_window :: "u64 \<Rightarrow> u64 \<Rightarrow> bool" where
  "in_window c t \<longleftrightarrow> ahead c t < 2 ^ 63"

lemma uint_int: "uint (x :: u64) = int (unat x)"
  by simp

lemma int_less_two63: "n < 2 ^ 63 \<Longrightarrow> int n < 2 ^ 63"
  by (metis of_nat_less_iff of_nat_numeral of_nat_power)

lemma sint_eq_uint64: "sint (x :: u64) = (if uint x < 2 ^ 63 then uint x else uint x - 2 ^ 64)"
proof -
  let ?k = "uint x"
  have k: "0 \<le> ?k" "?k < 2 ^ 64" using uint_lt2p [of x] by simp_all
  have b: "bit ?k 63 \<longleftrightarrow> \<not> ?k < 2 ^ 63"
  proof (cases "2 ^ 63 \<le> ?k")
    case True
    then have "?k div 2 ^ 63 = 1" using k(2) by (intro div_pos_geq [THEN trans]) auto
    then show ?thesis using True by (simp add: bit_iff_odd)
  next
    case False
    then have "?k div 2 ^ 63 = 0" using k by simp
    then show ?thesis using False by (simp add: bit_iff_odd)
  qed
  have "sint x = take_bit 64 ?k - 2 ^ 64 * of_bool (bit ?k 63)"
    by (simp add: sint_uint signed_take_bit_eq_take_bit_minus)
  also have "take_bit 64 ?k = ?k" using k by (simp add: take_bit_int_eq_self)
  finally show ?thesis unfolding b by (simp only: of_bool_def split: if_split) simp
qed

lemma sint_small:
  assumes "unat (x :: u64) < 2 ^ 63"
  shows "sint x = int (unat x)"
proof -
  have "uint x < 2 ^ 63" unfolding uint_int using assms by (rule int_less_two63)
  then show ?thesis using sint_eq_uint64 [of x] uint_int [of x] by argo
qed

lemma sint_neg_of_small:
  assumes "0 < unat (x :: u64)" and "unat x < 2 ^ 63"
  shows "sint (- x) = - int (unat x)"
proof -
  have u: "int (unat x) < 2 ^ 63" "0 < int (unat x)"
    using int_less_two63 [OF assms(2)] assms(1) by (simp_all del: of_nat_unat)
  have "uint (- x) = (- uint x) mod 2 ^ 64" by (simp add: uint_word_ariths)
  also have "\<dots> = (- int (unat x)) mod 2 ^ 64" by (simp only: uint_int)
  also have "\<dots> = 2 ^ 64 - int (unat x)"
    using u by (simp add: zmod_zminus1_eq_if del: of_nat_unat)
  finally show ?thesis
    using u sint_eq_uint64 [of "- x"] by (simp del: of_nat_unat split: if_splits)
qed

lemma ahead_diff: "ahead c a \<le> ahead c b \<Longrightarrow> ahead a b = ahead c b - ahead c a"
proof -
  assume le: "ahead c a \<le> ahead c b"
  have "b - a = (b - c) - (a - c)" by simp
  moreover have "unat ((b - c) - (a - c)) = unat (b - c) - unat (a - c)"
    using le by (intro unat_sub) (simp add: ahead_def word_le_nat_alt)
  ultimately show ?thesis by (simp add: ahead_def)
qed

lemma sint_diff_window:
  assumes "in_window c a" and "in_window c b"
  shows "sint (b - a) = int (ahead c b) - int (ahead c a)"
proof (cases "ahead c a \<le> ahead c b")
  case True
  then have "sint (b - a) = int (ahead c b - ahead c a)"
    using sint_small [of "b - a"] ahead_diff [OF True] assms
    by (simp add: in_window_def ahead_def del: of_nat_unat)
  then show ?thesis using True by (simp only: of_nat_diff)
next
  case False
  then have le: "ahead c b \<le> ahead c a" by simp
  note d = ahead_diff [OF le]
  have "sint (- (a - b)) = - int (unat (a - b))"
    by (rule sint_neg_of_small)
      (use False d assms in \<open>simp_all add: ahead_def in_window_def\<close>)
  also have "\<dots> = int (ahead c b) - int (ahead c a)"
    using d le by (simp only: ahead_def of_nat_diff)
  finally show ?thesis by (simp only: minus_diff_eq)
qed

named_theorems time_simps

lemma time_lt_window [time_simps]:
  "in_window c a \<Longrightarrow> in_window c b \<Longrightarrow> time_lt a b \<longleftrightarrow> ahead c a < ahead c b"
  by (simp add: time_lt_def sint_diff_window)

lemma time_gt_window [time_simps]:
  "in_window c a \<Longrightarrow> in_window c b \<Longrightarrow> time_gt a b \<longleftrightarrow> ahead c b < ahead c a"
  by (simp add: time_gt_def sint_diff_window)

lemma time_le_window [time_simps]:
  "in_window c a \<Longrightarrow> in_window c b \<Longrightarrow> time_le a b \<longleftrightarrow> ahead c a \<le> ahead c b"
  by (simp add: time_le_def sint_diff_window)

lemma time_ge_window [time_simps]:
  "in_window c a \<Longrightarrow> in_window c b \<Longrightarrow> time_ge a b \<longleftrightarrow> ahead c b \<le> ahead c a"
  by (simp add: time_ge_def sint_diff_window)

lemma in_window_self [simp]: "in_window c c" and ahead_self [simp]: "ahead c c = 0"
  by (simp_all add: in_window_def ahead_def)

lemma ahead_inject: "ahead c a = ahead c b \<longleftrightarrow> a = b"
  by (simp add: ahead_def word_unat_eq_iff [symmetric])

text \<open>\<open>usfstl_time_cmp(t, >=, c)\<close> says that \<open>t\<close> is in the window that starts at \<open>c\<close>,
  or exactly half the range away from it.\<close>

lemma sint_uminus_window: "in_window c t \<Longrightarrow> sint (c - t) = - int (ahead c t)"
  using sint_diff_window [of c t c] by simp

lemma in_window_time_ge: "in_window c t \<Longrightarrow> time_ge t c"
  by (simp add: time_ge_def sint_uminus_window)

lemma time_le_iff_window: "time_le c t \<longleftrightarrow> in_window c t"
proof -
  have "uint (t - c) < 2 ^ 63 \<longleftrightarrow> unat (t - c) < 2 ^ 63"
    using int_less_two63 [of "unat (t - c)"] unfolding uint_int
    by (metis of_nat_less_iff of_nat_numeral of_nat_power)
  moreover have "uint (t - c) < 2 ^ 64" using uint_lt2p [of "t - c"] by simp
  ultimately show ?thesis
    unfolding time_le_def in_window_def ahead_def using sint_eq_uint64 [of "t - c"]
      uint_ge_0 [of "t - c"] by (auto simp del: uint_ge_0)
qed

text \<open>Widening keeps the value.\<close>

lemma unat_ucast_up: "LENGTH('a) \<le> LENGTH('b) \<Longrightarrow> unat (ucast (x :: 'a::len word) :: 'b::len word) = unat x"
proof -
  assume le: "LENGTH('a) \<le> LENGTH('b)"
  have "unat x < 2 ^ LENGTH('a)" by (rule unsigned_less)
  also have "(2 :: nat) ^ LENGTH('a) \<le> 2 ^ LENGTH('b)" using le by (intro power_increasing) simp_all
  finally show ?thesis by (simp add: unsigned_ucast_eq take_bit_nat_eq_self)
qed

text \<open>Division with rounding up, while the sum does not wrap.\<close>

lemma unat_div_round_up:
  assumes "0 < unat b" and "unat a + unat b \<le> 2 ^ 64"
  shows "unat (div_round_up a b) = (unat a + unat b - 1) div unat b"
proof -
  have b: "unat (b - 1) = unat b - 1" using assms(1) by (simp add: unat_sub word_le_nat_alt)
  have "unat (a + (b - 1)) = (unat a + unat (b - 1)) mod 2 ^ 64"
    by (simp only: unat_word_ariths) simp
  also have "\<dots> = unat a + unat b - 1"
    using assms unfolding b by (intro mod_less [THEN trans]) linarith+
  finally have "unat (a + b - 1) = unat a + unat b - 1" by (simp add: add_diff_eq)
  then show ?thesis unfolding div_round_up_def unat_div by simp
qed

lemma round_up_bounds:
  fixes a b :: nat
  assumes "0 < b"
  shows "a \<le> (a + b - 1) div b * b" and "(a + b - 1) div b * b < a + b"
proof -
  have e: "(a + b - 1) div b * b + (a + b - 1) mod b = a + b - 1" by simp
  have "(a + b - 1) mod b < b" using assms by simp
  then show "a \<le> (a + b - 1) div b * b" "(a + b - 1) div b * b < a + b"
    using e assms by linarith+
qed

lemma round_up_multiple: "0 < b \<Longrightarrow> (a * b + b - 1) div b = (a :: nat)"
  by (intro div_nat_eqI) (simp_all add: mult.commute)

section \<open>Inserting at the first element with a property\<close>

definition insert_first :: "('a \<Rightarrow> bool) \<Rightarrow> 'a \<Rightarrow> 'a list \<Rightarrow> 'a list" where
  "insert_first P x xs = takeWhile (\<lambda>y. \<not> P y) xs @ x # dropWhile (\<lambda>y. \<not> P y) xs"

lemma insert_first_Nil [simp]: "insert_first P x [] = [x]"
  by (simp add: insert_first_def)

lemma insert_first_Cons:
  "insert_first P x (y # ys) = (if P y then x # y # ys else y # insert_first P x ys)"
  by (simp add: insert_first_def)

lemma set_insert_first [simp]: "set (insert_first P x xs) = insert x (set xs)"
  by (induction xs) (auto simp: insert_first_Cons)

lemma distinct_insert_first [simp]:
  "distinct (insert_first P x xs) \<longleftrightarrow> x \<notin> set xs \<and> distinct xs"
  by (induction xs) (auto simp: insert_first_Cons)

lemma length_insert_first [simp]: "length (insert_first P x xs) = Suc (length xs)"
  by (induction xs) (auto simp: insert_first_Cons)

lemma insert_first_cong:
  "(\<And>y. y \<in> set xs \<Longrightarrow> P y = Q y) \<Longrightarrow> insert_first P x xs = insert_first Q x xs"
  by (induction xs) (auto simp: insert_first_Cons)

lemma filter_insert_first: "\<not> Q x \<Longrightarrow> filter Q (insert_first P x xs) = filter Q xs"
  by (induction xs) (auto simp: insert_first_Cons)

lemma remove1_insert_first:
  "x \<notin> set xs \<Longrightarrow> remove1 x (insert_first P x xs) = xs"
  by (induction xs) (auto simp: insert_first_Cons)

text \<open>The insertion keeps a list sorted if \<open>P\<close> separates what may stand before the new
  element from what may stand after it.\<close>

lemma sorted_wrt_insert_first:
  assumes "sorted_wrt R xs"
    and before: "\<And>y. y \<in> set xs \<Longrightarrow> \<not> P y \<Longrightarrow> R y x"
    and after: "\<And>y. y \<in> set xs \<Longrightarrow> P y \<Longrightarrow> R x y"
    and trans: "\<And>y z. y \<in> set xs \<Longrightarrow> z \<in> set xs \<Longrightarrow> R x y \<Longrightarrow> R y z \<Longrightarrow> R x z"
  shows "sorted_wrt R (insert_first P x xs)"
  using assms
proof (induction xs)
  case Nil
  then show ?case by simp
next
  case (Cons y ys)
  show ?case
  proof (cases "P y")
    case True
    then have "R x y" using Cons.prems(3) by simp
    moreover have "R x z" if "z \<in> set ys" for z
      using \<open>R x y\<close> that Cons.prems(1) Cons.prems(4) [of y z] by simp
    ultimately show ?thesis using True Cons.prems(1) by (simp add: insert_first_Cons)
  next
    case False
    have "sorted_wrt R (insert_first P x ys)"
    proof (rule Cons.IH)
      show "R x z" if "u \<in> set ys" "z \<in> set ys" "R x u" "R u z" for u z
        using Cons.prems(4) [of u z] that by simp
    qed (use Cons.prems in auto)
    then show ?thesis using False Cons.prems(1,2) by (simp add: insert_first_Cons)
  qed
qed

section \<open>Removing from and searching in sorted lists\<close>

lemma sorted_wrt_remove1: "sorted_wrt R xs \<Longrightarrow> sorted_wrt R (remove1 x xs)"
proof (induction xs)
  case (Cons y ys)
  have "set (remove1 x ys) \<subseteq> set ys" by (rule set_remove1_subset)
  then show ?case using Cons by auto
qed simp

lemma find_sorted_first:
  assumes "sorted_wrt R xs" and "find P xs = Some x" and "y \<in> set xs" and "P y"
  shows "y = x \<or> R x y"
  using assms by (induction xs) (auto split: if_splits)

lemma sorted_wrt_cong_set:
  "(\<And>x y. x \<in> set xs \<Longrightarrow> y \<in> set xs \<Longrightarrow> R x y = Q x y) \<Longrightarrow> sorted_wrt R xs = sorted_wrt Q xs"
  by (induction xs) auto

end
