(* ===== verification/Linked_List.thy ===== *)
theory Linked_List
  imports Prelude
begin

text \<open>
  The two intrusive doubly linked lists of the program, at the level of their pointers:
  \<open>wmediumd/inc/usfstl/list.h\<close> (used by the main loop and the scheduler) and
  \<open>wmediumd/list.h\<close> (used for stations, clients and frame queues). The memory of the
  list entries is a record of two maps from entries to pointers; \<open>None\<close> stands for
  any pointer that is not a list entry (NULL and the two poison values), so that
  following it is a fault.

  The predicate \<open>ring\<close> says which HOL list an anchor entry represents. The contract
  that both implementations keep is the locale \<open>linked_list\<close>; its client lemma is the
  insertion loop that \<open>usfstl_loop_register\<close> and \<open>usfstl_sched_add_job\<close> share.
\<close>

section \<open>Memory of the list entries\<close>

record 'p links =
  next_of :: "'p \<Rightarrow> 'p option"
  prev_of :: "'p \<Rightarrow> 'p option"

definition set_next :: "'p \<Rightarrow> 'p option \<Rightarrow> 'p links \<Rightarrow> 'p links" where
  "set_next p q m = m\<lparr>next_of := (next_of m)(p := q)\<rparr>"

definition set_prev :: "'p \<Rightarrow> 'p option \<Rightarrow> 'p links \<Rightarrow> 'p links" where
  "set_prev p q m = m\<lparr>prev_of := (prev_of m)(p := q)\<rparr>"

named_theorems link_simps

lemma set_next_simps [simp, link_simps]:
  "next_of (set_next p q m) = (next_of m)(p := q)"
  "prev_of (set_next p q m) = prev_of m"
  by (simp_all add: set_next_def)

lemma set_prev_simps [simp, link_simps]:
  "next_of (set_prev p q m) = next_of m"
  "prev_of (set_prev p q m) = (prev_of m)(p := q)"
  by (simp_all add: set_prev_def)

section \<open>Loops over a list, for any implementation of its operations\<close>

text \<open>
  \<open>for_each (tmp, list) { if (P) break; }\<close>, continued at \<open>tmp\<close>: the item the loop stops
  at, or NULL. The fuel bounds the number of items looked at.
\<close>

fun list_scan ::
  "('p \<Rightarrow> 'm \<Rightarrow> 'p option) \<Rightarrow> nat \<Rightarrow> ('p \<Rightarrow> bool) \<Rightarrow> 'p option \<Rightarrow> 'm \<Rightarrow> 'p option result" where
  "list_scan nxt fuel P None m = Inr None"
| "list_scan nxt 0 P (Some p) m = Inl Out_of_fuel"
| "list_scan nxt (Suc fuel) P (Some p) m =
     (if P p then Inr (Some p) else list_scan nxt fuel P (nxt p m) m)"

definition list_insert_at ::
  "('m \<Rightarrow> 'p option) \<Rightarrow> ('p \<Rightarrow> 'm \<Rightarrow> 'p option) \<Rightarrow> ('p \<Rightarrow> 'm \<Rightarrow> 'm result) \<Rightarrow>
   ('p \<Rightarrow> 'p \<Rightarrow> 'm \<Rightarrow> 'm result) \<Rightarrow> nat \<Rightarrow> ('p \<Rightarrow> bool) \<Rightarrow> 'p \<Rightarrow> 'm \<Rightarrow> 'm result" where
  "list_insert_at first nxt app ins fuel P new m =
     rbind (list_scan nxt fuel P (first m) m) (\<lambda>tmp.
       case tmp of None \<Rightarrow> app new m | Some t \<Rightarrow> ins t new m)"

text \<open>\<open>while (!list_empty(list)) { x = first(list); list_del(x); ... }\<close>: the visited items
  and the final memory.\<close>

fun list_drain ::
  "('m \<Rightarrow> 'p option) \<Rightarrow> ('p \<Rightarrow> 'm \<Rightarrow> 'm result) \<Rightarrow> nat \<Rightarrow> 'm \<Rightarrow> ('p list \<times> 'm) result" where
  "list_drain first del 0 m = (if first m = None then Inr ([], m) else Inl Out_of_fuel)"
| "list_drain first del (Suc fuel) m =
     (case first m of None \<Rightarrow> Inr ([], m)
      | Some x \<Rightarrow> rbind (del x m) (\<lambda>m.
          rbind (list_drain first del fuel m) (\<lambda>(xs, m). Inr (x # xs, m))))"

section \<open>The usfstl list\<close>

definition usfstl_list_init :: "'p \<Rightarrow> 'p links \<Rightarrow> 'p links" where
  "usfstl_list_init l m = set_prev l (Some l) (set_next l (Some l) m)"

definition usfstl_list_insert_before :: "'p \<Rightarrow> 'p \<Rightarrow> 'p links \<Rightarrow> 'p links result" where
  "usfstl_list_insert_before existing new m =
     (let m = set_prev new (prev_of m existing) m in
      rbind (rget Null_dereference (prev_of m existing)) (\<lambda>p.
      let m = set_next p (Some new) m;
          m = set_prev existing (Some new) m;
          m = set_next new (Some existing) m
      in Inr m))"

definition usfstl_list_append :: "'p \<Rightarrow> 'p \<Rightarrow> 'p links \<Rightarrow> 'p links result" where
  "usfstl_list_append l new m = usfstl_list_insert_before l new m"

definition usfstl_list_empty :: "'p \<Rightarrow> 'p links \<Rightarrow> bool" where
  "usfstl_list_empty l m \<longleftrightarrow> next_of m l = Some l"

definition usfstl_list_first_item :: "'p \<Rightarrow> 'p links \<Rightarrow> 'p option" where
  "usfstl_list_first_item l m = (if usfstl_list_empty l m then None else next_of m l)"

definition usfstl_next_item :: "'p \<Rightarrow> 'p \<Rightarrow> 'p links \<Rightarrow> 'p option" where
  "usfstl_next_item l entry m = (if next_of m entry \<noteq> Some l then next_of m entry else None)"

definition usfstl_list_item_remove :: "'p \<Rightarrow> 'p links \<Rightarrow> 'p links result" where
  "usfstl_list_item_remove entry m =
     rbind (rget Null_dereference (next_of m entry)) (\<lambda>n.
     let m = set_prev n (prev_of m entry) m in
     rbind (rget Null_dereference (prev_of m entry)) (\<lambda>p.
     let m = set_next p (next_of m entry) m;
         m = set_next entry None m;
         m = set_prev entry None m
     in Inr m))"

text \<open>
  The insertion loop of \<open>usfstl_loop_register\<close> and \<open>usfstl_sched_add_job\<close>: insert before
  the item the loop stops at, append if it runs to the end.
\<close>

definition usfstl_insert_at :: "nat \<Rightarrow> 'p \<Rightarrow> ('p \<Rightarrow> bool) \<Rightarrow> 'p \<Rightarrow> 'p links \<Rightarrow> 'p links result" where
  "usfstl_insert_at fuel l P new m =
     list_insert_at (usfstl_list_first_item l) (usfstl_next_item l)
       (usfstl_list_append l) usfstl_list_insert_before fuel P new m"

section \<open>The kernel list\<close>

definition INIT_LIST_HEAD :: "'p \<Rightarrow> 'p links \<Rightarrow> 'p links" where
  "INIT_LIST_HEAD l m = set_prev l (Some l) (set_next l (Some l) m)"

text \<open>\<open>__list_add(new, prev, next)\<close>\<close>

definition list_add_between :: "'p \<Rightarrow> 'p option \<Rightarrow> 'p option \<Rightarrow> 'p links \<Rightarrow> 'p links result" where
  "list_add_between new prev next m =
     rbind (rget Null_dereference next) (\<lambda>n.
     let m = set_prev n (Some new) m;
         m = set_next new next m;
         m = set_prev new prev m in
     rbind (rget Null_dereference prev) (\<lambda>p. Inr (set_next p (Some new) m)))"

definition list_add :: "'p \<Rightarrow> 'p \<Rightarrow> 'p links \<Rightarrow> 'p links result" where
  "list_add new head m = list_add_between new (Some head) (next_of m head) m"

definition list_add_tail :: "'p \<Rightarrow> 'p \<Rightarrow> 'p links \<Rightarrow> 'p links result" where
  "list_add_tail new head m = list_add_between new (prev_of m head) (Some head) m"

text \<open>\<open>__list_del(prev, next)\<close> and \<open>__list_del_entry(entry)\<close>\<close>

definition list_del_between :: "'p option \<Rightarrow> 'p option \<Rightarrow> 'p links \<Rightarrow> 'p links result" where
  "list_del_between prev next m =
     rbind (rget Null_dereference next) (\<lambda>n.
     let m = set_prev n prev m in
     rbind (rget Null_dereference prev) (\<lambda>p. Inr (set_next p next m)))"

definition list_del_entry :: "'p \<Rightarrow> 'p links \<Rightarrow> 'p links result" where
  "list_del_entry entry m = list_del_between (prev_of m entry) (next_of m entry) m"

definition list_del :: "'p \<Rightarrow> 'p links \<Rightarrow> 'p links result" where
  "list_del entry m =
     rbind (list_del_entry entry m) (\<lambda>m. Inr (set_prev entry None (set_next entry None m)))"

definition list_del_init :: "'p \<Rightarrow> 'p links \<Rightarrow> 'p links result" where
  "list_del_init entry m = rbind (list_del_entry entry m) (\<lambda>m. Inr (INIT_LIST_HEAD entry m))"

definition list_replace :: "'p \<Rightarrow> 'p \<Rightarrow> 'p links \<Rightarrow> 'p links result" where
  "list_replace old new m =
     (let m = set_next new (next_of m old) m in
      rbind (rget Null_dereference (next_of m new)) (\<lambda>n.
      let m = set_prev n (Some new) m;
          m = set_prev new (prev_of m old) m in
      rbind (rget Null_dereference (prev_of m new)) (\<lambda>p. Inr (set_next p (Some new) m))))"

definition list_replace_init :: "'p \<Rightarrow> 'p \<Rightarrow> 'p links \<Rightarrow> 'p links result" where
  "list_replace_init old new m =
     rbind (list_replace old new m) (\<lambda>m. Inr (INIT_LIST_HEAD old m))"

definition list_move :: "'p \<Rightarrow> 'p \<Rightarrow> 'p links \<Rightarrow> 'p links result" where
  "list_move l head m = rbind (list_del_entry l m) (list_add l head)"

definition list_move_tail :: "'p \<Rightarrow> 'p \<Rightarrow> 'p links \<Rightarrow> 'p links result" where
  "list_move_tail l head m = rbind (list_del_entry l m) (list_add_tail l head)"

definition list_is_first :: "'p \<Rightarrow> 'p \<Rightarrow> 'p links \<Rightarrow> bool" where
  "list_is_first l head m \<longleftrightarrow> prev_of m l = Some head"

definition list_is_last :: "'p \<Rightarrow> 'p \<Rightarrow> 'p links \<Rightarrow> bool" where
  "list_is_last l head m \<longleftrightarrow> next_of m l = Some head"

definition list_empty :: "'p \<Rightarrow> 'p links \<Rightarrow> bool" where
  "list_empty head m \<longleftrightarrow> next_of m head = Some head"

definition list_rotate_left :: "'p \<Rightarrow> 'p links \<Rightarrow> 'p links result" where
  "list_rotate_left head m =
     (if \<not> list_empty head m
      then rbind (rget Null_dereference (next_of m head)) (\<lambda>first. list_move_tail first head m)
      else Inr m)"

definition list_is_singular :: "'p \<Rightarrow> 'p links \<Rightarrow> bool" where
  "list_is_singular head m \<longleftrightarrow> \<not> list_empty head m \<and> next_of m head = prev_of m head"

definition list_first_entry_or_null :: "'p \<Rightarrow> 'p links \<Rightarrow> 'p option" where
  "list_first_entry_or_null head m =
     (if next_of m head \<noteq> Some head then next_of m head else None)"

definition list_last_entry_or_null :: "'p \<Rightarrow> 'p links \<Rightarrow> 'p option" where
  "list_last_entry_or_null head m =
     (if prev_of m head \<noteq> Some head then prev_of m head else None)"

text \<open>\<open>__list_splice(list, prev, next)\<close>\<close>

definition list_splice_between ::
  "'p \<Rightarrow> 'p option \<Rightarrow> 'p option \<Rightarrow> 'p links \<Rightarrow> 'p links result" where
  "list_splice_between l prev next m =
     rbind (rget Null_dereference (next_of m l)) (\<lambda>first.
     rbind (rget Null_dereference (prev_of m l)) (\<lambda>last.
     let m = set_prev first prev m in
     rbind (rget Null_dereference prev) (\<lambda>p.
     let m = set_next p (Some first) m;
         m = set_next last next m in
     rbind (rget Null_dereference next) (\<lambda>n. Inr (set_prev n (Some last) m)))))"

definition list_splice :: "'p \<Rightarrow> 'p \<Rightarrow> 'p links \<Rightarrow> 'p links result" where
  "list_splice l head m =
     (if \<not> list_empty l m then list_splice_between l (Some head) (next_of m head) m
      else Inr m)"

definition list_splice_tail :: "'p \<Rightarrow> 'p \<Rightarrow> 'p links \<Rightarrow> 'p links result" where
  "list_splice_tail l head m =
     (if \<not> list_empty l m then list_splice_between l (prev_of m head) (Some head) m
      else Inr m)"

definition list_splice_init :: "'p \<Rightarrow> 'p \<Rightarrow> 'p links \<Rightarrow> 'p links result" where
  "list_splice_init l head m =
     (if \<not> list_empty l m
      then rbind (list_splice_between l (Some head) (next_of m head) m)
             (\<lambda>m. Inr (INIT_LIST_HEAD l m))
      else Inr m)"

definition list_splice_tail_init :: "'p \<Rightarrow> 'p \<Rightarrow> 'p links \<Rightarrow> 'p links result" where
  "list_splice_tail_init l head m =
     (if \<not> list_empty l m
      then rbind (list_splice_between l (prev_of m head) (Some head) m)
             (\<lambda>m. Inr (INIT_LIST_HEAD l m))
      else Inr m)"

section \<open>Which list an anchor represents\<close>

text \<open>\<open>chain m a xs b\<close>: following \<open>next\<close> from \<open>a\<close> visits exactly \<open>xs\<close> and arrives at
  \<open>b\<close>, and every \<open>prev\<close> points back.\<close>

fun chain :: "'p links \<Rightarrow> 'p \<Rightarrow> 'p list \<Rightarrow> 'p \<Rightarrow> bool" where
  "chain m a [] b \<longleftrightarrow> next_of m a = Some b \<and> prev_of m b = Some a"
| "chain m a (x # xs) b \<longleftrightarrow> next_of m a = Some x \<and> prev_of m x = Some a \<and> chain m x xs b"

definition ring :: "'p \<Rightarrow> 'p links \<Rightarrow> 'p list \<Rightarrow> bool" where
  "ring l m xs \<longleftrightarrow> distinct (l # xs) \<and> chain m l xs l"

lemma chain_append: "chain m a (xs @ y # ys) b \<longleftrightarrow> chain m a xs y \<and> chain m y ys b"
  by (induction xs arbitrary: a) auto

lemma chain_cong:
  assumes "\<And>x. x \<in> set (a # xs) \<Longrightarrow> next_of m' x = next_of m x"
    and "\<And>x. x \<in> set (xs @ [b]) \<Longrightarrow> prev_of m' x = prev_of m x"
  shows "chain m' a xs b = chain m a xs b"
  using assms by (induction xs arbitrary: a) auto

lemma chain_prev_end: "chain m a xs b \<Longrightarrow> prev_of m b = Some (last (a # xs))"
  by (induction xs arbitrary: a) auto

lemma chain_next_start: "chain m a xs b \<Longrightarrow> next_of m a = Some (hd (xs @ [b]))"
  by (cases xs) auto

lemma chain_snoc: "chain m a (xs @ [y]) b \<longleftrightarrow>
    chain m a xs y \<and> next_of m y = Some b \<and> prev_of m b = Some y"
  by (simp add: chain_append)

text \<open>A chain whose last arc is redirected to another entry.\<close>

lemma chain_relink:
  assumes "chain m a xs b" and "distinct (a # xs)" and "c \<notin> set xs"
    and "next_of m' (last (a # xs)) = Some c" and "prev_of m' c = Some (last (a # xs))"
    and "\<And>y. y \<in> set (a # xs) \<Longrightarrow> y \<noteq> last (a # xs) \<Longrightarrow> next_of m' y = next_of m y"
    and "\<And>y. y \<in> set xs \<Longrightarrow> prev_of m' y = prev_of m y"
  shows "chain m' a xs c"
  using assms
proof (induction xs arbitrary: a)
  case Nil
  then show ?case by simp
next
  case (Cons x xs)
  have "last (x # xs) \<in> set (x # xs)" by (rule last_in_set) simp
  then have a: "a \<noteq> last (a # x # xs)" using Cons.prems(2) by auto
  have "chain m' x xs c"
    by (rule Cons.IH) (use Cons.prems in auto)
  moreover have "next_of m' a = Some x"
    using Cons.prems(1) Cons.prems(6) [of a] a by simp
  moreover have "prev_of m' x = Some a"
    using Cons.prems(1) Cons.prems(7) [of x] by simp
  ultimately show ?case by simp
qed

lemma last_Cons_in: "last (a # xs) \<in> set (a # xs)"
  by (rule last_in_set) simp

lemma hd_snoc_in: "hd (xs @ [b]) \<in> set (xs @ [b])"
  by (rule hd_in_set) simp

lemma ring_split_prev: "ring l m (xs @ ys) \<Longrightarrow> prev_of m (hd (ys @ [l])) = Some (last (l # xs))"
  by (cases ys) (auto simp: ring_def chain_append dest: chain_prev_end)

lemma ring_split_next: "ring l m (xs @ ys) \<Longrightarrow> next_of m (last (l # xs)) = Some (hd (ys @ [l]))"
proof (cases xs rule: rev_cases)
  case Nil
  then show "ring l m (xs @ ys) \<Longrightarrow> ?thesis" by (auto simp: ring_def dest: chain_next_start)
next
  case (snoc us u)
  then show "ring l m (xs @ ys) \<Longrightarrow> ?thesis"
    by (auto simp: ring_def chain_append dest: chain_next_start)
qed

lemma ring_member_links:
  assumes "ring l m (xs @ x # ys)"
  shows "prev_of m x = Some (last (l # xs))" and "next_of m x = Some (hd (ys @ [l]))"
proof -
  show "prev_of m x = Some (last (l # xs))"
    using ring_split_prev [of l m xs "x # ys"] assms by simp
  show "next_of m x = Some (hd (ys @ [l]))"
    using ring_split_next [of l m "xs @ [x]" ys] assms by simp
qed

text \<open>Linking a new entry between the two parts of a ring.\<close>

lemma ring_link:
  assumes r: "ring l m (xs @ ys)" and new: "new \<notin> set (l # xs @ ys)"
    and nx: "next_of m' = (next_of m)(last (l # xs) := Some new, new := Some (hd (ys @ [l])))"
    and pv: "prev_of m' = (prev_of m)(new := Some (last (l # xs)), hd (ys @ [l]) := Some new)"
  shows "ring l m' (xs @ new # ys)"
proof -
  let ?p = "last (l # xs)" and ?e = "hd (ys @ [l])"
  have p: "?p \<in> set (l # xs)" by (rule last_Cons_in)
  have e: "?e \<in> set (ys @ [l])" by (rule hd_snoc_in)
  have d: "distinct (l # xs @ ys)" using r by (simp add: ring_def)
  have ne: "new \<noteq> ?p" "new \<noteq> ?e" using new p e by auto
  have exs: "?e \<notin> set xs" using d e by auto
  have c1: "chain m l xs ?e" and c2: "ys \<noteq> [] \<Longrightarrow> chain m ?e (tl ys) l"
    using r by (cases ys; auto simp: ring_def chain_append)+
  have "chain m' l xs new"
  proof (rule chain_relink [OF c1])
    show "prev_of m' y = prev_of m y" if "y \<in> set xs" for y
      using that new exs by (auto simp: pv)
    show "next_of m' y = next_of m y" if "y \<in> set (l # xs)" "y \<noteq> ?p" for y
      using that new by (auto simp: nx)
  qed (use d new ne in \<open>auto simp: nx pv\<close>)
  moreover have "chain m' new ys l"
  proof (cases ys)
    case Nil
    then show ?thesis using ne by (simp add: nx pv)
  next
    case (Cons y zs)
    have "chain m' y zs l = chain m y zs l"
    proof (rule chain_cong)
      show "next_of m' x = next_of m x" if "x \<in> set (y # zs)" for x
        using that p d new Cons by (auto simp: nx)
      show "prev_of m' x = prev_of m x" if "x \<in> set (zs @ [l])" for x
        using that d new Cons by (auto simp: pv)
    qed
    then show ?thesis using c2 Cons ne by (simp add: nx pv)
  qed
  ultimately show ?thesis
    using d new by (auto simp: ring_def chain_append)
qed

text \<open>Taking a member out of a ring; what the member's own pointers become is free.\<close>

lemma ring_unlink:
  assumes r: "ring l m (xs @ x # ys)"
    and nx: "\<And>y. y \<noteq> x \<Longrightarrow>
      next_of m' y = ((next_of m)(last (l # xs) := Some (hd (ys @ [l])))) y"
    and pv: "\<And>y. y \<noteq> x \<Longrightarrow>
      prev_of m' y = ((prev_of m)(hd (ys @ [l]) := Some (last (l # xs)))) y"
  shows "ring l m' (xs @ ys)"
proof -
  let ?p = "last (l # xs)" and ?e = "hd (ys @ [l])"
  have p: "?p \<in> set (l # xs)" by (rule last_Cons_in)
  have e: "?e \<in> set (ys @ [l])" by (rule hd_snoc_in)
  have d: "distinct (l # xs @ x # ys)" using r by (simp add: ring_def)
  have px: "?p \<noteq> x" and ex: "?e \<noteq> x" using p e d by auto
  have exs: "?e \<notin> set xs" using d e by auto
  have c1: "chain m l xs x" and c2: "chain m x ys l"
    using r by (simp_all add: ring_def chain_append)
  have 1: "chain m' l xs ?e"
  proof (rule chain_relink [OF c1])
    show "prev_of m' y = prev_of m y" if "y \<in> set xs" for y
    proof -
      have "y \<noteq> ?e" and "y \<noteq> x" using that exs d by auto
      then show ?thesis using pv [of y] by simp
    qed
    show "next_of m' y = next_of m y" if "y \<in> set (l # xs)" "y \<noteq> ?p" for y
      using that d nx [of y] by auto
  qed (use d exs px ex nx [of ?p] pv [of ?e] in auto)
  show ?thesis
  proof (cases ys)
    case Nil
    then show ?thesis using 1 d by (simp add: ring_def)
  next
    case (Cons y zs)
    have "chain m' y zs l = chain m y zs l"
    proof (rule chain_cong)
      show "next_of m' z = next_of m z" if "z \<in> set (y # zs)" for z
      proof -
        have "z \<noteq> ?p" and "z \<noteq> x" using that p d Cons by auto
        then show ?thesis using nx [of z] by simp
      qed
      show "prev_of m' z = prev_of m z" if "z \<in> set (zs @ [l])" for z
      proof -
        have "z \<noteq> ?e" and "z \<noteq> x" using that d Cons by auto
        then show ?thesis using pv [of z] by simp
      qed
    qed
    then show ?thesis using 1 c2 Cons d by (auto simp: ring_def chain_append)
  qed
qed

section \<open>Every operation represents its list operation\<close>

text \<open>The two frames of an operation: entries outside the ring keep their pointers.\<close>

definition same_outside :: "'p set \<Rightarrow> 'p links \<Rightarrow> 'p links \<Rightarrow> bool" where
  "same_outside S m m' \<longleftrightarrow> (\<forall>p. p \<notin> S \<longrightarrow> next_of m' p = next_of m p \<and> prev_of m' p = prev_of m p)"

lemma ring_same_outside:
  assumes "ring l m xs" and "same_outside S m m'" and "set (l # xs) \<inter> S = {}"
  shows "ring l m' xs"
proof -
  have "chain m' l xs l = chain m l xs l"
    by (rule chain_cong) (use assms in \<open>auto simp: same_outside_def\<close>)
  then show ?thesis using assms(1) by (simp add: ring_def)
qed

lemma ring_init: "ring l (usfstl_list_init l m) []"
  by (simp add: ring_def usfstl_list_init_def)

lemma ring_INIT_LIST_HEAD: "ring l (INIT_LIST_HEAD l m) []"
  by (simp add: ring_def INIT_LIST_HEAD_def)

lemma usfstl_insert_ring:
  assumes "ring l m (xs @ ys)" and "new \<notin> set (l # xs @ ys)"
  shows "\<exists>m'. usfstl_list_insert_before (hd (ys @ [l])) new m = Inr m' \<and>
    ring l m' (xs @ new # ys) \<and> same_outside (insert new (set (l # xs @ ys))) m m'"
proof -
  let ?p = "last (l # xs)" and ?e = "hd (ys @ [l])"
  have p: "?p \<in> set (l # xs)" by (rule last_Cons_in)
  have e: "?e \<in> set (ys @ [l])" by (rule hd_snoc_in)
  have ne: "new \<noteq> ?p" "new \<noteq> ?e" using assms(2) p e by auto
  define m' where "m' = m\<lparr>next_of := (next_of m)(?p := Some new, new := Some ?e), prev_of := (prev_of m)(new := Some ?p, ?e := Some new)\<rparr>"
  then have nx: "next_of m' = (next_of m)(?p := Some new, new := Some ?e)"
    and pv: "prev_of m' = (prev_of m)(new := Some ?p, ?e := Some new)"
    by simp_all
  have m': "usfstl_list_insert_before ?e new m = Inr m'"
    using ring_split_prev [OF assms(1)] ne
    by (simp add: usfstl_list_insert_before_def m'_def set_next_def set_prev_def)
  have "ring l m' (xs @ new # ys)"
    by (rule ring_link [OF assms nx pv])
  moreover have "same_outside (insert new (set (l # xs @ ys))) m m'"
    using p e nx pv by (auto simp: same_outside_def)
  ultimately show ?thesis using m' by blast
qed

lemma list_add_between_ring:
  assumes "ring l m (xs @ ys)" and "new \<notin> set (l # xs @ ys)"
  shows "\<exists>m'. list_add_between new (Some (last (l # xs))) (Some (hd (ys @ [l]))) m = Inr m' \<and>
    ring l m' (xs @ new # ys) \<and> same_outside (insert new (set (l # xs @ ys))) m m'"
proof -
  let ?p = "last (l # xs)" and ?e = "hd (ys @ [l])"
  have p: "?p \<in> set (l # xs)" by (rule last_Cons_in)
  have e: "?e \<in> set (ys @ [l])" by (rule hd_snoc_in)
  have ne: "new \<noteq> ?p" "new \<noteq> ?e" using assms(2) p e by auto
  define m' where "m' = m\<lparr>next_of := (next_of m)(?p := Some new, new := Some ?e), prev_of := (prev_of m)(new := Some ?p, ?e := Some new)\<rparr>"
  then have nx: "next_of m' = (next_of m)(?p := Some new, new := Some ?e)"
    and pv: "prev_of m' = (prev_of m)(new := Some ?p, ?e := Some new)"
    by simp_all
  have m': "list_add_between new (Some ?p) (Some ?e) m = Inr m'"
    using ne
    by (simp add: list_add_between_def fun_upd_twist m'_def set_next_def set_prev_def)
  have "ring l m' (xs @ new # ys)"
    by (rule ring_link [OF assms nx pv])
  moreover have "same_outside (insert new (set (l # xs @ ys))) m m'"
    using p e nx pv by (auto simp: same_outside_def)
  ultimately show ?thesis using m' by blast
qed

lemma usfstl_remove_ring:
  assumes r: "ring l m (xs @ x # ys)"
  shows "\<exists>m'. usfstl_list_item_remove x m = Inr m' \<and> ring l m' (xs @ ys) \<and>
    next_of m' x = None \<and> prev_of m' x = None \<and>
    same_outside (set (l # xs @ x # ys)) m m'"
proof -
  let ?p = "last (l # xs)" and ?e = "hd (ys @ [l])"
  have p: "?p \<in> set (l # xs)" by (rule last_Cons_in)
  have e: "?e \<in> set (ys @ [l])" by (rule hd_snoc_in)
  have d: "distinct (l # xs @ x # ys)" using r by (simp add: ring_def)
  have ne: "?p \<noteq> x" "?e \<noteq> x" using p e d by auto
  define m' where "m' = m\<lparr>next_of := (next_of m)(?p := Some ?e, x := None), prev_of := (prev_of m)(?e := Some ?p, x := None)\<rparr>"
  then have nx: "next_of m' = (next_of m)(?p := Some ?e, x := None)"
    and pv: "prev_of m' = (prev_of m)(?e := Some ?p, x := None)"
    by simp_all
  have m': "usfstl_list_item_remove x m = Inr m'"
    using ring_member_links [OF r] ne
    by (simp add: usfstl_list_item_remove_def m'_def set_next_def set_prev_def)
  have "ring l m' (xs @ ys)"
    by (rule ring_unlink [OF r]) (simp_all add: nx pv)
  moreover have "same_outside (set (l # xs @ x # ys)) m m'"
    using p e nx pv by (auto simp: same_outside_def)
  ultimately show ?thesis using m' nx pv by auto
qed

lemma list_del_entry_ring:
  assumes r: "ring l m (xs @ x # ys)"
  shows "\<exists>m'. list_del_entry x m = Inr m' \<and> ring l m' (xs @ ys) \<and>
    same_outside (set (l # xs @ x # ys)) m m'"
proof -
  let ?p = "last (l # xs)" and ?e = "hd (ys @ [l])"
  have p: "?p \<in> set (l # xs)" by (rule last_Cons_in)
  have e: "?e \<in> set (ys @ [l])" by (rule hd_snoc_in)
  define m' where "m' = m\<lparr>next_of := (next_of m)(?p := Some ?e), prev_of := (prev_of m)(?e := Some ?p)\<rparr>"
  then have nx: "next_of m' = (next_of m)(?p := Some ?e)"
    and pv: "prev_of m' = (prev_of m)(?e := Some ?p)"
    by simp_all
  have m': "list_del_entry x m = Inr m'"
    using ring_member_links [OF r]
    by (simp add: list_del_entry_def list_del_between_def m'_def set_next_def set_prev_def)
  have "ring l m' (xs @ ys)"
    by (rule ring_unlink [OF r]) (simp_all add: nx pv)
  moreover have "same_outside (set (l # xs @ x # ys)) m m'"
    using p e nx pv by (auto simp: same_outside_def)
  ultimately show ?thesis using m' by blast
qed

lemma ring_set_outside:
  assumes "ring l m xs" and "x \<notin> set (l # xs)"
  shows "ring l (set_prev x q (set_next x p m)) xs"
  by (rule ring_same_outside [OF assms(1), of "{x}"]) (use assms(2) in \<open>auto simp: same_outside_def\<close>)

lemma list_del_ring:
  assumes r: "ring l m (xs @ x # ys)"
  shows "\<exists>m'. list_del x m = Inr m' \<and> ring l m' (xs @ ys) \<and>
    next_of m' x = None \<and> same_outside (set (l # xs @ x # ys)) m m'"
proof -
  obtain m1 where m1: "list_del_entry x m = Inr m1" "ring l m1 (xs @ ys)"
    "same_outside (set (l # xs @ x # ys)) m m1"
    using list_del_entry_ring [OF r] by blast
  have "x \<notin> set (l # xs @ ys)" using r by (auto simp: ring_def)
  then show ?thesis
    using m1 ring_set_outside [OF m1(2), of x None None]
    by (auto simp: list_del_def same_outside_def)
qed

lemma list_del_init_ring:
  assumes r: "ring l m (xs @ x # ys)"
  shows "\<exists>m'. list_del_init x m = Inr m' \<and> ring l m' (xs @ ys) \<and> ring x m' [] \<and>
    same_outside (set (l # xs @ x # ys)) m m'"
proof -
  obtain m1 where m1: "list_del_entry x m = Inr m1" "ring l m1 (xs @ ys)"
    "same_outside (set (l # xs @ x # ys)) m m1"
    using list_del_entry_ring [OF r] by blast
  have "x \<notin> set (l # xs @ ys)" using r by (auto simp: ring_def)
  then show ?thesis
    using m1 ring_set_outside [OF m1(2), of x "Some x" "Some x"]
    by (auto simp: list_del_init_def same_outside_def INIT_LIST_HEAD_def ring_INIT_LIST_HEAD
        ring_def)
qed

text \<open>Splicing one ring into another.\<close>

lemma list_splice_between_ring:
  assumes r1: "ring l m xs" and ne: "xs \<noteq> []" and r2: "ring h m (as @ bs)"
    and disj: "set (l # xs) \<inter> set (h # as @ bs) = {}"
  shows "\<exists>m'. list_splice_between l (Some (last (h # as))) (Some (hd (bs @ [h]))) m = Inr m' \<and>
    ring h m' (as @ xs @ bs)"
proof -
  let ?p = "last (h # as)" and ?e = "hd (bs @ [h])"
  have p: "?p \<in> set (h # as)" by (rule last_Cons_in)
  have e: "?e \<in> set (bs @ [h])" by (rule hd_snoc_in)
  have d1: "distinct (l # xs)" and d2: "distinct (h # as @ bs)"
    using r1 r2 by (simp_all add: ring_def)
  have d: "distinct (h # as @ xs @ bs)" using d1 d2 disj by auto
  obtain f us where f: "xs = f # us" using ne by (cases xs) auto
  let ?t = "last (f # us)"
  have t: "?t \<in> set (f # us)" by (rule last_Cons_in)
  have c: "chain m l (f # us) l" using r1 f by (simp add: ring_def)
  have fl: "next_of m l = Some f" and tl: "prev_of m l = Some ?t"
    using c chain_prev_end [OF c] by auto
  have ex: "?e \<notin> set as" "?e \<notin> set xs" using e d disj by auto
  have px: "?p \<notin> set xs" using p d disj by auto
  define m' where "m' = m\<lparr>next_of := (next_of m)(?p := Some f, ?t := Some ?e), prev_of := (prev_of m)(f := Some ?p, ?e := Some ?t)\<rparr>"
  then have nx: "next_of m' = (next_of m)(?p := Some f, ?t := Some ?e)"
    and pv: "prev_of m' = (prev_of m)(f := Some ?p, ?e := Some ?t)"
    by simp_all
  have m': "list_splice_between l (Some ?p) (Some ?e) m = Inr m'"
    using fl tl
    by (simp add: list_splice_between_def m'_def set_next_def set_prev_def)
  have ca: "chain m h as ?e" and cb: "bs \<noteq> [] \<Longrightarrow> chain m ?e (tl bs) h"
    using r2 by (cases bs; auto simp: ring_def chain_append)+
  have pt: "?p \<noteq> ?t" using px t f by auto
  have fe: "f \<noteq> ?e" using ex f by auto
  have 1: "chain m' h as f"
  proof (rule chain_relink [OF ca])
    show "next_of m' y = next_of m y" if "y \<in> set (h # as)" "y \<noteq> ?p" for y
      using that t d f by (auto simp: nx)
    show "prev_of m' y = prev_of m y" if "y \<in> set as" for y
      using that ex d f by (auto simp: pv)
  qed (use d f pt fe in \<open>auto simp: nx pv\<close>)
  have cu: "chain m f us l" using c by simp
  have 2: "chain m' f us ?e"
  proof (rule chain_relink [OF cu])
    show "next_of m' y = next_of m y" if "y \<in> set (f # us)" "y \<noteq> ?t" for y
      using that px f by (auto simp: nx)
    show "prev_of m' y = prev_of m y" if "y \<in> set us" for y
      using that ex d1 f by (auto simp: pv)
  qed (use d1 f ex in \<open>auto simp: nx pv\<close>)
  show ?thesis
  proof (cases bs)
    case Nil
    then show ?thesis using m' 1 2 d f by (auto simp: ring_def chain_append)
  next
    case (Cons y zs)
    have "chain m' y zs h = chain m y zs h"
    proof (rule chain_cong)
      show "next_of m' z = next_of m z" if "z \<in> set (y # zs)" for z
        using that p t d f Cons by (auto simp: nx)
      show "prev_of m' z = prev_of m z" if "z \<in> set (zs @ [h])" for z
        using that d f Cons by (auto simp: pv)
    qed
    then show ?thesis using m' 1 2 cb Cons d f by (auto simp: ring_def chain_append)
  qed
qed

section \<open>The contract of both lists\<close>

text \<open>
  What users of a list rely on: \<open>repr m xs\<close> says that the anchor in memory \<open>m\<close> holds the
  items \<open>xs\<close>; \<open>usable x\<close> that \<open>x\<close> is not the anchor itself.
\<close>

locale linked_list =
  fixes repr :: "'m \<Rightarrow> 'a list \<Rightarrow> bool"
    and usable :: "'a \<Rightarrow> bool"
    and first :: "'m \<Rightarrow> 'a option"
    and next_item :: "'a \<Rightarrow> 'm \<Rightarrow> 'a option"
    and append :: "'a \<Rightarrow> 'm \<Rightarrow> 'm result"
    and insert_before :: "'a \<Rightarrow> 'a \<Rightarrow> 'm \<Rightarrow> 'm result"
    and remove :: "'a \<Rightarrow> 'm \<Rightarrow> 'm result"
  assumes repr_distinct: "repr m xs \<Longrightarrow> distinct xs"
    and first_repr: "repr m xs \<Longrightarrow> first m = (case xs of [] \<Rightarrow> None | x # _ \<Rightarrow> Some x)"
    and next_repr: "repr m (xs @ x # ys) \<Longrightarrow>
      next_item x m = (case ys of [] \<Rightarrow> None | y # _ \<Rightarrow> Some y)"
    and append_repr: "repr m xs \<Longrightarrow> usable x \<Longrightarrow> x \<notin> set xs \<Longrightarrow>
      \<exists>m'. append x m = Inr m' \<and> repr m' (xs @ [x])"
    and insert_repr: "repr m (xs @ y # ys) \<Longrightarrow> usable x \<Longrightarrow> x \<notin> set (xs @ y # ys) \<Longrightarrow>
      \<exists>m'. insert_before y x m = Inr m' \<and> repr m' (xs @ x # y # ys)"
    and remove_repr: "repr m (xs @ x # ys) \<Longrightarrow>
      \<exists>m'. remove x m = Inr m' \<and> repr m' (xs @ ys)"
begin

lemma remove1_repr:
  assumes "repr m xs" and "x \<in> set xs"
  shows "\<exists>m'. remove x m = Inr m' \<and> repr m' (remove1 x xs)"
proof -
  obtain us vs where xs: "xs = us @ x # vs" and "x \<notin> set us"
    using split_list_first [OF assms(2)] by blast
  then show ?thesis using remove_repr [of m us x vs] assms(1) by (simp add: remove1_append)
qed

lemma scan_suffix:
  assumes "repr m (us @ xs)" and "length xs \<le> fuel"
  shows "list_scan next_item fuel P (case xs of [] \<Rightarrow> None | x # _ \<Rightarrow> Some x) m =
    Inr (find P xs)"
  using assms
proof (induction xs arbitrary: us fuel)
  case Nil
  then show ?case by simp
next
  case (Cons x xs)
  obtain k where k: "fuel = Suc k" "length xs \<le> k" using Cons.prems(2) by (cases fuel) auto
  have "next_item x m = (case xs of [] \<Rightarrow> None | y # _ \<Rightarrow> Some y)"
    using next_repr Cons.prems(1) by blast
  moreover have "repr m ((us @ [x]) @ xs)" using Cons.prems(1) by simp
  ultimately show ?case using Cons.IH [of "us @ [x]" k] k by simp
qed

lemma scan_find:
  "repr m xs \<Longrightarrow> length xs \<le> fuel \<Longrightarrow> list_scan next_item fuel P (first m) m = Inr (find P xs)"
  using scan_suffix [of m "[]" xs fuel P] by (simp add: first_repr)

text \<open>The insertion loop puts the new item before the first one with the property.\<close>

lemma insert_at_repr:
  assumes r: "repr m xs" and "length xs \<le> fuel" and new: "usable x" "x \<notin> set xs"
  shows "\<exists>m'. list_insert_at first next_item append insert_before fuel P x m = Inr m' \<and>
    repr m' (insert_first P x xs)"
proof (cases "find P xs")
  case None
  then have "insert_first P x xs = xs @ [x]"
    by (induction xs) (auto simp: insert_first_Cons split: if_splits)
  then show ?thesis
    using append_repr [OF r new] scan_find [OF r assms(2), of P] None
    by (simp add: list_insert_at_def)
next
  case (Some y)
  have xs: "xs = takeWhile (\<lambda>z. \<not> P z) xs @ y # tl (dropWhile (\<lambda>z. \<not> P z) xs)"
    using Some by (induction xs) (auto split: if_splits)
  then have "dropWhile (\<lambda>z. \<not> P z) xs = y # tl (dropWhile (\<lambda>z. \<not> P z) xs)"
    by (metis append_same_eq same_append_eq takeWhile_dropWhile_id)
  then show ?thesis
    using insert_repr [of m "takeWhile (\<lambda>z. \<not> P z) xs" y "tl (dropWhile (\<lambda>z. \<not> P z) xs)" x]
      r new xs scan_find [OF r assms(2), of P] Some
    by (simp add: list_insert_at_def insert_first_def)
qed

text \<open>Emptying the list visits every item once, in order, and leaves it empty.\<close>

lemma drain_repr:
  assumes "repr m xs" and "length xs \<le> fuel"
  shows "\<exists>m'. list_drain first remove fuel m = Inr (xs, m') \<and> repr m' []"
  using assms
proof (induction xs arbitrary: m fuel)
  case Nil
  then show ?case by (cases fuel) (auto simp: first_repr)
next
  case (Cons x xs)
  obtain k where k: "fuel = Suc k" "length xs \<le> k" using Cons.prems(2) by (cases fuel) auto
  obtain m1 where m1: "remove x m = Inr m1" "repr m1 xs"
    using remove_repr [of m "[]" x xs] Cons.prems(1) by auto
  obtain m' where "list_drain first remove k m1 = Inr (xs, m')" "repr m' []"
    using Cons.IH [OF m1(2) k(2)] by blast
  then show ?case using m1 k first_repr [OF Cons.prems(1)] by simp
qed

end

lemma ring_first:
  assumes "ring l m xs"
  shows "(if next_of m l = Some l then None else next_of m l) =
    (case xs of [] \<Rightarrow> None | x # _ \<Rightarrow> Some x)"
  using assms by (cases xs) (auto simp: ring_def)

lemma ring_next:
  assumes "ring l m (xs @ x # ys)"
  shows "(if next_of m x \<noteq> Some l then next_of m x else None) =
    (case ys of [] \<Rightarrow> None | y # _ \<Rightarrow> Some y)"
  using assms by (cases ys) (auto simp: ring_def chain_append)

interpretation usfstl_list: linked_list "ring l" "\<lambda>x. x \<noteq> l" "usfstl_list_first_item l"
  "usfstl_next_item l" "usfstl_list_append l" usfstl_list_insert_before usfstl_list_item_remove
  for l :: 'p
proof (unfold_locales, goal_cases)
  case (1 m xs)
  then show ?case by (simp add: ring_def)
next
  case (2 m xs)
  then show ?case
    using ring_first [of l m xs]
    by (auto simp: usfstl_list_first_item_def usfstl_list_empty_def split: if_splits)
next
  case (3 m xs x ys)
  then show ?case using ring_next [of l m xs x ys] by (simp add: usfstl_next_item_def)
next
  case (4 m xs x)
  then show ?case
    using usfstl_insert_ring [of l m xs "[]" x] by (auto simp: usfstl_list_append_def)
next
  case (5 m xs y ys x)
  then show ?case using usfstl_insert_ring [of l m xs "y # ys" x] by auto
next
  case (6 m xs x ys)
  then show ?case using usfstl_remove_ring [of l m xs x ys] by blast
qed

text \<open>In the kernel list, \<open>list_add_tail(new, pos)\<close> inserts before any entry \<open>pos\<close>.\<close>

lemma list_add_tail_ring:
  assumes "ring l m (xs @ ys)" and "new \<notin> set (l # xs @ ys)"
  shows "\<exists>m'. list_add_tail new (hd (ys @ [l])) m = Inr m' \<and>
    ring l m' (xs @ new # ys) \<and> same_outside (insert new (set (l # xs @ ys))) m m'"
  using list_add_between_ring [OF assms] ring_split_prev [OF assms(1)]
  by (simp add: list_add_tail_def)

lemma list_add_ring:
  assumes "ring l m xs" and "new \<notin> set (l # xs)"
  shows "\<exists>m'. list_add new l m = Inr m' \<and> ring l m' (new # xs) \<and>
    same_outside (insert new (set (l # xs))) m m'"
  using list_add_between_ring [of l m "[]" xs new] ring_split_next [of l m "[]" xs] assms
  by (simp add: list_add_def)

definition list_next_or_null :: "'p \<Rightarrow> 'p \<Rightarrow> 'p links \<Rightarrow> 'p option" where
  "list_next_or_null head pos m = (if next_of m pos \<noteq> Some head then next_of m pos else None)"

interpretation kernel_list: linked_list "ring h" "\<lambda>x. x \<noteq> h" "list_first_entry_or_null h"
  "list_next_or_null h" "\<lambda>x. list_add_tail x h" "\<lambda>pos x. list_add_tail x pos" list_del
  for h :: 'p
proof (unfold_locales, goal_cases)
  case (1 m xs)
  then show ?case by (simp add: ring_def)
next
  case (2 m xs)
  then show ?case
    using ring_first [of h m xs]
    by (auto simp: list_first_entry_or_null_def split: if_splits)
next
  case (3 m xs x ys)
  then show ?case using ring_next [of h m xs x ys] by (simp add: list_next_or_null_def)
next
  case (4 m xs x)
  then show ?case using list_add_tail_ring [of h m xs "[]" x] by auto
next
  case (5 m xs y ys x)
  then show ?case using list_add_tail_ring [of h m xs "y # ys" x] by auto
next
  case (6 m xs x ys)
  then show ?case using list_del_ring [of h m xs x ys] by blast
qed

section \<open>Derived operations of the kernel list\<close>

lemma list_empty_ring: "ring h m xs \<Longrightarrow> list_empty h m \<longleftrightarrow> xs = []"
  by (cases xs) (auto simp: ring_def list_empty_def)

lemma usfstl_list_empty_ring: "ring l m xs \<Longrightarrow> usfstl_list_empty l m \<longleftrightarrow> xs = []"
  by (cases xs) (auto simp: ring_def usfstl_list_empty_def)

lemma list_last_entry_ring:
  "ring h m xs \<Longrightarrow> list_last_entry_or_null h m = (if xs = [] then None else Some (last xs))"
  by (cases xs rule: rev_cases)
    (auto simp: ring_def list_last_entry_or_null_def chain_snoc dest: chain_prev_end)

lemma list_move_tail_ring:
  assumes "ring h m (xs @ x # ys)"
  shows "\<exists>m'. list_move_tail x h m = Inr m' \<and> ring h m' (xs @ ys @ [x])"
proof -
  obtain m1 where m1: "list_del_entry x m = Inr m1" "ring h m1 (xs @ ys)"
    using list_del_entry_ring [OF assms] by blast
  have "x \<notin> set (h # xs @ ys)" using assms by (auto simp: ring_def)
  then show ?thesis
    using list_add_tail_ring [of h m1 "xs @ ys" "[]" x] m1 by (auto simp: list_move_tail_def)
qed

lemma list_move_ring:
  assumes "ring h m (xs @ x # ys)"
  shows "\<exists>m'. list_move x h m = Inr m' \<and> ring h m' (x # xs @ ys)"
proof -
  obtain m1 where m1: "list_del_entry x m = Inr m1" "ring h m1 (xs @ ys)"
    using list_del_entry_ring [OF assms] by blast
  have "x \<notin> set (h # xs @ ys)" using assms by (auto simp: ring_def)
  then show ?thesis
    using list_add_ring [of h m1 "xs @ ys" x] m1 by (auto simp: list_move_def)
qed

text \<open>Library: rotating the kernel list to the left (\<open>list_rotate_left\<close>) moves its first
  entry to the end and is the identity on an empty list; it never follows a bad pointer.\<close>

theorem list_rotate_left_rotate1:
  assumes "ring h m xs"
  shows "\<exists>m'. list_rotate_left h m = Inr m' \<and> ring h m' (rotate1 xs)"
proof (cases xs)
  case Nil
  then show ?thesis using assms list_empty_ring [OF assms] by (auto simp: list_rotate_left_def)
next
  case (Cons x ys)
  then show ?thesis
    using list_move_tail_ring [of h m "[]" x ys] assms list_empty_ring [OF assms]
    by (simp add: list_rotate_left_def ring_def)
qed

text \<open>Library: \<open>list_splice_init\<close> and \<open>list_splice_tail_init\<close> move all entries of one
  list, in order, to the front or to the end of another one, and leave the first list
  empty, on the level of the pointers.\<close>

theorem list_splice_init_moves_all:
  assumes "ring l m xs" and "ring h m ys" and "set (l # xs) \<inter> set (h # ys) = {}"
  shows "(\<exists>m'. list_splice_init l h m = Inr m' \<and> ring h m' (xs @ ys) \<and> ring l m' []) \<and>
    (\<exists>m'. list_splice_tail_init l h m = Inr m' \<and> ring h m' (ys @ xs) \<and> ring l m' [])"
proof (cases "xs = []")
  case True
  then show ?thesis
    using assms list_empty_ring [OF assms(1)]
    by (simp add: list_splice_init_def list_splice_tail_init_def)
next
  case False
  have ne: "\<not> list_empty l m" using list_empty_ring [OF assms(1)] False by simp
  have l: "l \<notin> set (h # zs)" if "set zs = set xs \<union> set ys" for zs
    using that assms by (auto simp: ring_def)
  have fin: "ring h (INIT_LIST_HEAD l m') zs" if "ring h m' zs" "set zs = set xs \<union> set ys" for m' zs
    unfolding INIT_LIST_HEAD_def by (rule ring_set_outside [OF that(1) l [OF that(2)]])
  obtain m1 where m1: "list_splice_between l (Some h) (next_of m h) m = Inr m1"
    "ring h m1 (xs @ ys)"
    using list_splice_between_ring [of l m xs h "[]" ys] assms False
      ring_split_next [of h m "[]" ys] by auto
  obtain m2 where m2: "list_splice_between l (prev_of m h) (Some h) m = Inr m2"
    "ring h m2 (ys @ xs)"
    using list_splice_between_ring [of l m xs h ys "[]"] assms False
      ring_split_prev [of h m ys "[]"] by auto
  show ?thesis
    using m1(1) m2(1) fin [OF m1(2)] fin [OF m2(2)] ne
    by (auto simp: list_splice_init_def list_splice_tail_init_def ring_INIT_LIST_HEAD)
qed

definition ring_example :: "nat links" where
  "ring_example =
     \<lparr>next_of = (\<lambda>_. None)(0 := Some 1, 1 := Some 2, 2 := Some 0, 5 := Some 6, 6 := Some 5),
      prev_of = (\<lambda>_. None)(0 := Some 2, 2 := Some 1, 1 := Some 0, 5 := Some 6, 6 := Some 5)\<rparr>"

lemma ring_example_rings: "ring 0 ring_example [1, 2]" "ring 5 ring_example [6]"
  by (simp_all add: ring_example_def ring_def)

lemma list_rotate_left_rotate1_witness:
  "\<exists>m'. list_rotate_left 0 ring_example = Inr m' \<and> ring 0 m' (rotate1 [1, 2])"
  by (rule list_rotate_left_rotate1) (simp add: ring_example_rings del: One_nat_def)

lemma list_splice_init_moves_all_witness:
  "(\<exists>m'. list_splice_init 5 0 ring_example = Inr m' \<and> ring 0 m' ([6] @ [1, 2]) \<and> ring 5 m' []) \<and>
   (\<exists>m'. list_splice_tail_init 5 0 ring_example = Inr m' \<and> ring 0 m' ([1, 2] @ [6]) \<and>
     ring 5 m' [])"
  by (rule list_splice_init_moves_all) (simp_all add: ring_example_rings del: One_nat_def)

end
