(* ===== verification/Kernel_List.thy ===== *)
theory Kernel_List
  imports Linked_List
begin

text \<open>
  The rest of \<open>wmediumd/list.h\<close>: swapping, moving and cutting parts of a list, and the loops
  \<open>list_for_each...\<close> over it. The operations are shown to represent operations on HOL lists, like those
  of \<open>Linked_List\<close>; a loop is shown to visit the items of the list in order, and a loop that is safe
  against removal does so although its body removes them.

  An entry is the structure around a link (\<open>container_of\<close>), which has the same name here.
\<close>

section \<open>Operations\<close>

text \<open>\<open>__list_del_clearprev\<close>\<close>

definition list_del_clearprev :: "'p \<Rightarrow> 'p links \<Rightarrow> 'p links result" where
  "list_del_clearprev entry m =
     rbind (list_del_between (prev_of m entry) (next_of m entry) m) (\<lambda>m. Inr (set_prev entry None m))"



definition list_empty_careful :: "'p \<Rightarrow> 'p links \<Rightarrow> bool" where
  "list_empty_careful head m \<longleftrightarrow> next_of m head = Some head \<and> next_of m head = prev_of m head"





section \<open>Loops\<close>

definition list_first_entry :: "'p \<Rightarrow> 'p links \<Rightarrow> 'p option" where
  "list_first_entry head m = next_of m head"

definition list_last_entry :: "'p \<Rightarrow> 'p links \<Rightarrow> 'p option" where
  "list_last_entry head m = prev_of m head"

definition list_next_entry :: "'p \<Rightarrow> 'p links \<Rightarrow> 'p option" where
  "list_next_entry pos m = next_of m pos"

definition list_prev_entry :: "'p \<Rightarrow> 'p links \<Rightarrow> 'p option" where
  "list_prev_entry pos m = prev_of m pos"

text \<open>\<open>for (; pos != head; pos = step pos) body\<close> on a state \<open>'s\<close> that \<open>links\<close> reads the links of. \<open>None\<close> is
  a pointer to no entry, which the body follows. The fuel bounds the number of rounds.\<close>

fun loop_from ::
  "nat \<Rightarrow> ('p \<Rightarrow> 's \<Rightarrow> 'p option) \<Rightarrow> 'p \<Rightarrow> ('p \<Rightarrow> 's \<Rightarrow> 's result) \<Rightarrow> 'p option \<Rightarrow> 's \<Rightarrow> 's result" where
  "loop_from 0 step head body pos s = (if pos = Some head then Inr s else Inl Out_of_fuel)"
| "loop_from (Suc fuel) step head body pos s =
     (if pos = Some head then Inr s
      else rbind (rget Null_dereference pos) (\<lambda>p.
        rbind (body p s) (\<lambda>s. loop_from fuel step head body (step p s) s)))"

text \<open>\<open>for (; pos != head; pos = n, n = step n) body\<close>\<close>

fun loop_safe_from ::
  "nat \<Rightarrow> ('p \<Rightarrow> 's \<Rightarrow> 'p option) \<Rightarrow> 'p \<Rightarrow> ('p \<Rightarrow> 's \<Rightarrow> 's result) \<Rightarrow> 'p option \<Rightarrow> 'p option \<Rightarrow> 's \<Rightarrow> 's result" where
  "loop_safe_from 0 step head body pos n s = (if pos = Some head then Inr s else Inl Out_of_fuel)"
| "loop_safe_from (Suc fuel) step head body pos n s =
     (if pos = Some head then Inr s
      else rbind (rget Null_dereference pos) (\<lambda>p.
        rbind (body p s) (\<lambda>s.
        rbind (rget Null_dereference n) (\<lambda>n. loop_safe_from fuel step head body (Some n) (step n s) s))))"

definition list_for_each ::
  "('s \<Rightarrow> 'p links) \<Rightarrow> nat \<Rightarrow> 'p \<Rightarrow> ('p \<Rightarrow> 's \<Rightarrow> 's result) \<Rightarrow> 's \<Rightarrow> 's result" where
  "list_for_each links fuel head body s =
     loop_from fuel (\<lambda>p s. next_of (links s) p) head body (next_of (links s) head) s"

definition list_for_each_prev ::
  "('s \<Rightarrow> 'p links) \<Rightarrow> nat \<Rightarrow> 'p \<Rightarrow> ('p \<Rightarrow> 's \<Rightarrow> 's result) \<Rightarrow> 's \<Rightarrow> 's result" where
  "list_for_each_prev links fuel head body s =
     loop_from fuel (\<lambda>p s. prev_of (links s) p) head body (prev_of (links s) head) s"

definition list_for_each_continue ::
  "('s \<Rightarrow> 'p links) \<Rightarrow> nat \<Rightarrow> 'p \<Rightarrow> 'p \<Rightarrow> ('p \<Rightarrow> 's \<Rightarrow> 's result) \<Rightarrow> 's \<Rightarrow> 's result" where
  "list_for_each_continue links fuel pos head body s =
     loop_from fuel (\<lambda>p s. next_of (links s) p) head body (next_of (links s) pos) s"

definition list_for_each_safe ::
  "('s \<Rightarrow> 'p links) \<Rightarrow> nat \<Rightarrow> 'p \<Rightarrow> ('p \<Rightarrow> 's \<Rightarrow> 's result) \<Rightarrow> 's \<Rightarrow> 's result" where
  "list_for_each_safe links fuel head body s =
     rbind (rget Null_dereference (next_of (links s) head)) (\<lambda>pos.
     loop_safe_from fuel (\<lambda>p s. next_of (links s) p) head body (Some pos) (next_of (links s) pos) s)"

definition list_for_each_prev_safe ::
  "('s \<Rightarrow> 'p links) \<Rightarrow> nat \<Rightarrow> 'p \<Rightarrow> ('p \<Rightarrow> 's \<Rightarrow> 's result) \<Rightarrow> 's \<Rightarrow> 's result" where
  "list_for_each_prev_safe links fuel head body s =
     rbind (rget Null_dereference (prev_of (links s) head)) (\<lambda>pos.
     loop_safe_from fuel (\<lambda>p s. prev_of (links s) p) head body (Some pos) (prev_of (links s) pos) s)"

text \<open>The loops over entries.\<close>

definition list_for_each_entry ::
  "('s \<Rightarrow> 'p links) \<Rightarrow> nat \<Rightarrow> 'p \<Rightarrow> ('p \<Rightarrow> 's \<Rightarrow> 's result) \<Rightarrow> 's \<Rightarrow> 's result" where
  "list_for_each_entry links fuel head body s =
     loop_from fuel (\<lambda>p s. list_next_entry p (links s)) head body (list_first_entry head (links s)) s"

definition list_for_each_entry_reverse ::
  "('s \<Rightarrow> 'p links) \<Rightarrow> nat \<Rightarrow> 'p \<Rightarrow> ('p \<Rightarrow> 's \<Rightarrow> 's result) \<Rightarrow> 's \<Rightarrow> 's result" where
  "list_for_each_entry_reverse links fuel head body s =
     loop_from fuel (\<lambda>p s. list_prev_entry p (links s)) head body (list_last_entry head (links s)) s"

definition list_prepare_entry :: "'p option \<Rightarrow> 'p \<Rightarrow> 'p" where
  "list_prepare_entry pos head = (case pos of Some p \<Rightarrow> p | None \<Rightarrow> head)"

definition list_for_each_entry_continue ::
  "('s \<Rightarrow> 'p links) \<Rightarrow> nat \<Rightarrow> 'p \<Rightarrow> 'p \<Rightarrow> ('p \<Rightarrow> 's \<Rightarrow> 's result) \<Rightarrow> 's \<Rightarrow> 's result" where
  "list_for_each_entry_continue links fuel pos head body s =
     loop_from fuel (\<lambda>p s. list_next_entry p (links s)) head body (list_next_entry pos (links s)) s"

definition list_for_each_entry_continue_reverse ::
  "('s \<Rightarrow> 'p links) \<Rightarrow> nat \<Rightarrow> 'p \<Rightarrow> 'p \<Rightarrow> ('p \<Rightarrow> 's \<Rightarrow> 's result) \<Rightarrow> 's \<Rightarrow> 's result" where
  "list_for_each_entry_continue_reverse links fuel pos head body s =
     loop_from fuel (\<lambda>p s. list_prev_entry p (links s)) head body (list_prev_entry pos (links s)) s"

definition list_for_each_entry_from ::
  "('s \<Rightarrow> 'p links) \<Rightarrow> nat \<Rightarrow> 'p \<Rightarrow> 'p \<Rightarrow> ('p \<Rightarrow> 's \<Rightarrow> 's result) \<Rightarrow> 's \<Rightarrow> 's result" where
  "list_for_each_entry_from links fuel pos head body s =
     loop_from fuel (\<lambda>p s. list_next_entry p (links s)) head body (Some pos) s"

definition list_for_each_entry_from_reverse ::
  "('s \<Rightarrow> 'p links) \<Rightarrow> nat \<Rightarrow> 'p \<Rightarrow> 'p \<Rightarrow> ('p \<Rightarrow> 's \<Rightarrow> 's result) \<Rightarrow> 's \<Rightarrow> 's result" where
  "list_for_each_entry_from_reverse links fuel pos head body s =
     loop_from fuel (\<lambda>p s. list_prev_entry p (links s)) head body (Some pos) s"

definition list_for_each_entry_safe ::
  "('s \<Rightarrow> 'p links) \<Rightarrow> nat \<Rightarrow> 'p \<Rightarrow> ('p \<Rightarrow> 's \<Rightarrow> 's result) \<Rightarrow> 's \<Rightarrow> 's result" where
  "list_for_each_entry_safe links fuel head body s =
     rbind (rget Null_dereference (list_first_entry head (links s))) (\<lambda>pos.
     loop_safe_from fuel (\<lambda>p s. list_next_entry p (links s)) head body (Some pos) (list_next_entry pos (links s)) s)"

definition list_for_each_entry_safe_continue ::
  "('s \<Rightarrow> 'p links) \<Rightarrow> nat \<Rightarrow> 'p \<Rightarrow> 'p \<Rightarrow> ('p \<Rightarrow> 's \<Rightarrow> 's result) \<Rightarrow> 's \<Rightarrow> 's result" where
  "list_for_each_entry_safe_continue links fuel pos head body s =
     rbind (rget Null_dereference (list_next_entry pos (links s))) (\<lambda>pos.
     loop_safe_from fuel (\<lambda>p s. list_next_entry p (links s)) head body (Some pos) (list_next_entry pos (links s)) s)"

definition list_for_each_entry_safe_from ::
  "('s \<Rightarrow> 'p links) \<Rightarrow> nat \<Rightarrow> 'p \<Rightarrow> 'p \<Rightarrow> ('p \<Rightarrow> 's \<Rightarrow> 's result) \<Rightarrow> 's \<Rightarrow> 's result" where
  "list_for_each_entry_safe_from links fuel pos head body s =
     loop_safe_from fuel (\<lambda>p s. list_next_entry p (links s)) head body (Some pos) (list_next_entry pos (links s)) s"

definition list_for_each_entry_safe_reverse ::
  "('s \<Rightarrow> 'p links) \<Rightarrow> nat \<Rightarrow> 'p \<Rightarrow> ('p \<Rightarrow> 's \<Rightarrow> 's result) \<Rightarrow> 's \<Rightarrow> 's result" where
  "list_for_each_entry_safe_reverse links fuel head body s =
     rbind (rget Null_dereference (list_last_entry head (links s))) (\<lambda>pos.
     loop_safe_from fuel (\<lambda>p s. list_prev_entry p (links s)) head body (Some pos) (list_prev_entry pos (links s)) s)"

section \<open>Operations represent operations on lists\<close>

lemma list_empty_careful_ring: "ring h m xs \<Longrightarrow> list_empty_careful h m \<longleftrightarrow> xs = []"
  by (cases xs) (auto simp: ring_def list_empty_careful_def dest: chain_prev_end)

lemma list_del_clearprev_ring:
  assumes "ring l m (xs @ x # ys)"
  shows "\<exists>m'. list_del_clearprev x m = Inr m' \<and> ring l m' (xs @ ys)"
proof -
  obtain m1 where m1: "list_del_entry x m = Inr m1" "ring l m1 (xs @ ys)"
    using list_del_entry_ring [OF assms] by blast
  have "x \<notin> set (l # xs @ ys)" using assms by (auto simp: ring_def)
  then have "ring l (set_prev x None m1) (xs @ ys)"
    using ring_same_outside [OF m1(2), of "{x}" "set_prev x None m1"] by (auto simp: same_outside_def)
  then show ?thesis using m1(1) by (simp add: list_del_clearprev_def list_del_entry_def)
qed









section \<open>A loop visits every item\<close>

text \<open>What the body of a loop may do: it leaves the list as it is, or it removes the item it is called for.
  \<open>links\<close> reads the links of the state.\<close>

definition leaves_list :: "('s \<Rightarrow> 'p links) \<Rightarrow> 'p \<Rightarrow> ('p \<Rightarrow> 's \<Rightarrow> 's result) \<Rightarrow> bool" where
  "leaves_list links h body \<longleftrightarrow> (\<forall>x s t xs. ring h (links s) xs \<longrightarrow> body x s = Inr t \<longrightarrow> ring h (links t) xs)"

definition removes_current :: "('s \<Rightarrow> 'p links) \<Rightarrow> 'p \<Rightarrow> ('p \<Rightarrow> 's \<Rightarrow> 's result) \<Rightarrow> bool" where
  "removes_current links h body \<longleftrightarrow> (\<forall>x s t us vs. ring h (links s) (us @ x # vs) \<longrightarrow> body x s = Inr t \<longrightarrow>
     ring h (links t) (us @ x # vs) \<or> ring h (links t) (us @ vs))"

lemma loop_from_ring:
  assumes body: "leaves_list links h body" and r: "ring h (links s) (us @ xs)" and f: "length xs \<le> fuel"
  shows "loop_from fuel (\<lambda>p s. next_of (links s) p) h body (Some (hd (xs @ [h]))) s = rfold body xs s"
  using r f
proof (induction xs arbitrary: us s fuel)
  case Nil
  then show ?case by (cases fuel) simp_all
next
  case (Cons x xs)
  then obtain g where g: "fuel = Suc g" "length xs \<le> g" by (cases fuel) auto
  have x: "x \<noteq> h" using Cons.prems(1) by (auto simp: ring_def)
  show ?case
  proof (cases "body x s")
    case (Inr t)
    have r': "ring h (links t) ((us @ [x]) @ xs)"
      using body Cons.prems(1) Inr unfolding leaves_list_def by (metis append.assoc append_Cons append_Nil)
    then have "next_of (links t) x = Some (hd (xs @ [h]))" using ring_member_links(2) [of h "links t" us x xs] by simp
    then show ?thesis using Cons.IH [OF r' g(2)] g(1) x Inr by simp
  qed (use g(1) x in simp)
qed

lemma loop_safe_from_ring:
  assumes body: "removes_current links h body" and r: "ring h (links s) (us @ x # xs)" and f: "length xs < fuel"
  shows "loop_safe_from fuel (\<lambda>p s. next_of (links s) p) h body (Some x) (next_of (links s) x) s = rfold body (x # xs) s"
  using r f
proof (induction xs arbitrary: us s x fuel)
  case Nil
  then obtain g where g: "fuel = Suc g" by (cases fuel) auto
  have x: "x \<noteq> h" "next_of (links s) x = Some h"
    using Nil.prems(1) ring_member_links(2) [OF Nil.prems(1)] by (auto simp: ring_def)
  show ?case by (cases "body x s"; cases g) (simp_all add: g x)
next
  case (Cons y ys)
  then obtain g where g: "fuel = Suc g" "length ys < g" by (cases fuel) auto
  have x: "x \<noteq> h" "next_of (links s) x = Some y"
    using Cons.prems(1) ring_member_links(2) [OF Cons.prems(1)] by (auto simp: ring_def)
  show ?case
  proof (cases "body x s")
    case (Inr t)
    have "ring h (links t) (us @ x # y # ys) \<or> ring h (links t) (us @ y # ys)"
      using body Cons.prems(1) Inr unfolding removes_current_def by blast
    then obtain ws where r': "ring h (links t) (ws @ y # ys)" by (metis append.assoc append_Cons append_Nil)
    show ?thesis using Cons.IH [OF r' g(2)] g(1) x Inr by simp
  qed (use g(1) x in simp)
qed

text \<open>The list seen from its end.\<close>

definition flip_links :: "'p links \<Rightarrow> 'p links" where
  "flip_links m = \<lparr>next_of = prev_of m, prev_of = next_of m\<rparr>"

lemma flip_links_simps [simp]: "next_of (flip_links m) = prev_of m" "prev_of (flip_links m) = next_of m"
  by (simp_all add: flip_links_def)

lemma chain_flip: "chain (flip_links m) b (rev xs) a = chain m a xs b"
  by (induction xs arbitrary: a) (auto simp: chain_snoc)

lemma ring_flip: "ring h (flip_links m) xs = ring h m (rev xs)"
  using chain_flip [of m h "rev xs" h] by (auto simp: ring_def)

lemma leaves_list_flip: "leaves_list links h body \<Longrightarrow> leaves_list (\<lambda>s. flip_links (links s)) h body"
  by (auto simp: leaves_list_def ring_flip)

lemma removes_current_flip:
  assumes "removes_current links h body"
  shows "removes_current (\<lambda>s. flip_links (links s)) h body"
proof -
  have "ring h (links t) (rev vs @ x # rev us) \<or> ring h (links t) (rev vs @ rev us)"
    if "ring h (links s) (rev vs @ x # rev us)" "body x s = Inr t" for x s t us vs
    using assms that unfolding removes_current_def by blast
  then show ?thesis by (simp add: removes_current_def ring_flip)
qed

lemma flipped_loops:
  "(\<lambda>p s. prev_of (links s) p) = (\<lambda>p s. next_of (flip_links (links s)) p)"
  by simp

lemmas entry_defs = list_first_entry_def list_last_entry_def list_next_entry_def list_prev_entry_def

text \<open>Library: the plain loops visit the items in order, forwards and backwards, from the first or from any item, if
  the body leaves the list as it is.\<close>

theorem loops_visit_all:
  assumes body: "leaves_list links h body" and r: "ring h (links s) (us @ xs)" and f: "length (us @ xs) \<le> fuel"
  shows "list_for_each links fuel h body s = rfold body (us @ xs) s"
    and "list_for_each_entry links fuel h body s = rfold body (us @ xs) s"
    and "list_for_each_prev links fuel h body s = rfold body (rev (us @ xs)) s"
    and "list_for_each_entry_reverse links fuel h body s = rfold body (rev (us @ xs)) s"
    and "us \<noteq> [] \<Longrightarrow> list_for_each_entry_continue links fuel (last us) h body s = rfold body xs s"
    and "us \<noteq> [] \<Longrightarrow> list_for_each_continue links fuel (last us) h body s = rfold body xs s"
    and "xs \<noteq> [] \<Longrightarrow> list_for_each_entry_from links fuel (hd xs) h body s = rfold body xs s"
    and "xs \<noteq> [] \<Longrightarrow> list_for_each_entry_continue_reverse links fuel (hd xs) h body s = rfold body (rev us) s"
    and "us \<noteq> [] \<Longrightarrow> list_for_each_entry_from_reverse links fuel (last us) h body s = rfold body (rev us) s"
proof -
  have f1: "length xs \<le> fuel" and f2: "length (rev us) \<le> fuel" using f by simp_all
  have "next_of (links s) h = Some (hd ((us @ xs) @ [h]))"
    using ring_split_next [of h "links s" "[]" "us @ xs"] r by simp
  then show e: "list_for_each links fuel h body s = rfold body (us @ xs) s"
    using loop_from_ring [OF body, where s = s and us = "[]" and xs = "us @ xs" and fuel = fuel] r f by (simp add: list_for_each_def)
  then show "list_for_each_entry links fuel h body s = rfold body (us @ xs) s"
    by (simp add: list_for_each_def list_for_each_entry_def entry_defs)
  have rf: "ring h (flip_links (links s)) (rev xs @ rev us)" using r by (simp add: ring_flip)
  note rev_loop = loop_from_ring [OF leaves_list_flip [OF body], where s = s, unfolded flip_links_simps]
  have "prev_of (links s) h = Some (hd ((rev xs @ rev us) @ [h]))"
    using ring_split_next [of h "flip_links (links s)" "[]" "rev xs @ rev us"] rf by simp
  then show b: "list_for_each_prev links fuel h body s = rfold body (rev (us @ xs)) s"
    using rev_loop [of "[]" "rev xs @ rev us" fuel] rf f by (simp add: list_for_each_prev_def)
  then show "list_for_each_entry_reverse links fuel h body s = rfold body (rev (us @ xs)) s"
    by (simp add: list_for_each_prev_def list_for_each_entry_reverse_def entry_defs)
  note fw = loop_from_ring [OF body r f1] and bw = rev_loop [OF rf f2]
  show "list_for_each_entry_continue links fuel (last us) h body s = rfold body xs s"
    "list_for_each_continue links fuel (last us) h body s = rfold body xs s" if "us \<noteq> []"
    using fw ring_split_next [OF r] that
    by (simp_all add: list_for_each_entry_continue_def list_for_each_continue_def entry_defs)
  show "list_for_each_entry_from links fuel (hd xs) h body s = rfold body xs s" if "xs \<noteq> []"
    using fw that by (simp add: list_for_each_entry_from_def entry_defs)
  show "list_for_each_entry_continue_reverse links fuel (hd xs) h body s = rfold body (rev us) s" if "xs \<noteq> []"
    using bw ring_split_next [OF rf] that
    by (simp add: list_for_each_entry_continue_reverse_def entry_defs last_rev)
  show "list_for_each_entry_from_reverse links fuel (last us) h body s = rfold body (rev us) s" if "us \<noteq> []"
    using bw that by (simp add: list_for_each_entry_from_reverse_def entry_defs hd_rev)
qed

lemma safe_loops_ring:
  assumes body: "removes_current links h body" and r: "ring h (links s) xs" and f: "length xs \<le> fuel"
  shows "list_for_each_safe links fuel h body s = rfold body xs s \<and>
    list_for_each_entry_safe links fuel h body s = rfold body xs s \<and>
    list_for_each_prev_safe links fuel h body s = rfold body (rev xs) s \<and>
    list_for_each_entry_safe_reverse links fuel h body s = rfold body (rev xs) s"
proof (cases xs)
  case Nil
  then have "next_of (links s) h = Some h" "prev_of (links s) h = Some h" using r by (simp_all add: ring_def)
  then show ?thesis using Nil
    by (cases fuel) (simp_all add: list_for_each_safe_def list_for_each_entry_safe_def list_for_each_prev_safe_def
        list_for_each_entry_safe_reverse_def entry_defs)
next
  case (Cons x ys)
  have n: "next_of (links s) h = Some x" using r Cons by (simp add: ring_def)
  have "loop_safe_from fuel (\<lambda>p s. next_of (links s) p) h body (Some x) (next_of (links s) x) s = rfold body xs s"
    using loop_safe_from_ring [OF body, where s = s and us = "[]" and x = x and xs = ys and fuel = fuel] r f Cons by simp
  moreover obtain z zs where z: "rev xs = z # zs" using Cons by (cases "rev xs") auto
  then have rf: "ring h (flip_links (links s)) (z # zs)" using r by (metis ring_flip rev_rev_ident)
  then have p: "prev_of (links s) h = Some z" by (simp add: ring_def)
  have "length zs < fuel" using f z by (metis length_rev length_Cons less_eq_Suc_le)
  then have "loop_safe_from fuel (\<lambda>p s. prev_of (links s) p) h body (Some z) (prev_of (links s) z) s = rfold body (rev xs) s"
    using loop_safe_from_ring [OF removes_current_flip [OF body], where s = s and us = "[]" and x = z and xs = zs and fuel = fuel] rf z by simp
  ultimately show ?thesis using n p
    by (simp add: list_for_each_safe_def list_for_each_entry_safe_def list_for_each_prev_safe_def
        list_for_each_entry_safe_reverse_def entry_defs)
qed

lemma safe_loops_inside:
  assumes body: "removes_current links h body" and r: "ring h (links s) (us @ x # vs)"
    and f: "length (us @ x # vs) \<le> fuel"
  shows "list_for_each_entry_safe_from links fuel x h body s = rfold body (x # vs) s \<and>
    list_for_each_entry_safe_continue links fuel x h body s = rfold body vs s"
proof -
  have "list_for_each_entry_safe_from links fuel x h body s = rfold body (x # vs) s"
    using loop_safe_from_ring [OF body r] f by (simp add: list_for_each_entry_safe_from_def entry_defs)
  moreover have "list_for_each_entry_safe_continue links fuel x h body s = rfold body vs s"
  proof (cases vs)
    case Nil
    then have "next_of (links s) x = Some h" using ring_member_links(2) [OF r] by simp
    then show ?thesis using Nil by (cases fuel) (simp_all add: list_for_each_entry_safe_continue_def entry_defs)
  next
    case (Cons v ws)
    have "next_of (links s) x = Some v" using ring_member_links(2) [OF r] Cons by simp
    moreover have "ring h (links s) ((us @ [x]) @ v # ws)" using r Cons by simp
    from loop_safe_from_ring [OF body this, of fuel] f Cons
    have "loop_safe_from fuel (\<lambda>p s. next_of (links s) p) h body (Some v) (next_of (links s) v) s =
      rfold body (v # ws) s" by simp
    ultimately show ?thesis using Cons by (simp add: list_for_each_entry_safe_continue_def entry_defs)
  qed
  ultimately show ?thesis by blast
qed

text \<open>Claim C30: the loops of \<open>wmediumd/list.h\<close> that are safe against removal visit every item of the list once
  and in order, forwards and backwards, whatever the body does with the rest of the state and also if
  it removes the items it is called for; they do so in as many rounds as the list has items. The two that begin
  inside the list visit the items from the given one on (\<open>from\<close>) and those behind it (\<open>continue\<close>).\<close>

theorem safe_loops_visit_all:
  assumes body: "removes_current links h body" and r: "ring h (links s) xs" and f: "length xs \<le> fuel"
  shows "list_for_each_safe links fuel h body s = rfold body xs s \<and>
    list_for_each_entry_safe links fuel h body s = rfold body xs s \<and>
    list_for_each_prev_safe links fuel h body s = rfold body (rev xs) s \<and>
    list_for_each_entry_safe_reverse links fuel h body s = rfold body (rev xs) s \<and>
    (\<forall>us x vs. xs = us @ x # vs \<longrightarrow>
       list_for_each_entry_safe_from links fuel x h body s = rfold body (x # vs) s \<and>
       list_for_each_entry_safe_continue links fuel x h body s = rfold body vs s)"
  using safe_loops_ring [OF assms] safe_loops_inside [OF body, of s] r f by blast

text \<open>Deleting every item of a list.\<close>

lemma list_del_removes_current: "removes_current id h list_del"
proof -
  have "ring h t (us @ vs)" if "ring h s (us @ x # vs)" "list_del x s = Inr t" for x s t us vs
    using list_del_ring [OF that(1)] that(2) by auto
  then show ?thesis by (simp add: removes_current_def)
qed

lemma safe_loops_visit_all_witness:
  "\<exists>m'. list_for_each_entry_safe id 2 0 list_del ring_example = Inr m' \<and> ring 0 m' []"
proof -
  have r: "ring 0 ring_example [1, 2]" by (rule ring_example_rings)
  have e: "list_for_each_entry_safe id 2 0 list_del ring_example = rfold list_del [1, 2] ring_example"
    using safe_loops_visit_all [OF list_del_removes_current, where h = "0 :: nat" and s = ring_example and xs = "[1, 2]" and fuel = 2]
      r by simp
  obtain m1 where m1: "list_del 1 ring_example = Inr m1" "ring 0 m1 [2]"
    using list_del_ring [of 0 ring_example "[]" 1 "[2]"] r by auto
  obtain m2 where "list_del 2 m1 = Inr m2" "ring 0 m2 []"
    using list_del_ring [of 0 m1 "[]" 2 "[]"] m1(2) by auto
  then show ?thesis using e m1(1) by simp
qed

text \<open>A loop that is not safe follows the poisoned link of the item that its body has deleted.\<close>

lemma unsafe_loop_follows_poison:
  "list_for_each_entry id 2 0 list_del ring_example = Inl Null_dereference"
  by (simp add: list_for_each_entry_def entry_defs list_del_def list_del_entry_def list_del_between_def ring_example_def
      numeral_2_eq_2)



end
