(* ===== verification/Event_Loop.thy ===== *)
theory Event_Loop
  imports Linked_List
begin

text \<open>
  The main loop of \<open>wmediumd/lib/loop.c\<close>: file descriptors with a handler and a priority,
  kept in one list sorted by descending priority, and the wait for one event. The list is
  given twice: at pointer level (\<open>usfstl_loop_register_ptr\<close>, over the memory of
  \<open>Linked_List\<close>) and as a HOL list (\<open>usfstl_loop_register\<close>); the first refines the second.

  What \<open>select\<close> answers is input of the model: a list of the answers it will give.
  Handlers and the pre-handler are functions on a state of their own type.
\<close>

record loop_entry =
  le_fd :: int
  le_priority :: int

section \<open>Registering and unregistering\<close>

definition usfstl_loop_register :: "('p \<Rightarrow> loop_entry) \<Rightarrow> 'p \<Rightarrow> 'p list \<Rightarrow> 'p list" where
  "usfstl_loop_register ent entry es =
     insert_first (\<lambda>tmp. le_priority (ent entry) \<ge> le_priority (ent tmp)) entry es"

definition usfstl_loop_register_ptr ::
  "nat \<Rightarrow> 'p \<Rightarrow> ('p \<Rightarrow> loop_entry) \<Rightarrow> 'p \<Rightarrow> 'p links \<Rightarrow> 'p links result" where
  "usfstl_loop_register_ptr fuel g ent entry m =
     usfstl_insert_at fuel g (\<lambda>tmp. le_priority (ent entry) \<ge> le_priority (ent tmp)) entry m"

text \<open>\<open>usfstl_list_item_remove\<close> on an entry that is in no list follows a NULL pointer.\<close>

definition usfstl_loop_unregister :: "'p \<Rightarrow> 'p list \<Rightarrow> 'p list result" where
  "usfstl_loop_unregister entry es =
     (if entry \<in> set es then Inr (remove1 entry es) else Inl Null_dereference)"

definition usfstl_loop_unregister_ptr :: "'p \<Rightarrow> 'p links \<Rightarrow> 'p links result" where
  "usfstl_loop_unregister_ptr entry m = usfstl_list_item_remove entry m"

section \<open>Waiting for one event\<close>

text \<open>
  One answer of \<open>select\<close>: its return value, converted to \<open>unsigned int\<close> by the code, and
  the descriptors it left set in \<open>rd_set\<close> and \<open>exc_set\<close>.
\<close>

record select_answer =
  sel_num :: u32
  sel_rd :: "int list"
  sel_exc :: "int list"

definition fd_ready :: "select_answer \<Rightarrow> loop_entry \<Rightarrow> bool" where
  "fd_ready a e \<longleftrightarrow> le_fd e \<in> set (sel_rd a) \<or> le_fd e \<in> set (sel_exc a)"

text \<open>
  The state \<open>'s\<close> holds the list of entries (read by \<open>entries\<close>), so that handlers can
  register and unregister. The result is the entry that was handled, the state after its
  handler and the answers of \<open>select\<close> that were not used.
\<close>

fun usfstl_loop_wait_and_handle ::
  "('s \<Rightarrow> 'p list) \<Rightarrow> ('p \<Rightarrow> loop_entry) \<Rightarrow> ('s \<Rightarrow> 's result) option \<Rightarrow>
   ('p \<Rightarrow> 's \<Rightarrow> 's result) \<Rightarrow> select_answer list \<Rightarrow> 's \<Rightarrow>
   ('p \<times> 's \<times> select_answer list) result" where
  "usfstl_loop_wait_and_handle entries ent pre handler [] s = Inl Starved"
| "usfstl_loop_wait_and_handle entries ent pre handler (a # as) s =
     rassert (sel_num a > 0)
       (case find (\<lambda>tmp. fd_ready a (ent tmp)) (entries s) of
          None \<Rightarrow> usfstl_loop_wait_and_handle entries ent pre handler as s
        | Some tmp \<Rightarrow>
            rbind (case pre of None \<Rightarrow> Inr s | Some f \<Rightarrow> f s) (\<lambda>s.
            rbind (handler tmp s) (\<lambda>s. Inr (tmp, s, as))))"

section \<open>Properties\<close>

definition loop_sorted :: "('p \<Rightarrow> loop_entry) \<Rightarrow> 'p list \<Rightarrow> bool" where
  "loop_sorted ent es \<longleftrightarrow>
     distinct es \<and> sorted_wrt (\<lambda>x y. le_priority (ent x) \<ge> le_priority (ent y)) es"

lemma loop_register_sorted:
  "loop_sorted ent es \<Longrightarrow> entry \<notin> set es \<Longrightarrow> loop_sorted ent (usfstl_loop_register ent entry es)"
  unfolding loop_sorted_def usfstl_loop_register_def
  by (auto intro!: sorted_wrt_insert_first)

lemma loop_unregister_sorted:
  "loop_sorted ent es \<Longrightarrow> usfstl_loop_unregister entry es = Inr es' \<Longrightarrow> loop_sorted ent es'"
  by (auto simp: loop_sorted_def usfstl_loop_unregister_def sorted_wrt_remove1 split: if_splits)

text \<open>Claim C29: at pointer level, \<open>usfstl_loop_register\<close> and \<open>usfstl_loop_unregister\<close> do what
  the list-level definitions say: from a well-formed ring of entries, registering a new
  entry never follows a bad pointer and represents the sorted insertion; unregistering any
  entry of a ring, the new one or another, represents the removal of exactly that entry and keeps the order of
  the rest; and registering and unregistering the new entry gives the old ring back.\<close>

theorem loop_register_refines:
  assumes "ring g m es" and "entry \<notin> set (g # es)" and "length es \<le> fuel"
  shows "\<exists>m'. usfstl_loop_register_ptr fuel g ent entry m = Inr m' \<and>
    ring g m' (usfstl_loop_register ent entry es) \<and>
    usfstl_loop_unregister entry (usfstl_loop_register ent entry es) = Inr es \<and>
    (\<forall>e \<in> set (usfstl_loop_register ent entry es). \<exists>m'' es'. usfstl_loop_unregister_ptr e m' = Inr m'' \<and>
       usfstl_loop_unregister e (usfstl_loop_register ent entry es) = Inr es' \<and> ring g m'' es' \<and>
       set es' = insert entry (set es) - {e}) \<and>
    (\<forall>e \<in> set es. \<exists>m'' es'. usfstl_loop_unregister_ptr e m = Inr m'' \<and>
       usfstl_loop_unregister e es = Inr es' \<and> ring g m'' es' \<and> set es' = set es - {e})"
proof -
  have un: "\<exists>n' zs'. usfstl_loop_unregister_ptr e n = Inr n' \<and> usfstl_loop_unregister e zs = Inr zs' \<and>
      ring g n' zs' \<and> set zs' = set zs - {e}" if "ring g n zs" "e \<in> set zs" for e n zs
  proof -
    have "distinct zs" using that(1) by (simp add: ring_def)
    then show ?thesis
      using usfstl_list.remove1_repr [OF that]
      by (simp add: usfstl_loop_unregister_ptr_def usfstl_loop_unregister_def that(2))
  qed
  obtain m' where m': "usfstl_loop_register_ptr fuel g ent entry m = Inr m'"
    and r: "ring g m' (usfstl_loop_register ent entry es)"
    using usfstl_list.insert_at_repr [of g m es fuel entry] assms
    by (auto simp: usfstl_loop_register_ptr_def usfstl_insert_at_def usfstl_loop_register_def)
  have set: "set (usfstl_loop_register ent entry es) = insert entry (set es)"
    by (simp add: usfstl_loop_register_def)
  have "\<forall>e \<in> set (usfstl_loop_register ent entry es). \<exists>m'' es'. usfstl_loop_unregister_ptr e m' = Inr m'' \<and>
       usfstl_loop_unregister e (usfstl_loop_register ent entry es) = Inr es' \<and> ring g m'' es' \<and>
       set es' = insert entry (set es) - {e}"
    using un [OF r] unfolding set by blast
  moreover have "\<forall>e \<in> set es. \<exists>m'' es'. usfstl_loop_unregister_ptr e m = Inr m'' \<and>
       usfstl_loop_unregister e es = Inr es' \<and> ring g m'' es' \<and> set es' = set es - {e}"
    using un [OF assms(1)] by blast
  moreover have "usfstl_loop_unregister entry (usfstl_loop_register ent entry es) = Inr es"
    using assms(2) by (simp add: usfstl_loop_register_def usfstl_loop_unregister_def remove1_insert_first)
  ultimately show ?thesis using m' r by blast
qed

text \<open>Library: the wait for an event runs the handler of exactly one ready entry, and in a
  list kept by \<open>usfstl_loop_register\<close> no ready entry has a higher priority than it; the
  pre-handler has run before it.\<close>

theorem loop_handles_highest_priority:
  assumes "loop_sorted ent (entries s)"
    and "usfstl_loop_wait_and_handle entries ent pre handler as s = Inr (p, s', as')"
  shows "\<exists>a s1. a \<in> set as \<and> p \<in> set (entries s) \<and> fd_ready a (ent p) \<and>
    (\<forall>q \<in> set (entries s). fd_ready a (ent q) \<longrightarrow> le_priority (ent q) \<le> le_priority (ent p)) \<and>
    (case pre of None \<Rightarrow> s1 = s | Some f \<Rightarrow> f s = Inr s1) \<and> handler p s1 = Inr s'"
  using assms(2)
proof (induction as)
  case Nil
  then show ?case by simp
next
  case (Cons a as)
  show ?case
  proof (cases "find (\<lambda>tmp. fd_ready a (ent tmp)) (entries s)")
    case None
    then show ?thesis using Cons by (fastforce simp: result_simps)
  next
    case (Some t)
    then have t: "t \<in> set (entries s)" "fd_ready a (ent t)"
      by (auto simp: find_Some_iff)
    have best: "le_priority (ent q) \<le> le_priority (ent t)"
      if "q \<in> set (entries s)" "fd_ready a (ent q)" for q
      using find_sorted_first [OF _ Some that] assms(1) by (auto simp: loop_sorted_def)
    show ?thesis
      using Cons.prems Some t best by (fastforce simp: result_simps split: option.splits)
  qed
qed

text \<open>An invariant of the handlers is an invariant of the wait.\<close>

lemma loop_wait_invariant:
  assumes "usfstl_loop_wait_and_handle entries ent pre handler as s = Inr (p, s', rest)" and "I s"
    and pre: "\<And>f u v. pre = Some f \<Longrightarrow> I u \<Longrightarrow> f u = Inr v \<Longrightarrow> I v"
    and handler: "\<And>q u v. I u \<Longrightarrow> handler q u = Inr v \<Longrightarrow> I v"
  shows "I s'"
  using assms(1)
proof (induction as)
  case Nil
  then show ?case by simp
next
  case (Cons a as)
  show ?case
  proof (cases "find (\<lambda>tmp. fd_ready a (ent tmp)) (entries s)")
    case None
    then show ?thesis using Cons by (simp add: result_simps)
  next
    case (Some t)
    then obtain u where u: "(case pre of None \<Rightarrow> Inr s | Some f \<Rightarrow> f s) = Inr u"
      and h: "handler t u = Inr s'"
      using Cons.prems by (auto simp: result_simps)
    have "I u" using u assms(2) pre by (cases pre) auto
    then show ?thesis using h by (rule handler)
  qed
qed

definition example_entries :: "nat \<Rightarrow> loop_entry" where
  "example_entries p = \<lparr>le_fd = int p, le_priority = int p\<rparr>"

text \<open>The entry 5 is registered after 7, and 7 is taken out again.\<close>

definition example_links :: "nat links" where
  "example_links = usfstl_list_init 0 \<lparr>next_of = (\<lambda>_. None), prev_of = (\<lambda>_. None)\<rparr>"

lemma example_links_ring: "ring 0 example_links []"
  by (simp add: example_links_def ring_init)

lemma loop_register_refines_witness:
  "\<exists>m1 m2 m3. usfstl_loop_register_ptr 0 0 example_entries (7 :: nat) example_links = Inr m1 \<and>
    usfstl_loop_register_ptr 1 0 example_entries 5 m1 = Inr m2 \<and> ring 0 m2 [7, 5] \<and>
    usfstl_loop_unregister_ptr 7 m2 = Inr m3 \<and> ring 0 m3 [5]"
proof -
  have e: "usfstl_loop_register example_entries 7 [] = [7]" "usfstl_loop_register example_entries 5 [7] = [7, 5]"
    "usfstl_loop_unregister 7 [7, 5 :: nat] = Inr [5]"
    by (simp_all add: usfstl_loop_register_def example_entries_def insert_first_Cons usfstl_loop_unregister_def)
  obtain m1 where m1: "usfstl_loop_register_ptr 0 0 example_entries (7 :: nat) example_links = Inr m1" "ring 0 m1 [7]"
    using loop_register_refines [OF example_links_ring, of 7 0 example_entries] e(1) by auto
  obtain m2 m3 where "usfstl_loop_register_ptr 1 0 example_entries 5 m1 = Inr m2" "ring 0 m2 [7, 5]"
    "usfstl_loop_unregister_ptr 7 m2 = Inr m3" "ring 0 m3 [5]"
    using loop_register_refines [OF m1(2), of 5 1 example_entries] e(2,3) by auto
  then show ?thesis using m1(1) by blast
qed

lemma loop_handles_highest_priority_witness:
  "\<exists>a s1. a \<in> set [\<lparr>sel_num = 2, sel_rd = [1, 2], sel_exc = []\<rparr>] \<and> 2 \<in> set [3, 2, 1 :: nat] \<and>
    fd_ready a (example_entries 2) \<and>
    (\<forall>q \<in> set [3, 2, 1]. fd_ready a (example_entries q) \<longrightarrow>
       le_priority (example_entries q) \<le> le_priority (example_entries 2)) \<and>
    (case None :: (nat \<Rightarrow> nat result) option of None \<Rightarrow> s1 = 0 | Some f \<Rightarrow> f 0 = Inr s1) \<and>
    (\<lambda>p s. Inr (s + p)) 2 s1 = (Inr 2 :: nat result)"
  by (rule loop_handles_highest_priority [of example_entries "\<lambda>_. [3, 2, 1]" 0 None
        "\<lambda>p s. Inr (s + p)" "[\<lparr>sel_num = 2, sel_rd = [1, 2], sel_exc = []\<rparr>]" 2 2 "[]"])
    (simp_all add: loop_sorted_def example_entries_def fd_ready_def)

end
