(* ===== verification/Scheduler.thy ===== *)
theory Scheduler
  imports Event_Loop
begin

text \<open>
  The job scheduler of \<open>wmediumd/lib/sched.c\<close>. A job pointer is a value of a type \<open>'j\<close>; the
  job structures are the map \<open>job_of\<close> of the scheduler state. The two lists of the code
  are HOL lists of job pointers; that a pointer-level insertion and removal compute the
  list operations used here is \<open>usfstl_list.insert_at_repr\<close> and \<open>usfstl_list.remove1_repr\<close>
  of \<open>Linked_List\<close>.

  The function pointers of \<open>struct usfstl_scheduler\<close> are a record \<open>sched_ops\<close> of optional
  functions (\<open>None\<close> is NULL). They act on the whole state; the scheduler record is
  extensible, so a client (the wall clock, the external controller, wmediumd itself) adds
  its own fields.
\<close>

section \<open>State\<close>

record job =
  job_start :: u64
  job_priority :: u32
  job_group :: u8

record 'j scheduler =
  job_of :: "'j \<Rightarrow> job"
  current_time :: u64
  prev_external_sync :: u64
  next_external_sync :: u64
  joblist :: "'j list"
  pending_jobs :: "'j list"
  allowed_job :: "'j option"
  blocked_groups :: u32
  next_external_sync_set :: bool
  prev_external_sync_set :: bool
  sched_waiting :: bool

record 's sched_ops =
  external_request :: "(u64 \<Rightarrow> 's \<Rightarrow> 's result) option"
  external_wait :: "('s \<Rightarrow> 's result) option"
  external_sync_from :: "('s \<Rightarrow> (u64 \<times> 's) result) option"
  time_advanced :: "(u64 \<Rightarrow> 's \<Rightarrow> 's result) option"
  next_time_changed :: "('s \<Rightarrow> 's result) option"

text \<open>The abbreviations for the time, priority and group of a queued job.\<close>

abbreviation start_of :: "('j, 'z) scheduler_scheme \<Rightarrow> 'j \<Rightarrow> u64" where
  "start_of s j \<equiv> job_start (job_of s j)"

abbreviation prio_of :: "('j, 'z) scheduler_scheme \<Rightarrow> 'j \<Rightarrow> u32" where
  "prio_of s j \<equiv> job_priority (job_of s j)"

abbreviation group_of :: "('j, 'z) scheduler_scheme \<Rightarrow> 'j \<Rightarrow> u8" where
  "group_of s j \<equiv> job_group (job_of s j)"

definition set_job_start :: "'j \<Rightarrow> u64 \<Rightarrow> ('j, 'z) scheduler_scheme \<Rightarrow> ('j, 'z) scheduler_scheme" where
  "set_job_start j t s = s\<lparr>job_of := (job_of s)(j := (job_of s j)\<lparr>job_start := t\<rparr>)\<rparr>"

text \<open>Calling a function pointer only if it is set.\<close>

definition call_opt :: "('s \<Rightarrow> 's result) option \<Rightarrow> 's \<Rightarrow> 's result" where
  "call_opt f s = (case f of None \<Rightarrow> Inr s | Some g \<Rightarrow> g s)"

section \<open>Operations\<close>

definition usfstl_job_scheduled :: "'j \<Rightarrow> ('j, 'z) scheduler_scheme \<Rightarrow> bool" where
  "usfstl_job_scheduled j s \<longleftrightarrow> j \<in> set (joblist s) \<or> j \<in> set (pending_jobs s)"

definition usfstl_sched_next_pending :: "('j, 'z) scheduler_scheme \<Rightarrow> 'j option" where
  "usfstl_sched_next_pending s = (case joblist s of [] \<Rightarrow> None | j # _ \<Rightarrow> Some j)"

text \<open>\<open>(1 << job->group) & sched->blocked_groups\<close>\<close>

definition group_blocked :: "u8 \<Rightarrow> u32 \<Rightarrow> bool" where
  "group_blocked g groups \<longleftrightarrow> push_bit (unat g) 1 AND groups \<noteq> 0"

definition usfstl_sched_external_request ::
  "('j, 'z) scheduler_scheme sched_ops \<Rightarrow> u64 \<Rightarrow> ('j, 'z) scheduler_scheme \<Rightarrow>
   (bool \<times> ('j, 'z) scheduler_scheme) result" where
  "usfstl_sched_external_request ops time s =
     (case external_request ops of
        None \<Rightarrow> Inr (False, s)
      | Some request \<Rightarrow>
          if \<not> sched_waiting s \<and> next_external_sync_set s \<and>
             time_lt time (next_external_sync s)
          then Inr (False, s)
          else if prev_external_sync_set s \<and> time = prev_external_sync s
          then Inr (True, s)
          else rbind (request time
                  (s\<lparr>prev_external_sync := time, prev_external_sync_set := True\<rparr>))
                (\<lambda>s. Inr (True, s)))"

definition usfstl_sched_external_wait ::
  "('j, 'z) scheduler_scheme sched_ops \<Rightarrow> ('j, 'z) scheduler_scheme \<Rightarrow>
   ('j, 'z) scheduler_scheme result" where
  "usfstl_sched_external_wait ops s =
     (let s = s\<lparr>prev_external_sync_set := False, sched_waiting := True\<rparr> in
      rbind (rget Null_dereference (external_wait ops)) (\<lambda>wait.
      rbind (wait s) (\<lambda>s. Inr (s\<lparr>sched_waiting := False\<rparr>))))"

text \<open>The item the insertion loop of \<open>usfstl_sched_add_job\<close> stops at: a later job, or one at
  the same time with a lower priority.\<close>

definition runs_after :: "('j, 'z) scheduler_scheme \<Rightarrow> 'j \<Rightarrow> 'j \<Rightarrow> bool" where
  "runs_after s j tmp \<longleftrightarrow> time_gt (start_of s tmp) (start_of s j) \<or>
     start_of s tmp = start_of s j \<and> prio_of s tmp < prio_of s j"

definition usfstl_sched_add_job ::
  "('j, 'z) scheduler_scheme sched_ops \<Rightarrow> 'j \<Rightarrow> ('j, 'z) scheduler_scheme \<Rightarrow>
   ('j, 'z) scheduler_scheme result" where
  "usfstl_sched_add_job ops j s =
     rassert (time_ge (start_of s j) (current_time s))
    (rassert (\<not> usfstl_job_scheduled j s)
    (rassert (group_of s j < 32)
       (if group_blocked (group_of s j) (blocked_groups s) \<and> Some j \<noteq> allowed_job s
        then let s = set_job_start j 0 s in Inr (s\<lparr>pending_jobs := pending_jobs s @ [j]\<rparr>)
        else let s = s\<lparr>joblist := insert_first (runs_after s j) j (joblist s)\<rparr> in
             rbind (usfstl_sched_external_request ops (start_of s j) s) (\<lambda>(_, s).
             call_opt (next_time_changed ops) s))))"

definition usfstl_sched_del_job :: "'j \<Rightarrow> ('j, 'z) scheduler_scheme \<Rightarrow> ('j, 'z) scheduler_scheme" where
  "usfstl_sched_del_job j s =
     (if \<not> usfstl_job_scheduled j s then s
      else s\<lparr>joblist := remove1 j (joblist s), pending_jobs := remove1 j (pending_jobs s)\<rparr>)"

text \<open>\<open>_usfstl_sched_set_time\<close>, the internal variant without the check of the request\<close>

definition usfstl_sched_set_time_internal ::
  "('j, 'z) scheduler_scheme sched_ops \<Rightarrow> u64 \<Rightarrow> ('j, 'z) scheduler_scheme \<Rightarrow>
   ('j, 'z) scheduler_scheme result" where
  "usfstl_sched_set_time_internal ops time s =
     (if current_time s = time then Inr s
      else rassert (time_ge time (current_time s))
        (let delta = time - current_time s;
             s = s\<lparr>current_time := time\<rparr>
         in call_opt (map_option (\<lambda>f. f delta) (time_advanced ops)) s))"

definition usfstl_sched_set_time ::
  "('j, 'z) scheduler_scheme sched_ops \<Rightarrow> u64 \<Rightarrow> ('j, 'z) scheduler_scheme \<Rightarrow>
   ('j, 'z) scheduler_scheme result" where
  "usfstl_sched_set_time ops time s =
     rassert (joblist s = [] \<or> time_le time (prev_external_sync s))
       (usfstl_sched_set_time_internal ops time s)"

definition usfstl_sched_current_time ::
  "('j, 'z) scheduler_scheme sched_ops \<Rightarrow> ('j, 'z) scheduler_scheme \<Rightarrow>
   (u64 \<times> ('j, 'z) scheduler_scheme) result" where
  "usfstl_sched_current_time ops s =
     (case external_sync_from ops of
        None \<Rightarrow> Inr (current_time s, s)
      | Some sync_from \<Rightarrow>
          if \<not> sched_waiting s then Inr (current_time s, s)
          else rbind (sync_from s) (\<lambda>(t, s).
               rbind (usfstl_sched_set_time ops t s) (\<lambda>s. Inr (t, s))))"

definition usfstl_sched_forward ::
  "('j, 'z) scheduler_scheme sched_ops \<Rightarrow> u64 \<Rightarrow> ('j, 'z) scheduler_scheme \<Rightarrow>
   ('j, 'z) scheduler_scheme result" where
  "usfstl_sched_forward ops until s =
     rassert (time_ge until (current_time s))
       (rbind (usfstl_sched_external_request ops until s) (\<lambda>(requested, s).
          if requested then usfstl_sched_external_wait ops s
          else usfstl_sched_set_time_internal ops until s))"

definition usfstl_sched_start ::
  "('j, 'z) scheduler_scheme sched_ops \<Rightarrow> ('j, 'z) scheduler_scheme \<Rightarrow>
   ('j, 'z) scheduler_scheme result" where
  "usfstl_sched_start ops s =
     rbind (usfstl_sched_external_request ops (current_time s) s) (\<lambda>(requested, s).
       if requested then usfstl_sched_external_wait ops s else Inr s)"

text \<open>
  \<open>usfstl_sched_next\<close>: the callback of a job is the function \<open>run\<close>; the fuel bounds the
  iterations of the \<open>while (true)\<close> loop.
\<close>

fun usfstl_sched_next ::
  "nat \<Rightarrow> ('j, 'z) scheduler_scheme sched_ops \<Rightarrow>
   ('j \<Rightarrow> ('j, 'z) scheduler_scheme \<Rightarrow> ('j, 'z) scheduler_scheme result) \<Rightarrow>
   ('j, 'z) scheduler_scheme \<Rightarrow> ('j \<times> ('j, 'z) scheduler_scheme) result" where
  "usfstl_sched_next 0 ops run s = Inl Out_of_fuel"
| "usfstl_sched_next (Suc fuel) ops run s =
     (case usfstl_sched_next_pending s of
        None \<Rightarrow>
          if external_request ops \<noteq> None
          then rbind (usfstl_sched_external_wait ops s) (usfstl_sched_next fuel ops run)
          else Inl Assertion_failed
      | Some job \<Rightarrow>
          rbind (if time_gt (start_of s job) (current_time s)
                 then usfstl_sched_forward ops (start_of s job) s else Inr s) (\<lambda>s.
          if usfstl_sched_next_pending s \<noteq> Some job
          then usfstl_sched_next fuel ops run s
          else let s = usfstl_sched_del_job job s in
               rbind (run job s) (\<lambda>s. Inr (job, s))))"

definition usfstl_sched_set_sync_time ::
  "u64 \<Rightarrow> ('j, 'z) scheduler_scheme \<Rightarrow> ('j, 'z) scheduler_scheme result" where
  "usfstl_sched_set_sync_time time s =
     rassert (time_ge time (current_time s))
       (Inr (s\<lparr>next_external_sync := time, next_external_sync_set := True\<rparr>))"

subsection \<open>Blocking groups of jobs\<close>

definition usfstl_sched_block_job :: "'j \<Rightarrow> ('j, 'z) scheduler_scheme \<Rightarrow> ('j, 'z) scheduler_scheme" where
  "usfstl_sched_block_job j s =
     (let s = usfstl_sched_del_job j s in s\<lparr>pending_jobs := pending_jobs s @ [j]\<rparr>)"

text \<open>The safe loops over the two job lists read the next item before they treat the current
  one; they are folds over the list as it is when the loop starts.\<close>

definition usfstl_sched_remove_blocked_jobs ::
  "('j, 'z) scheduler_scheme \<Rightarrow> ('j, 'z) scheduler_scheme" where
  "usfstl_sched_remove_blocked_jobs s =
     fold (\<lambda>job s.
         if Some job = allowed_job s then s
         else if group_blocked (group_of s job) (blocked_groups s)
         then usfstl_sched_block_job job s else s)
       (joblist s) s"

definition usfstl_sched_restore_job ::
  "('j, 'z) scheduler_scheme sched_ops \<Rightarrow> 'j \<Rightarrow> ('j, 'z) scheduler_scheme \<Rightarrow>
   ('j, 'z) scheduler_scheme result" where
  "usfstl_sched_restore_job ops j s =
     (let s = usfstl_sched_del_job j s;
          s = (if time_lt (start_of s j) (current_time s)
               then set_job_start j (current_time s) s else s)
      in usfstl_sched_add_job ops j s)"

definition usfstl_sched_restore_blocked_jobs ::
  "('j, 'z) scheduler_scheme sched_ops \<Rightarrow> ('j, 'z) scheduler_scheme \<Rightarrow>
   ('j, 'z) scheduler_scheme result" where
  "usfstl_sched_restore_blocked_jobs ops s =
     rfold (\<lambda>job s.
         if Some job = allowed_job s \<or> \<not> group_blocked (group_of s job) (blocked_groups s)
         then usfstl_sched_restore_job ops job s else Inr s)
       (pending_jobs s) s"

record 'j block_data =
  bd_groups :: u32
  bd_job :: "'j option"

definition usfstl_sched_block_groups ::
  "u32 \<Rightarrow> 'j option \<Rightarrow> ('j, 'z) scheduler_scheme \<Rightarrow>
   ('j block_data \<times> ('j, 'z) scheduler_scheme) result" where
  "usfstl_sched_block_groups groups job s =
     (let save = \<lparr>bd_groups = blocked_groups s, bd_job = allowed_job s\<rparr> in
      rassert (case job of None \<Rightarrow> True | Some j \<Rightarrow> group_blocked (group_of s j) groups)
        (let s = s\<lparr>blocked_groups := blocked_groups s OR groups, allowed_job := job\<rparr>
         in Inr (save, usfstl_sched_remove_blocked_jobs s)))"

definition usfstl_sched_restore_groups ::
  "('j, 'z) scheduler_scheme sched_ops \<Rightarrow> 'j block_data \<Rightarrow> ('j, 'z) scheduler_scheme \<Rightarrow>
   ('j, 'z) scheduler_scheme result" where
  "usfstl_sched_restore_groups ops restore s =
     (let s = s\<lparr>blocked_groups := bd_groups restore, allowed_job := bd_job restore\<rparr> in
      rbind (usfstl_sched_restore_blocked_jobs ops s) (\<lambda>s.
      Inr (usfstl_sched_remove_blocked_jobs s)))"

section \<open>Invariant\<close>

text \<open>Order of jobs: earlier first (seen from the base \<open>c\<close> of the time window), then higher
  priority.\<close>

definition key_le :: "u64 \<Rightarrow> job \<Rightarrow> job \<Rightarrow> bool" where
  "key_le c a b \<longleftrightarrow> ahead c (job_start a) < ahead c (job_start b) \<or>
     job_start a = job_start b \<and> job_priority b \<le> job_priority a"

definition key_less :: "u64 \<Rightarrow> job \<Rightarrow> job \<Rightarrow> bool" where
  "key_less c a b \<longleftrightarrow> ahead c (job_start a) < ahead c (job_start b) \<or>
     job_start a = job_start b \<and> job_priority b < job_priority a"

lemma key_le_trans: "key_le c x y \<Longrightarrow> key_le c y z \<Longrightarrow> key_le c x z"
  by (auto simp: key_le_def)

lemma key_less_not_le: "key_less c a b \<longleftrightarrow> \<not> key_le c b a"
proof (cases "job_start a = job_start b")
  case True
  then show ?thesis by (simp add: key_le_def key_less_def not_le)
next
  case False
  then have "ahead c (job_start a) \<noteq> ahead c (job_start b)" by (simp add: ahead_inject)
  then show ?thesis using False by (auto simp: key_le_def key_less_def)
qed

lemma key_less_imp_le: "key_less c a b \<Longrightarrow> key_le c a b"
  by (auto simp: key_le_def key_less_def)

text \<open>May run now: its group is not blocked, or it is the one allowed job.\<close>

definition runnable :: "('j, 'z) scheduler_scheme \<Rightarrow> 'j \<Rightarrow> bool" where
  "runnable s j \<longleftrightarrow> Some j = allowed_job s \<or> \<not> group_blocked (group_of s j) (blocked_groups s)"

definition jobs_ok :: "u64 \<Rightarrow> ('j, 'z) scheduler_scheme \<Rightarrow> bool" where
  "jobs_ok c s \<longleftrightarrow> distinct (joblist s @ pending_jobs s) \<and>
     (\<forall>j \<in> set (joblist s) \<union> set (pending_jobs s).
        in_window c (start_of s j) \<and> group_of s j < 32) \<and>
     sorted_wrt (\<lambda>a b. key_le c (job_of s a) (job_of s b)) (joblist s)"

definition sched_inv :: "u64 \<Rightarrow> ('j, 'z) scheduler_scheme \<Rightarrow> bool" where
  "sched_inv c s \<longleftrightarrow> jobs_ok c s \<and> (\<forall>j \<in> set (joblist s). runnable s j)"

text \<open>What the external callbacks must leave alone.\<close>

definition same_queue :: "('j, 'z) scheduler_scheme \<Rightarrow> ('j, 'z) scheduler_scheme \<Rightarrow> bool" where
  "same_queue s t \<longleftrightarrow> job_of t = job_of s \<and> joblist t = joblist s \<and>
     pending_jobs t = pending_jobs s \<and> allowed_job t = allowed_job s \<and>
     blocked_groups t = blocked_groups s"

lemma same_queue_refl [simp]: "same_queue s s"
  by (simp add: same_queue_def)

lemma same_queue_trans: "same_queue s t \<Longrightarrow> same_queue t u \<Longrightarrow> same_queue s u"
  by (simp add: same_queue_def)

lemma same_queue_times [simp]:
  "same_queue s (t\<lparr>current_time := a\<rparr>) = same_queue s t"
  "same_queue s (t\<lparr>prev_external_sync := a\<rparr>) = same_queue s t"
  "same_queue s (t\<lparr>next_external_sync := a\<rparr>) = same_queue s t"
  "same_queue s (t\<lparr>prev_external_sync_set := b\<rparr>) = same_queue s t"
  "same_queue s (t\<lparr>next_external_sync_set := b\<rparr>) = same_queue s t"
  "same_queue s (t\<lparr>sched_waiting := b\<rparr>) = same_queue s t"
  "same_queue (s\<lparr>current_time := a\<rparr>) t = same_queue s t"
  "same_queue (s\<lparr>prev_external_sync := a\<rparr>) t = same_queue s t"
  "same_queue (s\<lparr>next_external_sync := a\<rparr>) t = same_queue s t"
  "same_queue (s\<lparr>prev_external_sync_set := b\<rparr>) t = same_queue s t"
  "same_queue (s\<lparr>next_external_sync_set := b\<rparr>) t = same_queue s t"
  "same_queue (s\<lparr>sched_waiting := b\<rparr>) t = same_queue s t"
  by (simp_all add: same_queue_def)

lemma same_queue_inv: "same_queue s t \<Longrightarrow> sched_inv c s \<Longrightarrow> sched_inv c t"
  by (simp add: same_queue_def sched_inv_def jobs_ok_def runnable_def)

lemma same_queue_jobs_ok: "same_queue s t \<Longrightarrow> jobs_ok c s \<Longrightarrow> jobs_ok c t"
  by (simp add: same_queue_def jobs_ok_def)

definition keeps_queue :: "('j, 'z) scheduler_scheme sched_ops \<Rightarrow> bool" where
  "keeps_queue ops \<longleftrightarrow>
     (\<forall>f t s s'. external_request ops = Some f \<longrightarrow> f t s = Inr s' \<longrightarrow> same_queue s s') \<and>
     (\<forall>f t s s'. time_advanced ops = Some f \<longrightarrow> f t s = Inr s' \<longrightarrow> same_queue s s') \<and>
     (\<forall>f s s'. next_time_changed ops = Some f \<longrightarrow> f s = Inr s' \<longrightarrow> same_queue s s')"

section \<open>Facts about single operations\<close>

lemma group_blocked_bit: "group_blocked g w \<longleftrightarrow> bit w (unat g)"
proof -
  have "push_bit (unat g) (1 :: u32) = 2 ^ unat g" by (simp add: push_bit_eq_mult)
  then show ?thesis
    by (metis and.commute and_exp_eq_0_iff_not_bit group_blocked_def)
qed

lemma group_blocked_or [simp]:
  "group_blocked g (a OR b) \<longleftrightarrow> group_blocked g a \<or> group_blocked g b"
  by (simp add: group_blocked_bit bit_or_iff)

lemma runs_after_key:
  assumes "in_window c (start_of s j)" and "in_window c (start_of s k)"
  shows "runs_after s j k \<longleftrightarrow> key_less c (job_of s j) (job_of s k)"
  using assms by (auto simp: runs_after_def key_less_def time_gt_window)

lemma request_same_queue:
  assumes "keeps_queue ops" and "usfstl_sched_external_request ops t s = Inr (b, s')"
  shows "same_queue s s'"
  using assms
  by (fastforce simp: usfstl_sched_external_request_def keeps_queue_def result_simps
      split: option.splits if_splits)

lemma next_time_changed_same_queue:
  "keeps_queue ops \<Longrightarrow> call_opt (next_time_changed ops) s = Inr s' \<Longrightarrow> same_queue s s'"
  by (auto simp: call_opt_def keeps_queue_def split: option.splits)

lemma set_time_internal_same_queue:
  assumes "keeps_queue ops" and "usfstl_sched_set_time_internal ops t s = Inr s'"
  shows "same_queue s s'"
  using assms
  by (fastforce simp: usfstl_sched_set_time_internal_def keeps_queue_def result_simps call_opt_def
      Let_def split: option.splits if_splits)

lemma set_time_same_queue:
  "keeps_queue ops \<Longrightarrow> usfstl_sched_set_time ops t s = Inr s' \<Longrightarrow> same_queue s s'"
  by (auto simp: usfstl_sched_set_time_def result_simps dest: set_time_internal_same_queue)

text \<open>Inserting one job keeps the jobs in order, and behind every job of the same key.\<close>

lemma insert_job_ok:
  assumes ok: "jobs_ok c s" and w: "in_window c (start_of s j)" and g: "group_of s j < 32"
    and new: "\<not> usfstl_job_scheduled j s"
  shows "jobs_ok c (s\<lparr>joblist := insert_first (runs_after s j) j (joblist s)\<rparr>)"
proof -
  have key: "runs_after s j k \<longleftrightarrow> key_less c (job_of s j) (job_of s k)" if "k \<in> set (joblist s)" for k
    using runs_after_key [OF w, of k] ok that by (auto simp: jobs_ok_def)
  have "sorted_wrt (\<lambda>a b. key_le c (job_of s a) (job_of s b))
      (insert_first (runs_after s j) j (joblist s))"
    using ok key
    by (intro sorted_wrt_insert_first)
      (auto simp: jobs_ok_def key_less_not_le intro: key_le_trans dest: key_less_imp_le [OF
        key_less_not_le [THEN iffD2]])
  then show ?thesis using ok w g new by (auto simp: jobs_ok_def usfstl_job_scheduled_def)
qed

lemma del_job_simps [simp]:
  "job_of (usfstl_sched_del_job j s) = job_of s"
  "current_time (usfstl_sched_del_job j s) = current_time s"
  "allowed_job (usfstl_sched_del_job j s) = allowed_job s"
  "blocked_groups (usfstl_sched_del_job j s) = blocked_groups s"
  by (simp_all add: usfstl_sched_del_job_def)

lemma del_job_lists:
  assumes "distinct (joblist s @ pending_jobs s)"
  shows "joblist (usfstl_sched_del_job j s) = remove1 j (joblist s)"
    and "pending_jobs (usfstl_sched_del_job j s) = remove1 j (pending_jobs s)"
  by (auto simp: usfstl_sched_del_job_def usfstl_job_scheduled_def remove1_idem)

lemma del_job_scheduled:
  "distinct (joblist s @ pending_jobs s) \<Longrightarrow>
     usfstl_job_scheduled k (usfstl_sched_del_job j s) \<longleftrightarrow> k \<noteq> j \<and> usfstl_job_scheduled k s"
  by (auto simp: usfstl_job_scheduled_def del_job_lists)

lemma del_job_ok: "jobs_ok c s \<Longrightarrow> jobs_ok c (usfstl_sched_del_job j s)"
proof -
  assume ok: "jobs_ok c s"
  then have d: "distinct (joblist s @ pending_jobs s)" by (simp add: jobs_ok_def)
  have "set (remove1 j xs) \<subseteq> set xs" for xs by (rule set_remove1_subset)
  then show ?thesis
    using ok d by (auto simp: jobs_ok_def del_job_lists [OF d] sorted_wrt_remove1)
qed

lemma runnable_del_job [simp]: "runnable (usfstl_sched_del_job j s) k = runnable s k"
  by (simp add: runnable_def)

lemma del_job_inv: "sched_inv c s \<Longrightarrow> sched_inv c (usfstl_sched_del_job j s)"
proof -
  assume inv: "sched_inv c s"
  then have d: "distinct (joblist s @ pending_jobs s)" by (simp add: sched_inv_def jobs_ok_def)
  show ?thesis
    using inv del_job_ok [of c s j] set_remove1_subset [of j "joblist s"]
    by (auto simp: sched_inv_def del_job_lists [OF d])
qed

section \<open>Adding a job\<close>

text \<open>What \<open>usfstl_sched_add_job\<close> promises about the queues, without the external calls.\<close>

definition insert_job :: "'j \<Rightarrow> ('j, 'z) scheduler_scheme \<Rightarrow> ('j, 'z) scheduler_scheme" where
  "insert_job j s =
     (if runnable s j then s\<lparr>joblist := insert_first (runs_after s j) j (joblist s)\<rparr>
      else (set_job_start j 0 s)\<lparr>pending_jobs := pending_jobs s @ [j]\<rparr>)"

lemma add_job_Inr:
  assumes "keeps_queue ops" and "usfstl_sched_add_job ops j s = Inr s'"
  shows "time_ge (start_of s j) (current_time s)" and "\<not> usfstl_job_scheduled j s"
    and "group_of s j < 32" and "same_queue (insert_job j s) s'"
proof -
  from assms(2) show 1: "time_ge (start_of s j) (current_time s)"
    "\<not> usfstl_job_scheduled j s" "group_of s j < 32"
    by (auto simp: usfstl_sched_add_job_def result_simps)
  show "same_queue (insert_job j s) s'"
  proof (cases "runnable s j")
    case True
    let ?s = "s\<lparr>joblist := insert_first (runs_after s j) j (joblist s)\<rparr>"
    have "\<not> (group_blocked (group_of s j) (blocked_groups s) \<and> Some j \<noteq> allowed_job s)"
      using True by (auto simp: runnable_def)
    then obtain b t where t: "usfstl_sched_external_request ops (start_of s j) ?s = Inr (b, t)"
      and s': "call_opt (next_time_changed ops) t = Inr s'"
      using assms(2) 1 by (auto simp: usfstl_sched_add_job_def result_simps)
    have "same_queue ?s t" using assms(1) t by (rule request_same_queue)
    moreover have "same_queue t s'" using assms(1) s' by (rule next_time_changed_same_queue)
    ultimately show ?thesis using True by (auto simp: insert_job_def intro: same_queue_trans)
  next
    case False
    then show ?thesis
      using assms(2) 1
      by (auto simp: usfstl_sched_add_job_def result_simps runnable_def insert_job_def
          set_job_start_def)
  qed
qed

lemma jobs_ok_set_start:
  assumes ok: "jobs_ok c s" and j: "j \<notin> set (joblist s)" and w: "in_window c t"
  shows "jobs_ok c (set_job_start j t s)"
proof -
  have same: "job_of (set_job_start j t s) x = job_of s x" if "x \<in> set (joblist s)" for x
    using that j by (auto simp: set_job_start_def)
  have "sorted_wrt (\<lambda>a b. key_le c (job_of (set_job_start j t s) a)
      (job_of (set_job_start j t s) b)) (joblist s)"
    using ok same
    by (subst sorted_wrt_cong_set [where Q = "\<lambda>a b. key_le c (job_of s a) (job_of s b)"])
      (simp_all add: jobs_ok_def)
  then show ?thesis using ok w by (simp add: jobs_ok_def set_job_start_def)
qed

lemma insert_job_inv:
  assumes inv: "sched_inv c s" and w: "in_window c (start_of s j)" "in_window c 0"
    and g: "group_of s j < 32" and new: "\<not> usfstl_job_scheduled j s"
  shows "sched_inv c (insert_job j s)"
proof (cases "runnable s j")
  case True
  then show ?thesis
    using insert_job_ok [of c s j] inv w g new
    by (auto simp: insert_job_def sched_inv_def runnable_def)
next
  case False
  have "jobs_ok c (set_job_start j 0 s)"
    by (rule jobs_ok_set_start)
      (use inv new w in \<open>auto simp: sched_inv_def usfstl_job_scheduled_def\<close>)
  then have "jobs_ok c ((set_job_start j 0 s)\<lparr>pending_jobs := pending_jobs s @ [j]\<rparr>)"
    using new w g by (auto simp: jobs_ok_def set_job_start_def usfstl_job_scheduled_def)
  then show ?thesis
    using False inv new
    by (auto simp: insert_job_def sched_inv_def runnable_def set_job_start_def
        usfstl_job_scheduled_def)
qed

lemma add_job_inv:
  assumes "keeps_queue ops" and "usfstl_sched_add_job ops j s = Inr s'"
    and "sched_inv c s" and "in_window c (start_of s j)" and "in_window c 0"
  shows "sched_inv c s'"
  using add_job_Inr [OF assms(1,2)] insert_job_inv [OF assms(3-5)] same_queue_inv by blast

lemma insert_first_split:
  "\<exists>xs ys. zs = xs @ ys \<and> insert_first P x zs = xs @ x # ys \<and> (\<forall>y \<in> set xs. \<not> P y) \<and>
     (case ys of [] \<Rightarrow> True | y # _ \<Rightarrow> P y)"
proof -
  have "case dropWhile (\<lambda>y. \<not> P y) zs of [] \<Rightarrow> True | y # _ \<Rightarrow> P y"
    by (induction zs) auto
  moreover have "\<forall>y \<in> set (takeWhile (\<lambda>y. \<not> P y) zs). \<not> P y"
    by (auto dest: set_takeWhileD)
  ultimately show ?thesis
    unfolding insert_first_def by (intro exI conjI) (rule takeWhile_dropWhile_id [symmetric], auto)
qed

text \<open>Claim C4: whatever the external scheduler does (as long as it leaves the job lists
  alone), \<open>usfstl_sched_add_job\<close> keeps the scheduler invariant (jobs distinct, ordered by
  time and then by descending priority, no blocked job runnable). A job that may run is
  inserted behind every job of an earlier or equal key and before every job of a strictly
  later one, so equal keys run first in, first out; a blocked job goes to the end of the
  pending list.\<close>

theorem add_job_inserts_in_order:
  assumes "keeps_queue ops" and "usfstl_sched_add_job ops j s = Inr s'"
    and inv: "sched_inv c s" and w: "in_window c (start_of s j)" "in_window c 0"
  shows "sched_inv c s' \<and>
    (runnable s j \<longrightarrow> pending_jobs s' = pending_jobs s \<and>
      (\<exists>xs ys. joblist s = xs @ ys \<and> joblist s' = xs @ j # ys \<and>
        (\<forall>x \<in> set xs. key_le c (job_of s x) (job_of s j)) \<and>
        (\<forall>y \<in> set ys. key_less c (job_of s j) (job_of s y)))) \<and>
    (\<not> runnable s j \<longrightarrow> joblist s' = joblist s \<and> pending_jobs s' = pending_jobs s @ [j])"
proof -
  note r = add_job_Inr [OF assms(1,2)]
  have inv': "sched_inv c s'" using add_job_inv [OF assms] .
  obtain xs ys where xy: "joblist s = xs @ ys"
    "insert_first (runs_after s j) j (joblist s) = xs @ j # ys"
    "\<forall>y \<in> set xs. \<not> runs_after s j y" "case ys of [] \<Rightarrow> True | y # _ \<Rightarrow> runs_after s j y"
    using insert_first_split by metis
  have key: "runs_after s j k \<longleftrightarrow> key_less c (job_of s j) (job_of s k)"
    if "k \<in> set (joblist s)" for k
    using runs_after_key [OF w(1), of k] inv that by (auto simp: sched_inv_def jobs_ok_def)
  have "\<forall>x \<in> set xs. key_le c (job_of s x) (job_of s j)"
    using xy(1,3) key by (auto simp: key_less_not_le)
  moreover have "\<forall>y \<in> set ys. key_less c (job_of s j) (job_of s y)"
  proof (cases ys)
    case Nil
    then show ?thesis by simp
  next
    case (Cons y zs)
    then have y: "key_less c (job_of s j) (job_of s y)" using xy(1,4) key by auto
    have "key_le c (job_of s y) (job_of s z)" if "z \<in> set zs" for z
      using inv xy(1) Cons that by (auto simp: sched_inv_def jobs_ok_def sorted_wrt_append)
    then have "key_less c (job_of s j) (job_of s z)" if "z \<in> set zs" for z
      using y that by (meson key_le_trans key_less_not_le)
    then show ?thesis using y Cons by simp
  qed
  ultimately show ?thesis
    using inv' r(4) xy(1,2)
    by (auto simp: insert_job_def same_queue_def set_job_start_def)
qed

section \<open>Running the next job\<close>

text \<open>What \<open>usfstl_sched_next\<close> does before it runs a job: it waits while there is none, and goes
  forward to the start of the first one as long as that does not stay the first.\<close>

inductive sched_waits ::
  "('j, 'z) scheduler_scheme sched_ops \<Rightarrow> ('j, 'z) scheduler_scheme \<Rightarrow>
   ('j, 'z) scheduler_scheme \<Rightarrow> bool" for ops where
  idle: "usfstl_sched_next_pending s = None \<Longrightarrow> usfstl_sched_external_wait ops s = Inr t \<Longrightarrow>
    sched_waits ops s t"
| forward: "usfstl_sched_next_pending s = Some h \<Longrightarrow>
    usfstl_sched_forward ops (start_of s h) s = Inr t \<Longrightarrow> sched_waits ops s t"

lemma next_progress:
  assumes "usfstl_sched_next fuel ops run s = Inr (j, s')"
  shows "\<exists>t s1. (sched_waits ops)\<^sup>*\<^sup>* s t \<and> usfstl_sched_next_pending s1 = Some j \<and>
    run j (usfstl_sched_del_job j s1) = Inr s' \<and> usfstl_sched_next_pending t = Some j \<and>
    (if time_gt (start_of t j) (current_time t)
     then usfstl_sched_forward ops (start_of t j) t = Inr s1 else s1 = t)"
  using assms
proof (induction fuel arbitrary: s)
  case 0
  then show ?case by simp
next
  case (Suc fuel)
  have more: ?case if "sched_waits ops s t" "usfstl_sched_next fuel ops run t = Inr (j, s')" for t
    using Suc.IH [OF that(2)] converse_rtranclp_into_rtranclp [of "sched_waits ops", OF that(1)]
    by blast
  show ?case
  proof (cases "usfstl_sched_next_pending s")
    case None
    then obtain t where t: "usfstl_sched_external_wait ops s = Inr t"
      "usfstl_sched_next fuel ops run t = Inr (j, s')"
      using Suc.prems(1) by (auto simp: result_simps split: if_splits)
    have "sched_waits ops s t" using None t(1) by (rule sched_waits.idle)
    then show ?thesis using t(2) by (rule more)
  next
    case (Some h)
    let ?gt = "time_gt (start_of s h) (current_time s)"
    obtain t where t: "(if ?gt then usfstl_sched_forward ops (start_of s h) s else Inr s) = Inr t"
      and r: "(if usfstl_sched_next_pending t \<noteq> Some h then usfstl_sched_next fuel ops run t
          else let s = usfstl_sched_del_job h t in rbind (run h s) (\<lambda>s. Inr (h, s))) = Inr (j, s')"
      using Suc.prems(1) Some by (auto simp: result_simps)
    show ?thesis
    proof (cases "usfstl_sched_next_pending t = Some h")
      case False
      then have g: ?gt using t Some by (auto split: if_splits)
      then have "sched_waits ops s t" using Some t by (simp add: sched_waits.forward)
      moreover have "usfstl_sched_next fuel ops run t = Inr (j, s')" using r False by simp
      ultimately show ?thesis by (rule more)
    next
      case True
      have j: "j = h" "run h (usfstl_sched_del_job h t) = Inr s'"
        using r True by (auto simp: result_simps Let_def)
      show ?thesis
        using j True Some t by (intro exI [of _ s] exI [of _ t]) (auto split: if_splits)
    qed
  qed
qed

text \<open>The contract of an external scheduler: its callbacks leave the job lists alone, and
  the handlers that run while the scheduler waits keep the invariant.\<close>

locale external_scheduler =
  fixes ops :: "('j, 'z) scheduler_scheme sched_ops" and c :: u64
  assumes request_keeps: "external_request ops = Some f \<Longrightarrow> sched_inv c s \<Longrightarrow> f t s = Inr s' \<Longrightarrow>
      sched_inv c s'"
    and advanced_keeps: "time_advanced ops = Some f \<Longrightarrow> sched_inv c s \<Longrightarrow> f t s = Inr s' \<Longrightarrow>
      sched_inv c s'"
    and wait_keeps: "external_wait ops = Some w \<Longrightarrow> sched_inv c s \<Longrightarrow> w s = Inr s' \<Longrightarrow>
      sched_inv c s'"
begin

lemma external_wait_inv:
  assumes "usfstl_sched_external_wait ops s = Inr s'" and "sched_inv c s"
  shows "sched_inv c s'"
proof -
  obtain w t where w: "external_wait ops = Some w"
    and t: "w (s\<lparr>prev_external_sync_set := False, sched_waiting := True\<rparr>) = Inr t"
    and s': "s' = t\<lparr>sched_waiting := False\<rparr>"
    using assms(1) by (auto simp: usfstl_sched_external_wait_def result_simps)
  have "sched_inv c (s\<lparr>prev_external_sync_set := False, sched_waiting := True\<rparr>)"
    by (rule same_queue_inv [OF _ assms(2)]) simp
  then have "sched_inv c t" using wait_keeps w t by blast
  then show ?thesis unfolding s' by (rule same_queue_inv [rotated]) simp
qed

lemma external_request_inv:
  assumes "usfstl_sched_external_request ops t s = Inr (b, s')" and "sched_inv c s"
  shows "sched_inv c s'"
proof -
  have "sched_inv c (s\<lparr>prev_external_sync := t, prev_external_sync_set := True\<rparr>)"
    by (rule same_queue_inv [OF _ assms(2)]) simp
  then show ?thesis
    using assms request_keeps
    by (auto simp: usfstl_sched_external_request_def result_simps split: option.splits if_splits)
qed

lemma set_time_internal_inv:
  assumes "usfstl_sched_set_time_internal ops t s = Inr s'" and "sched_inv c s"
  shows "sched_inv c s'"
proof -
  have "sched_inv c (s\<lparr>current_time := t\<rparr>)" by (rule same_queue_inv [OF _ assms(2)]) simp
  then show ?thesis
    using assms advanced_keeps
    by (auto simp: usfstl_sched_set_time_internal_def result_simps call_opt_def Let_def
        split: option.splits if_splits)
qed

lemma forward_inv:
  assumes "usfstl_sched_forward ops t s = Inr s'" and "sched_inv c s"
  shows "sched_inv c s'"
proof -
  obtain b u where u: "usfstl_sched_external_request ops t s = Inr (b, u)"
    and r: "(if b then usfstl_sched_external_wait ops u
             else usfstl_sched_set_time_internal ops t u) = Inr s'"
    using assms(1) by (auto simp: usfstl_sched_forward_def result_simps)
  have "sched_inv c u" using u assms(2) by (rule external_request_inv)
  then show ?thesis using r external_wait_inv set_time_internal_inv by (auto split: if_splits)
qed

lemma waits_inv:
  assumes "(sched_waits ops)\<^sup>*\<^sup>* s t" and "sched_inv c s"
  shows "sched_inv c t"
  using assms(1)
proof (induction rule: rtranclp_induct)
  case base
  show ?case by (rule assms(2))
next
  case (step t u)
  show ?case
    using step.hyps(2) step.IH by cases (blast intro: external_wait_inv forward_inv)+
qed

text \<open>Whatever happened while waiting, the job that is run is at that moment the first of
  the ordered list.\<close>

lemma next_runs_minimum:
  assumes "usfstl_sched_next fuel ops run s = Inr (j, s')" and "sched_inv c s"
  shows "\<exists>s1. sched_inv c s1 \<and> j \<in> set (joblist s1) \<and> runnable s1 j \<and>
    (\<forall>k \<in> set (joblist s1). key_le c (job_of s1 j) (job_of s1 k)) \<and>
    run j (usfstl_sched_del_job j s1) = Inr s'"
proof -
  obtain t s1 where w: "(sched_waits ops)\<^sup>*\<^sup>* s t" and h: "usfstl_sched_next_pending s1 = Some j"
    and r: "run j (usfstl_sched_del_job j s1) = Inr s'"
    and t: "if time_gt (start_of t j) (current_time t)
      then usfstl_sched_forward ops (start_of t j) t = Inr s1 else s1 = t"
    using next_progress [OF assms(1)] by (elim exE conjE) (rule that)
  have inv: "sched_inv c s1" using waits_inv [OF w assms(2)] t forward_inv [of _ t s1] by (simp split: if_splits)
  obtain js where "joblist s1 = j # js"
    using h by (auto simp: usfstl_sched_next_pending_def split: list.splits)
  then show ?thesis
    using r inv by (intro exI [of _ s1]) (auto simp: sched_inv_def jobs_ok_def key_le_def)
qed

end

section \<open>A scheduler without external integration\<close>

text \<open>\<open>USFSTL_SCHEDULER(name)\<close> leaves all function pointers NULL.\<close>

definition USFSTL_SCHEDULER_ops :: "'s sched_ops" where
  "USFSTL_SCHEDULER_ops = \<lparr>external_request = None, external_wait = None,
     external_sync_from = None, time_advanced = None, next_time_changed = None\<rparr>"

definition USFSTL_SCHEDULER :: "('j \<Rightarrow> job) \<Rightarrow> 'j scheduler" where
  "USFSTL_SCHEDULER jobs = \<lparr>job_of = jobs, current_time = 0, prev_external_sync = 0,
     next_external_sync = 0, joblist = [], pending_jobs = [], allowed_job = None,
     blocked_groups = 0, next_external_sync_set = False, prev_external_sync_set = False,
     sched_waiting = False\<rparr>"

interpretation internal: external_scheduler USFSTL_SCHEDULER_ops c for c
  by unfold_locales (simp_all add: USFSTL_SCHEDULER_ops_def)

lemma USFSTL_SCHEDULER_inv: "sched_inv c (USFSTL_SCHEDULER jobs)"
  by (simp add: USFSTL_SCHEDULER_def sched_inv_def jobs_ok_def)

text \<open>No queued job lies in the past.\<close>

definition not_past :: "u64 \<Rightarrow> ('j, 'z) scheduler_scheme \<Rightarrow> bool" where
  "not_past c s \<longleftrightarrow> in_window c (current_time s) \<and>
     (\<forall>j \<in> set (joblist s). ahead c (current_time s) \<le> ahead c (start_of s j))"

lemma del_first_job:
  "jobs_ok c s \<Longrightarrow> joblist s = j # js \<Longrightarrow> usfstl_sched_del_job j s = s\<lparr>joblist := js\<rparr>"
  by (auto simp: usfstl_sched_del_job_def usfstl_job_scheduled_def jobs_ok_def remove1_idem)

lemma next_first:
  assumes d: "distinct (joblist s @ pending_jobs s)"
    and ge: "\<And>j js. joblist s = j # js \<Longrightarrow> time_ge (start_of s j) (current_time s)"
  shows "usfstl_sched_next (Suc n) USFSTL_SCHEDULER_ops run s =
    (case joblist s of
       [] \<Rightarrow> Inl Assertion_failed
     | j # js \<Rightarrow>
         rbind (run j (s\<lparr>current_time := start_of s j, joblist := js\<rparr>)) (\<lambda>s. Inr (j, s)))"
proof (cases "joblist s")
  case Nil
  then show ?thesis by (simp add: usfstl_sched_next_pending_def USFSTL_SCHEDULER_ops_def)
next
  case (Cons j js)
  have "usfstl_sched_forward USFSTL_SCHEDULER_ops (start_of s j) s = Inr (s\<lparr>current_time := start_of s j\<rparr>)"
    using ge [OF Cons] by (simp add: usfstl_sched_forward_def usfstl_sched_external_request_def
        USFSTL_SCHEDULER_ops_def usfstl_sched_set_time_internal_def call_opt_def)
  moreover have "current_time s = start_of s j" if "\<not> time_gt (start_of s j) (current_time s)"
    using that ge [OF Cons] signed_eq_0_iff [of "current_time s - start_of s j"] by (auto simp: time_gt_def time_ge_def)
  ultimately have "(if time_gt (start_of s j) (current_time s)
      then usfstl_sched_forward USFSTL_SCHEDULER_ops (start_of s j) s else Inr s) =
      Inr (s\<lparr>current_time := start_of s j\<rparr>)" by auto
  moreover have "usfstl_sched_del_job j (s\<lparr>current_time := start_of s j\<rparr>) =
      s\<lparr>current_time := start_of s j, joblist := js\<rparr>"
    using d Cons by (auto simp: usfstl_sched_del_job_def usfstl_job_scheduled_def remove1_idem)
  ultimately show ?thesis using Cons by (simp add: usfstl_sched_next_pending_def)
qed

lemma next_internal:
  assumes inv: "sched_inv c s" and np: "not_past c s"
  shows "usfstl_sched_next (Suc n) USFSTL_SCHEDULER_ops run s =
    (case joblist s of
       [] \<Rightarrow> Inl Assertion_failed
     | j # js \<Rightarrow>
         rbind (run j (s\<lparr>current_time := start_of s j, joblist := js\<rparr>)) (\<lambda>s. Inr (j, s)))"
  by (rule next_first) (use inv np in \<open>auto simp: sched_inv_def jobs_ok_def not_past_def time_ge_window\<close>)

text \<open>Claim C5: without an external scheduler, \<open>usfstl_sched_next\<close> needs one iteration: it
  moves the clock to exactly the start time of the first job, takes that job (and nothing
  else) off the list and runs its callback; with nothing queued it aborts.\<close>

theorem sched_next_internal:
  assumes inv: "sched_inv c s" and np: "not_past c s"
  shows "usfstl_sched_next (Suc n) USFSTL_SCHEDULER_ops run s =
    (case joblist s of
       [] \<Rightarrow> Inl Assertion_failed
     | j # js \<Rightarrow>
         rbind (run j (s\<lparr>current_time := start_of s j, joblist := js\<rparr>)) (\<lambda>s. Inr (j, s)))"
  using assms by (rule next_internal)

text \<open>A run of the scheduler: the jobs that were run, with their start times (which is what
  the clock showed in their callbacks, by \<open>next_internal\<close>).\<close>

inductive internal_exec ::
  "('j \<Rightarrow> ('j, 'z) scheduler_scheme \<Rightarrow> ('j, 'z) scheduler_scheme result) \<Rightarrow>
   ('j, 'z) scheduler_scheme \<Rightarrow> ('j \<times> u64) list \<Rightarrow> ('j, 'z) scheduler_scheme \<Rightarrow> bool"
  for run where
  exec_nil: "internal_exec run s [] s"
| exec_next: "usfstl_sched_next (Suc n) USFSTL_SCHEDULER_ops run s = Inr (j, s1) \<Longrightarrow>
    internal_exec run s1 tr s2 \<Longrightarrow> internal_exec run s ((j, start_of s j) # tr) s2"

inductive_cases internal_exec_ConsE: "internal_exec run s ((j, t) # tr) s'"
inductive_simps internal_exec_Nil: "internal_exec run s [] s'"

section \<open>Blocking and restoring groups\<close>

definition restore_step ::
  "('j, 'z) scheduler_scheme sched_ops \<Rightarrow> 'j \<Rightarrow> ('j, 'z) scheduler_scheme \<Rightarrow>
   ('j, 'z) scheduler_scheme result" where
  "restore_step ops job s =
     (if Some job = allowed_job s \<or> \<not> group_blocked (group_of s job) (blocked_groups s)
      then usfstl_sched_restore_job ops job s else Inr s)"

lemma restore_blocked_jobs_fold:
  "usfstl_sched_restore_blocked_jobs ops s = rfold (restore_step ops) (pending_jobs s) s"
  by (simp add: usfstl_sched_restore_blocked_jobs_def restore_step_def [abs_def])

lemma remove_blocked_fold:
  assumes "distinct (us @ xs @ pending_jobs s)" and "joblist s = us @ xs"
  shows "fold (\<lambda>job s.
         if Some job = allowed_job s then s
         else if group_blocked (group_of s job) (blocked_groups s)
         then usfstl_sched_block_job job s else s) xs s =
    s\<lparr>joblist := us @ filter (runnable s) xs,
      pending_jobs := pending_jobs s @ filter (\<lambda>j. \<not> runnable s j) xs\<rparr>"
  using assms
proof (induction xs arbitrary: us s)
  case Nil
  then show ?case by simp
next
  case (Cons x xs)
  show ?case
  proof (cases "runnable s x")
    case True
    then show ?thesis using Cons.IH [of "us @ [x]" s] Cons.prems by (auto simp: runnable_def)
  next
    case False
    let ?t = "s\<lparr>joblist := us @ xs, pending_jobs := pending_jobs s @ [x]\<rparr>"
    have "usfstl_sched_block_job x s = ?t"
      using Cons.prems
      by (auto simp: usfstl_sched_block_job_def usfstl_sched_del_job_def usfstl_job_scheduled_def
          remove1_append remove1_idem)
    moreover have "runnable ?t = runnable s" by (simp add: runnable_def fun_eq_iff)
    ultimately show ?thesis
      using Cons.IH [of us ?t] Cons.prems False by (auto simp: runnable_def)
  qed
qed

lemma remove_blocked_jobs_eq:
  "distinct (joblist s @ pending_jobs s) \<Longrightarrow>
   usfstl_sched_remove_blocked_jobs s =
     s\<lparr>joblist := filter (runnable s) (joblist s),
       pending_jobs := pending_jobs s @ filter (\<lambda>j. \<not> runnable s j) (joblist s)\<rparr>"
  using remove_blocked_fold [of "[]" "joblist s" s]
  by (simp add: usfstl_sched_remove_blocked_jobs_def)

lemma remove_blocked_jobs_inv:
  assumes "jobs_ok c s"
  shows "sched_inv c (usfstl_sched_remove_blocked_jobs s)"
proof -
  have "distinct (joblist s @ pending_jobs s)" using assms by (simp add: jobs_ok_def)
  then show ?thesis
    using assms
    by (auto simp: remove_blocked_jobs_eq sched_inv_def jobs_ok_def runnable_def sorted_wrt_filter)
qed

text \<open>Library: \<open>usfstl_sched_block_groups\<close> reports the old restrictions, adds the groups to
  the blocked ones and moves exactly the jobs that may no longer run, in their order, from
  the ordered list to the end of the pending list.\<close>

theorem block_groups_splits_queue:
  assumes "usfstl_sched_block_groups groups job s = Inr (save, s')" and "sched_inv c s"
  shows "save = \<lparr>bd_groups = blocked_groups s, bd_job = allowed_job s\<rparr> \<and>
    sched_inv c s' \<and> job_of s' = job_of s \<and> allowed_job s' = job \<and>
    (\<forall>g. group_blocked g (blocked_groups s') \<longleftrightarrow>
       group_blocked g (blocked_groups s) \<or> group_blocked g groups) \<and>
    joblist s' = filter (runnable s') (joblist s) \<and>
    pending_jobs s' = pending_jobs s @ filter (\<lambda>j. \<not> runnable s' j) (joblist s)"
proof -
  let ?t = "s\<lparr>blocked_groups := blocked_groups s OR groups, allowed_job := job\<rparr>"
  have ok: "jobs_ok c ?t" using assms(2) by (simp add: sched_inv_def jobs_ok_def)
  then have d: "distinct (joblist ?t @ pending_jobs ?t)" by (simp add: jobs_ok_def)
  have s': "s' = usfstl_sched_remove_blocked_jobs ?t"
    and save: "save = \<lparr>bd_groups = blocked_groups s, bd_job = allowed_job s\<rparr>"
    using assms(1) by (simp_all add: usfstl_sched_block_groups_def result_simps)
  have r: "runnable s' = runnable ?t"
    unfolding s' by (simp add: remove_blocked_jobs_eq [OF d] runnable_def fun_eq_iff)
  show ?thesis
    using save r remove_blocked_jobs_inv [OF ok] remove_blocked_jobs_eq [OF d]
    unfolding s' by simp
qed

text \<open>The requests made while a job is added do not move the clock.\<close>

definition keeps_now :: "('j, 'z) scheduler_scheme sched_ops \<Rightarrow> bool" where
  "keeps_now ops \<longleftrightarrow>
     (\<forall>f t s s'. external_request ops = Some f \<longrightarrow> f t s = Inr s' \<longrightarrow>
        current_time s' = current_time s) \<and>
     (\<forall>f s s'. next_time_changed ops = Some f \<longrightarrow> f s = Inr s' \<longrightarrow>
        current_time s' = current_time s)"

lemma add_job_keeps_now:
  assumes "keeps_now ops" and "usfstl_sched_add_job ops j s = Inr s'"
  shows "current_time s' = current_time s"
  using assms
  by (fastforce simp: usfstl_sched_add_job_def usfstl_sched_external_request_def keeps_now_def
      result_simps call_opt_def set_job_start_def Let_def split: option.splits if_splits)

text \<open>The job as it is re-queued: a start time that passed while it was pending is moved to
  the current time.\<close>

definition restored :: "('j, 'z) scheduler_scheme \<Rightarrow> 'j \<Rightarrow> job" where
  "restored s j = (if time_lt (start_of s j) (current_time s)
     then (job_of s j)\<lparr>job_start := current_time s\<rparr> else job_of s j)"

lemma restored_window:
  assumes "in_window c (start_of s j)" and "in_window c (current_time s)"
  shows "in_window c (job_start (restored s j))"
    and "ahead c (job_start (restored s j)) = max (ahead c (start_of s j)) (ahead c (current_time s))"
    and "job_group (restored s j) = group_of s j"
  using assms by (auto simp: restored_def time_lt_window)

lemma set_start_restored:
  "(if time_lt (start_of s j) (current_time s) then set_job_start j (current_time s) s else s) =
   s\<lparr>job_of := (job_of s)(j := restored s j)\<rparr>"
  by (simp add: set_job_start_def restored_def)

lemma restore_job_shape:
  assumes ok: "jobs_ok c s" and w: "in_window c (current_time s)" and j: "j \<in> set (pending_jobs s)"
  defines "t \<equiv> s\<lparr>pending_jobs := remove1 j (pending_jobs s),
    job_of := (job_of s)(j := restored s j)\<rparr>"
  shows "usfstl_sched_restore_job ops j s = usfstl_sched_add_job ops j t"
    and "jobs_ok c t" and "\<not> usfstl_job_scheduled j t" and "in_window c (start_of t j)"
    and "group_of t j < 32" and "runnable t = runnable s"
proof -
  have d: "distinct (joblist s @ pending_jobs s)" using ok by (simp add: jobs_ok_def)
  have nj: "j \<notin> set (joblist s)" using d j by auto
  have js: "in_window c (start_of s j)" "group_of s j < 32" using ok j by (auto simp: jobs_ok_def)
  have del: "usfstl_sched_del_job j s = s\<lparr>pending_jobs := remove1 j (pending_jobs s)\<rparr>"
    using j nj by (simp add: usfstl_sched_del_job_def usfstl_job_scheduled_def remove1_idem)
  have rs: "restored (s\<lparr>pending_jobs := remove1 j (pending_jobs s)\<rparr>) j = restored s j"
    by (simp add: restored_def)
  show "usfstl_sched_restore_job ops j s = usfstl_sched_add_job ops j t"
    unfolding usfstl_sched_restore_job_def t_def Let_def del
    by (simp only: set_start_restored rs) simp
  show "\<not> usfstl_job_scheduled j t"
    using d nj by (simp add: t_def usfstl_job_scheduled_def)
  show "in_window c (start_of t j)" "group_of t j < 32"
    using restored_window [OF js(1) w] js(2) by (simp_all add: t_def)
  show "runnable t = runnable s"
    using restored_window(3) [OF js(1) w] by (auto simp: runnable_def t_def fun_eq_iff)
  have del_ok: "jobs_ok c (usfstl_sched_del_job j s)" using ok by (rule del_job_ok)
  have so: "sorted_wrt (\<lambda>a b. key_le c (job_of t a) (job_of t b)) (joblist s)"
    using ok nj
    by (subst sorted_wrt_cong_set [where Q = "\<lambda>a b. key_le c (job_of s a) (job_of s b)"])
      (auto simp: jobs_ok_def t_def)
  show "jobs_ok c t"
    using del_ok so d nj unfolding del by (auto simp: jobs_ok_def t_def)
qed

text \<open>One job of the pending list.\<close>

lemma restore_step_Inr:
  assumes q: "keeps_queue ops" "keeps_now ops"
    and ok: "jobs_ok c s" and w: "in_window c (current_time s)" and j: "j \<in> set (pending_jobs s)"
    and step: "restore_step ops j s = Inr s'"
  shows "jobs_ok c s'" and "current_time s' = current_time s" and "runnable s' = runnable s"
    and "blocked_groups s' = blocked_groups s" and "allowed_job s' = allowed_job s"
    and "pending_jobs s' = (if runnable s j then remove1 j (pending_jobs s) else pending_jobs s)"
    and "set (joblist s') = set (joblist s) \<union> {k. k = j \<and> runnable s j}"
    and "job_of s' = (if runnable s j then (job_of s)(j := restored s j) else job_of s)"
proof -
  have P: "jobs_ok c s' \<and> current_time s' = current_time s \<and> runnable s' = runnable s \<and>
     blocked_groups s' = blocked_groups s \<and> allowed_job s' = allowed_job s \<and>
     pending_jobs s' = (if runnable s j then remove1 j (pending_jobs s) else pending_jobs s) \<and>
     set (joblist s') = set (joblist s) \<union> {k. k = j \<and> runnable s j} \<and>
     job_of s' = (if runnable s j then (job_of s)(j := restored s j) else job_of s)"
  proof (cases "runnable s j")
    case False
    then show ?thesis using step ok by (auto simp: restore_step_def runnable_def split: if_splits)
  next
    case True
    define t where "t = s\<lparr>pending_jobs := remove1 j (pending_jobs s),
      job_of := (job_of s)(j := restored s j)\<rparr>"
    note t = restore_job_shape [OF ok w j, folded t_def]
    have add: "usfstl_sched_add_job ops j t = Inr s'"
      using step True by (simp add: restore_step_def runnable_def t(1))
    have ins: "insert_job j t = t\<lparr>joblist := insert_first (runs_after t j) j (joblist t)\<rparr>"
      using True t(6) by (simp add: insert_job_def)
    have sq: "same_queue (t\<lparr>joblist := insert_first (runs_after t j) j (joblist t)\<rparr>) s'"
      using add_job_Inr(4) [OF q(1) add] ins by simp
    have "jobs_ok c s'"
      using sq insert_job_ok [OF t(2,4,5,3)] by (rule same_queue_jobs_ok)
    moreover have "current_time s' = current_time s"
      using add_job_keeps_now [OF q(2) add] by (simp add: t_def)
    moreover have "runnable s' = runnable t"
      using sq by (simp add: same_queue_def runnable_def fun_eq_iff)
    ultimately show ?thesis using sq True t(6) by (auto simp: same_queue_def t_def)
  qed
  then show "jobs_ok c s'" and "current_time s' = current_time s" and "runnable s' = runnable s"
    and "blocked_groups s' = blocked_groups s" and "allowed_job s' = allowed_job s"
    and "pending_jobs s' = (if runnable s j then remove1 j (pending_jobs s) else pending_jobs s)"
    and "set (joblist s') = set (joblist s) \<union> {k. k = j \<and> runnable s j}"
    and "job_of s' = (if runnable s j then (job_of s)(j := restored s j) else job_of s)"
    by blast+
qed

text \<open>The whole loop, over the jobs \<open>xs\<close> still to be treated.\<close>

lemma restore_loop:
  assumes q: "keeps_queue ops" "keeps_now ops"
    and "rfold (restore_step ops) xs s = Inr s'"
    and "jobs_ok c s" and "in_window c (current_time s)"
    and "set xs \<subseteq> set (pending_jobs s)" and "distinct xs"
  shows "jobs_ok c s' \<and> current_time s' = current_time s \<and> runnable s' = runnable s \<and>
    blocked_groups s' = blocked_groups s \<and> allowed_job s' = allowed_job s \<and>
    set (pending_jobs s') = set (pending_jobs s) - {j \<in> set xs. runnable s j} \<and>
    set (joblist s') = set (joblist s) \<union> {j \<in> set xs. runnable s j} \<and>
    (\<forall>j. job_of s' j = (if j \<in> set xs \<and> runnable s j then restored s j else job_of s j))"
  using assms(3-)
proof (induction xs arbitrary: s)
  case Nil
  then show ?case by simp
next
  case (Cons x xs)
  obtain t where step: "restore_step ops x s = Inr t" and rest: "rfold (restore_step ops) xs t = Inr s'"
    using Cons.prems(1) by (auto simp: result_simps)
  have x: "x \<in> set (pending_jobs s)" using Cons.prems(4) by simp
  note t = restore_step_Inr [OF q Cons.prems(2,3) x step]
  have d: "distinct (pending_jobs s)" using Cons.prems(2) by (simp add: jobs_ok_def)
  have pt: "set (pending_jobs t) = set (pending_jobs s) - {k. k = x \<and> runnable s x}"
    using d by (simp add: t(6))
  have sub: "set xs \<subseteq> set (pending_jobs t)" using Cons.prems(4,5) pt by auto
  have w: "in_window c (current_time t)" using t(2) Cons.prems(3) by simp
  have ih: "jobs_ok c s' \<and> current_time s' = current_time t \<and> runnable s' = runnable t \<and>
    blocked_groups s' = blocked_groups t \<and> allowed_job s' = allowed_job t \<and>
    set (pending_jobs s') = set (pending_jobs t) - {j \<in> set xs. runnable t j} \<and>
    set (joblist s') = set (joblist t) \<union> {j \<in> set xs. runnable t j} \<and>
    (\<forall>j. job_of s' j = (if j \<in> set xs \<and> runnable t j then restored t j else job_of t j))"
    using Cons.IH [OF rest t(1) w sub] Cons.prems(5) by simp
  have r: "restored t j = restored s j" if "j \<in> set xs" for j
    using that Cons.prems(5) t(2) t(8) by (auto simp: restored_def)
  show ?case
    using ih t(2-5,7,8) pt r Cons.prems(5) by auto
qed

text \<open>The result of restoring, before the jobs that are now blocked are removed again.\<close>

lemma restore_groups_Inr:
  assumes q: "keeps_queue ops" "keeps_now ops"
    and inv: "jobs_ok c s" and w: "in_window c (current_time s)"
    and res: "usfstl_sched_restore_groups ops r s = Inr s'"
  shows "sched_inv c s'" and "blocked_groups s' = bd_groups r" and "allowed_job s' = bd_job r"
    and "\<forall>j \<in> set (joblist s) \<union> set (pending_jobs s).
      if runnable s' j then j \<in> set (joblist s') else j \<in> set (pending_jobs s')"
    and "set (joblist s') \<union> set (pending_jobs s') = set (joblist s) \<union> set (pending_jobs s)"
    and "\<forall>j. job_of s' j =
      (if j \<in> set (pending_jobs s) \<and> runnable s' j then restored s j else job_of s j)"
proof -
  define t where "t = s\<lparr>blocked_groups := bd_groups r, allowed_job := bd_job r\<rparr>"
  have tok: "jobs_ok c t" using inv by (simp add: t_def jobs_ok_def)
  have tw: "in_window c (current_time t)" using w by (simp add: t_def)
  obtain u where loop: "rfold (restore_step ops) (pending_jobs t) t = Inr u"
    and s': "s' = usfstl_sched_remove_blocked_jobs u"
    using res by (auto simp: usfstl_sched_restore_groups_def restore_blocked_jobs_fold result_simps
        t_def [symmetric])
  have d: "distinct (pending_jobs t)" using tok by (simp add: jobs_ok_def)
  note u = restore_loop [OF q loop tok tw order_refl d]
  have uok: "jobs_ok c u" using u by blast
  then have du: "distinct (joblist u @ pending_jobs u)" by (simp add: jobs_ok_def)
  have run: "runnable s' = runnable u"
    unfolding s' by (simp add: remove_blocked_jobs_eq [OF du] runnable_def fun_eq_iff)
  show "sched_inv c s'" unfolding s' using uok by (rule remove_blocked_jobs_inv)
  show "blocked_groups s' = bd_groups r" "allowed_job s' = bd_job r"
    using u unfolding s' by (simp_all add: remove_blocked_jobs_eq [OF du] t_def)
  show "\<forall>j \<in> set (joblist s) \<union> set (pending_jobs s).
      if runnable s' j then j \<in> set (joblist s') else j \<in> set (pending_jobs s')"
    unfolding run using u unfolding s' by (auto simp: remove_blocked_jobs_eq [OF du] t_def)
  show "set (joblist s') \<union> set (pending_jobs s') = set (joblist s) \<union> set (pending_jobs s)"
    using u unfolding s' by (auto simp: remove_blocked_jobs_eq [OF du] t_def)
  have rt: "restored t j = restored s j" for j by (simp add: restored_def t_def)
  show "\<forall>j. job_of s' j =
      (if j \<in> set (pending_jobs s) \<and> runnable s' j then restored s j else job_of s j)"
    unfolding run using u rt unfolding s' by (simp add: remove_blocked_jobs_eq [OF du] t_def)
qed

text \<open>Library: after \<open>usfstl_sched_restore_groups\<close> the restrictions are the saved ones, no job
  was lost or invented, every job that may run is in the ordered list and every other one is
  pending, and a job that comes back from the pending list starts no earlier than now.\<close>

theorem restore_groups_requeues:
  assumes "usfstl_sched_restore_groups ops r s = Inr s'"
    and "sched_inv c s" and "in_window c (current_time s)"
    and "keeps_queue ops" and "keeps_now ops"
  shows "sched_inv c s' \<and> blocked_groups s' = bd_groups r \<and> allowed_job s' = bd_job r \<and>
    set (joblist s') = {j. usfstl_job_scheduled j s \<and> runnable s' j} \<and>
    set (pending_jobs s') = {j. usfstl_job_scheduled j s \<and> \<not> runnable s' j} \<and>
    (\<forall>j \<in> set (pending_jobs s) \<inter> set (joblist s').
       ahead c (start_of s' j) = max (ahead c (start_of s j)) (ahead c (current_time s)))"
proof -
  have ok: "jobs_ok c s" using assms(2) by (simp add: sched_inv_def)
  note r = restore_groups_Inr [OF assms(4,5) ok assms(3,1)]
  have d: "set (joblist s') \<inter> set (pending_jobs s') = {}"
    using r(1) by (auto simp: sched_inv_def jobs_ok_def)
  have run: "\<forall>j \<in> set (joblist s'). runnable s' j" using r(1) by (simp add: sched_inv_def)
  have member: "j \<in> set (joblist s') \<or> j \<in> set (pending_jobs s') \<longleftrightarrow> usfstl_job_scheduled j s" for j
    using r(5) by (auto simp: usfstl_job_scheduled_def)
  have placed: "(runnable s' j \<longrightarrow> j \<in> set (joblist s')) \<and> (\<not> runnable s' j \<longrightarrow> j \<in> set (pending_jobs s'))"
    if "usfstl_job_scheduled j s" for j
    using r(4) that by (auto simp: usfstl_job_scheduled_def split: if_splits)
  have "ahead c (start_of s' j) = max (ahead c (start_of s j)) (ahead c (current_time s))"
    if "j \<in> set (pending_jobs s)" "j \<in> set (joblist s')" for j
    using that r(6) run ok restored_window(2) [of c s j] assms(3) by (auto simp: jobs_ok_def)
  then show ?thesis using r(1-3) d run member placed by blast
qed

section \<open>The order of execution\<close>

text \<open>What holds between two jobs: the queue is sorted as seen from the present, and no job of it lies in the
  past, that is, more than half the range of times ahead.\<close>

definition queue_ahead :: "('j, 'z) scheduler_scheme \<Rightarrow> bool" where
  "queue_ahead s \<longleftrightarrow> distinct (joblist s @ pending_jobs s) \<and>
     (\<forall>j \<in> set (joblist s). in_window (current_time s) (start_of s j)) \<and>
     sorted_wrt (\<lambda>a b. key_le (current_time s) (job_of s a) (job_of s b)) (joblist s)"

text \<open>The steps of a callback: it may prepare jobs that are not scheduled, use the operations of the scheduler, and
  do whatever does not concern the scheduler. The comparison of times cannot tell whether a time exactly half
  the range away lies ahead.\<close>

definition half_away :: "('j, 'z) scheduler_scheme \<Rightarrow> 'j \<Rightarrow> bool" where
  "half_away s j \<longleftrightarrow> start_of s j = current_time s + 2 ^ 63"

inductive callback_step :: "('j, 'z) scheduler_scheme \<Rightarrow> ('j, 'z) scheduler_scheme \<Rightarrow> bool" where
  step_other: "same_queue s t \<Longrightarrow> current_time t = current_time s \<Longrightarrow> callback_step s t"
| step_prepare: "\<not> usfstl_job_scheduled j s \<Longrightarrow> callback_step s (s\<lparr>job_of := (job_of s)(j := b)\<rparr>)"
| step_add: "usfstl_sched_add_job USFSTL_SCHEDULER_ops j s = Inr t \<Longrightarrow> \<not> half_away s j \<Longrightarrow> callback_step s t"
| step_del: "callback_step s (usfstl_sched_del_job j s)"
| step_block: "usfstl_sched_block_groups groups job s = Inr (save, t) \<Longrightarrow> callback_step s t"
| step_restore: "usfstl_sched_restore_groups USFSTL_SCHEDULER_ops save s = Inr t \<Longrightarrow>
    \<forall>j \<in> set (pending_jobs s). \<not> half_away s j \<Longrightarrow> callback_step s t"

lemma time_ge_window_now:
  assumes "time_ge t c" and "t \<noteq> c + 2 ^ 63"
  shows "in_window c t"
proof (cases "t = c")
  case False
  define x where "x = uint (t - c)"
  have x: "0 < x" "x < 2 ^ 64"
    using False uint_lt2p [of "t - c"] uint_ge_0 [of "t - c"] uint_0_iff [of "t - c"]
    by (simp_all add: x_def order.not_eq_order_implies_strict del: uint_ge_0)
  have "uint (- (t - c)) = (- x) mod 2 ^ 64" unfolding x_def uint_word_ariths(4) by simp
  also have "\<dots> = 2 ^ 64 - x" using x by (simp add: zmod_zminus1_eq_if)
  finally have u: "uint (c - t) = 2 ^ 64 - x" by simp
  have "x \<noteq> 2 ^ 63"
  proof
    assume "x = 2 ^ 63"
    then have "uint (t - c) = uint ((2 :: u64) ^ 63)" by (simp add: x_def)
    then have "t - c = 2 ^ 63" by (rule word_uint_eqI)
    then show False using assms(2) by (simp add: algebra_simps)
  qed
  moreover have "x \<le> 2 ^ 63"
  proof (rule ccontr)
    assume "\<not> x \<le> 2 ^ 63"
    then have "sint (c - t) = 2 ^ 64 - x" unfolding sint_eq_uint64 u by simp
    then show False using assms(1) x(2) by (simp add: time_ge_def)
  qed
  ultimately have "x < 2 ^ 63" by simp
  then have "int (unat (t - c)) < 2 ^ 63" unfolding x_def uint_int .
  then show ?thesis unfolding in_window_def ahead_def by (metis of_nat_less_iff of_nat_numeral of_nat_power)
qed simp

text \<open>The order of a list only depends on the keys of its jobs.\<close>

lemma sorted_keys_cong:
  assumes "\<And>k. k \<in> set xs \<Longrightarrow> job_of t k = job_of s k"
  shows "sorted_wrt (\<lambda>a b. key_le c (job_of t a) (job_of t b)) xs \<longleftrightarrow>
    sorted_wrt (\<lambda>a b. key_le c (job_of s a) (job_of s b)) xs"
  by (rule sorted_wrt_cong_set) (simp add: assms)

lemma add_job_ahead:
  assumes run: "usfstl_sched_add_job USFSTL_SCHEDULER_ops j s = Inr t" and inv: "queue_ahead s" and h: "\<not> half_away s j"
  shows "queue_ahead t \<and> current_time t = current_time s \<and> (\<forall>k. k \<noteq> j \<longrightarrow> job_of t k = job_of s k)"
proof -
  let ?c = "current_time s"
  have k: "keeps_queue USFSTL_SCHEDULER_ops" by (simp add: keeps_queue_def USFSTL_SCHEDULER_ops_def)
  note a = add_job_Inr [OF k run]
  have w: "in_window ?c (start_of s j)" using a(1) h by (intro time_ge_window_now) (simp_all add: half_away_def)
  have t: "t = insert_job j s"
    using run a(1-3) by (auto simp: usfstl_sched_add_job_def usfstl_sched_external_request_def USFSTL_SCHEDULER_ops_def
        call_opt_def insert_job_def runnable_def set_job_start_def Let_def)
  show ?thesis
  proof (cases "runnable s j")
    case True
    have "runs_after s j k \<longleftrightarrow> key_less ?c (job_of s j) (job_of s k)" if "k \<in> set (joblist s)" for k
      using runs_after_key [OF w] inv that by (auto simp: queue_ahead_def)
    then have "sorted_wrt (\<lambda>a b. key_le ?c (job_of s a) (job_of s b)) (insert_first (runs_after s j) j (joblist s))"
      using inv
      by (intro sorted_wrt_insert_first)
        (auto simp: queue_ahead_def key_less_not_le intro: key_le_trans dest: key_less_imp_le [OF
          key_less_not_le [THEN iffD2]])
    then show ?thesis using True inv a(2) w
      by (auto simp: t insert_job_def queue_ahead_def usfstl_job_scheduled_def)
  next
    case False
    then have e: "t = (set_job_start j 0 s)\<lparr>pending_jobs := pending_jobs s @ [j]\<rparr>" by (simp add: t insert_job_def)
    have same: "job_of t k = job_of s k" if "k \<noteq> j" for k using that by (simp add: e set_job_start_def)
    have queued: "job_of t k = job_of s k" if "k \<in> set (joblist s)" for k
      by (rule same) (use that a(2) in \<open>auto simp: usfstl_job_scheduled_def\<close>)
    have "joblist t = joblist s" "pending_jobs t = pending_jobs s @ [j]" "current_time t = ?c"
      by (simp_all add: e set_job_start_def)
    moreover have "sorted_wrt (\<lambda>a b. key_le ?c (job_of t a) (job_of t b)) (joblist s)"
      using inv sorted_keys_cong [of "joblist s" t s ?c, OF queued] by (simp add: queue_ahead_def)
    ultimately have "queue_ahead t" using inv a(2) queued
      by (simp add: queue_ahead_def usfstl_job_scheduled_def)
    then show ?thesis using same by (simp add: e set_job_start_def)
  qed
qed

lemma del_job_ahead:
  assumes "queue_ahead s"
  shows "queue_ahead (usfstl_sched_del_job j s)"
proof -
  have "distinct (joblist s @ pending_jobs s)" using assms by (simp add: queue_ahead_def)
  note l = del_job_lists [OF this, of j]
  show ?thesis
    using assms set_remove1_subset [of j "joblist s"] set_remove1_subset [of j "pending_jobs s"]
    by (auto simp: queue_ahead_def l sorted_wrt_remove1)
qed

lemma remove_blocked_ahead:
  assumes "queue_ahead s"
  shows "queue_ahead (usfstl_sched_remove_blocked_jobs s)"
    and "current_time (usfstl_sched_remove_blocked_jobs s) = current_time s"
proof -
  have "distinct (joblist s @ pending_jobs s)" using assms by (simp add: queue_ahead_def)
  note e = remove_blocked_jobs_eq [OF this]
  show "queue_ahead (usfstl_sched_remove_blocked_jobs s)" "current_time (usfstl_sched_remove_blocked_jobs s) = current_time s"
    using assms by (auto simp: e queue_ahead_def sorted_wrt_filter)
qed

lemma prepare_ahead:
  assumes new: "\<not> usfstl_job_scheduled j s" and inv: "queue_ahead s"
  shows "queue_ahead (s\<lparr>job_of := (job_of s)(j := b)\<rparr>)"
proof -
  let ?s = "s\<lparr>job_of := (job_of s)(j := b)\<rparr>"
  have same: "job_of ?s k = job_of s k" if "k \<in> set (joblist s)" for k
    using that new by (auto simp: usfstl_job_scheduled_def)
  have "sorted_wrt (\<lambda>a b. key_le (current_time s) (job_of ?s a) (job_of ?s b)) (joblist s)"
    using inv same by (subst sorted_keys_cong [where s = s]) (auto simp: queue_ahead_def)
  then show ?thesis using inv same by (simp add: queue_ahead_def del: fun_upd_apply)
qed

lemma restore_job_ahead:
  assumes run: "usfstl_sched_restore_job USFSTL_SCHEDULER_ops j s = Inr t" and inv: "queue_ahead s" and h: "\<not> half_away s j"
  shows "queue_ahead t \<and> current_time t = current_time s \<and> (\<forall>k. k \<noteq> j \<longrightarrow> job_of t k = job_of s k)"
proof -
  let ?d = "usfstl_sched_del_job j s"
  let ?u = "if time_lt (start_of ?d j) (current_time ?d) then set_job_start j (current_time ?d) ?d else ?d"
  have d: "queue_ahead ?d" by (rule del_job_ahead [OF inv])
  have new: "\<not> usfstl_job_scheduled j ?d"
    using inv by (simp add: del_job_scheduled queue_ahead_def)
  have "queue_ahead ?u"
    using d prepare_ahead [OF new d] by (simp add: set_job_start_def)
  moreover have "\<not> half_away ?u j" using h by (simp add: half_away_def set_job_start_def)
  moreover have "usfstl_sched_add_job USFSTL_SCHEDULER_ops j ?u = Inr t"
    using run by (simp add: usfstl_sched_restore_job_def Let_def)
  ultimately show ?thesis
    using add_job_ahead [of j ?u t] by (simp add: set_job_start_def split: if_splits)
qed

lemma restore_blocked_ahead:
  assumes "rfold (restore_step USFSTL_SCHEDULER_ops) js s = Inr t" and "queue_ahead s"
    and "\<forall>j \<in> set js. \<not> half_away s j" and "distinct js"
  shows "queue_ahead t \<and> current_time t = current_time s"
  using assms
proof (induction js arbitrary: s)
  case (Cons j js)
  obtain u where u: "restore_step USFSTL_SCHEDULER_ops j s = Inr u" "rfold (restore_step USFSTL_SCHEDULER_ops) js u = Inr t"
    using Cons.prems(1) by (auto simp: rbind_eq_Inr)
  have "queue_ahead u \<and> current_time u = current_time s \<and> (\<forall>k. k \<noteq> j \<longrightarrow> job_of u k = job_of s k)"
    using u(1) Cons.prems(2,3) restore_job_ahead [of j s u] by (auto simp: restore_step_def split: if_splits)
  moreover from this have "\<forall>k \<in> set js. \<not> half_away u k"
    using Cons.prems(3,4) by (auto simp: half_away_def)
  ultimately show ?case using Cons.IH [OF u(2)] Cons.prems(4) by simp
qed simp

lemma callback_step_ahead:
  assumes "callback_step s t" and "queue_ahead s"
  shows "queue_ahead t \<and> current_time t = current_time s"
  using assms
proof (cases rule: callback_step.cases)
  case step_other
  then show ?thesis using assms(2) by (simp add: queue_ahead_def same_queue_def)
next
  case (step_block groups job save)
  let ?s = "s\<lparr>blocked_groups := blocked_groups s OR groups, allowed_job := job\<rparr>"
  have t: "t = usfstl_sched_remove_blocked_jobs ?s"
    using step_block by (auto simp: usfstl_sched_block_groups_def rassert_eq_Inr Let_def)
  have "queue_ahead ?s" using assms(2) by (simp add: queue_ahead_def)
  then show ?thesis using remove_blocked_ahead [of ?s] by (simp add: t)
next
  case (step_restore save)
  let ?s = "s\<lparr>blocked_groups := bd_groups save, allowed_job := bd_job save\<rparr>"
  obtain u where u: "rfold (restore_step USFSTL_SCHEDULER_ops) (pending_jobs s) ?s = Inr u"
    "t = usfstl_sched_remove_blocked_jobs u"
    using step_restore by (auto simp: usfstl_sched_restore_groups_def restore_blocked_jobs_fold rbind_eq_Inr Let_def)
  have "queue_ahead ?s" "distinct (pending_jobs s)" using assms(2) by (simp_all add: queue_ahead_def)
  then have "queue_ahead u \<and> current_time u = current_time s"
    using restore_blocked_ahead [OF u(1)] step_restore by (simp add: half_away_def)
  then show ?thesis using remove_blocked_ahead [of u] by (simp add: u(2))
next
  case (step_add j)
  then show ?thesis using add_job_ahead [OF _ assms(2)] by blast
next
  case (step_del j)
  then show ?thesis using del_job_ahead [OF assms(2)] by simp
next
  case (step_prepare j b)
  then show ?thesis using prepare_ahead [OF _ assms(2)] by simp
qed

lemma callback_steps_ahead:
  assumes "callback_step\<^sup>*\<^sup>* s t" and "queue_ahead s"
  shows "queue_ahead t \<and> current_time t = current_time s"
  using assms by (induction rule: rtranclp_induct) (auto dest: callback_step_ahead)

text \<open>Advancing to the first job, as seen from there.\<close>

lemma queue_ahead_advance:
  assumes inv: "queue_ahead s" and js: "joblist s = j # js"
  shows "queue_ahead (s\<lparr>current_time := start_of s j, joblist := js\<rparr>)" and "time_ge (start_of s j) (current_time s)"
proof -
  let ?c = "current_time s" and ?t = "start_of s j"
  have w: "in_window ?c ?t" using inv js by (simp add: queue_ahead_def)
  then show "time_ge ?t ?c" by (rule in_window_time_ge)
  have k: "in_window ?c (start_of s k)" "ahead ?c ?t \<le> ahead ?c (start_of s k)" if "k \<in> set js" for k
    using that inv js by (auto simp: queue_ahead_def key_le_def)
  have a: "ahead ?t (start_of s k) = ahead ?c (start_of s k) - ahead ?c ?t" if "k \<in> set js" for k
    using ahead_diff [OF k(2) [OF that]] .
  then have "in_window ?t (start_of s k)" if "k \<in> set js" for k
    using that k(1) [OF that] by (simp add: in_window_def)
  moreover have "sorted_wrt (\<lambda>a b. key_le ?t (job_of s a) (job_of s b)) js"
  proof (rule sorted_wrt_mono_rel)
    show "sorted_wrt (\<lambda>a b. key_le ?c (job_of s a) (job_of s b)) js" using inv js by (simp add: queue_ahead_def)
    show "key_le ?t (job_of s x) (job_of s y)"
      if "x \<in> set js" "y \<in> set js" "key_le ?c (job_of s x) (job_of s y)" for x y
      using that k(2) by (auto simp: key_le_def a intro: diff_less_mono)
  qed
  ultimately show "queue_ahead (s\<lparr>current_time := start_of s j, joblist := js\<rparr>)"
    using inv js by (auto simp: queue_ahead_def)
qed

lemma successive_sorted:
  assumes "successively (\<lambda>a b. time_ge b a) ts" and "\<forall>t \<in> set ts. in_window c t"
  shows "sorted (map (ahead c) ts)"
  using assms by (induction ts rule: induct_list012) (auto simp: time_ge_window)

text \<open>Claim C3: discrete-event order. From a queue without jobs in the past, if the callbacks use the scheduler by its
  operations, adding, removing, blocking and restoring whatever jobs they like, then in every run the jobs
  are executed in the order of their start times: none lies before the one executed before it, and the
  first not before the present. If the run fits into half the range of times, the times are sorted. Afterwards the
  queue is again sorted and without jobs in the past, and the clock shows the time of the last job.\<close>

theorem internal_exec_in_time_order:
  assumes "internal_exec run s tr s'" and "queue_ahead s"
    and "\<And>j u u'. run j u = Inr u' \<Longrightarrow> callback_step\<^sup>*\<^sup>* u u'"
  shows "successively (\<lambda>a b. time_ge b a) (current_time s # map snd tr) \<and>
    ((\<forall>t \<in> set (current_time s # map snd tr). in_window c t) \<longrightarrow> sorted (map (ahead c) (current_time s # map snd tr))) \<and>
    queue_ahead s' \<and> current_time s' = last (current_time s # map snd tr)"
proof -
  have "successively (\<lambda>a b. time_ge b a) (current_time s # map snd tr) \<and> queue_ahead s' \<and>
      current_time s' = last (current_time s # map snd tr)"
    using assms(1,2)
  proof (induction rule: internal_exec.induct)
    case (exec_next n s j s1 tr s2)
    have d: "distinct (joblist s @ pending_jobs s)" using exec_next.prems by (simp add: queue_ahead_def)
    note adv = queue_ahead_advance [OF exec_next.prems]
    have "usfstl_sched_next (Suc n) USFSTL_SCHEDULER_ops run s =
        (case joblist s of [] \<Rightarrow> Inl Assertion_failed
         | j # js \<Rightarrow> rbind (run j (s\<lparr>current_time := start_of s j, joblist := js\<rparr>)) (\<lambda>s. Inr (j, s)))"
      by (rule next_first [OF d]) (rule adv(2))
    from exec_next.hyps(1) [unfolded this] obtain js where js: "joblist s = j # js"
      and run: "run j (s\<lparr>current_time := start_of s j, joblist := js\<rparr>) = Inr s1"
      by (auto simp: rbind_eq_Inr split: list.splits)
    have "queue_ahead s1 \<and> current_time s1 = start_of s j"
      using callback_steps_ahead [OF assms(3) [OF run] adv(1) [OF js]] by simp
    then show ?case using exec_next.IH adv(2) [OF js] by (auto simp: last_map split: if_splits)
  qed simp
  then show ?thesis using successive_sorted by blast
qed

section \<open>A concrete queue\<close>

text \<open>Three jobs: 1 and 2 at the same time (2 with the higher priority), 3 later and in
  group 4.\<close>

definition queue_jobs :: "nat \<Rightarrow> job" where
  "queue_jobs j =
     (if j = 1 then \<lparr>job_start = 10, job_priority = 0, job_group = 0\<rparr>
      else if j = 2 then \<lparr>job_start = 10, job_priority = 5, job_group = 1\<rparr>
      else \<lparr>job_start = 20, job_priority = 0, job_group = 4\<rparr>)"

definition queue_example :: "nat scheduler" where
  "queue_example = (USFSTL_SCHEDULER queue_jobs)\<lparr>joblist := [1, 3]\<rparr>"

definition queue_blocked :: "nat scheduler" where
  "queue_blocked = queue_example\<lparr>joblist := [1], pending_jobs := [3], blocked_groups := 16,
     current_time := 50\<rparr>"

lemmas queue_defs = queue_example_def queue_jobs_def USFSTL_SCHEDULER_def

lemma queue_example_inv: "sched_inv 0 queue_example" "not_past 0 queue_example"
  "sched_inv 0 queue_blocked"
  by (auto simp: queue_defs queue_blocked_def sched_inv_def jobs_ok_def runnable_def not_past_def
      key_le_def in_window_def ahead_def group_blocked_bit bit_iff_odd)

lemma queue_example_add:
  "usfstl_sched_add_job USFSTL_SCHEDULER_ops 2 queue_example =
     Inr (queue_example\<lparr>joblist := [2, 1, 3]\<rparr>)"
  by (simp add: usfstl_sched_add_job_def USFSTL_SCHEDULER_ops_def queue_defs time_ge_def
      usfstl_job_scheduled_def group_blocked_def usfstl_sched_external_request_def call_opt_def
      insert_first_Cons runs_after_def time_gt_def rassert_def sint_eq_uint64)

lemma add_job_inserts_in_order_witness:
  "runnable queue_example 2 \<and> pending_jobs (queue_example\<lparr>joblist := [2, 1, 3]\<rparr>) =
      pending_jobs queue_example"
proof -
  have "runnable queue_example 2" by (simp add: runnable_def group_blocked_def queue_defs)
  then show ?thesis
    using add_job_inserts_in_order [OF _ queue_example_add queue_example_inv(1)]
    by (simp add: keeps_queue_def USFSTL_SCHEDULER_ops_def queue_defs in_window_def ahead_def)
qed

lemma sched_next_internal_witness:
  "usfstl_sched_next (Suc 0) USFSTL_SCHEDULER_ops (\<lambda>_ s. Inr s) queue_example =
     Inr (1, queue_example\<lparr>current_time := 10, joblist := [3]\<rparr>)"
  by (subst sched_next_internal [OF queue_example_inv(1,2)]) (simp add: queue_defs)

text \<open>The callback of job 1 adds job 2 five ticks later, so that it is executed before job 3.\<close>

definition adding_callback :: "nat \<Rightarrow> nat scheduler \<Rightarrow> nat scheduler result" where
  "adding_callback j s =
     (if j = 1 then usfstl_sched_add_job USFSTL_SCHEDULER_ops 2 (set_job_start 2 (current_time s + 5) s) else Inr s)"

lemma adding_callback_steps:
  assumes "adding_callback j u = Inr u'"
  shows "callback_step\<^sup>*\<^sup>* u u'"
proof (cases "j = 1")
  case True
  let ?v = "u\<lparr>job_of := (job_of u)(2 := (job_of u 2)\<lparr>job_start := current_time u + 5\<rparr>)\<rparr>"
  have v: "set_job_start 2 (current_time u + 5) u = ?v" by (simp add: set_job_start_def)
  then have add: "usfstl_sched_add_job USFSTL_SCHEDULER_ops 2 ?v = Inr u'"
    using assms True by (simp add: adding_callback_def)
  then have "\<not> usfstl_job_scheduled 2 u"
    by (auto simp: usfstl_sched_add_job_def rassert_eq_Inr usfstl_job_scheduled_def)
  then have "callback_step u ?v" by (rule step_prepare)
  moreover have "callback_step ?v u'" by (rule step_add [OF add]) (simp add: half_away_def)
  ultimately show ?thesis by simp
qed (use assms in \<open>simp add: adding_callback_def\<close>)

lemma queue_example_ahead: "queue_ahead queue_example"
  by (simp add: queue_ahead_def queue_defs in_window_def ahead_def key_le_def)

lemma adding_callback_runs:
  "\<exists>s. internal_exec adding_callback queue_example [(1, 10), (2, 15), (3, 20)] s"
proof -
  note one = queue_defs adding_callback_def usfstl_sched_next_pending_def usfstl_sched_forward_def
      usfstl_sched_external_request_def USFSTL_SCHEDULER_ops_def usfstl_sched_set_time_internal_def usfstl_sched_del_job_def
      usfstl_sched_add_job_def usfstl_job_scheduled_def group_blocked_def call_opt_def set_job_start_def runs_after_def
      insert_first_Cons time_gt_def time_ge_def sint_eq_uint64 Let_def
  obtain s1 where s1: "usfstl_sched_next (Suc 0) USFSTL_SCHEDULER_ops adding_callback queue_example = Inr (1, s1)"
    "start_of queue_example 1 = 10" and q1: "joblist s1 = [2, 3]" "current_time s1 = 10" "pending_jobs s1 = []"
    "start_of s1 2 = 15" "start_of s1 3 = 20"
    by (simp add: one)
  obtain s2 where s2: "usfstl_sched_next (Suc 0) USFSTL_SCHEDULER_ops adding_callback s1 = Inr (2, s2)"
    and q2: "joblist s2 = [3]" "current_time s2 = 15" "pending_jobs s2 = []" "start_of s2 3 = 20"
    using q1 by (simp add: one)
  obtain s3 where s3: "usfstl_sched_next (Suc 0) USFSTL_SCHEDULER_ops adding_callback s2 = Inr (3, s3)"
    using q2 by (simp add: one)
  have "internal_exec adding_callback queue_example
      [(1, start_of queue_example 1), (2, start_of s1 2), (3, start_of s2 3)] s3"
    by (intro exec_next [OF s1(1)] exec_next [OF s2] exec_next [OF s3] exec_nil)
  then show ?thesis using s1(2) q1(4) q2(4) by auto
qed

lemma internal_exec_in_time_order_witness:
  "\<exists>s. internal_exec adding_callback queue_example [(1, 10), (2, 15), (3, 20)] s \<and> queue_ahead s \<and> current_time s = 20"
proof -
  obtain s where "internal_exec adding_callback queue_example [(1, 10), (2, 15), (3, 20)] s"
    using adding_callback_runs by blast
  from internal_exec_in_time_order [OF this queue_example_ahead adding_callback_steps] this show ?thesis by auto
qed

lemma block_groups_splits_queue_witness:
  "\<exists>save s'. usfstl_sched_block_groups 16 None queue_example = Inr (save, s') \<and>
     sched_inv 0 s' \<and> joblist s' = [1] \<and> pending_jobs s' = [3]"
proof -
  obtain save s' where r: "usfstl_sched_block_groups 16 None queue_example = Inr (save, s')"
    by (simp add: usfstl_sched_block_groups_def)
  have b: "group_blocked 4 16" "\<not> group_blocked 0 (16 :: u32)" "\<not> group_blocked g 0" for g
    by (simp_all add: group_blocked_def)
  show ?thesis
    using r block_groups_splits_queue [OF r queue_example_inv(1)]
    by (intro exI [of _ save] exI [of _ s']) (auto simp: queue_defs runnable_def b)
qed

lemma restore_groups_requeues_witness:
  "\<exists>s'. usfstl_sched_restore_groups USFSTL_SCHEDULER_ops \<lparr>bd_groups = 0, bd_job = None\<rparr>
       queue_blocked = Inr s' \<and> sched_inv 0 s' \<and> set (joblist s') = {1, 3} \<and>
     ahead 0 (start_of s' 3) = 50"
proof -
  have b: "\<not> group_blocked g 0" for g by (simp add: group_blocked_def)
  obtain s' where r: "usfstl_sched_restore_groups USFSTL_SCHEDULER_ops
      \<lparr>bd_groups = 0, bd_job = None\<rparr> queue_blocked = Inr s'"
    by (simp add: usfstl_sched_restore_groups_def usfstl_sched_restore_blocked_jobs_def
        queue_blocked_def queue_defs b usfstl_sched_restore_job_def usfstl_sched_del_job_def
        usfstl_job_scheduled_def set_job_start_def time_lt_def sint_eq_uint64
        usfstl_sched_add_job_def time_ge_def usfstl_sched_external_request_def call_opt_def
        USFSTL_SCHEDULER_ops_def)
  have w: "in_window 0 (current_time queue_blocked)"
    by (simp add: queue_blocked_def in_window_def ahead_def)
  have k: "keeps_queue USFSTL_SCHEDULER_ops" "keeps_now USFSTL_SCHEDULER_ops"
    by (simp_all add: USFSTL_SCHEDULER_ops_def keeps_queue_def keeps_now_def)
  note p = restore_groups_requeues [OF r queue_example_inv(3) w k]
  have "runnable s' j" for j using p by (simp add: runnable_def b)
  moreover have "{j. usfstl_job_scheduled j queue_blocked} = {1, 3}"
    by (auto simp: usfstl_job_scheduled_def queue_blocked_def)
  ultimately show ?thesis
    using r p by (auto simp: queue_blocked_def queue_defs ahead_def)
qed

end
