(* ===== verification/Wallclock.thy ===== *)
theory Wallclock
  imports Scheduler
begin

text \<open>
  The wall-clock integration of the scheduler, \<open>wmediumd/lib/wallclock.c\<close>. The state adds
  the \<open>wallclock\<close> part of \<open>struct usfstl_scheduler\<close> and the environment: the setting of the
  timer file descriptor, the readings \<open>clock_gettime\<close> will give and the answers \<open>select\<close>
  will give. The descriptors of the main loop are a list of pointers; \<open>timer\<close> is the one of
  \<open>wallclock.entry\<close>, the handlers of the others are the function \<open>others\<close>.
\<close>

section \<open>State and operations\<close>

record ('j, 'p) wallclock = "'j scheduler" +
  wc_start :: u64
  wc_nsec_per_tick :: u32
  wc_timer_triggered :: bool
  wc_initialized :: bool
  wc_timer :: "(u64 \<times> u64) option"
  wc_clock :: "(u64 \<times> u64) list"
  wc_entries :: "'p list"
  wc_answers :: "select_answer list"


text \<open>A readable timer descriptor gives its eight bytes.\<close>

definition usfstl_sched_wallclock_handle_fd ::
  "('j, 'p, 'z) wallclock_scheme \<Rightarrow> ('j, 'p, 'z) wallclock_scheme" where
  "usfstl_sched_wallclock_handle_fd s = s\<lparr>wc_timer_triggered := True\<rparr>"

definition clock_gettime ::
  "('j, 'p, 'z) wallclock_scheme \<Rightarrow> (u64 \<times> ('j, 'p, 'z) wallclock_scheme) result" where
  "clock_gettime s = (case wc_clock s of
       [] \<Rightarrow> Inl Starved
     | (sec, nsec) # readings \<Rightarrow>
         Inr (sec * 1000000000 + nsec, s\<lparr>wc_clock := readings\<rparr>))"

definition usfstl_sched_wallclock_initialize ::
  "('j, 'p, 'z) wallclock_scheme \<Rightarrow> ('j, 'p, 'z) wallclock_scheme result" where
  "usfstl_sched_wallclock_initialize s =
     rbind (clock_gettime s) (\<lambda>(now, s).
     Inr (s\<lparr>wc_start := now, wc_initialized := True\<rparr>))"

definition usfstl_sched_wallclock_request ::
  "u64 \<Rightarrow> ('j, 'p, 'z) wallclock_scheme \<Rightarrow> ('j, 'p, 'z) wallclock_scheme result" where
  "usfstl_sched_wallclock_request time s =
     (let nsec_per_tick = wc_nsec_per_tick s in
      rassert (nsec_per_tick \<noteq> 0)
        (rbind (if \<not> wc_initialized s then usfstl_sched_wallclock_initialize s else Inr s) (\<lambda>s.
          let waketime = wc_start s + ucast nsec_per_tick * time in
          Inr (s\<lparr>wc_timer := Some (waketime div 1000000000, waketime mod 1000000000)\<rparr>))))"

text \<open>One wait of the main loop, with the answers taken from the state.\<close>

definition wallclock_loop_step ::
  "('p \<Rightarrow> loop_entry) \<Rightarrow> (('j, 'p, 'z) wallclock_scheme \<Rightarrow> ('j, 'p, 'z) wallclock_scheme result) option
   \<Rightarrow> 'p \<Rightarrow> ('p \<Rightarrow> ('j, 'p, 'z) wallclock_scheme \<Rightarrow> ('j, 'p, 'z) wallclock_scheme result) \<Rightarrow>
   ('j, 'p, 'z) wallclock_scheme \<Rightarrow> ('j, 'p, 'z) wallclock_scheme result" where
  "wallclock_loop_step ent pre timer others s =
     rbind (usfstl_loop_wait_and_handle wc_entries ent pre
         (\<lambda>p s. if p = timer then Inr (usfstl_sched_wallclock_handle_fd s) else others p s)
         (wc_answers s) s)
       (\<lambda>(p, s, answers). Inr (s\<lparr>wc_answers := answers\<rparr>))"

fun wallclock_wait_loop ::
  "nat \<Rightarrow> ('p \<Rightarrow> loop_entry) \<Rightarrow> 'p \<Rightarrow>
   ('p \<Rightarrow> ('j, 'p, 'z) wallclock_scheme \<Rightarrow> ('j, 'p, 'z) wallclock_scheme result) \<Rightarrow>
   ('j, 'p, 'z) wallclock_scheme \<Rightarrow> ('j, 'p, 'z) wallclock_scheme result" where
  "wallclock_wait_loop fuel ent timer others s =
     (if wc_timer_triggered s then Inr s
      else case fuel of
        0 \<Rightarrow> Inl Out_of_fuel
      | Suc fuel \<Rightarrow> rbind (wallclock_loop_step ent None timer others s)
          (wallclock_wait_loop fuel ent timer others))"

declare wallclock_wait_loop.simps [simp del]

text \<open>\<open>usfstl_sched_set_time\<close> uses no other function pointer than \<open>time_advanced\<close>, which
  nobody sets.\<close>

definition usfstl_sched_wallclock_wait ::
  "nat \<Rightarrow> ('p \<Rightarrow> loop_entry) \<Rightarrow> 'p \<Rightarrow>
   ('p \<Rightarrow> ('j, 'p, 'z) wallclock_scheme \<Rightarrow> ('j, 'p, 'z) wallclock_scheme result) \<Rightarrow>
   ('j, 'p, 'z) wallclock_scheme \<Rightarrow> ('j, 'p, 'z) wallclock_scheme result" where
  "usfstl_sched_wallclock_wait fuel ent timer others s =
     (let s = s\<lparr>wc_timer_triggered := False\<rparr>;
          s = s\<lparr>wc_entries := usfstl_loop_register ent timer (wc_entries s)\<rparr>
      in rbind (wallclock_wait_loop fuel ent timer others s) (\<lambda>s.
         rbind (usfstl_loop_unregister timer (wc_entries s)) (\<lambda>es.
         let s = s\<lparr>wc_entries := es\<rparr> in
         usfstl_sched_set_time USFSTL_SCHEDULER_ops (prev_external_sync s) s)))"

text \<open>The function pointers after \<open>usfstl_sched_wallclock_init\<close>; the descriptor it creates is
  that of \<open>timer\<close>.\<close>

definition wallclock_ops ::
  "nat \<Rightarrow> ('p \<Rightarrow> loop_entry) \<Rightarrow> 'p \<Rightarrow>
   ('p \<Rightarrow> ('j, 'p, 'z) wallclock_scheme \<Rightarrow> ('j, 'p, 'z) wallclock_scheme result) \<Rightarrow>
   ('j, 'p, 'z) wallclock_scheme sched_ops" where
  "wallclock_ops fuel ent timer others = USFSTL_SCHEDULER_ops
     \<lparr>external_request := Some usfstl_sched_wallclock_request,
      external_wait := Some (usfstl_sched_wallclock_wait fuel ent timer others)\<rparr>"

definition usfstl_sched_wallclock_init ::
  "nat \<Rightarrow> ('p \<Rightarrow> loop_entry) \<Rightarrow> 'p \<Rightarrow>
   ('p \<Rightarrow> ('j, 'p, 'z) wallclock_scheme \<Rightarrow> ('j, 'p, 'z) wallclock_scheme result) \<Rightarrow> u32 \<Rightarrow>
   ('j, 'p, 'z) wallclock_scheme sched_ops \<Rightarrow> ('j, 'p, 'z) wallclock_scheme \<Rightarrow>
   (('j, 'p, 'z) wallclock_scheme sched_ops \<times> ('j, 'p, 'z) wallclock_scheme) result" where
  "usfstl_sched_wallclock_init fuel ent timer others ns_per_tick ops s =
     rassert (external_request ops = None \<and> external_wait ops = None)
       (Inr (ops\<lparr>external_request := Some usfstl_sched_wallclock_request,
                 external_wait := Some (usfstl_sched_wallclock_wait fuel ent timer others)\<rparr>,
             s\<lparr>wc_nsec_per_tick := ns_per_tick\<rparr>))"

text \<open>The comparison with the function pointers that \<open>usfstl_sched_wallclock_init\<close> set; the descriptor of the
  timer is closed.\<close>

definition usfstl_sched_wallclock_exit ::
  "nat \<Rightarrow> ('p \<Rightarrow> loop_entry) \<Rightarrow> 'p \<Rightarrow>
   ('p \<Rightarrow> ('j, 'p, 'z) wallclock_scheme \<Rightarrow> ('j, 'p, 'z) wallclock_scheme result) \<Rightarrow>
   ('j, 'p, 'z) wallclock_scheme sched_ops \<Rightarrow> ('j, 'p, 'z) wallclock_scheme \<Rightarrow>
   (('j, 'p, 'z) wallclock_scheme sched_ops \<times> ('j, 'p, 'z) wallclock_scheme) result" where
  "usfstl_sched_wallclock_exit fuel ent timer others ops s =
     rassert (external_request ops = Some usfstl_sched_wallclock_request \<and>
         external_wait ops = Some (usfstl_sched_wallclock_wait fuel ent timer others))
       (Inr (ops\<lparr>external_request := None, external_wait := None\<rparr>, s))"

definition usfstl_sched_wallclock_sync_real ::
  "('j, 'p, 'z) wallclock_scheme \<Rightarrow> ('j, 'p, 'z) wallclock_scheme result" where
  "usfstl_sched_wallclock_sync_real s =
     rbind (clock_gettime s) (\<lambda>(nowns, s).
       let nowns = nowns - wc_start s in
       if wc_nsec_per_tick s = 0 then Inl Division_by_zero
       else usfstl_sched_set_time USFSTL_SCHEDULER_ops (nowns div ucast (wc_nsec_per_tick s)) s)"

text \<open>The pre-handler is a global variable of the main loop: \<open>old\<close> is the one that was set.\<close>

definition usfstl_sched_wallclock_wait_and_handle ::
  "('p \<Rightarrow> loop_entry) \<Rightarrow> (('j, 'p, 'z) wallclock_scheme \<Rightarrow> ('j, 'p, 'z) wallclock_scheme result) option
   \<Rightarrow> 'p \<Rightarrow> ('p \<Rightarrow> ('j, 'p, 'z) wallclock_scheme \<Rightarrow> ('j, 'p, 'z) wallclock_scheme result) \<Rightarrow>
   ('j, 'p, 'z) wallclock_scheme \<Rightarrow> ('j, 'p, 'z) wallclock_scheme result" where
  "usfstl_sched_wallclock_wait_and_handle ent old timer others s =
     (if usfstl_sched_next_pending s \<noteq> None then Inr s
      else if \<not> wc_initialized s then wallclock_loop_step ent old timer others s
      else wallclock_loop_step ent (Some usfstl_sched_wallclock_sync_real) timer others s)"

section \<open>Properties\<close>

text \<open>Initialising and leaving the wall clock gives the old function pointers back.\<close>

lemma wallclock_init_exit:
  assumes "usfstl_sched_wallclock_init fuel ent timer others n ops s = Inr (ops', t)"
  shows "usfstl_sched_wallclock_exit fuel ent timer others ops' t = Inr (ops, s\<lparr>wc_nsec_per_tick := n\<rparr>)"
  using assms by (cases ops) (auto simp: usfstl_sched_wallclock_init_def usfstl_sched_wallclock_exit_def rassert_def split: if_splits)

lemma same_queue_wallclock [simp]:
  "same_queue s (t\<lparr>wc_start := a\<rparr>) = same_queue s t"
  "same_queue s (t\<lparr>wc_timer_triggered := b\<rparr>) = same_queue s t"
  "same_queue s (t\<lparr>wc_initialized := b\<rparr>) = same_queue s t"
  "same_queue s (t\<lparr>wc_timer := d\<rparr>) = same_queue s t"
  "same_queue s (t\<lparr>wc_clock := e\<rparr>) = same_queue s t"
  "same_queue s (t\<lparr>wc_entries := f\<rparr>) = same_queue s t"
  "same_queue s (t\<lparr>wc_answers := g\<rparr>) = same_queue s t"
  by (simp_all add: same_queue_def)

text \<open>Library: a request arms the timer at exactly the start of the scheduler's clock plus the
  requested number of ticks, as a valid pair of seconds and nanoseconds; the first request
  fixes the start, later ones keep it; the job queues and the clock of the scheduler are not
  touched.\<close>

theorem wallclock_request_arms_timer:
  assumes "usfstl_sched_wallclock_request time s = Inr s'"
  shows "(\<exists>sec nsec. wc_timer s' = Some (sec, nsec) \<and> unat nsec < 1000000000 \<and>
      sec * 1000000000 + nsec = wc_start s' + ucast (wc_nsec_per_tick s) * time) \<and>
    wc_initialized s' \<and> wc_nsec_per_tick s \<noteq> 0 \<and>
    (if wc_initialized s then wc_start s' = wc_start s \<and> wc_clock s' = wc_clock s
     else \<exists>sec nsec. wc_clock s = (sec, nsec) # wc_clock s' \<and>
       wc_start s' = sec * 1000000000 + nsec) \<and>
    same_queue s s' \<and> current_time s' = current_time s"
proof -
  have split: "w div 1000000000 * 1000000000 + w mod 1000000000 = w"
    and small: "unat (w mod 1000000000) < 1000000000" for w :: u64
    by (simp_all add: word_mod_div_equality unat_mod)
  show ?thesis
    using assms split small
    by (auto simp: usfstl_sched_wallclock_request_def usfstl_sched_wallclock_initialize_def
        clock_gettime_def result_simps Let_def split: if_splits list.splits)
qed

text \<open>An invariant of the handlers that the book-keeping of the wait does not see.\<close>

lemma wallclock_wait_loop_invariant:
  assumes "wallclock_wait_loop fuel ent timer others s = Inr s'" and "I s"
    and others: "\<And>p u v. I u \<Longrightarrow> others p u = Inr v \<Longrightarrow> I v"
    and "\<And>u b. I u \<Longrightarrow> I (u\<lparr>wc_timer_triggered := b\<rparr>)"
    and "\<And>u as. I u \<Longrightarrow> I (u\<lparr>wc_answers := as\<rparr>)"
  shows "I s' \<and> wc_timer_triggered s'"
  using assms(1,2)
proof (induction fuel arbitrary: s)
  case 0
  then show ?case by (subst (asm) wallclock_wait_loop.simps) (simp split: if_splits)
next
  case (Suc fuel)
  show ?case
  proof (cases "wc_timer_triggered s")
    case True
    then show ?thesis using Suc.prems by (subst (asm) wallclock_wait_loop.simps) simp
  next
    case False
    then obtain u where step: "wallclock_loop_step ent None timer others s = Inr u"
      and rest: "wallclock_wait_loop fuel ent timer others u = Inr s'"
      using Suc.prems(1) by (subst (asm) wallclock_wait_loop.simps) (auto simp: result_simps)
    obtain p v answers where v: "usfstl_loop_wait_and_handle wc_entries ent None
         (\<lambda>p s. if p = timer then Inr (usfstl_sched_wallclock_handle_fd s) else others p s)
         (wc_answers s) s = Inr (p, v, answers)" and u: "u = v\<lparr>wc_answers := answers\<rparr>"
      using step by (auto simp: wallclock_loop_step_def result_simps)
    have "I v"
      by (rule loop_wait_invariant [OF v])
        (use Suc.prems(2) others assms(4) in
          \<open>auto simp: usfstl_sched_wallclock_handle_fd_def split: if_splits\<close>)
    then have "I u" using assms(5) u by simp
    then show ?thesis using Suc.IH rest by blast
  qed
qed

lemma wallclock_wait_Inr:
  assumes "usfstl_sched_wallclock_wait fuel ent timer others s = Inr s'" and "I s"
    and others: "\<And>p u v. I u \<Longrightarrow> others p u = Inr v \<Longrightarrow> I v"
    and "\<And>u b. I u \<Longrightarrow> I (u\<lparr>wc_timer_triggered := b\<rparr>)"
    and "\<And>u as. I u \<Longrightarrow> I (u\<lparr>wc_answers := as\<rparr>)"
    and "\<And>u es. I u \<Longrightarrow> I (u\<lparr>wc_entries := es\<rparr>)"
    and "\<And>u t. I u \<Longrightarrow> I (u\<lparr>current_time := t\<rparr>)"
  shows "I s' \<and> wc_timer_triggered s' \<and> current_time s' = prev_external_sync s'"
proof -
  obtain u es where u: "wallclock_wait_loop fuel ent timer others
      (s\<lparr>wc_timer_triggered := False, wc_entries := usfstl_loop_register ent timer (wc_entries s)\<rparr>)
      = Inr u" and s': "usfstl_sched_set_time USFSTL_SCHEDULER_ops (prev_external_sync u)
        (u\<lparr>wc_entries := es\<rparr>) = Inr s'"
    using assms(1) by (auto simp: usfstl_sched_wallclock_wait_def result_simps Let_def)
  have "I u \<and> wc_timer_triggered u"
    by (rule wallclock_wait_loop_invariant [OF u]) (use assms in blast)+
  then show ?thesis
    using s' assms(6) assms(7) [of "u\<lparr>wc_entries := es\<rparr>"]
    by (auto simp: usfstl_sched_set_time_def usfstl_sched_set_time_internal_def result_simps
        call_opt_def USFSTL_SCHEDULER_ops_def Let_def split: if_splits)
qed

lemma wallclock_keeps_queue: "keeps_queue (wallclock_ops fuel ent timer others)"
  by (auto simp: keeps_queue_def wallclock_ops_def USFSTL_SCHEDULER_ops_def
      usfstl_sched_wallclock_request_def usfstl_sched_wallclock_initialize_def clock_gettime_def
      result_simps Let_def split: if_splits list.splits)

lemma wallclock_keeps_now: "keeps_now (wallclock_ops fuel ent timer others)"
  by (auto simp: keeps_now_def wallclock_ops_def USFSTL_SCHEDULER_ops_def
      usfstl_sched_wallclock_request_def usfstl_sched_wallclock_initialize_def clock_gettime_def
      result_simps Let_def split: if_splits list.splits)

text \<open>If the other handlers of the main loop keep the scheduler invariant, the wall clock
  meets the contract of an external scheduler.\<close>

lemma wallclock_external_scheduler:
  assumes "\<And>p u v. others p u = Inr v \<Longrightarrow> sched_inv c u \<Longrightarrow> sched_inv c v"
  shows "external_scheduler (wallclock_ops fuel ent timer others) c"
proof unfold_locales
  show "sched_inv c s'"
    if "external_request (wallclock_ops fuel ent timer others) = Some f" "sched_inv c s"
      "f t s = Inr s'" for f s s' and t
    using wallclock_keeps_queue [of fuel ent timer others] that
    by (auto simp: keeps_queue_def intro: same_queue_inv)
  show "sched_inv c s'"
    if "time_advanced (wallclock_ops fuel ent timer others) = Some f" for f s s' and t :: u64
    using that by (simp add: wallclock_ops_def USFSTL_SCHEDULER_ops_def)
  show "sched_inv c s'"
    if "external_wait (wallclock_ops fuel ent timer others) = Some w" "sched_inv c s"
      "w s = Inr s'" for w s s'
  proof -
    have wait: "usfstl_sched_wallclock_wait fuel ent timer others s = Inr s'"
      using that by (simp add: wallclock_ops_def)
    have "sched_inv c s' \<and> wc_timer_triggered s' \<and> current_time s' = prev_external_sync s'"
      by (rule wallclock_wait_Inr [where I = "sched_inv c", OF wait that(2)])
        (auto elim: assms intro: same_queue_inv [rotated])
    then show ?thesis by blast
  qed
qed

text \<open>Library: with the wall clock, and handlers of the other descriptors that keep the job
  queue well-formed (they may add and delete jobs while the scheduler waits), the job that
  \<open>usfstl_sched_next\<close> runs is at that moment runnable and the first in the order of start
  times and priorities, and it is no longer queued when its callback starts.\<close>

theorem wallclock_runs_first_job:
  assumes "usfstl_sched_next fuel (wallclock_ops n ent timer others) run s = Inr (j, s')"
    and "sched_inv c s"
    and "\<And>p u v. others p u = Inr v \<Longrightarrow> sched_inv c u \<Longrightarrow> sched_inv c v"
  shows "\<exists>s1. sched_inv c s1 \<and> runnable s1 j \<and>
    (\<forall>k \<in> set (joblist s1). key_le c (job_of s1 j) (job_of s1 k)) \<and>
    run j (usfstl_sched_del_job j s1) = Inr s' \<and>
    \<not> usfstl_job_scheduled j (usfstl_sched_del_job j s1)"
proof -
  have ext: "external_scheduler (wallclock_ops n ent timer others) c"
    using assms(3) by (rule wallclock_external_scheduler)
  obtain s1 where s1: "sched_inv c s1" "runnable s1 j" "run j (usfstl_sched_del_job j s1) = Inr s'"
    "\<forall>k \<in> set (joblist s1). key_le c (job_of s1 j) (job_of s1 k)"
    using external_scheduler.next_runs_minimum
      [OF ext assms(1,2)] by blast
  have "distinct (joblist s1 @ pending_jobs s1)" using s1(1) by (simp add: sched_inv_def jobs_ok_def)
  then show ?thesis using s1 by (auto simp: del_job_scheduled)
qed

text \<open>Library: \<open>usfstl_sched_wallclock_wait\<close> returns only after the timer fired, and then the
  scheduler's clock stands exactly at the last requested time.\<close>

theorem wallclock_wait_advances_clock:
  assumes "usfstl_sched_wallclock_wait fuel ent timer others s = Inr s'"
  shows "wc_timer_triggered s' \<and> current_time s' = prev_external_sync s'"
  using wallclock_wait_Inr [where I = "\<lambda>_. True", OF assms] by simp

text \<open>Library: synchronising with the real clock sets the scheduler to the ticks elapsed since
  the start, rounded down; so once the real time has reached what a request armed the timer
  with, the scheduler's clock has reached the requested time.\<close>

theorem wallclock_sync_real_elapsed:
  assumes "usfstl_sched_wallclock_sync_real s = Inr s'" and "wc_clock s = (sec, nsec) # rest"
    and now: "unat (sec * 1000000000 + nsec) = unat (wc_start s) + elapsed"
  shows "unat (current_time s') = elapsed div unat (wc_nsec_per_tick s) \<and>
    wc_start s' = wc_start s \<and> wc_nsec_per_tick s \<noteq> 0 \<and>
    (\<forall>time. unat (wc_nsec_per_tick s) * time \<le> elapsed \<longrightarrow> time \<le> unat (current_time s'))"
proof -
  let ?now = "sec * 1000000000 + nsec" and ?n = "wc_nsec_per_tick s"
  have n: "?n \<noteq> 0"
    using assms(1,2) by (auto simp: usfstl_sched_wallclock_sync_real_def clock_gettime_def
        result_simps split: if_splits)
  then have n': "0 < unat ?n" by (simp add: unat_gt_0)
  have e: "unat (?now - wc_start s) = elapsed"
    using now unat_sub [of "wc_start s" ?now] by (simp add: word_le_nat_alt)
  have u: "unat (ucast ?n :: u64) = unat ?n"
    by (rule unat_ucast_up) simp
  have ct: "current_time s' = (?now - wc_start s) div ucast ?n" "wc_start s' = wc_start s"
    using assms(1,2) n
    by (auto simp: usfstl_sched_wallclock_sync_real_def clock_gettime_def result_simps
        usfstl_sched_set_time_def usfstl_sched_set_time_internal_def call_opt_def
        USFSTL_SCHEDULER_ops_def Let_def split: if_splits)
  have c: "unat (current_time s') = elapsed div unat ?n"
    unfolding ct(1) unat_div u e ..
  have "time \<le> elapsed div unat ?n" if "unat ?n * time \<le> elapsed" for time
    using n' that by (simp add: less_eq_div_iff_mult_less_eq mult.commute)
  then show ?thesis using c ct(2) n by simp
qed

text \<open>Library: a job that may run always requests its own start time from the wall clock if
  that is not the time requested last, even if an earlier job is queued and was requested
  before: the timer then fires at the later time.\<close>

theorem wallclock_add_job_rearms_timer:
  assumes "usfstl_sched_add_job (wallclock_ops n ent timer others) j s = Inr s'"
    and "runnable s j" and "start_of s j \<noteq> prev_external_sync s"
    and "\<not> next_external_sync_set s"
  shows "prev_external_sync s' = start_of s j \<and>
    (\<exists>sec nsec. wc_timer s' = Some (sec, nsec) \<and>
      sec * 1000000000 + nsec = wc_start s' + ucast (wc_nsec_per_tick s) * start_of s j)"
proof -
  have split: "w div 1000000000 * 1000000000 + w mod 1000000000 = w" for w :: u64
    by (simp add: word_mod_div_equality)
  have g: "\<not> (group_blocked (group_of s j) (blocked_groups s) \<and> Some j \<noteq> allowed_job s)"
    using assms(2) by (auto simp: runnable_def)
  show ?thesis
    using assms(1,3,4) g split
    by (auto simp: usfstl_sched_add_job_def usfstl_sched_external_request_def wallclock_ops_def
        USFSTL_SCHEDULER_ops_def call_opt_def usfstl_sched_wallclock_request_def
        usfstl_sched_wallclock_initialize_def clock_gettime_def result_simps Let_def
        split: if_splits list.splits)
qed

section \<open>Concrete runs\<close>

text \<open>A clock of 1000 ns per tick that starts at second 5.\<close>

definition clock_example :: "(nat, nat) wallclock" where
  "clock_example =
     \<lparr>job_of = queue_jobs, current_time = 0, prev_external_sync = 0,
      next_external_sync = 0, joblist = [1, 3], pending_jobs = [], allowed_job = None,
      blocked_groups = 0, next_external_sync_set = False, prev_external_sync_set = False,
      sched_waiting = False,
      wc_start = 5000000000, wc_nsec_per_tick = 1000, wc_timer_triggered = False,
      wc_initialized = True, wc_timer = None, wc_clock = [(7, 0)], wc_entries = [],
      wc_answers = [\<lparr>sel_num = 1, sel_rd = [0], sel_exc = []\<rparr>]\<rparr>"

lemma clock_example_inv: "sched_inv 0 clock_example"
  using queue_example_inv(1)
  by (simp add: clock_example_def queue_defs sched_inv_def jobs_ok_def runnable_def)

text \<open>The timer has descriptor 0; descriptor 1 queues job 2 at time 4, descriptor 2 takes it
  off the queue again.\<close>

definition clock_others ::
  "nat \<Rightarrow> (nat, nat) wallclock \<Rightarrow> (nat, nat) wallclock result" where
  "clock_others p s =
     (if p = 1 then usfstl_sched_add_job
        (USFSTL_SCHEDULER_ops\<lparr>external_request := Some usfstl_sched_wallclock_request\<rparr>) 2
        (set_job_start 2 4 s)
      else Inr (usfstl_sched_del_job 2 s))"

text \<open>\<open>usfstl_sched_next\<close> re-checks only which job is first after waiting, not its time: if an
  earlier job was queued and deleted again while waiting, job 1 is run at time 4 although it
  was to start at 10.\<close>

lemma wallclock_run_early:
  "rbind (usfstl_sched_next 1 (wallclock_ops 3 example_entries 0 clock_others) (\<lambda>_. Inr)
       (clock_example\<lparr>wc_entries := [2, 1], wc_answers :=
          [\<lparr>sel_num = 1, sel_rd = [1], sel_exc = []\<rparr>, \<lparr>sel_num = 1, sel_rd = [2], sel_exc = []\<rparr>,
           \<lparr>sel_num = 1, sel_rd = [0], sel_exc = []\<rparr>]\<rparr>))
     (\<lambda>(j, s). Inr (j, start_of s j, current_time s)) = Inr (1, 10, 4)"
  by code_simp

lemma wallclock_request_arms_timer_witness:
  "\<exists>s'. usfstl_sched_wallclock_request 10 clock_example = Inr s' \<and> wc_initialized s' \<and>
     wc_timer s' \<noteq> None"
proof -
  obtain s' where r: "usfstl_sched_wallclock_request 10 clock_example = Inr s'"
    by (simp add: usfstl_sched_wallclock_request_def clock_example_def)
  then show ?thesis using wallclock_request_arms_timer [OF r] by auto
qed

lemma clock_example_runs:
  "\<exists>s'. usfstl_sched_next 1 (wallclock_ops 3 example_entries 0 (\<lambda>_. Inr)) (\<lambda>_. Inr)
     clock_example = Inr (1, s')"
proof -
  have "rbind (usfstl_sched_next 1 (wallclock_ops 3 example_entries 0 (\<lambda>_. Inr)) (\<lambda>_. Inr)
     clock_example) (\<lambda>(j, s). Inr j) = Inr (1 :: nat)"
    by code_simp
  then show ?thesis by (auto simp: rbind_eq_Inr simp del: usfstl_sched_next.simps)
qed

lemma wallclock_runs_first_job_witness:
  "\<exists>s1. sched_inv 0 s1 \<and> runnable s1 (1 :: nat) \<and>
     (\<forall>k \<in> set (joblist (s1 :: (nat, nat) wallclock)). key_le 0 (job_of s1 1) (job_of s1 k))"
proof -
  obtain s' where r: "usfstl_sched_next 1 (wallclock_ops 3 example_entries 0 (\<lambda>_. Inr)) (\<lambda>_. Inr)
     clock_example = Inr (1, s')"
    using clock_example_runs by blast
  show ?thesis using wallclock_runs_first_job [OF r clock_example_inv] by auto
qed

lemma wallclock_wait_advances_clock_witness:
  "\<exists>s'. usfstl_sched_wallclock_wait 3 example_entries 0 (\<lambda>_. Inr)
       (clock_example\<lparr>prev_external_sync := 10\<rparr>) = Inr s' \<and> current_time s' = prev_external_sync s'"
proof -
  have "rbind (usfstl_sched_wallclock_wait 3 example_entries 0 (\<lambda>_. Inr)
       (clock_example\<lparr>prev_external_sync := 10\<rparr>)) (\<lambda>s. Inr ()) = Inr ()"
    by code_simp
  then obtain s' where r: "usfstl_sched_wallclock_wait 3 example_entries 0 (\<lambda>_. Inr)
       (clock_example\<lparr>prev_external_sync := 10\<rparr>) = Inr s'"
    by (auto simp only: rbind_eq_Inr)
  show ?thesis using r wallclock_wait_advances_clock [OF r] by blast
qed

lemma wallclock_sync_real_elapsed_witness:
  "\<exists>s'. usfstl_sched_wallclock_sync_real (clock_example\<lparr>joblist := []\<rparr>) = Inr s' \<and>
     unat (current_time s') = 2000000000 div 1000"
proof -
  have "rbind (usfstl_sched_wallclock_sync_real (clock_example\<lparr>joblist := []\<rparr>)) (\<lambda>s. Inr ()) = Inr ()"
    by code_simp
  then obtain s' where r: "usfstl_sched_wallclock_sync_real (clock_example\<lparr>joblist := []\<rparr>) = Inr s'"
    by (auto simp only: rbind_eq_Inr)
  have "unat (current_time s') =
      2000000000 div unat (wc_nsec_per_tick (clock_example\<lparr>joblist := []\<rparr>))"
    using wallclock_sync_real_elapsed [OF r, of 7 0 "[]" 2000000000]
    by (simp add: clock_example_def)
  then show ?thesis using r by (simp add: clock_example_def)
qed

text \<open>Job 1 at time 10 is queued and requested; adding job 3 at time 20 moves the timer to the
  later time.\<close>

lemma wallclock_add_job_rearms_timer_witness:
  "\<exists>s'. usfstl_sched_add_job (wallclock_ops 3 example_entries 0 (\<lambda>_. Inr)) 3
       (clock_example\<lparr>joblist := [1], prev_external_sync := 10, prev_external_sync_set := True\<rparr>)
     = Inr s' \<and> prev_external_sync s' = 20"
proof -
  let ?s = "clock_example\<lparr>joblist := [1], prev_external_sync := 10, prev_external_sync_set := True\<rparr>"
  have "rbind (usfstl_sched_add_job (wallclock_ops 3 example_entries 0 (\<lambda>_. Inr)) 3 ?s)
      (\<lambda>s. Inr ()) = Inr ()"
    by code_simp
  then obtain s' where r: "usfstl_sched_add_job (wallclock_ops 3 example_entries 0 (\<lambda>_. Inr)) 3 ?s
      = Inr s'" by (auto simp only: rbind_eq_Inr)
  have "prev_external_sync s' = start_of ?s 3"
    using wallclock_add_job_rearms_timer [OF r]
    by (simp add: runnable_def group_blocked_def clock_example_def queue_jobs_def)
  then show ?thesis using r by (simp add: clock_example_def queue_jobs_def)
qed

end
