(* ===== verification/Sched_Control.thy ===== *)
theory Sched_Control
  imports Scheduler
begin

text \<open>
  The time-travel control connection of the scheduler, \<open>wmediumd/lib/schedctrl.c\<close> with the
  messages of \<open>wmediumd/inc/linux/um_timetravel.h\<close>. The state adds \<open>struct usfstl_sched_ctrl\<close>,
  the two static variables of \<open>usfstl_sched_ctrl_send_msg\<close> and the environment: the
  messages that will arrive on the control socket, those written to it, and which
  descriptors the main loop will find ready (\<open>None\<close> is the control socket, \<open>Some e\<close> another
  one, whose handler is \<open>others e\<close>).
\<close>

section \<open>State\<close>

record timetravel_msg =
  tt_op :: u32
  tt_seq :: u32
  tt_time :: u64

abbreviation (input) UM_TIMETRAVEL_ACK :: u32 where "UM_TIMETRAVEL_ACK \<equiv> 0"
abbreviation (input) UM_TIMETRAVEL_START :: u32 where "UM_TIMETRAVEL_START \<equiv> 1"
abbreviation (input) UM_TIMETRAVEL_REQUEST :: u32 where "UM_TIMETRAVEL_REQUEST \<equiv> 2"
abbreviation (input) UM_TIMETRAVEL_WAIT :: u32 where "UM_TIMETRAVEL_WAIT \<equiv> 3"
abbreviation (input) UM_TIMETRAVEL_GET :: u32 where "UM_TIMETRAVEL_GET \<equiv> 4"
abbreviation (input) UM_TIMETRAVEL_UPDATE :: u32 where "UM_TIMETRAVEL_UPDATE \<equiv> 5"
abbreviation (input) UM_TIMETRAVEL_RUN :: u32 where "UM_TIMETRAVEL_RUN \<equiv> 6"
abbreviation (input) UM_TIMETRAVEL_FREE_UNTIL :: u32 where "UM_TIMETRAVEL_FREE_UNTIL \<equiv> 7"
abbreviation (input) UM_TIMETRAVEL_GET_TOD :: u32 where "UM_TIMETRAVEL_GET_TOD \<equiv> 8"

record ('j, 'e) controlled = "'j scheduler" +
  sc_attached :: bool
  sc_ack_time :: u64
  sc_offset :: u64
  sc_nsec_per_tick :: u32
  sc_waiting :: bool
  sc_acked :: bool
  sc_frozen :: bool
  sc_started :: bool
  sc_expected_ack_seq :: u32
  sc_seq :: u32
  sc_old_expected :: u32
  sc_inbox :: "timetravel_msg list"
  sc_outbox :: "timetravel_msg list"
  sc_wakeups :: "'e option list"

section \<open>Operations\<close>

text \<open>\<open>_usfstl_sched_ctrl_send_msg\<close>; the write is complete, which the code asserts.\<close>

definition usfstl_sched_ctrl_write_msg ::
  "u32 \<Rightarrow> u64 \<Rightarrow> u32 \<Rightarrow> ('j, 'e, 'z) controlled_scheme \<Rightarrow> ('j, 'e, 'z) controlled_scheme" where
  "usfstl_sched_ctrl_write_msg op time seq s =
     s\<lparr>sc_outbox := sc_outbox s @ [\<lparr>tt_op = op, tt_seq = seq, tt_time = time\<rparr>]\<rparr>"

definition usfstl_sched_ctrl_sock_read ::
  "('j, 'e, 'z) controlled_scheme \<Rightarrow> ('j, 'e, 'z) controlled_scheme result" where
  "usfstl_sched_ctrl_sock_read s =
     (case sc_inbox s of
        [] \<Rightarrow> Inl Starved
      | msg # inbox \<Rightarrow>
          let s = s\<lparr>sc_inbox := inbox\<rparr>; op = tt_op msg;
              reply = (\<lambda>s. Inr (usfstl_sched_ctrl_write_msg UM_TIMETRAVEL_ACK 0 (tt_seq msg) s))
          in
          if op = UM_TIMETRAVEL_ACK
          then if tt_seq msg = sc_expected_ack_seq s
               then Inr (s\<lparr>sc_acked := True, sc_ack_time := tt_time msg\<rparr>) else Inr s
          else if op = UM_TIMETRAVEL_RUN
          then if sc_nsec_per_tick s = 0 then Inl Division_by_zero
               else let time = div_round_up (tt_time msg - sc_offset s) (ucast (sc_nsec_per_tick s))
                    in rbind (usfstl_sched_set_time USFSTL_SCHEDULER_ops time s)
                         (\<lambda>s. reply (s\<lparr>sc_waiting := False\<rparr>))
          else if op = UM_TIMETRAVEL_FREE_UNTIL
          then if sc_nsec_per_tick s = 0 then Inl Division_by_zero
               else let time = (tt_time msg - sc_offset s) div ucast (sc_nsec_per_tick s)
                    in rbind (usfstl_sched_set_sync_time time s) reply
          else if op \<in> {UM_TIMETRAVEL_START, UM_TIMETRAVEL_REQUEST, UM_TIMETRAVEL_WAIT,
                        UM_TIMETRAVEL_GET, UM_TIMETRAVEL_UPDATE, UM_TIMETRAVEL_GET_TOD}
          then Inl Assertion_failed
          else reply s)"

text \<open>One wait of the main loop.\<close>

definition ctrl_loop_step ::
  "('e \<Rightarrow> ('j, 'e, 'z) controlled_scheme \<Rightarrow> ('j, 'e, 'z) controlled_scheme result) \<Rightarrow>
   ('j, 'e, 'z) controlled_scheme \<Rightarrow> ('j, 'e, 'z) controlled_scheme result" where
  "ctrl_loop_step others s =
     (case sc_wakeups s of
        [] \<Rightarrow> Inl Starved
      | w # ws \<Rightarrow>
          let s = s\<lparr>sc_wakeups := ws\<rparr> in
          (case w of None \<Rightarrow> usfstl_sched_ctrl_sock_read s | Some e \<Rightarrow> others e s))"

text \<open>\<open>while (cond) usfstl_loop_wait_and_handle();\<close>\<close>

fun ctrl_loop_while ::
  "nat \<Rightarrow> (('j, 'e, 'z) controlled_scheme \<Rightarrow> bool) \<Rightarrow>
   ('e \<Rightarrow> ('j, 'e, 'z) controlled_scheme \<Rightarrow> ('j, 'e, 'z) controlled_scheme result) \<Rightarrow>
   ('j, 'e, 'z) controlled_scheme \<Rightarrow> ('j, 'e, 'z) controlled_scheme result" where
  "ctrl_loop_while 0 cond others s = (if cond s then Inl Out_of_fuel else Inr s)"
| "ctrl_loop_while (Suc fuel) cond others s =
     (if cond s then rbind (ctrl_loop_step others s) (ctrl_loop_while fuel cond others)
      else Inr s)"

definition next_seq :: "u32 \<Rightarrow> u32" where
  "next_seq seq = (if seq + 1 = 0 then seq + 2 else seq + 1)"

text \<open>The end of \<open>usfstl_sched_ctrl_send_msg\<close>: the answer to a GET carries the time.\<close>

definition ctrl_update_from_ack ::
  "u32 \<Rightarrow> ('j, 'e, 'z) controlled_scheme \<Rightarrow> ('j, 'e, 'z) controlled_scheme result" where
  "ctrl_update_from_ack op s =
     (if op = UM_TIMETRAVEL_GET
      then if sc_frozen s
           then let local = current_time s * ucast (sc_nsec_per_tick s)
                in Inr (s\<lparr>sc_offset := sc_ack_time s - local\<rparr>)
           else if sc_nsec_per_tick s = 0 then Inl Division_by_zero
           else let time = div_round_up (sc_ack_time s - sc_offset s) (ucast (sc_nsec_per_tick s))
                in usfstl_sched_set_time USFSTL_SCHEDULER_ops time s
      else Inr s)"

definition usfstl_sched_ctrl_send_msg ::
  "nat \<Rightarrow> ('e \<Rightarrow> ('j, 'e, 'z) controlled_scheme \<Rightarrow> ('j, 'e, 'z) controlled_scheme result) \<Rightarrow>
   u32 \<Rightarrow> u64 \<Rightarrow> ('j, 'e, 'z) controlled_scheme \<Rightarrow> ('j, 'e, 'z) controlled_scheme result" where
  "usfstl_sched_ctrl_send_msg fuel others op time s =
     (let s = s\<lparr>sc_seq := next_seq (sc_seq s)\<rparr>;
          s = usfstl_sched_ctrl_write_msg op time (sc_seq s) s;
          s = s\<lparr>sc_old_expected := sc_expected_ack_seq s\<rparr>;
          s = s\<lparr>sc_expected_ack_seq := sc_seq s\<rparr>
      in rassert (\<not> sc_acked s)
      (rbind (if op = UM_TIMETRAVEL_WAIT
              then rbind (usfstl_sched_ctrl_sock_read s) (\<lambda>s. rassert (sc_acked s) (Inr s))
              else Inr s) (\<lambda>s.
       rbind (ctrl_loop_while fuel (\<lambda>s. \<not> sc_acked s) others s) (\<lambda>s.
       let s = s\<lparr>sc_acked := False\<rparr>;
           s = s\<lparr>sc_expected_ack_seq := sc_old_expected s\<rparr>
       in ctrl_update_from_ack op s))))"

definition usfstl_sched_ctrl_request ::
  "nat \<Rightarrow> ('e \<Rightarrow> ('j, 'e, 'z) controlled_scheme \<Rightarrow> ('j, 'e, 'z) controlled_scheme result) \<Rightarrow>
   u64 \<Rightarrow> ('j, 'e, 'z) controlled_scheme \<Rightarrow> ('j, 'e, 'z) controlled_scheme result" where
  "usfstl_sched_ctrl_request fuel others time s =
     (if \<not> sc_started s then Inr s
      else usfstl_sched_ctrl_send_msg fuel others UM_TIMETRAVEL_REQUEST
             (time * ucast (sc_nsec_per_tick s) + sc_offset s) s)"

definition usfstl_sched_ctrl_wait ::
  "nat \<Rightarrow> ('e \<Rightarrow> ('j, 'e, 'z) controlled_scheme \<Rightarrow> ('j, 'e, 'z) controlled_scheme result) \<Rightarrow>
   ('j, 'e, 'z) controlled_scheme \<Rightarrow> ('j, 'e, 'z) controlled_scheme result" where
  "usfstl_sched_ctrl_wait fuel others s =
     (let s = s\<lparr>sc_waiting := True\<rparr> in
      rbind (usfstl_sched_ctrl_send_msg fuel others UM_TIMETRAVEL_WAIT (- 1) s)
        (ctrl_loop_while fuel sc_waiting others))"

definition ctrl_ops ::
  "nat \<Rightarrow> ('e \<Rightarrow> ('j, 'e, 'z) controlled_scheme \<Rightarrow> ('j, 'e, 'z) controlled_scheme result) \<Rightarrow>
   ('j, 'e, 'z) controlled_scheme sched_ops" where
  "ctrl_ops fuel others = USFSTL_SCHEDULER_ops
     \<lparr>external_request := Some (usfstl_sched_ctrl_request fuel others),
      external_wait := Some (usfstl_sched_ctrl_wait fuel others)\<rparr>"

text \<open>\<open>usfstl_sched_ctrl_start\<close>; the connection of the socket succeeds, which \<open>uds.c\<close> asserts.
  The old function pointers are the argument \<open>ops\<close>, the new ones are \<open>ctrl_ops\<close>.\<close>

definition usfstl_sched_ctrl_start ::
  "nat \<Rightarrow> ('e \<Rightarrow> ('j, 'e, 'z) controlled_scheme \<Rightarrow> ('j, 'e, 'z) controlled_scheme result) \<Rightarrow>
   u32 \<Rightarrow> u64 \<Rightarrow> ('j, 'e, 'z) controlled_scheme sched_ops \<Rightarrow> ('j, 'e, 'z) controlled_scheme \<Rightarrow>
   (('j, 'e, 'z) controlled_scheme sched_ops \<times> ('j, 'e, 'z) controlled_scheme) result" where
  "usfstl_sched_ctrl_start fuel others nsec_per_tick client_id ops s =
     rassert (\<not> sc_attached s)
     (let s = s\<lparr>sc_ack_time := 0, sc_waiting := False, sc_acked := False, sc_frozen := False,
                sc_started := False, sc_expected_ack_seq := 0,
                sc_offset := - current_time s * ucast nsec_per_tick,
                sc_nsec_per_tick := nsec_per_tick, sc_attached := True\<rparr>
      in rassert (usfstl_sched_next_pending s = None)
        (rassert (external_request ops = None)
        (rassert (external_wait ops = None)
        (let ops = ops\<lparr>external_request := Some (usfstl_sched_ctrl_request fuel others),
                       external_wait := Some (usfstl_sched_ctrl_wait fuel others)\<rparr>
         in rbind (usfstl_sched_ctrl_send_msg fuel others UM_TIMETRAVEL_START client_id s) (\<lambda>s.
            let s = s\<lparr>sc_started := True\<rparr> in
            rbind (case usfstl_sched_next_pending s of
                None \<Rightarrow> Inr s
              | Some job \<Rightarrow> usfstl_sched_ctrl_send_msg fuel others UM_TIMETRAVEL_REQUEST
                  (start_of s job * ucast nsec_per_tick) s)
              (\<lambda>s. Inr (ops, s)))))))"

definition usfstl_sched_ctrl_sync_to ::
  "nat \<Rightarrow> ('e \<Rightarrow> ('j, 'e, 'z) controlled_scheme \<Rightarrow> ('j, 'e, 'z) controlled_scheme result) \<Rightarrow>
   ('j, 'e, 'z) controlled_scheme \<Rightarrow> ('j, 'e, 'z) controlled_scheme result" where
  "usfstl_sched_ctrl_sync_to fuel others s =
     rassert (sc_started s)
       (rbind (usfstl_sched_current_time (ctrl_ops fuel others) s) (\<lambda>(now, s).
        let time = now * ucast (sc_nsec_per_tick s);
            time = time + sc_offset s
        in usfstl_sched_ctrl_send_msg fuel others UM_TIMETRAVEL_UPDATE time s))"

definition usfstl_sched_ctrl_sync_from ::
  "nat \<Rightarrow> ('e \<Rightarrow> ('j, 'e, 'z) controlled_scheme \<Rightarrow> ('j, 'e, 'z) controlled_scheme result) \<Rightarrow>
   ('j, 'e, 'z) controlled_scheme \<Rightarrow> ('j, 'e, 'z) controlled_scheme result" where
  "usfstl_sched_ctrl_sync_from fuel others s =
     (if \<not> sc_started s then Inr s
      else usfstl_sched_ctrl_send_msg fuel others UM_TIMETRAVEL_GET (- 1) s)"

definition usfstl_sched_ctrl_stop ::
  "nat \<Rightarrow> ('e \<Rightarrow> ('j, 'e, 'z) controlled_scheme \<Rightarrow> ('j, 'e, 'z) controlled_scheme result) \<Rightarrow>
   ('j, 'e, 'z) controlled_scheme sched_ops \<Rightarrow> ('j, 'e, 'z) controlled_scheme \<Rightarrow>
   (('j, 'e, 'z) controlled_scheme sched_ops \<times> ('j, 'e, 'z) controlled_scheme) result" where
  "usfstl_sched_ctrl_stop fuel others ops s =
     rassert (sc_attached s)
       (rbind (usfstl_sched_ctrl_send_msg fuel others UM_TIMETRAVEL_WAIT (- 1) s) (\<lambda>s.
        Inr (ops\<lparr>external_request := None, external_wait := None\<rparr>, s\<lparr>sc_attached := False\<rparr>)))"

definition usfstl_sched_ctrl_set_frozen ::
  "bool \<Rightarrow> ('j, 'e, 'z) controlled_scheme \<Rightarrow> ('j, 'e, 'z) controlled_scheme" where
  "usfstl_sched_ctrl_set_frozen frozen s = s\<lparr>sc_frozen := frozen\<rparr>"

section \<open>One message\<close>

lemma next_seq_nonzero [simp]: "next_seq q \<noteq> 0"
proof (cases "q + 1 = 0")
  case True
  then have "q = - 1" by (simp only: eq_neg_iff_add_eq_0)
  then show ?thesis by (simp add: next_seq_def)
next
  case False
  then show ?thesis by (simp only: next_seq_def if_False not_False_eq_True)
qed

text \<open>The reply to a message.\<close>

definition ack_reply :: "timetravel_msg \<Rightarrow> timetravel_msg list" where
  "ack_reply m = (if tt_op m = UM_TIMETRAVEL_ACK then []
     else [\<lparr>tt_op = UM_TIMETRAVEL_ACK, tt_seq = tt_seq m, tt_time = 0\<rparr>])"

definition acks :: "u32 \<Rightarrow> timetravel_msg \<Rightarrow> bool" where
  "acks q m \<longleftrightarrow> tt_op m = UM_TIMETRAVEL_ACK \<and> tt_seq m = q"

text \<open>The book-keeping of the connection that messages from the remote side leave alone.\<close>

definition same_ctrl :: "('j, 'e, 'z) controlled_scheme \<Rightarrow> ('j, 'e, 'z) controlled_scheme \<Rightarrow> bool" where
  "same_ctrl s t \<longleftrightarrow> sc_expected_ack_seq t = sc_expected_ack_seq s \<and> sc_seq t = sc_seq s \<and>
     sc_old_expected t = sc_old_expected s \<and> sc_offset t = sc_offset s \<and>
     sc_nsec_per_tick t = sc_nsec_per_tick s \<and> sc_frozen t = sc_frozen s \<and>
     sc_started t = sc_started s \<and> sc_attached t = sc_attached s"

lemma same_ctrl_trans: "same_ctrl s t \<Longrightarrow> same_ctrl t u \<Longrightarrow> same_ctrl s u"
  by (simp add: same_ctrl_def)

lemma set_time_default:
  "usfstl_sched_set_time USFSTL_SCHEDULER_ops time s =
     rassert (joblist s = [] \<or> time_le time (prev_external_sync s))
      (rassert (current_time s = time \<or> time_ge time (current_time s))
        (Inr (s\<lparr>current_time := time\<rparr>)))"
  by (auto simp: usfstl_sched_set_time_def usfstl_sched_set_time_internal_def rassert_def
      call_opt_def USFSTL_SCHEDULER_ops_def)

lemma sock_read_Inr:
  assumes "usfstl_sched_ctrl_sock_read s = Inr s'"
  shows "\<exists>m. sc_inbox s = m # sc_inbox s' \<and> sc_outbox s' = sc_outbox s @ ack_reply m \<and>
    same_ctrl s s' \<and> same_queue s s' \<and>
    sc_acked s' = (sc_acked s \<or> acks (sc_expected_ack_seq s) m) \<and>
    (acks (sc_expected_ack_seq s) m \<longrightarrow> sc_ack_time s' = tt_time m) \<and>
    (tt_op m = UM_TIMETRAVEL_RUN \<longrightarrow> \<not> sc_waiting s' \<and> current_time s' =
       div_round_up (tt_time m - sc_offset s) (ucast (sc_nsec_per_tick s))) \<and>
    (tt_op m \<noteq> UM_TIMETRAVEL_RUN \<longrightarrow> sc_waiting s' = sc_waiting s \<and> current_time s' = current_time s)"
proof -
  obtain m inbox where i: "sc_inbox s = m # inbox"
    using assms by (cases "sc_inbox s") (auto simp: usfstl_sched_ctrl_sock_read_def)
  show ?thesis
    using assms i
    by (auto simp: usfstl_sched_ctrl_sock_read_def ack_reply_def acks_def same_ctrl_def
        same_queue_def usfstl_sched_ctrl_write_msg_def set_time_default
        usfstl_sched_set_sync_time_def result_simps Let_def split: if_splits)
qed

section \<open>Waiting for the acknowledgement\<close>

text \<open>From \<open>s\<close> to \<open>s'\<close> exactly the messages \<open>used\<close> were read and answered.\<close>

definition received ::
  "('j, 'e, 'z) controlled_scheme \<Rightarrow> timetravel_msg list \<Rightarrow> ('j, 'e, 'z) controlled_scheme \<Rightarrow> bool" where
  "received s used s' \<longleftrightarrow> sc_inbox s = used @ sc_inbox s' \<and>
     sc_outbox s' = sc_outbox s @ concat (map ack_reply used) \<and> same_ctrl s s'"

lemma received_trans:
  "received s us t \<Longrightarrow> received t vs u \<Longrightarrow> received s (us @ vs) u"
  by (auto simp: received_def intro: same_ctrl_trans)

text \<open>Handlers of the other descriptors that leave the connection alone; they may do anything
  with the job queues and the clock.\<close>

definition quiet :: "('e \<Rightarrow> ('j, 'e, 'z) controlled_scheme \<Rightarrow> ('j, 'e, 'z) controlled_scheme result) \<Rightarrow> bool" where
  "quiet others \<longleftrightarrow> (\<forall>e s s'. others e s = Inr s' \<longrightarrow>
     received s [] s' \<and> sc_acked s' = sc_acked s \<and> sc_ack_time s' = sc_ack_time s \<and>
     sc_waiting s' = sc_waiting s)"

text \<open>Handlers that leave the job queues alone, and the weaker condition that they may also use
  the connection as long as they restore the number that is waited for: they may read and
  write messages, for example send some of their own.\<close>

definition queue_kept ::
  "('e \<Rightarrow> ('j, 'e, 'z) controlled_scheme \<Rightarrow> ('j, 'e, 'z) controlled_scheme result) \<Rightarrow> bool" where
  "queue_kept others \<longleftrightarrow> (\<forall>e s s'. others e s = Inr s' \<longrightarrow> same_queue s s')"

definition exchanged :: "('j, 'e, 'z) controlled_scheme \<Rightarrow> ('j, 'e, 'z) controlled_scheme \<Rightarrow> bool" where
  "exchanged s s' \<longleftrightarrow> (\<exists>us ws. sc_inbox s = us @ sc_inbox s' \<and> sc_outbox s' = sc_outbox s @ ws)"

definition nests :: "('e \<Rightarrow> ('j, 'e, 'z) controlled_scheme \<Rightarrow> ('j, 'e, 'z) controlled_scheme result) \<Rightarrow> bool" where
  "nests others \<longleftrightarrow> (\<forall>e s s'. \<not> sc_acked s \<longrightarrow> others e s = Inr s' \<longrightarrow>
     exchanged s s' \<and> \<not> sc_acked s' \<and> sc_expected_ack_seq s' = sc_expected_ack_seq s)"

lemma exchanged_trans: "exchanged s t \<Longrightarrow> exchanged t u \<Longrightarrow> exchanged s u"
  by (fastforce simp: exchanged_def)

lemma quiet_nests: "quiet others \<Longrightarrow> nests others"
  by (auto simp: quiet_def nests_def received_def same_ctrl_def exchanged_def)

text \<open>What depends on the job queues only and is kept by the handlers is kept while waiting.\<close>

lemma ctrl_loop_keeps:
  assumes "ctrl_loop_while fuel cond others s = Inr s'" and "P s"
    and "\<And>s t. same_queue s t \<Longrightarrow> P s \<Longrightarrow> P t" and "\<And>e s t. others e s = Inr t \<Longrightarrow> P s \<Longrightarrow> P t"
  shows "P s'"
  using assms(1,2)
proof (induction fuel arbitrary: s)
  case 0
  then show ?case by (simp split: if_splits)
next
  case (Suc fuel)
  show ?case
  proof (cases "cond s")
    case False
    then show ?thesis using Suc.prems by simp
  next
    case True
    then obtain t where t: "ctrl_loop_step others s = Inr t" "ctrl_loop_while fuel cond others t = Inr s'"
      using Suc.prems(1) by (auto simp: result_simps)
    obtain w ws where w: "sc_wakeups s = w # ws"
      using t(1) by (cases "sc_wakeups s") (auto simp: ctrl_loop_step_def)
    have "P (s\<lparr>sc_wakeups := ws\<rparr>)" by (rule assms(3) [OF _ Suc.prems(2)]) (simp add: same_queue_def)
    then have "P t"
      using t(1) w assms(3,4) sock_read_Inr [of "s\<lparr>sc_wakeups := ws\<rparr>" t]
      by (cases w) (auto simp: ctrl_loop_step_def)
    then show ?thesis using t(2) by (rule Suc.IH [rotated])
  qed
qed

lemma loop_step_Inr:
  assumes "ctrl_loop_step others s = Inr s'" and "quiet others"
  shows "(received s [] s' \<and> sc_acked s' = sc_acked s \<and> sc_ack_time s' = sc_ack_time s \<and>
       sc_waiting s' = sc_waiting s) \<or>
     (\<exists>m. received s [m] s' \<and> sc_acked s' = (sc_acked s \<or> acks (sc_expected_ack_seq s) m) \<and>
       (acks (sc_expected_ack_seq s) m \<longrightarrow> sc_ack_time s' = tt_time m) \<and>
       sc_waiting s' = (sc_waiting s \<and> tt_op m \<noteq> UM_TIMETRAVEL_RUN) \<and>
       (tt_op m = UM_TIMETRAVEL_RUN \<longrightarrow> current_time s' =
          div_round_up (tt_time m - sc_offset s) (ucast (sc_nsec_per_tick s))))"
proof -
  obtain w ws where w: "sc_wakeups s = w # ws"
    using assms(1) by (cases "sc_wakeups s") (auto simp: ctrl_loop_step_def)
  let ?t = "s\<lparr>sc_wakeups := ws\<rparr>"
  show ?thesis
  proof (cases w)
    case None
    then have "usfstl_sched_ctrl_sock_read ?t = Inr s'"
      using assms(1) w by (simp add: ctrl_loop_step_def)
    from sock_read_Inr [OF this] show ?thesis
      by (intro disjI2) (fastforce simp: received_def same_ctrl_def same_queue_def)
  next
    case (Some e)
    then have "others e ?t = Inr s'" using assms(1) w by (simp add: ctrl_loop_step_def)
    then show ?thesis
      using assms(2) by (intro disjI1)
        (fastforce simp: quiet_def received_def same_ctrl_def same_queue_def)
  qed
qed

lemma ack_loop_Inr:
  assumes "ctrl_loop_while fuel (\<lambda>s. \<not> sc_acked s) others s = Inr s'" and "quiet others"
    and "\<not> sc_acked s"
  shows "\<exists>us m. received s (us @ [m]) s' \<and> sc_acked s' \<and> acks (sc_expected_ack_seq s) m \<and>
    (\<forall>u \<in> set us. \<not> acks (sc_expected_ack_seq s) u) \<and> sc_ack_time s' = tt_time m"
  using assms(1,3)
proof (induction fuel arbitrary: s)
  case 0
  then show ?case by simp
next
  case (Suc fuel)
  obtain t where step: "ctrl_loop_step others s = Inr t"
    and rest: "ctrl_loop_while fuel (\<lambda>s. \<not> sc_acked s) others t = Inr s'"
    using Suc.prems by (auto simp: result_simps)
  have more: ?case if r: "received s vs t" and n: "\<not> sc_acked t"
    and v: "\<forall>v \<in> set vs. \<not> acks (sc_expected_ack_seq s) v" for vs
  proof -
    have e: "sc_expected_ack_seq t = sc_expected_ack_seq s"
      using r by (simp add: received_def same_ctrl_def)
    obtain us m where u: "received t (us @ [m]) s'" "sc_acked s'" "acks (sc_expected_ack_seq t) m"
      "\<forall>u \<in> set us. \<not> acks (sc_expected_ack_seq t) u" "sc_ack_time s' = tt_time m"
      using Suc.IH [OF rest n] by blast
    have "received s ((vs @ us) @ [m]) s'" using received_trans [OF r u(1)] by simp
    then show ?thesis using u v e by (intro exI [of _ "vs @ us"] exI [of _ m]) auto
  qed
  from loop_step_Inr [OF step assms(2)] show ?case
  proof
    assume "received s [] t \<and> sc_acked t = sc_acked s \<and> sc_ack_time t = sc_ack_time s \<and>
       sc_waiting t = sc_waiting s"
    then show ?thesis using more [of "[]"] Suc.prems(2) by simp
  next
    assume "\<exists>m. received s [m] t \<and> sc_acked t = (sc_acked s \<or> acks (sc_expected_ack_seq s) m) \<and>
       (acks (sc_expected_ack_seq s) m \<longrightarrow> sc_ack_time t = tt_time m) \<and>
       sc_waiting t = (sc_waiting s \<and> tt_op m \<noteq> UM_TIMETRAVEL_RUN) \<and>
       (tt_op m = UM_TIMETRAVEL_RUN \<longrightarrow> current_time t =
          div_round_up (tt_time m - sc_offset s) (ucast (sc_nsec_per_tick s)))"
    then obtain m where m: "received s [m] t"
      "sc_acked t = (sc_acked s \<or> acks (sc_expected_ack_seq s) m)"
      "acks (sc_expected_ack_seq s) m \<longrightarrow> sc_ack_time t = tt_time m" by blast
    show ?thesis
    proof (cases "acks (sc_expected_ack_seq s) m")
      case True
      then have "s' = t" using rest m(2) by (cases fuel) auto
      then show ?thesis using m True by (intro exI [of _ "[]"] exI [of _ m]) simp
    next
      case False
      then show ?thesis using more [OF m(1)] m(2) Suc.prems(2) by simp
    qed
  qed
qed

text \<open>The state that \<open>usfstl_sched_ctrl_send_msg\<close> waits in.\<close>

definition sent :: "u32 \<Rightarrow> u64 \<Rightarrow> ('j, 'e, 'z) controlled_scheme \<Rightarrow> ('j, 'e, 'z) controlled_scheme" where
  "sent op time s = s\<lparr>sc_seq := next_seq (sc_seq s),
     sc_outbox := sc_outbox s @ [\<lparr>tt_op = op, tt_seq = next_seq (sc_seq s), tt_time = time\<rparr>],
     sc_old_expected := sc_expected_ack_seq s, sc_expected_ack_seq := next_seq (sc_seq s)\<rparr>"

lemma send_msg_shape:
  "usfstl_sched_ctrl_send_msg fuel others op time s =
     rassert (\<not> sc_acked s)
      (rbind (if op = UM_TIMETRAVEL_WAIT
              then rbind (usfstl_sched_ctrl_sock_read (sent op time s)) (\<lambda>s. rassert (sc_acked s) (Inr s))
              else Inr (sent op time s)) (\<lambda>s.
       rbind (ctrl_loop_while fuel (\<lambda>s. \<not> sc_acked s) others s) (\<lambda>s.
       ctrl_update_from_ack op (s\<lparr>sc_acked := False, sc_expected_ack_seq := sc_old_expected s\<rparr>))))"
  by (simp add: usfstl_sched_ctrl_send_msg_def usfstl_sched_ctrl_write_msg_def sent_def Let_def)

text \<open>The exchange of a message and its acknowledgement.\<close>

lemma send_msg_exchange:
  assumes "usfstl_sched_ctrl_send_msg fuel others op time s = Inr s'" and "quiet others"
  shows "\<not> sc_acked s \<and> (\<exists>us m u. received (sent op time s) (us @ [m]) u \<and>
    acks (next_seq (sc_seq s)) m \<and> (\<forall>v \<in> set us. \<not> acks (next_seq (sc_seq s)) v) \<and>
    sc_ack_time u = tt_time m \<and> (op = UM_TIMETRAVEL_WAIT \<longrightarrow> us = [] \<and> sc_waiting u = sc_waiting s) \<and>
    ctrl_update_from_ack op (u\<lparr>sc_acked := False, sc_expected_ack_seq := sc_old_expected u\<rparr>) = Inr s')"
proof -
  have na: "\<not> sc_acked s" using assms(1) by (auto simp: send_msg_shape result_simps)
  have e: "sc_expected_ack_seq (sent op time s) = next_seq (sc_seq s)" "\<not> sc_acked (sent op time s)"
    using na by (simp_all add: sent_def)
  show ?thesis
  proof (cases "op = UM_TIMETRAVEL_WAIT")
    case True
    then obtain t where t: "usfstl_sched_ctrl_sock_read (sent op time s) = Inr t" "sc_acked t"
      and r: "rbind (ctrl_loop_while fuel (\<lambda>s. \<not> sc_acked s) others t) (\<lambda>s.
       ctrl_update_from_ack op (s\<lparr>sc_acked := False, sc_expected_ack_seq := sc_old_expected s\<rparr>)) = Inr s'"
      using assms(1) by (auto simp: send_msg_shape result_simps)
    have "ctrl_loop_while fuel (\<lambda>s. \<not> sc_acked s) others t = Inr t" using t(2) by (cases fuel) auto
    then have u: "ctrl_update_from_ack op (t\<lparr>sc_acked := False, sc_expected_ack_seq := sc_old_expected t\<rparr>)
        = Inr s'" using r by simp
    obtain m where m: "received (sent op time s) [m] t" "acks (next_seq (sc_seq s)) m"
      "sc_ack_time t = tt_time m" "tt_op m \<noteq> UM_TIMETRAVEL_RUN \<longrightarrow> sc_waiting t = sc_waiting (sent op time s)"
      using sock_read_Inr [OF t(1)] t(2) e by (auto simp: received_def)
    then have "sc_waiting t = sc_waiting s" by (simp add: acks_def sent_def)
    then show ?thesis using na u m by (intro conjI exI [of _ "[]"] exI [of _ m] exI [of _ t]) simp_all
  next
    case False
    then obtain u where loop: "ctrl_loop_while fuel (\<lambda>s. \<not> sc_acked s) others (sent op time s) = Inr u"
      and u: "ctrl_update_from_ack op (u\<lparr>sc_acked := False, sc_expected_ack_seq := sc_old_expected u\<rparr>) = Inr s'"
      using assms(1) by (auto simp: send_msg_shape result_simps)
    from ack_loop_Inr [OF loop assms(2) e(2)] show ?thesis
      unfolding e using na u False by blast
  qed
qed

lemma same_queue_offset [simp]: "same_queue s (t\<lparr>sc_offset := a\<rparr>) = same_queue s t"
  by (simp add: same_queue_def)

lemma update_from_ack_Inr:
  assumes "ctrl_update_from_ack op s = Inr s'"
  shows "sc_acked s' = sc_acked s \<and> sc_expected_ack_seq s' = sc_expected_ack_seq s \<and>
    sc_seq s' = sc_seq s \<and> sc_inbox s' = sc_inbox s \<and> sc_outbox s' = sc_outbox s \<and>
    sc_waiting s' = sc_waiting s \<and> sc_started s' = sc_started s \<and> same_queue s s' \<and>
    sc_nsec_per_tick s' = sc_nsec_per_tick s"
  using assms
  by (auto simp: ctrl_update_from_ack_def set_time_default result_simps Let_def split: if_splits)

lemma send_msg_keeps:
  assumes "usfstl_sched_ctrl_send_msg fuel others op time s = Inr s'" and "P s"
    and P: "\<And>s t. same_queue s t \<Longrightarrow> P s \<Longrightarrow> P t" and "\<And>e s t. others e s = Inr t \<Longrightarrow> P s \<Longrightarrow> P t"
  shows "P s'"
proof -
  obtain t u where t: "t = sent op time s \<or> usfstl_sched_ctrl_sock_read (sent op time s) = Inr t"
    and u: "ctrl_loop_while fuel (\<lambda>s. \<not> sc_acked s) others t = Inr u"
    and s': "ctrl_update_from_ack op (u\<lparr>sc_acked := False, sc_expected_ack_seq := sc_old_expected u\<rparr>) = Inr s'"
    using assms(1) by (auto simp: send_msg_shape result_simps split: if_splits)
  have "same_queue s (sent op time s)" by (simp add: sent_def same_queue_def)
  then have "same_queue s t"
    using t sock_read_Inr [of "sent op time s" t] by (blast intro: same_queue_trans)
  then have "P t" using assms(2) by (rule P)
  then have "P u" by (rule ctrl_loop_keeps [OF u]) (fact assms(3,4))+
  moreover have "same_queue u s'" using update_from_ack_Inr [OF s'] by (simp add: same_queue_def)
  ultimately show ?thesis by (blast intro: P)
qed

lemma send_msg_same_queue:
  assumes "usfstl_sched_ctrl_send_msg fuel others op time s = Inr s'" and "queue_kept others"
  shows "same_queue s s'"
  by (rule send_msg_keeps [OF assms(1)])
    (use assms(2) in \<open>auto simp: queue_kept_def intro: same_queue_trans\<close>)

lemma ack_loop_nests:
  assumes "ctrl_loop_while fuel (\<lambda>s. \<not> sc_acked s) others s = Inr s'" and "nests others"
    and "\<not> sc_acked s"
  shows "\<exists>t m. exchanged s t \<and> sc_inbox t = m # sc_inbox s' \<and> sc_outbox s' = sc_outbox t \<and>
    acks (sc_expected_ack_seq s) m"
  using assms(1,3)
proof (induction fuel arbitrary: s)
  case 0
  then show ?case by simp
next
  case (Suc fuel)
  obtain t where step: "ctrl_loop_step others s = Inr t"
    and rest: "ctrl_loop_while fuel (\<lambda>s. \<not> sc_acked s) others t = Inr s'"
    using Suc.prems by (auto simp: result_simps)
  have more: ?case if "exchanged s t" "\<not> sc_acked t" "sc_expected_ack_seq t = sc_expected_ack_seq s"
    using Suc.IH [OF rest that(2)] that exchanged_trans [OF that(1)] by auto
  obtain w ws where w: "sc_wakeups s = w # ws"
    using step by (cases "sc_wakeups s") (auto simp: ctrl_loop_step_def)
  let ?s = "s\<lparr>sc_wakeups := ws\<rparr>"
  show ?case
  proof (cases w)
    case (Some e)
    then have "others e ?s = Inr t" using step w by (simp add: ctrl_loop_step_def)
    moreover have "\<not> sc_acked ?s" using Suc.prems(2) by simp
    ultimately have "exchanged ?s t \<and> \<not> sc_acked t \<and> sc_expected_ack_seq t = sc_expected_ack_seq ?s"
      using assms(2) unfolding nests_def by blast
    then show ?thesis by (intro more) (simp_all add: exchanged_def)
  next
    case None
    then have "usfstl_sched_ctrl_sock_read ?s = Inr t" using step w by (simp add: ctrl_loop_step_def)
    from sock_read_Inr [OF this] obtain m where m: "sc_inbox s = m # sc_inbox t"
      "sc_outbox t = sc_outbox s @ ack_reply m" "sc_expected_ack_seq t = sc_expected_ack_seq s"
      "sc_acked t = acks (sc_expected_ack_seq s) m"
      using Suc.prems(2) by (auto simp: same_ctrl_def)
    show ?thesis
    proof (cases "acks (sc_expected_ack_seq s) m")
      case False
      then show ?thesis using m by (intro more) (auto simp: exchanged_def)
    next
      case True
      then have "s' = t" using rest m(4) by (cases fuel) auto
      moreover have "ack_reply m = []" using True by (simp add: acks_def ack_reply_def)
      ultimately show ?thesis
        using m True by (intro exI [of _ s] exI [of _ m]) (auto simp: exchanged_def)
    qed
  qed
qed

lemma send_msg_nests:
  assumes "usfstl_sched_ctrl_send_msg fuel others op time s = Inr s'" and "nests others"
  shows "\<not> sc_acked s \<and> \<not> sc_acked s' \<and> (\<exists>us m ws. sc_inbox s = us @ m # sc_inbox s' \<and>
    acks (next_seq (sc_seq s)) m \<and> (op = UM_TIMETRAVEL_WAIT \<longrightarrow> us = []) \<and>
    sc_outbox s' = sc_outbox s @ \<lparr>tt_op = op, tt_seq = next_seq (sc_seq s), tt_time = time\<rparr> # ws)"
proof -
  have na: "\<not> sc_acked s" using assms(1) by (auto simp: send_msg_shape result_simps)
  have e: "sc_expected_ack_seq (sent op time s) = next_seq (sc_seq s)" "\<not> sc_acked (sent op time s)"
    using na by (simp_all add: sent_def)
  obtain t where t: "if op = UM_TIMETRAVEL_WAIT
      then usfstl_sched_ctrl_sock_read (sent op time s) = Inr t \<and> sc_acked t else t = sent op time s"
    and r: "rbind (ctrl_loop_while fuel (\<lambda>s. \<not> sc_acked s) others t) (\<lambda>s.
       ctrl_update_from_ack op (s\<lparr>sc_acked := False, sc_expected_ack_seq := sc_old_expected s\<rparr>)) = Inr s'"
    using assms(1) by (auto simp: send_msg_shape result_simps split: if_splits)
  obtain u where u: "ctrl_loop_while fuel (\<lambda>s. \<not> sc_acked s) others t = Inr u"
    and f: "ctrl_update_from_ack op (u\<lparr>sc_acked := False, sc_expected_ack_seq := sc_old_expected u\<rparr>) = Inr s'"
    using r by (auto simp: result_simps)
  have "\<exists>us m ws. sc_inbox s = us @ m # sc_inbox u \<and> acks (next_seq (sc_seq s)) m \<and>
    (op = UM_TIMETRAVEL_WAIT \<longrightarrow> us = []) \<and>
    sc_outbox u = sc_outbox s @ \<lparr>tt_op = op, tt_seq = next_seq (sc_seq s), tt_time = time\<rparr> # ws"
  proof (cases "op = UM_TIMETRAVEL_WAIT")
    case True
    then have t': "usfstl_sched_ctrl_sock_read (sent op time s) = Inr t" "sc_acked t" using t by simp_all
    have "u = t" using u t'(2) by (cases fuel) auto
    then show ?thesis using sock_read_Inr [OF t'(1)] e t'(2)
      by (auto simp: sent_def acks_def ack_reply_def)
  next
    case False
    then have "t = sent op time s" using t by simp
    then have "\<exists>v m. exchanged (sent op time s) v \<and> sc_inbox v = m # sc_inbox u \<and>
        sc_outbox u = sc_outbox v \<and> acks (next_seq (sc_seq s)) m"
      using ack_loop_nests [OF u assms(2)] e by simp
    then show ?thesis using False by (fastforce simp: exchanged_def sent_def)
  qed
  then show ?thesis using na update_from_ack_Inr [OF f] by simp
qed

lemma send_msg_quiet:
  assumes "usfstl_sched_ctrl_send_msg fuel others op time s = Inr s'" and "quiet others"
  shows "sc_seq s' = next_seq (sc_seq s) \<and> sc_expected_ack_seq s' = sc_expected_ack_seq s \<and>
    (\<exists>us m. sc_inbox s = us @ m # sc_inbox s' \<and> acks (next_seq (sc_seq s)) m \<and>
       (\<forall>v \<in> set us. \<not> acks (next_seq (sc_seq s)) v) \<and>
       sc_outbox s' = sc_outbox s @ \<lparr>tt_op = op, tt_seq = next_seq (sc_seq s), tt_time = time\<rparr> #
         concat (map ack_reply us))"
proof -
  obtain us m u where u: "received (sent op time s) (us @ [m]) u"
    "acks (next_seq (sc_seq s)) m" "\<forall>v \<in> set us. \<not> acks (next_seq (sc_seq s)) v"
    "ctrl_update_from_ack op (u\<lparr>sc_acked := False, sc_expected_ack_seq := sc_old_expected u\<rparr>) = Inr s'"
    using send_msg_exchange [OF assms] by blast
  have m: "ack_reply m = []" using u(2) by (simp add: ack_reply_def acks_def)
  show ?thesis
    using update_from_ack_Inr [OF u(4)] u(1,2,3) m
    by (auto simp: received_def same_ctrl_def sent_def)
qed

text \<open>So a message may be sent by a handler that runs while another one waits, and so may a job
  be scheduled, as long as the handlers of that inner wait leave the connection alone.\<close>

lemma send_msg_nested:
  "quiet inner \<Longrightarrow> nests (\<lambda>e. usfstl_sched_ctrl_send_msg fuel inner (op e) (time e))"
  unfolding nests_def
proof (intro allI impI)
  fix e s s'
  assume q: "quiet inner" and r: "usfstl_sched_ctrl_send_msg fuel inner (op e) (time e) s = Inr s'"
  from send_msg_nests [OF r quiet_nests [OF q]] send_msg_quiet [OF r q]
  show "exchanged s s' \<and> \<not> sc_acked s' \<and> sc_expected_ack_seq s' = sc_expected_ack_seq s"
    by (auto simp: exchanged_def)
qed

lemma add_job_nested:
  assumes "quiet inner"
  shows "nests (\<lambda>e. usfstl_sched_add_job (ctrl_ops fuel inner) (job e))"
  unfolding nests_def
proof (intro allI impI)
  fix e s s'
  assume n: "\<not> sc_acked s" and r: "usfstl_sched_add_job (ctrl_ops fuel inner) (job e) s = Inr s'"
  have send: "exchanged t t' \<and> \<not> sc_acked t' \<and> sc_expected_ack_seq t' = sc_expected_ack_seq t"
    if "\<not> sc_acked t" "usfstl_sched_ctrl_request fuel inner time t = Inr t'" for t t' time
    using that send_msg_nested [OF assms, of fuel "\<lambda>_. UM_TIMETRAVEL_REQUEST"]
    by (force simp: usfstl_sched_ctrl_request_def nests_def exchanged_def split: if_splits)
  show "exchanged s s' \<and> \<not> sc_acked s' \<and> sc_expected_ack_seq s' = sc_expected_ack_seq s"
    using r n
    by (auto simp: usfstl_sched_add_job_def ctrl_ops_def USFSTL_SCHEDULER_ops_def result_simps
        usfstl_sched_external_request_def call_opt_def set_job_start_def exchanged_def Let_def
        split: if_splits dest!: send [rotated])
qed

text \<open>Claim C26: \<open>usfstl_sched_ctrl_send_msg\<close> gives every message the next, never zero sequence
  number, writes it and returns only when an acknowledgement with exactly that number has been
  read; for a WAIT message that must be the very next message. Meanwhile the handlers of the
  other descriptors run: they may change the job queues, and may themselves exchange messages
  as long as they restore the number that is waited for (\<open>nests\<close>; \<open>send_msg_nested\<close> and
  \<open>add_job_nested\<close> show that for handlers that send a message or schedule a job once). If they do not use
  the connection at all, every message of the remote side until then is answered, in order, with
  its own sequence number, the acknowledgement is the first one with the number, and afterwards
  the number that was expected before is expected again. If they leave the job queues alone,
  those are untouched.\<close>

theorem ctrl_send_msg_acknowledged:
  assumes "usfstl_sched_ctrl_send_msg fuel others op time s = Inr s'" and "nests others"
  shows "next_seq (sc_seq s) \<noteq> 0 \<and> \<not> sc_acked s' \<and>
    (\<exists>us m ws. sc_inbox s = us @ m # sc_inbox s' \<and> acks (next_seq (sc_seq s)) m \<and>
       (op = UM_TIMETRAVEL_WAIT \<longrightarrow> us = []) \<and>
       sc_outbox s' = sc_outbox s @ \<lparr>tt_op = op, tt_seq = next_seq (sc_seq s), tt_time = time\<rparr> # ws) \<and>
    (quiet others \<longrightarrow> sc_seq s' = next_seq (sc_seq s) \<and>
       sc_expected_ack_seq s' = sc_expected_ack_seq s \<and>
       (\<exists>us m. sc_inbox s = us @ m # sc_inbox s' \<and> acks (next_seq (sc_seq s)) m \<and>
          (\<forall>v \<in> set us. \<not> acks (next_seq (sc_seq s)) v) \<and>
          sc_outbox s' = sc_outbox s @
            \<lparr>tt_op = op, tt_seq = next_seq (sc_seq s), tt_time = time\<rparr> # concat (map ack_reply us))) \<and>
    (queue_kept others \<longrightarrow> same_queue s s')"
  using send_msg_nests [OF assms] send_msg_quiet [OF assms(1)] send_msg_same_queue [OF assms(1)]
  by (intro conjI impI) simp_all

lemma waiting_loop_Inr:
  assumes "ctrl_loop_while fuel sc_waiting others s = Inr s'" and "quiet others"
    and "sc_waiting s"
  shows "\<exists>us m. received s (us @ [m]) s' \<and> \<not> sc_waiting s' \<and> tt_op m = UM_TIMETRAVEL_RUN \<and>
    (\<forall>u \<in> set us. tt_op u \<noteq> UM_TIMETRAVEL_RUN) \<and> current_time s' =
       div_round_up (tt_time m - sc_offset s) (ucast (sc_nsec_per_tick s))"
  using assms(1,3)
proof (induction fuel arbitrary: s)
  case 0
  then show ?case by simp
next
  case (Suc fuel)
  obtain t where step: "ctrl_loop_step others s = Inr t"
    and rest: "ctrl_loop_while fuel sc_waiting others t = Inr s'"
    using Suc.prems by (auto simp: result_simps)
  have more: ?case if r: "received s vs t" and n: "sc_waiting t"
    and v: "\<forall>v \<in> set vs. tt_op v \<noteq> UM_TIMETRAVEL_RUN" for vs
  proof -
    have e: "sc_offset t = sc_offset s" "sc_nsec_per_tick t = sc_nsec_per_tick s"
      using r by (simp_all add: received_def same_ctrl_def)
    obtain us m where u: "received t (us @ [m]) s'" "\<not> sc_waiting s'"
      "tt_op m = UM_TIMETRAVEL_RUN" "\<forall>u \<in> set us. tt_op u \<noteq> UM_TIMETRAVEL_RUN" "current_time s' =
       div_round_up (tt_time m - sc_offset t) (ucast (sc_nsec_per_tick t))"
      using Suc.IH [OF rest n] by blast
    have "received s ((vs @ us) @ [m]) s'" using received_trans [OF r u(1)] by simp
    then show ?thesis using u v e by (intro exI [of _ "vs @ us"] exI [of _ m]) auto
  qed
  from loop_step_Inr [OF step assms(2)] show ?case
  proof (elim disjE exE conjE)
    assume "received s [] t" "sc_waiting t = sc_waiting s"
    then show ?thesis using more [of "[]"] Suc.prems(2) by simp
  next
    fix m
    assume m: "received s [m] t" "sc_waiting t = (sc_waiting s \<and> tt_op m \<noteq> UM_TIMETRAVEL_RUN)"
      "tt_op m = UM_TIMETRAVEL_RUN \<longrightarrow> current_time t =
          div_round_up (tt_time m - sc_offset s) (ucast (sc_nsec_per_tick s))"
    show ?thesis
    proof (cases "tt_op m = UM_TIMETRAVEL_RUN")
      case True
      then have "s' = t" using rest m(2) by (cases fuel) auto
      then show ?thesis using m True by (intro exI [of _ "[]"] exI [of _ m]) simp
    next
      case False
      then show ?thesis using more [OF m(1)] m(2) Suc.prems(2) by simp
    qed
  qed
qed

lemma ctrl_wait_Inr:
  assumes "usfstl_sched_ctrl_wait fuel others s = Inr s'" and "quiet others"
  shows "\<exists>a us m. sc_inbox s = a # us @ m # sc_inbox s' \<and> acks (next_seq (sc_seq s)) a \<and>
    tt_op m = UM_TIMETRAVEL_RUN \<and> (\<forall>u \<in> set us. tt_op u \<noteq> UM_TIMETRAVEL_RUN) \<and>
    current_time s' = div_round_up (tt_time m - sc_offset s) (ucast (sc_nsec_per_tick s)) \<and>
    \<not> sc_waiting s' \<and> sc_offset s' = sc_offset s \<and> sc_nsec_per_tick s' = sc_nsec_per_tick s"
proof -
  let ?s = "s\<lparr>sc_waiting := True\<rparr>"
  obtain t where send: "usfstl_sched_ctrl_send_msg fuel others UM_TIMETRAVEL_WAIT (- 1) ?s = Inr t"
    and loop: "ctrl_loop_while fuel sc_waiting others t = Inr s'"
    using assms(1) by (auto simp: usfstl_sched_ctrl_wait_def result_simps)
  obtain a u where u: "received (sent UM_TIMETRAVEL_WAIT (- 1) ?s) [a] u"
    "acks (next_seq (sc_seq s)) a" "sc_waiting u"
    and fin: "ctrl_update_from_ack UM_TIMETRAVEL_WAIT
        (u\<lparr>sc_acked := False, sc_expected_ack_seq := sc_old_expected u\<rparr>) = Inr t"
    using send_msg_exchange [OF send assms(2)] by auto
  have t: "t = u\<lparr>sc_acked := False, sc_expected_ack_seq := sc_old_expected u\<rparr>"
    using fin by (simp add: ctrl_update_from_ack_def)
  have w: "sc_waiting t" using u(3) t by simp
  obtain us m where m: "received t (us @ [m]) s'" "\<not> sc_waiting s'" "tt_op m = UM_TIMETRAVEL_RUN"
    "\<forall>u \<in> set us. tt_op u \<noteq> UM_TIMETRAVEL_RUN" "current_time s' =
       div_round_up (tt_time m - sc_offset t) (ucast (sc_nsec_per_tick t))"
    using waiting_loop_Inr [OF loop assms(2) w] by blast
  have i: "sc_inbox s = a # sc_inbox t" "sc_offset t = sc_offset s"
    "sc_nsec_per_tick t = sc_nsec_per_tick s"
    using u(1) unfolding t by (auto simp: received_def same_ctrl_def sent_def)
  have "sc_inbox t = us @ m # sc_inbox s'" "sc_offset s' = sc_offset t"
    "sc_nsec_per_tick s' = sc_nsec_per_tick t"
    using m(1) by (simp_all add: received_def same_ctrl_def)
  then show ?thesis
    using i m u(2) by (intro exI [of _ a] exI [of _ us] exI [of _ m]) simp
qed

text \<open>Library: waiting for the controller reads the acknowledgement of the WAIT message first,
  before anything else, and returns exactly with the next RUN message, with the local clock
  at the time that message grants (rounded up to whole ticks).\<close>

theorem ctrl_wait_until_run:
  assumes "usfstl_sched_ctrl_wait fuel others s = Inr s'" and "quiet others"
  shows "\<exists>a us m. sc_inbox s = a # us @ m # sc_inbox s' \<and> acks (next_seq (sc_seq s)) a \<and>
    tt_op m = UM_TIMETRAVEL_RUN \<and> (\<forall>u \<in> set us. tt_op u \<noteq> UM_TIMETRAVEL_RUN) \<and>
    current_time s' = div_round_up (tt_time m - sc_offset s) (ucast (sc_nsec_per_tick s)) \<and>
    \<not> sc_waiting s' \<and> sc_offset s' = sc_offset s \<and> sc_nsec_per_tick s' = sc_nsec_per_tick s"
  by (rule ctrl_wait_Inr [OF assms])

text \<open>Library: time conversion. A RUN message for the time of a request made for tick \<open>t\<close> sets
  the clock to exactly \<open>t\<close>, whatever the offset; a RUN message never sets it to a tick that
  begins before the granted time, nor a whole tick too late; FREE_UNTIL never allows running
  past the granted time. Both are acknowledged.\<close>

theorem ctrl_time_conversion:
  assumes "usfstl_sched_ctrl_sock_read s = Inr s'" and "sc_inbox s = m # rest"
    and n: "n = unat (sc_nsec_per_tick s)" and r: "r = unat (tt_time m - sc_offset s)"
    and "r + n \<le> 2 ^ 64"
  shows "(tt_op m = UM_TIMETRAVEL_RUN \<longrightarrow>
      r \<le> unat (current_time s') * n \<and> unat (current_time s') * n < r + n \<and>
      (\<forall>t. tt_time m = t * ucast (sc_nsec_per_tick s) + sc_offset s \<and> unat t * n < 2 ^ 64 \<longrightarrow>
         current_time s' = t)) \<and>
    (tt_op m = UM_TIMETRAVEL_FREE_UNTIL \<longrightarrow> next_external_sync_set s' \<and>
      unat (next_external_sync s') * n \<le> r \<and> r < unat (next_external_sync s') * n + n) \<and>
    (tt_op m \<in> {UM_TIMETRAVEL_RUN, UM_TIMETRAVEL_FREE_UNTIL} \<longrightarrow>
      sc_outbox s' = sc_outbox s @
        [\<lparr>tt_op = UM_TIMETRAVEL_ACK, tt_seq = tt_seq m, tt_time = 0\<rparr>])"
proof -
  let ?n = "ucast (sc_nsec_per_tick s) :: u64" and ?r = "tt_time m - sc_offset s"
  have un: "unat ?n = n" unfolding n by (rule unat_ucast_up) simp
  have run: "current_time s' = div_round_up ?r ?n" if "tt_op m = UM_TIMETRAVEL_RUN"
    using sock_read_Inr [OF assms(1)] that assms(2) by auto
  have pos: "0 < n" if "tt_op m \<in> {UM_TIMETRAVEL_RUN, UM_TIMETRAVEL_FREE_UNTIL}"
    using assms(1,2) that unfolding n
    by (auto simp: usfstl_sched_ctrl_sock_read_def Let_def unat_gt_0 split: if_splits)
  have run_val: "unat (current_time s') = (r + n - 1) div n" if "tt_op m = UM_TIMETRAVEL_RUN"
    using run [OF that] unat_div_round_up [of ?n ?r] pos that assms(5) un r by simp
  have exact: "current_time s' = t"
    if "tt_op m = UM_TIMETRAVEL_RUN" "tt_time m = t * ?n + sc_offset s" "unat t * n < 2 ^ 64" for t
  proof -
    have "r = (unat t * n) mod 2 ^ 64"
      unfolding r that(2) using un by (simp add: unat_word_ariths(2))
    then have "r = unat t * n" using that(3) by simp
    then show ?thesis
      using run_val [OF that(1)] round_up_multiple [of n "unat t"] pos that(1)
      by (simp add: word_unat_eq_iff)
  qed
  have free: "next_external_sync_set s' \<and> unat (next_external_sync s') = r div n"
    if "tt_op m = UM_TIMETRAVEL_FREE_UNTIL"
  proof -
    have "next_external_sync_set s'" "next_external_sync s' = ?r div ?n"
      using assms(1,2) that
      by (auto simp: usfstl_sched_ctrl_sock_read_def Let_def usfstl_sched_set_sync_time_def
          result_simps usfstl_sched_ctrl_write_msg_def split: if_splits)
    then show ?thesis using un r by (simp add: unat_div)
  qed
  have free': "unat (next_external_sync s') * n \<le> r \<and> r < unat (next_external_sync s') * n + n"
    if "tt_op m = UM_TIMETRAVEL_FREE_UNTIL"
    using free [OF that] pos that dividend_less_div_times [of n r] by simp
  have "sc_outbox s' = sc_outbox s @ ack_reply m"
    using sock_read_Inr [OF assms(1)] assms(2) by auto
  then show ?thesis
    using run_val round_up_bounds [of n r] pos exact free free' by (auto simp: ack_reply_def)
qed

text \<open>Library: asking the controller for the time (GET). While the connection is frozen the
  local clock stays and the offset absorbs the difference, so that afterwards the local time
  corresponds to exactly the remote time; otherwise the local clock is moved to the remote
  time, rounded up, and the offset stays.\<close>

theorem ctrl_sync_from_answer:
  assumes "usfstl_sched_ctrl_sync_from fuel others s = Inr s'" and "quiet others"
    and "sc_started s"
  shows "\<exists>us m. sc_inbox s = us @ m # sc_inbox s' \<and> acks (sc_seq s') m \<and>
    (if sc_frozen s
     then sc_offset s' + current_time s' * ucast (sc_nsec_per_tick s) = tt_time m
     else sc_offset s' = sc_offset s \<and>
       current_time s' = div_round_up (tt_time m - sc_offset s) (ucast (sc_nsec_per_tick s)))"
proof -
  have "usfstl_sched_ctrl_send_msg fuel others UM_TIMETRAVEL_GET (- 1) s = Inr s'"
    using assms(1,3) by (simp add: usfstl_sched_ctrl_sync_from_def)
  then obtain us m u where u: "received (sent UM_TIMETRAVEL_GET (- 1) s) (us @ [m]) u"
    "acks (next_seq (sc_seq s)) m" "sc_ack_time u = tt_time m"
    "ctrl_update_from_ack UM_TIMETRAVEL_GET
       (u\<lparr>sc_acked := False, sc_expected_ack_seq := sc_old_expected u\<rparr>) = Inr s'"
    using send_msg_exchange [OF _ assms(2)] by blast
  have seq: "sc_seq s' = next_seq (sc_seq s)"
    using update_from_ack_Inr [OF u(4)] u(1) by (simp add: received_def same_ctrl_def sent_def)
  have f: "sc_frozen u = sc_frozen s" "sc_nsec_per_tick u = sc_nsec_per_tick s"
    "sc_offset u = sc_offset s"
    using u(1) by (simp_all add: received_def same_ctrl_def sent_def)
  have i: "sc_inbox s = us @ m # sc_inbox s'"
    using update_from_ack_Inr [OF u(4)] u(1) by (simp add: received_def sent_def)
  show ?thesis
  proof (intro exI conjI)
    show "sc_inbox s = us @ m # sc_inbox s'" by (rule i)
    show "acks (sc_seq s') m" unfolding seq by (rule u(2))
    show "if sc_frozen s
     then sc_offset s' + current_time s' * ucast (sc_nsec_per_tick s) = tt_time m
     else sc_offset s' = sc_offset s \<and>
       current_time s' = div_round_up (tt_time m - sc_offset s) (ucast (sc_nsec_per_tick s))"
      using u(4) f u(3)
      by (auto simp: ctrl_update_from_ack_def set_time_default result_simps Let_def split: if_splits)
  qed
qed

text \<open>The controlled scheduler meets the contract of an external scheduler, if the handlers of
  the other descriptors keep the job queues well-formed; they may add and delete jobs.\<close>

definition inv_kept ::
  "u64 \<Rightarrow> ('e \<Rightarrow> ('j, 'e, 'z) controlled_scheme \<Rightarrow> ('j, 'e, 'z) controlled_scheme result) \<Rightarrow> bool" where
  "inv_kept c others \<longleftrightarrow> (\<forall>e s s'. sched_inv c s \<longrightarrow> others e s = Inr s' \<longrightarrow> sched_inv c s')"

lemma send_msg_inv:
  assumes "usfstl_sched_ctrl_send_msg fuel others op time s = Inr s'" and "sched_inv c s"
    and "inv_kept c others"
  shows "sched_inv c s'"
  by (rule send_msg_keeps [where P = "sched_inv c", OF assms(1,2)])
    (use assms(3) in \<open>auto simp: inv_kept_def intro: same_queue_inv\<close>)

lemma ctrl_wait_inv:
  assumes "usfstl_sched_ctrl_wait fuel others s = Inr s'" and "sched_inv c s"
    and "inv_kept c others"
  shows "sched_inv c s'"
proof -
  let ?s = "s\<lparr>sc_waiting := True\<rparr>"
  obtain t where send: "usfstl_sched_ctrl_send_msg fuel others UM_TIMETRAVEL_WAIT (- 1) ?s = Inr t"
    and loop: "ctrl_loop_while fuel sc_waiting others t = Inr s'"
    using assms(1) by (auto simp: usfstl_sched_ctrl_wait_def result_simps)
  have "sched_inv c ?s" by (rule same_queue_inv [OF _ assms(2)]) (simp add: same_queue_def)
  then have "sched_inv c t" using send assms(3) by (blast intro: send_msg_inv)
  then show ?thesis
    by (rule ctrl_loop_keeps [where P = "sched_inv c", OF loop])
      (use assms(3) in \<open>auto simp: inv_kept_def intro: same_queue_inv\<close>)
qed

lemma ctrl_external_scheduler:
  assumes "inv_kept c others"
  shows "external_scheduler (ctrl_ops fuel others) c"
proof unfold_locales
  show "sched_inv c s'"
    if "external_request (ctrl_ops fuel others) = Some f" "sched_inv c s" "f t s = Inr s'"
    for f s s' and t
    using that send_msg_inv [OF _ _ assms]
    by (auto simp: ctrl_ops_def usfstl_sched_ctrl_request_def split: if_splits)
  show "sched_inv c s'"
    if "time_advanced (ctrl_ops fuel others) = Some f" for f s s' and t :: u64
    using that by (simp add: ctrl_ops_def USFSTL_SCHEDULER_ops_def)
  show "sched_inv c s'"
    if "external_wait (ctrl_ops fuel others) = Some w" "sched_inv c s" "w s = Inr s'" for w s s'
    using that ctrl_wait_inv [OF _ _ assms] by (auto simp: ctrl_ops_def)
qed

text \<open>What is left of the messages, and the time conversion, while the handlers leave the
  connection alone.\<close>

definition later :: "('j, 'e, 'z) controlled_scheme \<Rightarrow> ('j, 'e, 'z) controlled_scheme \<Rightarrow> bool" where
  "later s t \<longleftrightarrow> set (sc_inbox t) \<subseteq> set (sc_inbox s) \<and> sc_offset t = sc_offset s \<and>
     sc_nsec_per_tick t = sc_nsec_per_tick s"

lemma later_trans: "later s t \<Longrightarrow> later t u \<Longrightarrow> later s u"
  by (auto simp: later_def)

lemma ctrl_request_later:
  assumes "usfstl_sched_external_request (ctrl_ops fuel others) time s = Inr (b, s')"
    and "quiet others"
  shows "later s s'"
proof -
  have send: "later t t'"
    if r: "usfstl_sched_ctrl_send_msg fuel others UM_TIMETRAVEL_REQUEST tm t = Inr t'" for tm t t'
  proof -
    obtain us m u where "received (sent UM_TIMETRAVEL_REQUEST tm t) (us @ [m]) u"
      "ctrl_update_from_ack UM_TIMETRAVEL_REQUEST
         (u\<lparr>sc_acked := False, sc_expected_ack_seq := sc_old_expected u\<rparr>) = Inr t'"
      using send_msg_exchange [OF r assms(2)] by blast
    then show ?thesis
      by (auto simp: received_def same_ctrl_def sent_def later_def ctrl_update_from_ack_def)
  qed
  let ?s = "s\<lparr>prev_external_sync := time, prev_external_sync_set := True\<rparr>"
  have "s' = s \<or> usfstl_sched_ctrl_request fuel others time ?s = Inr s'"
    using assms(1)
    by (auto simp: usfstl_sched_external_request_def ctrl_ops_def result_simps split: if_splits)
  moreover have "later s ?s" by (simp add: later_def)
  ultimately show ?thesis
    using send [of _ ?s s'] later_trans [of s ?s s']
    by (auto simp: usfstl_sched_ctrl_request_def later_def split: if_splits)
qed

text \<open>A wait of the controlled scheduler ends with the time that a RUN message grants.\<close>

lemma ctrl_external_wait_later:
  assumes "usfstl_sched_external_wait (ctrl_ops fuel others) s = Inr s'" and "quiet others"
  shows "later s s' \<and> (\<exists>m \<in> set (sc_inbox s). tt_op m = UM_TIMETRAVEL_RUN \<and>
    current_time s' = div_round_up (tt_time m - sc_offset s) (ucast (sc_nsec_per_tick s)))"
proof -
  obtain t where t: "usfstl_sched_ctrl_wait fuel others
      (s\<lparr>prev_external_sync_set := False, sched_waiting := True\<rparr>) = Inr t"
    and s': "s' = t\<lparr>sched_waiting := False\<rparr>"
    using assms(1) by (auto simp: usfstl_sched_external_wait_def ctrl_ops_def result_simps)
  from ctrl_wait_Inr [OF t assms(2)] show ?thesis unfolding s' by (fastforce simp: later_def)
qed

lemma ctrl_forward_later:
  assumes "usfstl_sched_forward (ctrl_ops fuel others) time s = Inr s'" and "quiet others"
  shows "later s s'"
proof -
  obtain b u where u: "usfstl_sched_external_request (ctrl_ops fuel others) time s = Inr (b, u)"
    and r: "(if b then usfstl_sched_external_wait (ctrl_ops fuel others) u
             else usfstl_sched_set_time_internal (ctrl_ops fuel others) time u) = Inr s'"
    using assms(1) by (auto simp: usfstl_sched_forward_def result_simps)
  have "later u s'"
  proof (cases b)
    case True
    then show ?thesis using r ctrl_external_wait_later [OF _ assms(2)] by auto
  next
    case False
    then show ?thesis using r
      by (auto simp: usfstl_sched_set_time_internal_def ctrl_ops_def USFSTL_SCHEDULER_ops_def
          call_opt_def result_simps later_def Let_def split: if_splits)
  qed
  then show ?thesis using ctrl_request_later [OF u assms(2)] by (blast intro: later_trans)
qed

lemma ctrl_waits_later:
  assumes "(sched_waits (ctrl_ops fuel others))\<^sup>*\<^sup>* s t" and "quiet others"
  shows "later s t"
  using assms(1)
proof (induction rule: rtranclp_induct)
  case base
  show ?case by (simp add: later_def)
next
  case (step t u)
  have "later t u" using step.hyps(2)
    by cases (use ctrl_external_wait_later [OF _ assms(2)] ctrl_forward_later [OF _ assms(2)] in blast)+
  then show ?case by (rule later_trans [OF step.IH])
qed

text \<open>Going forward either reaches the time, or returns from a wait for the controller.\<close>

lemma ctrl_forward_time:
  assumes "usfstl_sched_forward (ctrl_ops fuel others) time s = Inr s'"
  shows "current_time s' = time \<and> job_of s' = job_of s \<or>
    (\<exists>u. usfstl_sched_external_request (ctrl_ops fuel others) time s = Inr (True, u) \<and>
       usfstl_sched_external_wait (ctrl_ops fuel others) u = Inr s')"
proof -
  obtain b u where u: "usfstl_sched_external_request (ctrl_ops fuel others) time s = Inr (b, u)"
    and r: "(if b then usfstl_sched_external_wait (ctrl_ops fuel others) u
             else usfstl_sched_set_time_internal (ctrl_ops fuel others) time u) = Inr s'"
    using assms(1) by (auto simp: usfstl_sched_forward_def result_simps)
  show ?thesis
  proof (cases b)
    case True
    then show ?thesis using u r by simp
  next
    case False
    then have "u = s" using u
      by (auto simp: usfstl_sched_external_request_def ctrl_ops_def result_simps split: if_splits)
    then show ?thesis using False r
      by (auto simp: usfstl_sched_set_time_internal_def ctrl_ops_def USFSTL_SCHEDULER_ops_def
          call_opt_def result_simps Let_def split: if_splits)
  qed
qed

text \<open>Claim C27: under the time-travel controller, with handlers of the other descriptors that
  may add and delete jobs as long as the queues stay well-formed, the job that
  \<open>usfstl_sched_next\<close> runs is at that moment the first one of the ordered queue and may run. Its
  start has been reached, or the scheduler has just returned from \<open>usfstl_sched_ctrl_wait\<close>; if
  the handlers leave the connection alone, the clock then stands at the time, in ticks rounded
  up, that a received RUN message grants.\<close>

theorem ctrl_runs_first_job:
  assumes "usfstl_sched_next n (ctrl_ops fuel others) run s = Inr (j, s')"
    and "sched_inv c s" and "inv_kept c others"
  shows "\<exists>s1. sched_inv c s1 \<and> j \<in> set (joblist s1) \<and> runnable s1 j \<and>
    (\<forall>k \<in> set (joblist s1). key_le c (job_of s1 j) (job_of s1 k)) \<and>
    run j (usfstl_sched_del_job j s1) = Inr s' \<and>
    (time_le (start_of s1 j) (current_time s1) \<or>
     (\<exists>u v. usfstl_sched_ctrl_wait fuel others u = Inr v \<and> s1 = v\<lparr>sched_waiting := False\<rparr>) \<and>
     (quiet others \<longrightarrow> (\<exists>m \<in> set (sc_inbox s). tt_op m = UM_TIMETRAVEL_RUN \<and>
        current_time s1 = div_round_up (tt_time m - sc_offset s) (ucast (sc_nsec_per_tick s)))))"
proof -
  let ?ops = "ctrl_ops fuel others"
  note ext = ctrl_external_scheduler [OF assms(3), of fuel]
  obtain t s1 where w: "(sched_waits ?ops)\<^sup>*\<^sup>* s t" and h: "usfstl_sched_next_pending s1 = Some j"
    and r: "run j (usfstl_sched_del_job j s1) = Inr s'"
    and t: "if time_gt (start_of t j) (current_time t)
      then usfstl_sched_forward ?ops (start_of t j) t = Inr s1 else s1 = t"
    using next_progress [OF assms(1)] by (elim exE conjE) (rule that)
  have inv: "sched_inv c s1"
    using external_scheduler.waits_inv [OF ext w assms(2)] t
      external_scheduler.forward_inv [OF ext, of _ t s1] by (simp split: if_splits)
  obtain js where js: "joblist s1 = j # js"
    using h by (auto simp: usfstl_sched_next_pending_def split: list.splits)
  have time: "time_le (start_of s1 j) (current_time s1) \<or>
     (\<exists>u v. usfstl_sched_ctrl_wait fuel others u = Inr v \<and> s1 = v\<lparr>sched_waiting := False\<rparr>) \<and>
     (quiet others \<longrightarrow> (\<exists>m \<in> set (sc_inbox s). tt_op m = UM_TIMETRAVEL_RUN \<and>
        current_time s1 = div_round_up (tt_time m - sc_offset s) (ucast (sc_nsec_per_tick s))))"
    (is "_ \<or> ?wait \<and> (_ \<longrightarrow> ?run)")
  proof (cases "time_gt (start_of t j) (current_time t)")
    case False
    then have "time_le (start_of s1 j) (current_time s1)"
      using t by (simp add: time_gt_def time_le_def not_less)
    then show ?thesis ..
  next
    case True
    then have f: "usfstl_sched_forward ?ops (start_of t j) t = Inr s1" using t by simp
    from ctrl_forward_time [OF f] show ?thesis
    proof (elim disjE exE conjE)
      assume "current_time s1 = start_of t j" "job_of s1 = job_of t"
      then have "time_le (start_of s1 j) (current_time s1)" by (simp add: time_le_def)
      then show ?thesis ..
    next
      fix u
      assume q: "usfstl_sched_external_request ?ops (start_of t j) t = Inr (True, u)"
        and u: "usfstl_sched_external_wait ?ops u = Inr s1"
      have ?wait using u
        by (auto simp: usfstl_sched_external_wait_def ctrl_ops_def result_simps)
      moreover have ?run if qt: "quiet others"
      proof -
        have "later s u"
          using ctrl_waits_later [OF w qt] ctrl_request_later [OF q qt] by (rule later_trans)
        then show ?thesis using ctrl_external_wait_later [OF u qt] by (auto simp: later_def)
      qed
      ultimately show ?thesis by blast
    qed
  qed
  show ?thesis
    using r inv js time by (intro exI [of _ s1]) (auto simp: sched_inv_def jobs_ok_def key_le_def)
qed

section \<open>Concrete exchanges\<close>

definition ctrl_example :: "(nat, nat) controlled" where
  "ctrl_example =
     \<lparr>job_of = queue_jobs, current_time = 0, prev_external_sync = 0,
      next_external_sync = 0, joblist = [1, 3], pending_jobs = [], allowed_job = None,
      blocked_groups = 0, next_external_sync_set = False, prev_external_sync_set = False,
      sched_waiting = False,
      sc_attached = True, sc_ack_time = 0, sc_offset = 500, sc_nsec_per_tick = 1000,
      sc_waiting = False, sc_acked = False, sc_frozen = False, sc_started = True,
      sc_expected_ack_seq = 0, sc_seq = 6, sc_old_expected = 0,
      sc_inbox = [], sc_outbox = [], sc_wakeups = [None, None, None, None]\<rparr>"

definition ctrl_run_msg :: timetravel_msg where
  "ctrl_run_msg = \<lparr>tt_op = UM_TIMETRAVEL_RUN, tt_seq = 77, tt_time = 10500\<rparr>"

definition ctrl_ack_msg :: "u32 \<Rightarrow> timetravel_msg" where
  "ctrl_ack_msg q = \<lparr>tt_op = UM_TIMETRAVEL_ACK, tt_seq = q, tt_time = 10500\<rparr>"

lemma ctrl_example_inv: "sched_inv 0 (ctrl_example\<lparr>sc_inbox := i\<rparr>)"
  using queue_example_inv(1)
  by (simp add: ctrl_example_def queue_defs sched_inv_def jobs_ok_def runnable_def)

lemma quiet_none: "quiet (\<lambda>e s. Inl Assertion_failed)"
  by (simp add: quiet_def)

text \<open>A handler that schedules a job while a message waits for its acknowledgement; the
  scheduler asks the controller for run time meanwhile, a second message under way.\<close>

abbreviation (input) scheduling_handler ::
  "nat \<Rightarrow> (nat, nat) controlled \<Rightarrow> (nat, nat) controlled result" where
  "scheduling_handler \<equiv> \<lambda>j. usfstl_sched_add_job (ctrl_ops 3 (\<lambda>_ _. Inl Assertion_failed)) j"

definition scheduling_example :: "(nat, nat) controlled" where
  "scheduling_example = ctrl_example\<lparr>joblist := [3],
     sc_wakeups := [None, Some 1, None, None],
     sc_inbox := [ctrl_ack_msg 3, ctrl_ack_msg 8, ctrl_ack_msg 7]\<rparr>"

lemma ctrl_send_msg_acknowledged_witness:
  "\<exists>s' us m ws. usfstl_sched_ctrl_send_msg 4 scheduling_handler UM_TIMETRAVEL_UPDATE 9
       scheduling_example = Inr s' \<and> joblist s' = [1, 3] \<and>
     sc_inbox scheduling_example = us @ m # sc_inbox s' \<and> acks 7 m"
proof -
  have "case usfstl_sched_ctrl_send_msg 4 scheduling_handler UM_TIMETRAVEL_UPDATE 9
       scheduling_example of Inl e \<Rightarrow> False | Inr s' \<Rightarrow> joblist s' = [1, 3]"
    by code_simp
  then obtain s' where r: "usfstl_sched_ctrl_send_msg 4 scheduling_handler UM_TIMETRAVEL_UPDATE 9
       scheduling_example = Inr s'" "joblist s' = [1, 3]" by (auto split: sum.splits)
  have seq: "next_seq (sc_seq scheduling_example) = 7"
    by (simp add: scheduling_example_def ctrl_example_def next_seq_def)
  from ctrl_send_msg_acknowledged [OF r(1) add_job_nested [OF quiet_none]] r show ?thesis
    unfolding seq by blast
qed

lemma ctrl_wait_until_run_witness:
  "\<exists>s'. usfstl_sched_ctrl_wait 3 (\<lambda>e s. Inl Assertion_failed)
       (ctrl_example\<lparr>joblist := [], sc_inbox := [ctrl_ack_msg 7, ctrl_run_msg]\<rparr>) = Inr s' \<and> \<not> sc_waiting s'"
proof -
  have "\<exists>s'. usfstl_sched_ctrl_wait 3 (\<lambda>e s. Inl Assertion_failed)
       (ctrl_example\<lparr>joblist := [], sc_inbox := [ctrl_ack_msg 7, ctrl_run_msg]\<rparr>) = Inr s'"
    unfolding returns_iff by code_simp
  then show ?thesis using ctrl_wait_until_run [OF _ quiet_none] by fast
qed

lemma ctrl_time_conversion_witness:
  "\<exists>s'. usfstl_sched_ctrl_sock_read (ctrl_example\<lparr>joblist := [], sc_inbox := [ctrl_run_msg]\<rparr>) = Inr s' \<and>
     current_time s' = 10"
proof -
  let ?s = "ctrl_example\<lparr>joblist := [], sc_inbox := [ctrl_run_msg]\<rparr>"
  have "\<exists>s'. usfstl_sched_ctrl_sock_read ?s = Inr s'"
    unfolding returns_iff by code_simp
  then obtain s' where r: "usfstl_sched_ctrl_sock_read ?s = Inr s'" by blast
  have "\<forall>t. (10500 :: u64) = t * 1000 + 500 \<and> unat t * 1000 < 2 ^ 64 \<longrightarrow> current_time s' = t"
    using ctrl_time_conversion [OF r, of ctrl_run_msg "[]" 1000 10000]
    by (simp add: ctrl_example_def ctrl_run_msg_def)
  then have "current_time s' = 10" by (rule allE [of _ 10]) simp
  then show ?thesis using r by blast
qed

lemma ctrl_sync_from_answer_witness:
  "\<exists>s'. usfstl_sched_ctrl_sync_from 3 (\<lambda>e s. Inl Assertion_failed)
       (ctrl_example\<lparr>sc_frozen := True, sc_inbox := [ctrl_ack_msg 7]\<rparr>) = Inr s' \<and>
     (\<exists>us m. [ctrl_ack_msg 7] = us @ m # sc_inbox s')"
proof -
  let ?s = "ctrl_example\<lparr>sc_frozen := True, sc_inbox := [ctrl_ack_msg 7]\<rparr>"
  have "\<exists>s'. usfstl_sched_ctrl_sync_from 3 (\<lambda>e s. Inl Assertion_failed) ?s = Inr s'"
    unfolding returns_iff by code_simp
  then obtain s' where r: "usfstl_sched_ctrl_sync_from 3 (\<lambda>e s. Inl Assertion_failed) ?s = Inr s'"
    by blast
  have "sc_started ?s" by (simp add: ctrl_example_def)
  from ctrl_sync_from_answer [OF r quiet_none this] show ?thesis using r by auto
qed

text \<open>The same while the scheduler itself waits: a handler schedules job 1 before job 3.\<close>

definition safe_handler :: "nat \<Rightarrow> (nat, nat) controlled \<Rightarrow> (nat, nat) controlled result" where
  "safe_handler j s = rassert (start_of s j \<le> 1000) (scheduling_handler j s)"

lemma safe_handler_inv: "inv_kept 0 safe_handler"
  unfolding inv_kept_def
proof (intro allI impI)
  fix j s s'
  let ?ops = "ctrl_ops 3 (\<lambda>_ _. Inl Assertion_failed) :: (nat, nat) controlled sched_ops"
  assume inv: "sched_inv 0 s" and h: "safe_handler j s = Inr s'"
  have le: "start_of s j \<le> 1000" and add: "usfstl_sched_add_job ?ops j s = Inr s'"
    using h by (auto simp: safe_handler_def result_simps)
  have w: "in_window 0 (start_of s j)"
    using le by (simp add: in_window_def ahead_def word_le_nat_alt)
  have "queue_kept (\<lambda>_ _ :: (nat, nat) controlled. Inl Assertion_failed)" by (simp add: queue_kept_def)
  then have "keeps_queue ?ops"
    using send_msg_same_queue [of 3 "\<lambda>_ _. Inl Assertion_failed"]
    by (auto simp: keeps_queue_def ctrl_ops_def USFSTL_SCHEDULER_ops_def
        usfstl_sched_ctrl_request_def split: if_splits)
  then show "sched_inv 0 s'" using add inv w by (rule add_job_inv) (simp add: in_window_def ahead_def)
qed

definition waiting_example :: "(nat, nat) controlled" where
  "waiting_example = scheduling_example\<lparr>sc_inbox :=
     [ctrl_ack_msg 7, ctrl_ack_msg 8, ctrl_ack_msg 9, ctrl_run_msg]\<rparr>"

lemma ctrl_runs_first_job_witness:
  "\<exists>s' s1. usfstl_sched_next 3 (ctrl_ops 3 safe_handler) (\<lambda>_. Inr) waiting_example = Inr (1, s') \<and>
     1 \<in> set (joblist s1) \<and> sched_inv 0 s1 \<and> usfstl_sched_del_job 1 s1 = s' \<and> joblist s' = [3] \<and>
     (time_le (start_of s1 1) (current_time s1) \<or>
      (\<exists>u v. usfstl_sched_ctrl_wait 3 safe_handler u = Inr v \<and> s1 = v\<lparr>sched_waiting := False\<rparr>))"
proof -
  have "case usfstl_sched_next 3 (ctrl_ops 3 safe_handler) (\<lambda>_. Inr) waiting_example of
      Inl e \<Rightarrow> False | Inr (j, s') \<Rightarrow> j = 1 \<and> joblist s' = [3]"
    by code_simp
  then obtain s' where r: "usfstl_sched_next 3 (ctrl_ops 3 safe_handler) (\<lambda>_. Inr) waiting_example = Inr (1, s')"
    "joblist s' = [3]" by (auto split: sum.splits simp del: usfstl_sched_next.simps)
  have "sched_inv 0 waiting_example"
    using queue_example_inv(1)
    by (simp add: waiting_example_def scheduling_example_def ctrl_example_def queue_defs sched_inv_def
        jobs_ok_def runnable_def)
  from ctrl_runs_first_job [OF r(1) this safe_handler_inv] show ?thesis using r by blast
qed

text \<open>The number that was expected is kept in a static variable. Messages sent from handlers
  that run while another message waits are nested; at the third level the static has been
  overwritten, the outermost message then expects a wrong number, skips its own
  acknowledgement and waits for ever.\<close>

definition nested_send :: "(nat, nat) controlled \<Rightarrow> (nat, nat) controlled result" where
  "nested_send = usfstl_sched_ctrl_send_msg 5 (\<lambda>_.
     usfstl_sched_ctrl_send_msg 5 (\<lambda>_.
     usfstl_sched_ctrl_send_msg 5 (\<lambda>_. Inr) UM_TIMETRAVEL_UPDATE 0)
       UM_TIMETRAVEL_UPDATE 0) UM_TIMETRAVEL_UPDATE 0"

lemma nested_send_loses_ack:
  "(case nested_send (ctrl_example\<lparr>sc_wakeups := [Some 0, Some 0, None, None, None],
     sc_inbox := [ctrl_ack_msg 9, ctrl_ack_msg 8, ctrl_ack_msg 7]\<rparr>) of
      Inl e \<Rightarrow> e = Starved | Inr s \<Rightarrow> False)"
  by code_simp

end
