(* ===== verification/Sched_Link.thy ===== *)
theory Sched_Link
  imports Scheduler
begin

text \<open>
  Linking one scheduler to a parent (\<open>usfstl_sched_link\<close> and its callbacks in
  \<open>wmediumd/lib/sched.c\<close>): the child asks its parent for run time through one job of the
  parent, \<open>lj\<close>. The parent is a scheduler of its own, kept in the state of the child, with
  \<open>link.waiting\<close> beside it because only the parent's callbacks change it; \<open>prun\<close> are the
  callbacks of the parent's other jobs.
\<close>

section \<open>State and operations\<close>

record 'p link_parent = "'p scheduler" +
  lp_waiting :: bool

record ('j, 'p) linked = "'j scheduler" +
  ln_parent :: "'p link_parent option"
  ln_offset :: u64
  ln_tick_ratio :: u32

definition usfstl_sched_link_job_callback :: "'p link_parent \<Rightarrow> 'p link_parent" where
  "usfstl_sched_link_job_callback p = p\<lparr>lp_waiting := False\<rparr>"

definition parent_run ::
  "'p \<Rightarrow> ('p \<Rightarrow> 'p link_parent \<Rightarrow> 'p link_parent result) \<Rightarrow> 'p \<Rightarrow> 'p link_parent \<Rightarrow>
   'p link_parent result" where
  "parent_run lj prun j p =
     (if j = lj then Inr (usfstl_sched_link_job_callback p) else prun j p)"

definition usfstl_sched_link_external_sync_from ::
  "'p link_parent sched_ops \<Rightarrow> ('j, 'p, 'z) linked_scheme \<Rightarrow>
   (u64 \<times> ('j, 'p, 'z) linked_scheme) result" where
  "usfstl_sched_link_external_sync_from pops s =
     rbind (rget Null_dereference (ln_parent s)) (\<lambda>p.
     rbind (usfstl_sched_current_time pops p) (\<lambda>(parent_time, p).
       if ln_tick_ratio s = 0 then Inl Division_by_zero
       else Inr (div_round_up (parent_time - ln_offset s) (ucast (ln_tick_ratio s)),
                 s\<lparr>ln_parent := Some p\<rparr>)))"

fun link_wait_loop ::
  "nat \<Rightarrow> 'p link_parent sched_ops \<Rightarrow> 'p \<Rightarrow> ('p \<Rightarrow> 'p link_parent \<Rightarrow> 'p link_parent result) \<Rightarrow>
   'p link_parent \<Rightarrow> 'p link_parent result" where
  "link_wait_loop 0 pops lj prun p = (if lp_waiting p then Inl Out_of_fuel else Inr p)"
| "link_wait_loop (Suc fuel) pops lj prun p =
     (if lp_waiting p
      then rbind (usfstl_sched_next (Suc fuel) pops (parent_run lj prun) p)
             (\<lambda>(j, p). link_wait_loop fuel pops lj prun p)
      else Inr p)"

text \<open>The function pointers that \<open>usfstl_sched_current_time\<close> and \<open>usfstl_sched_set_time\<close> of
  the child use.\<close>

definition link_time_ops ::
  "'p link_parent sched_ops \<Rightarrow> ('j, 'p, 'z) linked_scheme sched_ops" where
  "link_time_ops pops = USFSTL_SCHEDULER_ops
     \<lparr>external_sync_from := Some (usfstl_sched_link_external_sync_from pops)\<rparr>"

definition usfstl_sched_link_external_wait ::
  "nat \<Rightarrow> 'p link_parent sched_ops \<Rightarrow> 'p \<Rightarrow> ('p \<Rightarrow> 'p link_parent \<Rightarrow> 'p link_parent result) \<Rightarrow>
   ('j, 'p, 'z) linked_scheme \<Rightarrow> ('j, 'p, 'z) linked_scheme result" where
  "usfstl_sched_link_external_wait fuel pops lj prun s =
     rbind (rget Null_dereference (ln_parent s)) (\<lambda>p.
     rbind (link_wait_loop fuel pops lj prun (p\<lparr>lp_waiting := True\<rparr>)) (\<lambda>p.
     rbind (usfstl_sched_current_time (link_time_ops pops) (s\<lparr>ln_parent := Some p\<rparr>)) (\<lambda>(t, s).
     usfstl_sched_set_time (link_time_ops pops) t s)))"

definition usfstl_sched_link_external_request ::
  "'p link_parent sched_ops \<Rightarrow> 'p \<Rightarrow> u64 \<Rightarrow> ('j, 'p, 'z) linked_scheme \<Rightarrow>
   ('j, 'p, 'z) linked_scheme result" where
  "usfstl_sched_link_external_request pops lj time s =
     rbind (rget Null_dereference (ln_parent s)) (\<lambda>p.
     let parent_time = ucast (ln_tick_ratio s) * time + ln_offset s;
         p = usfstl_sched_del_job lj p;
         p = set_job_start lj parent_time p
     in rbind (usfstl_sched_add_job pops lj p) (\<lambda>p. Inr (s\<lparr>ln_parent := Some p\<rparr>)))"

definition link_ops ::
  "nat \<Rightarrow> 'p link_parent sched_ops \<Rightarrow> 'p \<Rightarrow> ('p \<Rightarrow> 'p link_parent \<Rightarrow> 'p link_parent result) \<Rightarrow>
   ('j, 'p, 'z) linked_scheme sched_ops" where
  "link_ops fuel pops lj prun = USFSTL_SCHEDULER_ops
     \<lparr>external_request := Some (usfstl_sched_link_external_request pops lj),
      external_wait := Some (usfstl_sched_link_external_wait fuel pops lj prun),
      external_sync_from := Some (usfstl_sched_link_external_sync_from pops)\<rparr>"

definition usfstl_sched_link ::
  "nat \<Rightarrow> 'p link_parent sched_ops \<Rightarrow> 'p \<Rightarrow> ('p \<Rightarrow> 'p link_parent \<Rightarrow> 'p link_parent result) \<Rightarrow>
   'p link_parent \<Rightarrow> u32 \<Rightarrow> ('j, 'p, 'z) linked_scheme sched_ops \<Rightarrow> ('j, 'p, 'z) linked_scheme \<Rightarrow>
   (('j, 'p, 'z) linked_scheme sched_ops \<times> ('j, 'p, 'z) linked_scheme) result" where
  "usfstl_sched_link fuel pops lj prun parent tick_ratio ops s =
     rassert (tick_ratio \<noteq> 0)
    (rassert (ln_parent s = None)
    (rassert (external_request ops = None)
    (rassert (external_wait ops = None)
    (rassert (external_sync_from ops = None)
      (let ops = ops\<lparr>external_request := Some (usfstl_sched_link_external_request pops lj),
                     external_wait := Some (usfstl_sched_link_external_wait fuel pops lj prun),
                     external_sync_from := Some (usfstl_sched_link_external_sync_from pops)\<rparr>;
           s = s\<lparr>ln_tick_ratio := tick_ratio, ln_parent := Some parent,
                 ln_offset := current_time parent - current_time s * ucast tick_ratio\<rparr>
       in case usfstl_sched_next_pending s of
            None \<Rightarrow> Inr (ops, s)
          | Some job \<Rightarrow> rbind (usfstl_sched_external_request ops (start_of s job) s)
              (\<lambda>(_, s). Inr (ops, s)))))))"

text \<open>Unlinking gives the parent back, without the link's job.\<close>

definition usfstl_sched_unlink ::
  "'p \<Rightarrow> ('j, 'p, 'z) linked_scheme sched_ops \<Rightarrow> ('j, 'p, 'z) linked_scheme \<Rightarrow>
   ('p link_parent \<times> ('j, 'p, 'z) linked_scheme sched_ops \<times> ('j, 'p, 'z) linked_scheme) result" where
  "usfstl_sched_unlink lj ops s =
     (case ln_parent s of
        None \<Rightarrow> Inl Assertion_failed
      | Some p \<Rightarrow> Inr (usfstl_sched_del_job lj p,
          ops\<lparr>external_sync_from := None, external_wait := None, external_request := None\<rparr>,
          s\<lparr>ln_parent := None, ln_offset := 0, ln_tick_ratio := 0\<rparr>))"

section \<open>Properties\<close>

lemma same_queue_link [simp]:
  "same_queue s (t\<lparr>ln_parent := a\<rparr>) = same_queue s t"
  by (simp add: same_queue_def)

text \<open>Library: a request of the child re-queues the one link job of the parent, in a parent
  queue that stays well-formed, at the parent time of the requested tick; and at exactly
  that parent time the child's clock, read back through the link, is the requested tick.\<close>

theorem link_request_roundtrip:
  assumes "usfstl_sched_link_external_request pops lj time s = Inr s'"
    and "keeps_queue pops" and "ln_parent s = Some p" and "sched_inv c p"
    and "in_window c (ucast (ln_tick_ratio s) * time + ln_offset s)" and "in_window c 0"
    and ratio: "ln_tick_ratio s \<noteq> 0"
    and small: "unat time * unat (ln_tick_ratio s) + unat (ln_tick_ratio s) \<le> 2 ^ 64"
  shows "same_queue s s' \<and> (\<exists>p'. ln_parent s' = Some p' \<and> sched_inv c p' \<and>
      {j. usfstl_job_scheduled j p'} = insert lj {j. usfstl_job_scheduled j p} \<and>
      (runnable p lj \<longrightarrow> start_of p' lj = ucast (ln_tick_ratio s) * time + ln_offset s)) \<and>
    (\<forall>q. current_time q = ucast (ln_tick_ratio s) * time + ln_offset s \<longrightarrow>
      usfstl_sched_link_external_sync_from USFSTL_SCHEDULER_ops (s'\<lparr>ln_parent := Some q\<rparr>) =
        Inr (time, s'\<lparr>ln_parent := Some q\<rparr>))"
proof -
  let ?T = "ucast (ln_tick_ratio s) * time + ln_offset s"
  define p1 where "p1 = set_job_start lj ?T (usfstl_sched_del_job lj p)"
  obtain p' where add: "usfstl_sched_add_job pops lj p1 = Inr p'"
    and s': "s' = s\<lparr>ln_parent := Some p'\<rparr>"
    using assms(1,3)
    by (auto simp: usfstl_sched_link_external_request_def result_simps Let_def p1_def)
  have d: "distinct (joblist p @ pending_jobs p)" using assms(4) by (simp add: sched_inv_def jobs_ok_def)
  have del: "sched_inv c (usfstl_sched_del_job lj p)" using assms(4) by (rule del_job_inv)
  have nj: "lj \<notin> set (joblist (usfstl_sched_del_job lj p))"
    using d by (simp add: del_job_lists [OF d])
  have ok: "jobs_ok c p1"
    unfolding p1_def using del nj assms(5) by (intro jobs_ok_set_start) (simp_all add: sched_inv_def)
  have run: "runnable p1 = runnable p"
    by (auto simp: p1_def set_job_start_def runnable_def fun_eq_iff)
  have lists: "joblist p1 = remove1 lj (joblist p)" "pending_jobs p1 = remove1 lj (pending_jobs p)"
    by (simp_all add: p1_def set_job_start_def del_job_lists [OF d])
  have inv1: "sched_inv c p1"
    using ok assms(4) run set_remove1_subset [of lj "joblist p"] by (auto simp: sched_inv_def lists)
  have st: "start_of p1 lj = ?T" by (simp add: p1_def set_job_start_def)
  have inv': "sched_inv c p'"
    using add_job_inv [OF assms(2) add inv1] assms(5,6) st by simp
  note r = add_job_Inr [OF assms(2) add]
  have "{j. usfstl_job_scheduled j p'} = insert lj {j. usfstl_job_scheduled j p1}"
    using r(4) by (auto simp: same_queue_def insert_job_def usfstl_job_scheduled_def
        set_job_start_def split: if_splits)
  moreover have "insert lj {j. usfstl_job_scheduled j p1} = insert lj {j. usfstl_job_scheduled j p}"
    using d by (auto simp: usfstl_job_scheduled_def lists)
  moreover have "start_of p' lj = ?T" if "runnable p lj"
    using r(4) that st run by (auto simp: same_queue_def insert_job_def)
  moreover have "div_round_up (?T - ln_offset s) (ucast (ln_tick_ratio s)) = time"
  proof -
    let ?n = "ucast (ln_tick_ratio s) :: u64"
    have n: "unat ?n = unat (ln_tick_ratio s)" by (rule unat_ucast_up) simp
    have pos: "0 < unat (ln_tick_ratio s)" using ratio by (simp add: unat_gt_0)
    have "unat (?n * time) = (unat ?n * unat time) mod 2 ^ 64" by (simp add: unat_word_ariths)
    also have "\<dots> = unat time * unat (ln_tick_ratio s)"
      using small pos unfolding n by (intro mod_less [THEN trans]) (simp_all add: mult.commute)
    finally have "unat (?n * time) = unat time * unat (ln_tick_ratio s)" .
    then show ?thesis
      using unat_div_round_up [of ?n "?n * time"] n pos small round_up_multiple [OF pos, of "unat time"]
      by (simp add: word_unat_eq_iff)
  qed
  ultimately show ?thesis
    using inv' ratio unfolding s'
    by (auto simp: usfstl_sched_link_external_sync_from_def usfstl_sched_current_time_def
        USFSTL_SCHEDULER_ops_def)
qed

text \<open>Library: when the child's wait returns, the parent has run the link job (only that clears
  the waiting flag) and the child's clock is the parent's time in ticks of the child, rounded
  up.\<close>

theorem link_wait_follows_parent:
  assumes "usfstl_sched_link_external_wait fuel USFSTL_SCHEDULER_ops lj prun s = Inr s'"
    and "sched_waiting s"
  shows "\<exists>p'. ln_parent s' = Some p' \<and> \<not> lp_waiting p' \<and> ln_tick_ratio s \<noteq> 0 \<and>
    current_time s' = div_round_up (current_time p' - ln_offset s) (ucast (ln_tick_ratio s))"
proof -
  obtain p q where "ln_parent s = Some p"
    and loop: "link_wait_loop fuel USFSTL_SCHEDULER_ops lj prun (p\<lparr>lp_waiting := True\<rparr>) = Inr q"
    and rest: "rbind (usfstl_sched_current_time (link_time_ops USFSTL_SCHEDULER_ops)
        (s\<lparr>ln_parent := Some q\<rparr>)) (\<lambda>(t, s). usfstl_sched_set_time
          (link_time_ops USFSTL_SCHEDULER_ops) t s) = Inr s'"
    using assms(1) by (auto simp: usfstl_sched_link_external_wait_def result_simps simp del:
        link_wait_loop.simps)
  have "\<not> lp_waiting y" if "link_wait_loop n USFSTL_SCHEDULER_ops lj prun x = Inr y" for n x y
    using that
  proof (induction n arbitrary: x)
    case (Suc n)
    then show ?case by (auto simp: result_simps simp del: usfstl_sched_next.simps split: if_splits)
  qed (simp split: if_splits)
  then have "\<not> lp_waiting q" using loop by blast
  then show ?thesis
    using rest assms(2)
    by (auto simp: usfstl_sched_current_time_def link_time_ops_def USFSTL_SCHEDULER_ops_def
        usfstl_sched_link_external_sync_from_def usfstl_sched_set_time_def
        usfstl_sched_set_time_internal_def call_opt_def result_simps Let_def split: if_splits)
qed

section \<open>A concrete link\<close>

definition link_parent_example :: "nat link_parent" where
  "link_parent_example =
     \<lparr>job_of = queue_jobs, current_time = 5, prev_external_sync = 0,
      next_external_sync = 0, joblist = [1, 3], pending_jobs = [], allowed_job = None,
      blocked_groups = 0, next_external_sync_set = False, prev_external_sync_set = False,
      sched_waiting = False, lp_waiting = False\<rparr>"

definition link_example :: "(nat, nat) linked" where
  "link_example =
     \<lparr>job_of = queue_jobs, current_time = 0, prev_external_sync = 4,
      next_external_sync = 0, joblist = [], pending_jobs = [], allowed_job = None,
      blocked_groups = 0, next_external_sync_set = False, prev_external_sync_set = False,
      sched_waiting = True, ln_parent = Some link_parent_example, ln_offset = 5, ln_tick_ratio = 3\<rparr>"

lemma link_request_roundtrip_witness:
  "\<exists>s'. usfstl_sched_link_external_request USFSTL_SCHEDULER_ops 2 4 link_example = Inr s' \<and>
     (\<forall>q. current_time q = 17 \<longrightarrow>
       usfstl_sched_link_external_sync_from USFSTL_SCHEDULER_ops (s'\<lparr>ln_parent := Some q\<rparr>) =
         Inr (4, s'\<lparr>ln_parent := Some q\<rparr>))"
proof -
  have "\<exists>s'. usfstl_sched_link_external_request USFSTL_SCHEDULER_ops 2 4 link_example = Inr s'"
    unfolding returns_iff by code_simp
  then obtain s' where r: "usfstl_sched_link_external_request USFSTL_SCHEDULER_ops 2 4 link_example
      = Inr s'" by blast
  have inv: "sched_inv 0 link_parent_example"
    using queue_example_inv(1)
    by (simp add: link_parent_example_def queue_defs sched_inv_def jobs_ok_def runnable_def)
  have k: "keeps_queue (USFSTL_SCHEDULER_ops :: nat link_parent sched_ops)"
    by (simp add: keeps_queue_def USFSTL_SCHEDULER_ops_def)
  show ?thesis
    using link_request_roundtrip [OF r k _ inv] r
    by (auto simp: link_example_def in_window_def ahead_def)
qed

lemma link_wait_follows_parent_witness:
  "\<exists>s' p'. usfstl_sched_link_external_wait 4 USFSTL_SCHEDULER_ops 1 (\<lambda>_. Inr) link_example = Inr s' \<and>
     ln_parent s' = Some p' \<and> \<not> lp_waiting p'"
proof -
  have "\<exists>s'. usfstl_sched_link_external_wait 4 USFSTL_SCHEDULER_ops 1 (\<lambda>_. Inr) link_example = Inr s'"
    unfolding returns_iff by code_simp
  then obtain s' where r: "usfstl_sched_link_external_wait 4 USFSTL_SCHEDULER_ops 1 (\<lambda>_. Inr)
      link_example = Inr s'" by blast
  have "sched_waiting link_example" by (simp add: link_example_def)
  from link_wait_follows_parent [OF r this] show ?thesis using r by blast
qed

end
