(* ===== verification/Sched_Pending.thy ===== *)
theory Sched_Pending
  imports Scheduler
begin

text \<open>
  Walking over the queue of the scheduler: \<open>usfstl_sched_next_pending\<close> (\<open>wmediumd/lib/sched.c\<close>) with a job,
  and the loops \<open>usfstl_sched_for_each_pending\<close> and \<open>usfstl_sched_for_each_pending_safe\<close>
  (\<open>wmediumd/inc/usfstl/sched.h\<close>). The program itself only asks for the first job.
\<close>

section \<open>The next job\<close>

text \<open>A job that is not in the queue has no links to follow.\<close>

definition usfstl_sched_pending_after :: "'j option \<Rightarrow> ('j, 'z) scheduler_scheme \<Rightarrow> 'j option result" where
  "usfstl_sched_pending_after job s =
     (case job of
        None \<Rightarrow> Inr (usfstl_sched_next_pending s)
      | Some j \<Rightarrow>
          if j \<notin> set (joblist s) then Inl Wild_pointer
          else (case tl (dropWhile (\<lambda>k. k \<noteq> j) (joblist s)) of [] \<Rightarrow> Inr None | k # _ \<Rightarrow> Inr (Some k)))"

section \<open>The loops\<close>

text \<open>The body may change the scheduler. The loops need one round for every job, and the fuel stands for the
  rounds they may take.\<close>

fun pending_loop ::
  "nat \<Rightarrow> ('j \<Rightarrow> ('j, 'z) scheduler_scheme \<Rightarrow> ('j, 'z) scheduler_scheme result) \<Rightarrow> 'j option \<Rightarrow>
   ('j, 'z) scheduler_scheme \<Rightarrow> ('j, 'z) scheduler_scheme result" where
  "pending_loop fuel body None s = Inr s"
| "pending_loop 0 body (Some j) s = Inl Out_of_fuel"
| "pending_loop (Suc fuel) body (Some j) s =
     rbind (body j s) (\<lambda>s. rbind (usfstl_sched_pending_after (Some j) s) (\<lambda>job. pending_loop fuel body job s))"

definition usfstl_sched_for_each_pending ::
  "nat \<Rightarrow> ('j \<Rightarrow> ('j, 'z) scheduler_scheme \<Rightarrow> ('j, 'z) scheduler_scheme result) \<Rightarrow>
   ('j, 'z) scheduler_scheme \<Rightarrow> ('j, 'z) scheduler_scheme result" where
  "usfstl_sched_for_each_pending fuel body s =
     rbind (usfstl_sched_pending_after None s) (\<lambda>job. pending_loop fuel body job s)"

text \<open>The safe loop knows the next job before the body runs. After the last job it asks for the one
  after none, which is the first again, but ends before it uses it.\<close>

fun pending_safe_loop ::
  "nat \<Rightarrow> ('j \<Rightarrow> ('j, 'z) scheduler_scheme \<Rightarrow> ('j, 'z) scheduler_scheme result) \<Rightarrow> 'j option \<Rightarrow> 'j option \<Rightarrow>
   ('j, 'z) scheduler_scheme \<Rightarrow> ('j, 'z) scheduler_scheme result" where
  "pending_safe_loop fuel body None tmp s = Inr s"
| "pending_safe_loop 0 body (Some j) tmp s = Inl Out_of_fuel"
| "pending_safe_loop (Suc fuel) body (Some j) tmp s =
     rbind (body j s) (\<lambda>s. rbind (usfstl_sched_pending_after tmp s) (\<lambda>tmp'. pending_safe_loop fuel body tmp tmp' s))"

definition usfstl_sched_for_each_pending_safe ::
  "nat \<Rightarrow> ('j \<Rightarrow> ('j, 'z) scheduler_scheme \<Rightarrow> ('j, 'z) scheduler_scheme result) \<Rightarrow>
   ('j, 'z) scheduler_scheme \<Rightarrow> ('j, 'z) scheduler_scheme result" where
  "usfstl_sched_for_each_pending_safe fuel body s =
     rbind (usfstl_sched_pending_after None s) (\<lambda>job.
     rbind (usfstl_sched_pending_after job s) (\<lambda>tmp. pending_safe_loop fuel body job tmp s))"

section \<open>Every job is visited once\<close>

definition head_of :: "'a list \<Rightarrow> 'a option" where
  "head_of xs = (case xs of [] \<Rightarrow> None | x # _ \<Rightarrow> Some x)"

lemma head_of_simps [simp]: "head_of [] = None" "head_of (x # xs) = Some x"
  by (simp_all add: head_of_def)

lemma pending_after_none [simp]: "usfstl_sched_pending_after None s = Inr (head_of (joblist s))"
  by (simp add: usfstl_sched_pending_after_def usfstl_sched_next_pending_def head_of_def)

lemma pending_after_job:
  assumes "joblist s = xs @ j # ys" and "j \<notin> set xs"
  shows "usfstl_sched_pending_after (Some j) s = Inr (head_of ys)"
proof -
  have "dropWhile (\<lambda>k. k \<noteq> j) (xs @ j # ys) = j # ys"
    using assms(2) by (induction xs) auto
  then show ?thesis using assms(1) by (simp add: usfstl_sched_pending_after_def head_of_def split: list.split)
qed

text \<open>A body that leaves the queue as it is, and one that may also take its own job out of it.\<close>

definition leaves_queue :: "('j \<Rightarrow> ('j, 'z) scheduler_scheme \<Rightarrow> ('j, 'z) scheduler_scheme result) \<Rightarrow> bool" where
  "leaves_queue body \<longleftrightarrow> (\<forall>j s t. body j s = Inr t \<longrightarrow> joblist t = joblist s)"

definition takes_own_job :: "('j \<Rightarrow> ('j, 'z) scheduler_scheme \<Rightarrow> ('j, 'z) scheduler_scheme result) \<Rightarrow> bool" where
  "takes_own_job body \<longleftrightarrow> (\<forall>j s t. body j s = Inr t \<longrightarrow> joblist t = joblist s \<or> joblist t = remove1 j (joblist s))"

lemma pending_loop_rfold:
  assumes "leaves_queue body" and "joblist s = xs @ ys" and "distinct (joblist s)" and "length ys \<le> fuel"
  shows "pending_loop fuel body (head_of ys) s = rfold body ys s"
  using assms(2-)
proof (induction ys arbitrary: xs s fuel)
  case (Cons j ys)
  then obtain n where n: "fuel = Suc n" "length ys \<le> n" by (cases fuel) auto
  have j: "j \<notin> set xs" using Cons.prems by auto
  have "rbind (usfstl_sched_pending_after (Some j) t) (\<lambda>job. pending_loop n body job t) = rfold body ys t"
    if t: "body j s = Inr t" for t
  proof -
    have l: "joblist t = joblist s" using assms(1) t by (auto simp: leaves_queue_def)
    then show ?thesis using pending_after_job [of t xs j ys] Cons.IH [of t "xs @ [j]" n] Cons.prems j n by simp
  qed
  then show ?case by (cases "body j s") (simp_all add: n)
qed simp

lemma pending_safe_loop_rfold:
  assumes "takes_own_job body" and "joblist s = xs @ ys" and "distinct (joblist s)" and "length ys \<le> fuel"
  shows "pending_safe_loop fuel body (head_of ys) (if ys = [] then tmp else head_of (tl ys)) s = rfold body ys s"
  using assms(2-)
proof (induction ys arbitrary: xs s fuel tmp)
  case (Cons j ys)
  then obtain n where n: "fuel = Suc n" "length ys \<le> n" by (cases fuel) auto
  have j: "j \<notin> set xs" "j \<notin> set ys" using Cons.prems by auto
  have "rbind (usfstl_sched_pending_after (head_of ys) t) (\<lambda>tmp'. pending_safe_loop n body (head_of ys) tmp' t) =
      rfold body ys t" if t: "body j s = Inr t" for t
  proof -
    obtain zs where zs: "joblist t = zs @ ys" "distinct (joblist t)"
    proof (cases "joblist t = joblist s")
      case True
      then show ?thesis using that [of "xs @ [j]"] Cons.prems by simp
    next
      case False
      then have "joblist t = remove1 j (joblist s)" using assms(1) t by (auto simp: takes_own_job_def)
      then have "joblist t = xs @ ys" using j by (simp add: Cons.prems(1) remove1_append)
      then show ?thesis using that Cons.prems by simp
    qed
    show ?thesis
    proof (cases ys)
      case (Cons k ws)
      then have "k \<notin> set zs" using zs by auto
      then have "usfstl_sched_pending_after (Some k) t = Inr (head_of ws)"
        using pending_after_job [of t zs k ws] zs(1) Cons by simp
      then show ?thesis using Cons.IH [OF zs n(2), of None] Cons by simp
    qed simp
  qed
  then show ?case by (cases "body j s") (simp_all add: n)
qed simp

section \<open>Properties\<close>

text \<open>Library: the loops over the queue of a scheduler treat every job once, in the order of the queue, like
  a fold over the queue as it was at the start. The plain loop does so if its body leaves the
  queue alone, the safe one also if its body takes its own job out of the queue.\<close>

theorem pending_loops_are_folds:
  assumes "distinct (joblist s)" and "length (joblist s) \<le> fuel"
  shows "(leaves_queue body \<longrightarrow> usfstl_sched_for_each_pending fuel body s = rfold body (joblist s) s) \<and>
    (takes_own_job body \<longrightarrow> usfstl_sched_for_each_pending_safe fuel body s = rfold body (joblist s) s)"
proof -
  have "usfstl_sched_for_each_pending_safe fuel body s =
      pending_safe_loop fuel body (head_of (joblist s)) (if joblist s = [] then None else head_of (tl (joblist s))) s"
    by (cases "joblist s") (simp_all add: usfstl_sched_for_each_pending_safe_def pending_after_job [where xs = "[]"])
  then show ?thesis
    using assms pending_loop_rfold [of body s "[]" "joblist s" fuel] pending_safe_loop_rfold [of body s "[]" "joblist s" fuel None]
    by (simp add: usfstl_sched_for_each_pending_def)
qed

text \<open>Taking all jobs out of the queue.\<close>

lemma pending_loops_are_folds_witness:
  "\<exists>t. usfstl_sched_for_each_pending_safe 2 (\<lambda>j s. Inr (usfstl_sched_del_job j s)) queue_example = Inr t \<and> joblist t = [] \<and>
     usfstl_sched_for_each_pending 2 (\<lambda>j s. Inr (usfstl_sched_del_job j s)) queue_example = Inl Wild_pointer"
proof -
  let ?body = "\<lambda>j (s :: nat scheduler). Inr (usfstl_sched_del_job j s)"
  have "takes_own_job ?body" by (auto simp: takes_own_job_def usfstl_sched_del_job_def)
  then have "usfstl_sched_for_each_pending_safe 2 ?body queue_example = rfold ?body [1, 3] queue_example"
    using pending_loops_are_folds [of queue_example 2 ?body] by (simp add: queue_defs)
  moreover have "usfstl_sched_for_each_pending 2 ?body queue_example = Inl Wild_pointer"
    by (simp add: usfstl_sched_for_each_pending_def numeral_2_eq_2 usfstl_sched_pending_after_def usfstl_sched_next_pending_def
        usfstl_sched_del_job_def usfstl_job_scheduled_def queue_defs)
  ultimately show ?thesis by (simp add: usfstl_sched_del_job_def usfstl_job_scheduled_def queue_defs)
qed

end
