(* ===== verification/Error_Rate.thy ===== *)
theory Error_Rate
  imports Prelude
begin

text \<open>
  The frame error model of \<open>wmediumd/per.c\<close>: bit error rates of BPSK and M-QAM, the error
  probability of a frame under convolutional coding, the rate table, and the table of error
  probabilities read from a file. \<open>double\<close> and \<open>float\<close> are modelled as real numbers, so
  rounding and overflow of floating point are not covered; \<open>erfc\<close> of the C library is a
  parameter, of which the theorems use that it is between 0 and 1, and falls, on the
  non-negative numbers.
\<close>

section \<open>The rate table\<close>

datatype fec_rate = FEC_RATE_1_2 | FEC_RATE_2_3 | FEC_RATE_3_4

record rate =
  mbps :: int
  mqam :: int
  fec :: fec_rate

definition rateset :: "rate list" where
  "rateset =
    [\<lparr>mbps = 10, mqam = 2, fec = FEC_RATE_1_2\<rparr>,
     \<lparr>mbps = 20, mqam = 2, fec = FEC_RATE_1_2\<rparr>,
     \<lparr>mbps = 55, mqam = 2, fec = FEC_RATE_1_2\<rparr>,
     \<lparr>mbps = 110, mqam = 4, fec = FEC_RATE_1_2\<rparr>,
     \<lparr>mbps = 60, mqam = 2, fec = FEC_RATE_1_2\<rparr>,
     \<lparr>mbps = 90, mqam = 2, fec = FEC_RATE_3_4\<rparr>,
     \<lparr>mbps = 120, mqam = 4, fec = FEC_RATE_1_2\<rparr>,
     \<lparr>mbps = 180, mqam = 4, fec = FEC_RATE_3_4\<rparr>,
     \<lparr>mbps = 240, mqam = 16, fec = FEC_RATE_1_2\<rparr>,
     \<lparr>mbps = 360, mqam = 16, fec = FEC_RATE_3_4\<rparr>,
     \<lparr>mbps = 480, mqam = 64, fec = FEC_RATE_2_3\<rparr>,
     \<lparr>mbps = 540, mqam = 64, fec = FEC_RATE_3_4\<rparr>]"

definition rate_len :: nat where
  "rate_len = length rateset"

lemma rate_len_eq [simp]: "rate_len = 12" "length rateset = 12"
  by (simp_all add: rate_len_def rateset_def)

definition get_max_index :: int where
  "get_max_index = int rate_len - 1"

text \<open>\<open>size_t index\<close> wraps at 64 bits.\<close>

definition index_to_rate :: "u64 \<Rightarrow> u32 \<Rightarrow> int" where
  "index_to_rate index freq =
     (let index = (if freq > 5000 then index + 4 else index);
          index = (if index \<ge> 12 then 12 - 1 else index)
      in mbps (rateset ! unat index))"

section \<open>Bit error rates\<close>

text \<open>The loop \<open>for (i = 1; i <= k; i++)\<close> with \<open>k\<close> a double.\<close>

definition n_choose_k :: "real \<Rightarrow> real \<Rightarrow> real" where
  "n_choose_k n k =
     (if n < k \<or> k = 0 then 0
      else let k = (if k > n - k then n - k else k)
           in foldl (\<lambda>c i. c * ((n - (k - real i)) / real i)) 1 [1..<Suc (nat \<lfloor>k\<rfloor>)])"

fun dot :: "real list \<Rightarrow> real list \<Rightarrow> nat \<Rightarrow> real" where
  "dot v1 v2 0 = 0"
| "dot v1 v2 (Suc len) = dot v1 v2 len + v1 ! len * v2 ! len"

definition bpsk_ber :: "(real \<Rightarrow> real) \<Rightarrow> real \<Rightarrow> real" where
  "bpsk_ber erfc snr_db = (let snr = 10 powr (snr_db / 10) in 0.5 * erfc (sqrt snr))"

definition mqam_ber :: "(real \<Rightarrow> real) \<Rightarrow> int \<Rightarrow> real \<Rightarrow> real" where
  "mqam_ber erfc m snr_db =
     (let k = sqrt (1 / ((2 / 3) * (of_int m - 1)));
          snr = 10 powr (snr_db / 10);
          e = erfc (k * sqrt snr);
          sqrtm = sqrt (of_int m);
          b = 2 * (1 - 1 / sqrtm) * e;
          c = (1 - 2 / sqrtm + 1 / of_int m) * e ^ 2;
          ser = b - c
      in ser / log 2 (of_int m))"

section \<open>Frame error rate\<close>

fun d_free :: "fec_rate \<Rightarrow> nat" where
  "d_free FEC_RATE_1_2 = 10"
| "d_free FEC_RATE_2_3 = 6"
| "d_free FEC_RATE_3_4 = 5"

fun a_d :: "fec_rate \<Rightarrow> real list" where
  "a_d FEC_RATE_1_2 = [11, 0, 38, 0, 193, 0, 1331, 0, 7275, 0]"
| "a_d FEC_RATE_2_3 = [1, 16, 48, 158, 642, 2435, 9174, 34701, 131533, 499312]"
| "a_d FEC_RATE_3_4 = [8, 31, 160, 892, 4512, 23297, 120976, 624304, 3229885, 16721329]"

text \<open>The body of the loop over \<open>i\<close>: the probability that the wrong one of two code words at
  distance \<open>d\<close> is chosen.\<close>

definition sum_prob :: "nat \<Rightarrow> real \<Rightarrow> real" where
  "sum_prob d rho =
     (let term = (\<lambda>k. n_choose_k (real d) (real k) * rho ^ k * (1 - rho) ^ (d - k)) in
      if odd d then sum_list (map term [(d + 1) div 2..<Suc d])
      else sum_list (map term [d div 2 + 1..<Suc d]) +
        0.5 * n_choose_k (real d) (real (d div 2)) * rho ^ (d div 2) * (1 - rho) ^ (d div 2))"

definition per :: "real \<Rightarrow> fec_rate \<Rightarrow> int \<Rightarrow> real" where
  "per ber rate frame_len =
     (let p_d = map (\<lambda>i. sum_prob (d_free rate + i) ber) [0..<10];
          prob_uncorrected = dot p_d (a_d rate) 10;
          prob_uncorrected = (if prob_uncorrected > 1 then 1 else prob_uncorrected)
      in 1 - (1 - prob_uncorrected) powi (8 * frame_len))"

definition get_error_prob_from_snr ::
  "(real \<Rightarrow> real) \<Rightarrow> real \<Rightarrow> u32 \<Rightarrow> u32 \<Rightarrow> int \<Rightarrow> real" where
  "get_error_prob_from_snr erfc snr rate_idx freq frame_len =
     (if snr \<le> 0 then 1
      else let rate_idx = (if freq > 5000 then rate_idx + 4 else rate_idx) in
        if rate_idx \<ge> 12 then 1
        else let m = mqam (rateset ! unat rate_idx);
                 f = fec (rateset ! unat rate_idx);
                 ber = (if m = 2 then bpsk_ber erfc snr else mqam_ber erfc m snr)
             in per ber f frame_len)"

section \<open>Binomial coefficients\<close>

lemma binomial_product:
  assumes "k \<le> n" and "j \<le> k"
  shows "foldl (\<lambda>c i. c * ((real n - (real k - real i)) / real i)) 1 [1..<Suc j] =
    real ((n - k + j) choose j)"
  using assms(2)
proof (induction j)
  case 0
  then show ?case by simp
next
  case (Suc j)
  have "foldl (\<lambda>c i. c * ((real n - (real k - real i)) / real i)) 1 [1..<Suc (Suc j)] =
      real ((n - k + j) choose j) * ((real n - (real k - real (Suc j))) / real (Suc j))"
    using Suc by simp
  also have "real n - (real k - real (Suc j)) = real (Suc (n - k + j))"
    using assms(1) by simp
  also have "real ((n - k + j) choose j) * (real (Suc (n - k + j)) / real (Suc j)) =
      real (Suc (n - k + j) choose Suc j)"
  proof -
    have "Suc j * (Suc (n - k + j) choose Suc j) = Suc (n - k + j) * ((n - k + j) choose j)"
      by (simp only: Suc_times_binomial)
    then have "real (Suc j) * real (Suc (n - k + j) choose Suc j) =
        real (Suc (n - k + j)) * real ((n - k + j) choose j)"
      by (simp only: of_nat_mult [symmetric])
    then show ?thesis by (simp add: field_simps)
  qed
  finally show ?case by simp
qed

lemma n_choose_k_eq:
  assumes "0 < k" and "k \<le> n"
  shows "n_choose_k (real n) (real k) = real (n choose k)"
proof -
  let ?k = "if n - k < k then n - k else k"
  have "(if real n - real k < real k then real n - real k else real k) = real ?k"
    using assms by (auto simp: of_nat_diff)
  then have "n_choose_k (real n) (real k) =
      foldl (\<lambda>c i. c * ((real n - (real ?k - real i)) / real i)) 1 [1..<Suc ?k]"
    using assms by (simp add: n_choose_k_def Let_def)
  also have "\<dots> = real ((n - ?k + ?k) choose ?k)"
    using assms by (intro binomial_product) auto
  also have "\<dots> = real (n choose k)"
    using assms binomial_symmetric [of k n] by auto
  finally show ?thesis .
qed

text \<open>Claim C22: \<open>n_choose_k\<close> computes the binomial coefficient (in exact arithmetic), for every
  \<open>k\<close> between 1 and \<open>n\<close>; for \<open>k = 0\<close> and for \<open>k > n\<close> it returns 0.\<close>

theorem n_choose_k_binomial_or_zero:
  "n_choose_k (real n) (real k) = (if k = 0 then 0 else real (n choose k))"
  by (cases "k = 0 \<or> n < k") (auto simp: n_choose_k_eq, auto simp: n_choose_k_def binomial_eq_0)

section \<open>The distribution of the number of wrong bits\<close>

text \<open>The probability of at least \<open>j\<close> wrong bits out of \<open>n\<close>, each wrong with probability \<open>x\<close>.\<close>

fun wrong_bits :: "nat \<Rightarrow> nat \<Rightarrow> real \<Rightarrow> real" where
  "wrong_bits n 0 x = 1"
| "wrong_bits 0 (Suc j) x = 0"
| "wrong_bits (Suc n) (Suc j) x = x * wrong_bits n j x + (1 - x) * wrong_bits n (Suc j) x"

lemma wrong_bits_beyond: "n < j \<Longrightarrow> wrong_bits n j x = 0"
  by (induction n j x rule: wrong_bits.induct) auto

lemma wrong_bits_diff:
  "wrong_bits n j x - wrong_bits n (Suc j) x = real (n choose j) * x ^ j * (1 - x) ^ (n - j)"
proof (induction n arbitrary: j)
  case 0
  then show ?case by (cases j) simp_all
next
  case (Suc n)
  show ?case
  proof (cases j)
    case 0
    have t0: "1 - wrong_bits n (Suc 0) x = (1 - x) ^ n" using Suc.IH [of 0] by simp
    have "wrong_bits (Suc n) 0 x - wrong_bits (Suc n) (Suc 0) x = (1 - x) * (1 - wrong_bits n (Suc 0) x)"
      by (simp add: algebra_simps)
    then show ?thesis using 0 by (simp add: t0)
  next
    case (Suc i)
    have "wrong_bits (Suc n) j x - wrong_bits (Suc n) (Suc j) x =
        x * (wrong_bits n i x - wrong_bits n (Suc i) x) + (1 - x) * (wrong_bits n j x - wrong_bits n (Suc j) x)"
      using Suc by (simp add: algebra_simps)
    also have "\<dots> = x * (real (n choose i) * x ^ i * (1 - x) ^ (n - i)) +
        (1 - x) * (real (n choose j) * x ^ j * (1 - x) ^ (n - j))"
      by (simp only: Suc.IH)
    also have "(1 - x) * (real (n choose j) * x ^ j * (1 - x) ^ (n - j)) =
        real (n choose j) * x ^ j * (1 - x) ^ (n - i)"
    proof (cases "n < j")
      case False
      then have "n - i = Suc (n - j)" using Suc by simp
      then show ?thesis by simp
    qed (simp add: binomial_eq_0)
    finally show ?thesis using Suc by (simp add: algebra_simps)
  qed
qed

lemma wrong_bits_antimono: "0 \<le> x \<Longrightarrow> x \<le> 1 \<Longrightarrow> wrong_bits n (Suc j) x \<le> wrong_bits n j x"
proof -
  assume "0 \<le> x" "x \<le> 1"
  then have "0 \<le> real (n choose j) * x ^ j * (1 - x) ^ (n - j)" by simp
  then show ?thesis using wrong_bits_diff [of n j x] by linarith
qed

lemma wrong_bits_bounds: "0 \<le> x \<Longrightarrow> x \<le> 1 \<Longrightarrow> 0 \<le> wrong_bits n j x \<and> wrong_bits n j x \<le> 1"
proof (induction n j x rule: wrong_bits.induct)
  case (3 n j x)
  have "x * wrong_bits n j x + (1 - x) * wrong_bits n (Suc j) x \<le> x * 1 + (1 - x) * 1"
    using 3 by (intro add_mono mult_left_mono) simp_all
  then show ?case using 3 by simp
qed simp_all

text \<open>More likely wrong bits make many wrong bits more likely.\<close>

lemma wrong_bits_mono: "0 \<le> x \<Longrightarrow> x \<le> y \<Longrightarrow> y \<le> 1 \<Longrightarrow> wrong_bits n j x \<le> wrong_bits n j y"
proof (induction n j x rule: wrong_bits.induct)
  case (3 n j x)
  have "x * wrong_bits n j x + (1 - x) * wrong_bits n (Suc j) x \<le> x * wrong_bits n j y + (1 - x) * wrong_bits n (Suc j) y"
    using 3 by (intro add_mono mult_left_mono) simp_all
  also have "\<dots> = wrong_bits n (Suc j) y + x * (wrong_bits n j y - wrong_bits n (Suc j) y)"
    by (simp add: algebra_simps)
  also have "\<dots> \<le> wrong_bits n (Suc j) y + y * (wrong_bits n j y - wrong_bits n (Suc j) y)"
    using 3 wrong_bits_antimono [of y n j] by (intro add_left_mono mult_right_mono) simp_all
  finally show ?case by (simp add: algebra_simps)
qed simp_all

lemma sum_list_telescope:
  fixes f :: "nat \<Rightarrow> real"
  shows "a \<le> b \<Longrightarrow> sum_list (map (\<lambda>k. f k - f (Suc k)) [a..<b]) = f a - f b"
  by (induction b rule: dec_induct) simp_all

lemma sum_terms_wrong_bits:
  assumes "0 < a" and "a \<le> d"
  shows "sum_list (map (\<lambda>k. n_choose_k (real d) (real k) * x ^ k * (1 - x) ^ (d - k)) [a..<Suc d]) =
    wrong_bits d a x"
proof -
  have "map (\<lambda>k. n_choose_k (real d) (real k) * x ^ k * (1 - x) ^ (d - k)) [a..<Suc d] =
      map (\<lambda>k. wrong_bits d k x - wrong_bits d (Suc k) x) [a..<Suc d]"
    using assms by (intro map_cong) (auto simp: n_choose_k_eq wrong_bits_diff)
  then show ?thesis
    using sum_list_telescope [of a "Suc d" "\<lambda>k. wrong_bits d k x"] assms(2)
    by (simp only: wrong_bits_beyond [OF lessI] diff_zero le_SucI)
qed

lemma sum_prob_wrong_bits:
  assumes "2 \<le> d"
  shows "sum_prob d x = (if odd d then wrong_bits d ((d + 1) div 2) x
    else (wrong_bits d (d div 2) x + wrong_bits d (d div 2 + 1) x) / 2)"
proof (cases "odd d")
  case True
  then show ?thesis
    using sum_terms_wrong_bits [of "(d + 1) div 2" d x] assms
    by (simp add: sum_prob_def del: upt_Suc)
next
  case False
  have "n_choose_k (real d) (real (d div 2)) = real (d choose (d div 2))"
    using assms by (intro n_choose_k_eq) auto
  moreover have "d - d div 2 = d div 2" using False by auto
  ultimately have "n_choose_k (real d) (real (d div 2)) * x ^ (d div 2) * (1 - x) ^ (d div 2) =
      wrong_bits d (d div 2) x - wrong_bits d (d div 2 + 1) x"
    using wrong_bits_diff [of d "d div 2" x] by simp
  then show ?thesis
    using sum_terms_wrong_bits [of "d div 2 + 1" d x] assms False
    by (simp add: sum_prob_def mult.assoc diff_divide_distrib del: upt_Suc)
qed

lemma sum_prob_bounds: "2 \<le> d \<Longrightarrow> 0 \<le> x \<Longrightarrow> x \<le> 1 \<Longrightarrow> 0 \<le> sum_prob d x \<and> sum_prob d x \<le> 1"
  using wrong_bits_bounds [of x d "(d + 1) div 2"] wrong_bits_bounds [of x d "d div 2"]
    wrong_bits_bounds [of x d "d div 2 + 1"]
  by (auto simp: sum_prob_wrong_bits)

lemma sum_prob_mono:
  "2 \<le> d \<Longrightarrow> 0 \<le> x \<Longrightarrow> x \<le> y \<Longrightarrow> y \<le> 1 \<Longrightarrow> sum_prob d x \<le> sum_prob d y"
  using wrong_bits_mono [of x y d "(d + 1) div 2"] wrong_bits_mono [of x y d "d div 2"]
    wrong_bits_mono [of x y d "d div 2 + 1"]
  by (auto simp: sum_prob_wrong_bits)

section \<open>Frame error probability\<close>

definition uncorrected :: "real \<Rightarrow> fec_rate \<Rightarrow> real" where
  "uncorrected ber rate =
     (let p = dot (map (\<lambda>i. sum_prob (d_free rate + i) ber) [0..<10]) (a_d rate) 10
      in if p > 1 then 1 else p)"

lemma per_uncorrected: "per ber rate frame_len = 1 - (1 - uncorrected ber rate) powi (8 * frame_len)"
  by (simp add: per_def uncorrected_def Let_def)

lemma d_free_ge_2: "2 \<le> d_free rate + i"
  by (cases rate) simp_all

lemma a_d_nonneg: "i < 10 \<Longrightarrow> 0 \<le> a_d rate ! i"
  by (cases rate) (auto simp: nth_Cons' split: if_splits)

lemma dot_nonneg:
  "(\<And>i. i < len \<Longrightarrow> 0 \<le> u ! i \<and> 0 \<le> w ! i) \<Longrightarrow> 0 \<le> dot u w len"
  by (induction len) simp_all

lemma dot_mono:
  "(\<And>i. i < len \<Longrightarrow> u ! i \<le> v ! i \<and> 0 \<le> w ! i) \<Longrightarrow> dot u w len \<le> dot v w len"
  by (induction len) (auto intro!: add_mono mult_right_mono)

lemma uncorrected_bounds:
  assumes "0 \<le> ber" and "ber \<le> 1"
  shows "0 \<le> uncorrected ber rate \<and> uncorrected ber rate \<le> 1"
proof -
  have "0 \<le> dot (map (\<lambda>i. sum_prob (d_free rate + i) ber) [0..<10]) (a_d rate) 10"
    using sum_prob_bounds [OF d_free_ge_2 assms] a_d_nonneg by (intro dot_nonneg) simp
  then show ?thesis by (simp add: uncorrected_def Let_def)
qed

lemma uncorrected_mono:
  assumes "0 \<le> x" and "x \<le> y" and "y \<le> 1"
  shows "uncorrected x rate \<le> uncorrected y rate"
proof -
  have "dot (map (\<lambda>i. sum_prob (d_free rate + i) x) [0..<10]) (a_d rate) 10 \<le>
      dot (map (\<lambda>i. sum_prob (d_free rate + i) y) [0..<10]) (a_d rate) 10"
    using sum_prob_mono [OF d_free_ge_2 assms] a_d_nonneg by (intro dot_mono) simp
  then show ?thesis by (simp add: uncorrected_def Let_def)
qed

lemma per_bounds:
  assumes "0 \<le> ber" and "ber \<le> 1" and "0 \<le> n"
  shows "0 \<le> per ber rate n \<and> per ber rate n \<le> 1"
  using uncorrected_bounds [OF assms(1,2), of rate] assms(3)
  by (simp add: per_uncorrected power_int_def power_le_one)

lemma per_mono:
  assumes "0 \<le> x" and "x \<le> y" and "y \<le> 1" and "0 \<le> m" and "m \<le> n"
  shows "per x rate m \<le> per y rate n"
proof -
  have "(1 - uncorrected y rate) ^ nat (8 * n) \<le> (1 - uncorrected y rate) ^ nat (8 * m)"
    using uncorrected_bounds [of y rate] assms by (intro power_decreasing) auto
  also have "\<dots> \<le> (1 - uncorrected x rate) ^ nat (8 * m)"
    using uncorrected_mono [OF assms(1-3)] uncorrected_bounds [of y rate] assms
    by (intro power_mono) auto
  finally show ?thesis using assms(4,5) by (simp add: per_uncorrected power_int_def)
qed

section \<open>From the signal-to-noise ratio to the error probability\<close>

text \<open>What the model relies on about \<open>erfc\<close>.\<close>

definition erfc_ok :: "(real \<Rightarrow> real) \<Rightarrow> bool" where
  "erfc_ok erfc \<longleftrightarrow> (\<forall>x. 0 \<le> x \<longrightarrow> 0 \<le> erfc x \<and> erfc x \<le> 1) \<and>
     (\<forall>x y. 0 \<le> x \<longrightarrow> x \<le> y \<longrightarrow> erfc y \<le> erfc x)"

lemma erfc_arg_mono:
  assumes "erfc_ok erfc" and "0 \<le> k" and "x \<le> y"
  shows "0 \<le> erfc (k * sqrt (10 powr (y / 10))) \<and>
    erfc (k * sqrt (10 powr (y / 10))) \<le> erfc (k * sqrt (10 powr (x / 10))) \<and>
    erfc (k * sqrt (10 powr (x / 10))) \<le> 1"
proof -
  have "10 powr (x / 10) \<le> (10 :: real) powr (y / 10)" using assms(3) by (intro powr_mono) simp_all
  then have "k * sqrt (10 powr (x / 10)) \<le> k * sqrt (10 powr (y / 10))"
    using assms(2) by (intro mult_left_mono real_sqrt_le_mono)
  moreover have "0 \<le> k * sqrt (10 powr (x / 10))" using assms(2) by simp
  ultimately show ?thesis using assms(1) unfolding erfc_ok_def by (meson order_trans)
qed

lemma bpsk_ber_mono:
  assumes "erfc_ok erfc" and "x \<le> y"
  shows "0 \<le> bpsk_ber erfc y \<and> bpsk_ber erfc y \<le> bpsk_ber erfc x \<and> bpsk_ber erfc x \<le> 1"
  using erfc_arg_mono [OF assms(1) _ assms(2), of 1] by (simp add: bpsk_ber_def)

lemma mqam_ber_eq:
  assumes "1 < m"
  shows "mqam_ber erfc m snr_db =
    (1 - (1 - (1 - 1 / sqrt (of_int m)) *
       erfc (sqrt (1 / ((2 / 3) * (of_int m - 1))) * sqrt (10 powr (snr_db / 10)))) ^ 2) / log 2 (of_int m)"
proof -
  let ?m = "of_int m :: real"
  have "(1 - 1 / sqrt ?m)\<^sup>2 = 1 - 2 / sqrt ?m + 1 / ?m"
    using assms by (simp add: power2_eq_square field_simps)
  then show ?thesis
    unfolding mqam_ber_def Let_def by (simp add: power2_eq_square algebra_simps diff_divide_distrib
        add_divide_distrib)
qed

lemma mqam_ber_mono:
  assumes "erfc_ok erfc" and "x \<le> y" and m: "2 \<le> m"
  shows "0 \<le> mqam_ber erfc m y \<and> mqam_ber erfc m y \<le> mqam_ber erfc m x \<and> mqam_ber erfc m x \<le> 1"
proof -
  let ?m = "of_int m :: real"
  define k where "k = sqrt (1 / ((2 / 3) * (?m - 1)))"
  define a where "a = 1 - 1 / sqrt ?m"
  define e where "e = (\<lambda>z. erfc (k * sqrt (10 powr (z / 10))))"
  have k: "0 \<le> k" using m by (simp add: k_def)
  have a: "0 \<le> a" "a \<le> 1" using m by (simp_all add: a_def)
  have e: "0 \<le> e y" "e y \<le> e x" "e x \<le> 1"
    using erfc_arg_mono [OF assms(1) k assms(2)] by (simp_all add: e_def)
  have ax: "0 \<le> a * e y" "a * e y \<le> a * e x" "a * e x \<le> 1"
    using a e by (simp_all add: mult_left_mono mult_le_one)
  have l: "1 \<le> log 2 ?m" using m by (simp add: le_log_iff)
  have eq: "mqam_ber erfc m z = (1 - (1 - a * e z)\<^sup>2) / log 2 ?m" for z
    using mqam_ber_eq [of m erfc z] m by (simp add: a_def e_def k_def)
  have sq: "(1 - a * e x)\<^sup>2 \<le> (1 - a * e y)\<^sup>2" "(1 - a * e y)\<^sup>2 \<le> 1"
    using ax by (auto intro!: power_mono power_le_one)
  have "(1 - (1 - a * e x)\<^sup>2) / log 2 ?m \<le> 1"
    using l by (simp add: divide_le_eq) (smt (verit) zero_le_power2)
  then show ?thesis unfolding eq using sq l by (auto intro!: divide_right_mono)
qed

lemma rate_cases:
  assumes "idx < (12 :: u32)"
  shows "2 \<le> mqam (rateset ! unat idx)"
proof -
  have "unat idx < 12" using assms by (simp add: word_less_nat_alt)
  then show ?thesis by (auto simp: rateset_def nth_Cons' split: if_splits)
qed

lemma error_prob_mono:
  assumes "erfc_ok erfc" and "x \<le> y" and "0 \<le> m" and "m \<le> n"
  shows "get_error_prob_from_snr erfc y rate_idx freq m \<le> get_error_prob_from_snr erfc x rate_idx freq n
    \<and> 0 \<le> get_error_prob_from_snr erfc y rate_idx freq m
    \<and> get_error_prob_from_snr erfc x rate_idx freq n \<le> 1"
proof -
  define idx where "idx = (if freq > 5000 then rate_idx + 4 else rate_idx)"
  define ber where "ber = (\<lambda>z. if mqam (rateset ! unat idx) = 2 then bpsk_ber erfc z
    else mqam_ber erfc (mqam (rateset ! unat idx)) z)"
  define f where "f = fec (rateset ! unat idx)"
  have eq: "get_error_prob_from_snr erfc z rate_idx freq l =
      (if z \<le> 0 \<or> idx \<ge> 12 then 1 else per (ber z) f l)" for z l
    by (simp add: get_error_prob_from_snr_def Let_def idx_def ber_def f_def)
  have b: "0 \<le> ber y \<and> ber y \<le> ber x \<and> ber x \<le> 1" if "idx < 12"
    using bpsk_ber_mono [OF assms(1,2)] mqam_ber_mono [OF assms(1,2) rate_cases [OF that]]
    by (simp add: ber_def)
  show ?thesis
  proof (cases "idx < 12")
    case False
    then show ?thesis by (simp add: eq not_less)
  next
    case True
    then have "per (ber y) f m \<le> per (ber x) f n" "0 \<le> per (ber y) f m" "per (ber y) f m \<le> 1"
      "per (ber x) f n \<le> 1"
      using b per_mono [of "ber y" "ber x" m n f] per_bounds [of "ber y" m f]
        per_bounds [of "ber x" n f] assms(3,4) by auto
    then show ?thesis using True assms(2) by (auto simp: eq not_le)
  qed
qed

text \<open>Library: \<open>get_error_prob_from_snr\<close> returns a probability, for every rate index and
  frequency (an index outside the table gives certain loss).\<close>

theorem error_prob_is_probability:
  assumes "erfc_ok erfc" and "0 \<le> frame_len"
  shows "0 \<le> get_error_prob_from_snr erfc snr rate_idx freq frame_len \<and>
    get_error_prob_from_snr erfc snr rate_idx freq frame_len \<le> 1"
  using error_prob_mono [OF assms(1) order_refl assms(2) order_refl] by blast

text \<open>Claim C21: a better signal never makes the loss of a frame more likely, a longer frame never
  makes it less likely, at every rate.\<close>

theorem error_prob_monotone:
  assumes "erfc_ok erfc" and "snr \<le> snr'" and "0 \<le> len" and "len \<le> len'"
  shows "get_error_prob_from_snr erfc snr' rate_idx freq len \<le>
    get_error_prob_from_snr erfc snr rate_idx freq len'"
  using error_prob_mono [OF assms] by blast

lemma erfc_ok_example: "erfc_ok (\<lambda>x. exp (- x))"
  by (simp add: erfc_ok_def)

lemma error_prob_is_probability_witness:
  "0 \<le> get_error_prob_from_snr (\<lambda>x. exp (- x)) 20 3 2412 100 \<and>
    get_error_prob_from_snr (\<lambda>x. exp (- x)) 20 3 2412 100 \<le> 1"
  by (rule error_prob_is_probability [OF erfc_ok_example]) simp

lemma error_prob_monotone_witness:
  "get_error_prob_from_snr (\<lambda>x. exp (- x)) 30 3 2412 100 \<le>
    get_error_prob_from_snr (\<lambda>x. exp (- x)) 20 3 2412 200"
  by (rule error_prob_monotone [OF erfc_ok_example]) simp_all

text \<open>Library: \<open>index_to_rate\<close> never reads outside the rate table: in the 5 GHz band the index
  is moved past the four non-OFDM rates, and an index beyond the table is clamped to the
  fastest rate.\<close>

theorem index_to_rate_clamped:
  assumes "unat index < 2 ^ 64 - 4"
  shows "index_to_rate index freq =
    mbps (rateset ! min (unat index + (if freq > 5000 then 4 else 0)) (rate_len - 1)) \<and>
    index_to_rate index freq \<in> mbps ` set rateset \<and> 0 < index_to_rate index freq"
proof -
  have u: "unat (index + 4) = unat index + 4"
    using assms by (subst unat_add_lem [THEN iffD1]) simp_all
  let ?i = "min (unat index + (if freq > 5000 then 4 else 0)) 11"
  have e: "index_to_rate index freq = mbps (rateset ! ?i)"
    using u by (auto simp: index_to_rate_def Let_def word_le_nat_alt min_def)
  have "?i < length rateset" by simp
  then have m: "rateset ! ?i \<in> set rateset" by (rule nth_mem)
  moreover have "\<forall>r \<in> set rateset. 0 < mbps r" by (simp add: rateset_def)
  ultimately show ?thesis unfolding e by simp
qed

lemma index_to_rate_clamped_witness:
  "index_to_rate 9 5180 = mbps (rateset ! min (unat (9 :: u64) + 4) (rate_len - 1))"
  using index_to_rate_clamped [of 9 5180] by simp

section \<open>Error probabilities read from a file\<close>

text \<open>The table; \<open>None\<close> is a \<open>float\<close> that \<open>realloc\<close> allocated and nothing has written.\<close>

record per_table =
  per_matrix :: "real option list"
  per_matrix_row_num :: nat
  per_matrix_signal_min :: int

abbreviation (input) NOISE_LEVEL :: int where "NOISE_LEVEL \<equiv> - 91"

text \<open>The conversion of a \<open>double\<close> to \<open>int\<close> cuts off the fraction.\<close>

definition double_to_int :: "real \<Rightarrow> int" where
  "double_to_int x = (if 0 \<le> x then \<lfloor>x\<rfloor> else \<lceil>x\<rceil>)"

definition get_error_prob_from_per_matrix :: "per_table \<Rightarrow> real \<Rightarrow> u32 \<Rightarrow> u32 \<Rightarrow> real result" where
  "get_error_prob_from_per_matrix ctx snr rate_idx freq =
     (let signal_idx = double_to_int (snr + of_int NOISE_LEVEL - of_int (per_matrix_signal_min ctx)) in
      if signal_idx < 0 then Inr 1
      else if signal_idx \<ge> int (per_matrix_row_num ctx) then Inr 0
      else let rate_idx = (if freq > 5000 then rate_idx + 4 else rate_idx) in
        if rate_idx \<ge> 12 then Inr 1
        else let i = nat signal_idx * rate_len + unat rate_idx in
          if i < length (per_matrix ctx) then rget Uninitialized (per_matrix ctx ! i)
          else Inl Out_of_bounds)"

text \<open>The tokens of \<open>fscanf("%s")\<close>, \<open>fgets\<close> for a buffer of \<open>n + 1\<close> bytes and \<open>atoi\<close>.\<close>

definition isspace :: "char \<Rightarrow> bool" where
  "isspace c \<longleftrightarrow> (let n = (of_char c :: nat) in n = 32 \<or> 9 \<le> n \<and> n \<le> 13)"

definition scan_string :: "string \<Rightarrow> (string \<times> string) option" where
  "scan_string s = (let s = dropWhile isspace s in
     if s = [] then None
     else Some (takeWhile (\<lambda>c. \<not> isspace c) s, dropWhile (\<lambda>c. \<not> isspace c) s))"

fun fgets :: "nat \<Rightarrow> string \<Rightarrow> string \<times> string" where
  "fgets 0 s = ([], s)"
| "fgets (Suc n) [] = ([], [])"
| "fgets (Suc n) (c # s) =
     (if (of_char c :: nat) = 10 then ([c], s) else let (l, r) = fgets n s in (c # l, r))"

definition digit_value :: "char \<Rightarrow> int option" where
  "digit_value c = (let n = (of_char c :: nat) in
     if 48 \<le> n \<and> n \<le> 57 then Some (int n - 48) else None)"

fun digits :: "int \<Rightarrow> string \<Rightarrow> int" where
  "digits acc [] = acc"
| "digits acc (c # s) = (case digit_value c of None \<Rightarrow> acc | Some d \<Rightarrow> digits (10 * acc + d) s)"

definition atoi :: "string \<Rightarrow> int" where
  "atoi s = (case dropWhile isspace s of
       [] \<Rightarrow> 0
     | c # r \<Rightarrow> if c = CHR ''-'' then - digits 0 r
               else if c = CHR ''+'' then digits 0 r else digits 0 (c # r))"

text \<open>The start of a row: the minimum is lowered before it is compared, then the matrix grows
  by one row. \<open>None\<close> is the "invalid signal" exit.\<close>

definition per_begin_row :: "int \<Rightarrow> per_table \<Rightarrow> per_table option" where
  "per_begin_row signal ctx =
     (let ctx = (if per_matrix_signal_min ctx > signal
                 then ctx\<lparr>per_matrix_signal_min := signal\<rparr> else ctx)
      in if signal - per_matrix_signal_min ctx < 0 then None
         else Some (ctx\<lparr>per_matrix_row_num := per_matrix_row_num ctx + 1,
                        per_matrix := per_matrix ctx @ replicate rate_len None\<rparr>))"

definition per_store :: "int \<Rightarrow> nat \<Rightarrow> real \<Rightarrow> per_table \<Rightarrow> per_table result" where
  "per_store signal i v ctx =
     (let k = nat (signal - per_matrix_signal_min ctx) * rate_len + i in
      if k < length (per_matrix ctx) then Inr (ctx\<lparr>per_matrix := (per_matrix ctx)[k := Some v]\<rparr>)
      else Inl Out_of_bounds)"

text \<open>\<open>fscanf("%f")\<close> is a parameter: \<open>None\<close> is EOF, \<open>Some (None, rest)\<close> a mismatch, which
  stores nothing. The result of the loop over the rates says whether EOF was met.\<close>

fun per_read_rates ::
  "(string \<Rightarrow> (real option \<times> string) option) \<Rightarrow> int \<Rightarrow> nat list \<Rightarrow> string \<Rightarrow> per_table \<Rightarrow>
   (bool \<times> string \<times> per_table) result" where
  "per_read_rates scanf_f signal [] rest ctx = Inr (False, rest, ctx)"
| "per_read_rates scanf_f signal (i # is) rest ctx =
     (case scanf_f rest of
        None \<Rightarrow> Inr (True, rest, ctx)
      | Some (None, rest) \<Rightarrow> per_read_rates scanf_f signal is rest ctx
      | Some (Some v, rest) \<Rightarrow>
          rbind (per_store signal i v ctx) (per_read_rates scanf_f signal is rest))"

fun per_read_loop ::
  "nat \<Rightarrow> (string \<Rightarrow> (real option \<times> string) option) \<Rightarrow> string \<Rightarrow> per_table \<Rightarrow>
   (bool \<times> per_table) result" where
  "per_read_loop 0 scanf_f fp ctx = Inl Out_of_fuel"
| "per_read_loop (Suc fuel) scanf_f fp ctx =
     (case scan_string fp of
        None \<Rightarrow> Inr (True, ctx)
      | Some (line, fp) \<Rightarrow>
          if length line > 255 then Inl Out_of_bounds
          else if hd line = CHR ''#''
          then let (l, fp) = fgets 255 fp in
               if l = [] then Inr (False, ctx) else per_read_loop fuel scanf_f fp ctx
          else let signal = atoi line in
            (case per_begin_row signal ctx of
               None \<Rightarrow> Inr (False, ctx)
             | Some ctx \<Rightarrow>
                 rbind (per_read_rates scanf_f signal [0..<rate_len] fp ctx) (\<lambda>(eof, fp, ctx).
                 if eof then Inr (False, ctx) else per_read_loop fuel scanf_f fp ctx)))"

text \<open>\<open>True\<close> is \<open>EXIT_SUCCESS\<close>, after which \<open>ctx->get_error_prob\<close> is
  \<open>get_error_prob_from_per_matrix\<close>; a file that cannot be opened is \<open>None\<close>.\<close>

definition read_per_file ::
  "(string \<Rightarrow> (real option \<times> string) option) \<Rightarrow> string option \<Rightarrow> per_table \<Rightarrow>
   (bool \<times> per_table) result" where
  "read_per_file scanf_f file ctx =
     (case file of
        None \<Rightarrow> Inr (False, ctx)
      | Some fp \<Rightarrow> per_read_loop (Suc (length fp)) scanf_f fp (ctx\<lparr>per_matrix_signal_min := 1000\<rparr>))"

subsection \<open>Rows and lookups\<close>

text \<open>One row with all its values, as the loop of \<open>read_per_file\<close> treats it.\<close>

fun per_store_all :: "int \<Rightarrow> (nat \<times> real) list \<Rightarrow> per_table \<Rightarrow> per_table result" where
  "per_store_all signal [] ctx = Inr ctx"
| "per_store_all signal ((i, v) # vs) ctx = rbind (per_store signal i v ctx) (per_store_all signal vs)"

definition per_add_row :: "int \<times> real list \<Rightarrow> per_table \<Rightarrow> per_table result" where
  "per_add_row row ctx = (case per_begin_row (fst row) ctx of
       None \<Rightarrow> Inl Assertion_failed
     | Some ctx \<Rightarrow> per_store_all (fst row) (zip [0..<rate_len] (snd row)) ctx)"

text \<open>A scanner that delivers the values \<open>vs\<close> of a row makes the loop over the rates do what
  \<open>per_store_all\<close> does.\<close>

lemma per_read_rates_values:
  assumes "length vs = length js"
    and "\<And>k. k < length vs \<Longrightarrow> scanf_f (inp k) = Some (Some (vs ! k), inp (Suc k))"
  shows "per_read_rates scanf_f signal js (inp 0) ctx =
    rbind (per_store_all signal (zip js vs) ctx) (\<lambda>ctx. Inr (False, inp (length vs), ctx))"
  using assms
proof (induction js arbitrary: vs inp ctx)
  case Nil
  then show ?case by simp
next
  case (Cons i ks)
  obtain w ws where vs: "vs = w # ws" using Cons.prems(1) by (cases vs) auto
  have "scanf_f (inp 0) = Some (Some w, inp 1)" using Cons.prems(2) [of 0] vs by simp
  moreover have "scanf_f (inp (Suc k)) = Some (Some (ws ! k), inp (Suc (Suc k)))" if "k < length ws" for k
    using Cons.prems(2) [of "Suc k"] vs that by simp
  then have "per_read_rates scanf_f signal ks (inp (Suc 0)) c =
      rbind (per_store_all signal (zip ks ws) c) (\<lambda>ctx. Inr (False, inp (Suc (length ws)), ctx))" for c
    using Cons.IH [of ws "\<lambda>k. inp (Suc k)" c] Cons.prems(1) vs by simp
  ultimately show ?case by (cases "per_store signal i w ctx") (simp_all add: vs)
qed

definition per_table_of :: "int \<Rightarrow> real list list \<Rightarrow> per_table" where
  "per_table_of m rows = \<lparr>per_matrix = map Some (concat rows),
     per_matrix_row_num = length rows, per_matrix_signal_min = m\<rparr>"

lemma length_concat_rows: "\<forall>r \<in> set rows. length r = 12 \<Longrightarrow> length (concat rows) = length rows * 12"
  by (induction rows) simp_all

lemma per_store_all_eq:
  assumes "nat (signal - per_matrix_signal_min ctx) * 12 + i + length vs \<le> length (per_matrix ctx)"
  shows "per_store_all signal (zip [i..<i + length vs] vs) ctx =
    (let k = nat (signal - per_matrix_signal_min ctx) * 12 + i in
     Inr (ctx\<lparr>per_matrix := take k (per_matrix ctx) @ map Some vs @
       drop (k + length vs) (per_matrix ctx)\<rparr>))"
  using assms
proof (induction vs arbitrary: i ctx)
  case Nil
  then show ?case by simp
next
  case (Cons v vs)
  let ?k = "nat (signal - per_matrix_signal_min ctx) * 12 + i"
  let ?c = "ctx\<lparr>per_matrix := (per_matrix ctx)[?k := Some v]\<rparr>"
  have k: "?k < length (per_matrix ctx)" using Cons.prems by simp
  have u: "[i..<i + length (v # vs)] = i # [Suc i..<Suc i + length vs]"
    by (simp add: upt_rec)
  have "per_store_all signal (zip [Suc i..<Suc i + length vs] vs) ?c =
      Inr (?c\<lparr>per_matrix := take (Suc ?k) (per_matrix ?c) @ map Some vs @
        drop (Suc ?k + length vs) (per_matrix ?c)\<rparr>)"
    using Cons.IH [of ?c "Suc i"] Cons.prems by (simp add: Let_def)
  moreover have "take (Suc ?k) (per_matrix ?c) = take ?k (per_matrix ctx) @ [Some v]"
    using k by (simp add: take_Suc_conv_app_nth)
  ultimately show ?case
    unfolding u using k by (simp add: per_store_def Let_def)
qed

lemma per_add_row_next:
  assumes rows: "\<forall>r \<in> set rows. length r = 12" and r: "length r = 12"
  shows "per_add_row (m + int (length rows), r) (per_table_of m rows) = Inr (per_table_of m (rows @ [r]))"
proof -
  let ?t = "(per_table_of m rows)\<lparr>per_matrix_row_num := length rows + 1,
    per_matrix := map Some (concat rows) @ replicate 12 None\<rparr>"
  have b: "per_begin_row (m + int (length rows)) (per_table_of m rows) = Some ?t"
    by (simp add: per_begin_row_def per_table_of_def)
  have l: "length (concat rows) = length rows * 12" using rows by (rule length_concat_rows)
  have "per_store_all (m + int (length rows)) (zip [0..<0 + length r] r) ?t =
      Inr (?t\<lparr>per_matrix := take (length rows * 12) (per_matrix ?t) @ map Some r @
        drop (length rows * 12 + length r) (per_matrix ?t)\<rparr>)"
    using per_store_all_eq [of "m + int (length rows)" ?t 0 r] l r
    by (simp add: per_table_of_def)
  then show ?thesis
    using b l r by (simp add: per_add_row_def per_table_of_def)
qed

lemma scan_string_shorter:
  assumes "scan_string fp = Some (line, rest)"
  shows "length rest < length fp"
proof -
  let ?s = "dropWhile isspace fp"
  have "?s \<noteq> []" and r: "rest = dropWhile (\<lambda>c. \<not> isspace c) ?s"
    using assms by (auto simp: scan_string_def Let_def split: if_splits)
  then obtain c cs where c: "?s = c # cs" "\<not> isspace c" by (metis hd_dropWhile neq_Nil_conv list.sel(1))
  then have "length rest \<le> length cs" using r by (simp add: length_dropWhile_le)
  moreover have "length ?s \<le> length fp" by (rule length_dropWhile_le)
  ultimately show ?thesis using c by simp
qed

lemma fgets_shorter: "length (snd (fgets n s)) \<le> length s"
  by (induction n s rule: fgets.induct) (auto simp: case_prod_beta le_Suc_eq)

text \<open>A file with one line for each of the signals \<open>m\<close>, \<open>m + 1\<close>, ..., with a value for each rate, and
  any comments: its lines as the scanner finds them.\<close>

inductive per_text ::
  "(string \<Rightarrow> (real option \<times> string) option) \<Rightarrow> string \<Rightarrow> int \<Rightarrow> real list list \<Rightarrow> bool" for scanf_f where
  at_end: "scan_string fp = None \<Longrightarrow> per_text scanf_f fp m []"
| comment: "scan_string fp = Some (line, rest) \<Longrightarrow> length line \<le> 255 \<Longrightarrow> hd line = CHR ''#'' \<Longrightarrow>
    fgets 255 rest = (l, rest') \<Longrightarrow> l \<noteq> [] \<Longrightarrow> per_text scanf_f rest' m rows \<Longrightarrow> per_text scanf_f fp m rows"
| row: "scan_string fp = Some (line, inp 0) \<Longrightarrow> length line \<le> 255 \<Longrightarrow> hd line \<noteq> CHR ''#'' \<Longrightarrow>
    atoi line = m \<Longrightarrow> length r = rate_len \<Longrightarrow>
    (\<And>k. k < length r \<Longrightarrow> scanf_f (inp k) = Some (Some (r ! k), inp (Suc k))) \<Longrightarrow>
    length (inp (length r)) \<le> length (inp 0) \<Longrightarrow> per_text scanf_f (inp (length r)) (m + 1) rows \<Longrightarrow>
    per_text scanf_f fp m (r # rows)"

text \<open>Reading such a file behind the rows \<open>rows0\<close>; at the start of the file the table only has to
  take its first row as the empty table would.\<close>

lemma per_read_loop_text:
  assumes "per_text scanf_f fp m rows" and "m = m0 + int (length rows0)" and "\<forall>r \<in> set rows0. length r = 12"
    and "if rows = [] then ctx = per_table_of m0 rows0 else per_begin_row m ctx = per_begin_row m (per_table_of m0 rows0)"
    and "length fp < fuel"
  shows "per_read_loop fuel scanf_f fp ctx = Inr (True, per_table_of m0 (rows0 @ rows))"
  using assms
proof (induction arbitrary: rows0 ctx fuel rule: per_text.induct)
  case (at_end fp m)
  then show ?case by (cases fuel) simp_all
next
  case (comment fp line rest l rest' m rows)
  obtain f where f: "fuel = Suc f" using comment.prems(4) by (cases fuel) simp_all
  have "length rest' \<le> length rest" using fgets_shorter [of 255 rest] comment.hyps(4) by simp
  then have "length rest' < f" using scan_string_shorter [OF comment.hyps(1)] comment.prems(4) f by simp
  then show ?case using comment.IH [OF comment.prems(1-3)] comment.hyps(1-5) by (simp add: f)
next
  case (row fp line inp m r rows)
  obtain f where f: "fuel = Suc f" using row.prems(4) by (cases fuel) simp_all
  have r12: "length r = 12" using row.hyps(5) by simp
  have fuel: "length (inp 12) < f"
    using scan_string_shorter [OF row.hyps(1)] row.hyps(7) row.prems(4) f r12 by simp
  have "per_add_row (m, r) ctx = per_add_row (m, r) (per_table_of m0 rows0)"
    using row.prems(3) by (simp add: per_add_row_def)
  then have add: "per_add_row (m, r) ctx = Inr (per_table_of m0 (rows0 @ [r]))"
    using per_add_row_next [OF row.prems(2) r12, of m0] row.prems(1) by simp
  then obtain c where c: "per_begin_row m ctx = Some c"
    "per_store_all m (zip [0..<12] r) c = Inr (per_table_of m0 (rows0 @ [r]))"
    by (auto simp: per_add_row_def split: option.splits)
  have rates: "per_read_rates scanf_f m [0..<rate_len] (inp 0) c =
      Inr (False, inp 12, per_table_of m0 (rows0 @ [r]))"
    using per_read_rates_values [of r "[0..<rate_len]" scanf_f inp m c] row.hyps(5,6) c(2) r12 by simp
  have "per_read_loop f scanf_f (inp 12) (per_table_of m0 (rows0 @ [r])) =
      Inr (True, per_table_of m0 ((rows0 @ [r]) @ rows))"
    using row.IH [of "rows0 @ [r]" "per_table_of m0 (rows0 @ [r])" f] row.prems(1,2) r12 fuel by simp
  then show ?case using row.hyps(1-4) c(1) rates by (simp add: f)
qed

lemma per_text_rows: "per_text scanf_f fp m rows \<Longrightarrow> \<forall>r \<in> set rows. length r = 12"
  by (induction rule: per_text.induct) simp_all

text \<open>Claim C23: \<open>read_per_file\<close> reads a file with a line for each of the signals \<open>m\<close>, \<open>m + 1\<close>, ... (and
  comments) to its end, without writing out of bounds, and the lookup in the resulting table gives, for a signal
  inside the table, exactly the value that the file has for that signal and rate (moved past the non-OFDM rates in
  the 5 GHz band; a rate beyond the twelve columns is lost for certain). A frame with a signal below the table is
  lost for certain, one with a signal above it never.\<close>

theorem per_table_roundtrip:
  assumes lines: "per_text scanf_f fp m rows" and rows: "rows \<noteq> []" and m: "m \<le> 1000"
    and ctx: "per_matrix ctx = []" "per_matrix_row_num ctx = 0"
  shows "\<exists>t. read_per_file scanf_f (Some fp) ctx = Inr (True, t) \<and>
    (\<forall>snr idx freq. get_error_prob_from_per_matrix t snr idx freq = Inr
      (let k = double_to_int (snr - 91 - of_int m); r = (if freq > 5000 then idx + 4 else idx) in
       if k < 0 then 1 else if k \<ge> int (length rows) then 0
       else if r \<ge> 12 then 1 else rows ! nat k ! unat r))"
proof -
  have len: "\<forall>r \<in> set rows. length r = 12" by (rule per_text_rows [OF lines])
  have "per_begin_row m (ctx\<lparr>per_matrix_signal_min := 1000\<rparr>) = per_begin_row m (per_table_of m [])"
    using m ctx by (simp add: per_begin_row_def per_table_of_def)
  then have read: "read_per_file scanf_f (Some fp) ctx = Inr (True, per_table_of m rows)"
    using per_read_loop_text [OF lines, of m "[]" "ctx\<lparr>per_matrix_signal_min := 1000\<rparr>" "Suc (length fp)"] rows
    by (simp add: read_per_file_def)
  have cell: "i * 12 + j < length (concat rows) \<and> concat rows ! (i * 12 + j) = rows ! i ! j"
    if "i < length rows" "j < 12" for i j
    using that len
  proof (induction rows arbitrary: i)
    case (Cons x xs)
    then show ?case by (cases i) (auto simp: nth_append)
  qed simp
  have "get_error_prob_from_per_matrix (per_table_of m rows) snr idx freq = Inr
      (let k = double_to_int (snr - 91 - of_int m); r = (if freq > 5000 then idx + 4 else idx) in
       if k < 0 then 1 else if k \<ge> int (length rows) then 0
       else if r \<ge> 12 then 1 else rows ! nat k ! unat r)" for snr idx freq
  proof -
    define k where "k = double_to_int (snr - 91 - of_int m)"
    define r where "r = (if freq > 5000 then idx + 4 else idx)"
    have g: "get_error_prob_from_per_matrix (per_table_of m rows) snr idx freq =
      (if k < 0 then Inr 1 else if k \<ge> int (length rows) then Inr 0
       else if r \<ge> 12 then Inr 1
       else if nat k * 12 + unat r < length (concat rows)
            then rget Uninitialized (map Some (concat rows) ! (nat k * 12 + unat r))
            else Inl Out_of_bounds)"
      by (simp only: get_error_prob_from_per_matrix_def per_table_of_def Let_def k_def r_def
          per_table.simps length_map rate_len_eq of_int_minus of_int_numeral add_uminus_conv_diff)
    have "nat k * 12 + unat r < length (concat rows) \<and>
        concat rows ! (nat k * 12 + unat r) = rows ! nat k ! unat r"
      if "0 \<le> k" "k < int (length rows)" "r < 12"
      using that by (intro cell) (auto simp: word_less_nat_alt)
    then show ?thesis
      unfolding Let_def k_def [symmetric] r_def [symmetric] g by (auto simp: not_le not_less)
  qed
  then show ?thesis using read by blast
qed

text \<open>A file with a comment and two lines, and a scanner for values of one digit.\<close>

definition example_per_scanf :: "string \<Rightarrow> (real option \<times> string) option" where
  "example_per_scanf s =
     (case dropWhile isspace s of
        [] \<Rightarrow> None
      | c # r \<Rightarrow> Some (map_option of_int (digit_value c), r))"

definition example_per_file :: string where
  "example_per_file = ''# x'' @ CHR 0x0A # ''-80 111111111111 -79 000000000000''"

lemma example_per_text: "per_text example_per_scanf example_per_file (- 80) [replicate 12 1, replicate 12 0]"
proof -
  have nth: "k < 12 \<Longrightarrow> k \<in> {0, 1, 2, 3, 4, 5, 6, 7, 8, 9, 10, 11}" for k :: nat
    unfolding insert_iff empty_iff by presburger
  define a where "a = (\<lambda>k. if k = 0 then '' 111111111111 -79 000000000000''
    else replicate (12 - k) CHR ''1'' @ '' -79 000000000000'')"
  define b where "b = (\<lambda>k. if k = 0 then '' 000000000000'' else replicate (12 - k) CHR ''0'')"
  have scan_a: "example_per_scanf (a k) = Some (Some (replicate 12 1 ! k), a (Suc k))" if "k < length (replicate 12 (1 :: real))" for k
    using nth [of k] that
    by (auto simp: example_per_scanf_def a_def isspace_def digit_value_def numeral_eq_Suc)
  have scan_b: "example_per_scanf (b k) = Some (Some (replicate 12 0 ! k), b (Suc k))" if "k < length (replicate 12 (0 :: real))" for k
    using nth [of k] that
    by (auto simp: example_per_scanf_def b_def isspace_def digit_value_def numeral_eq_Suc)
  have at_end: "per_text example_per_scanf (b 12) (- 78) []"
    by (rule per_text.at_end) (simp add: b_def scan_string_def)
  have second: "per_text example_per_scanf (a 12) (- 79) [replicate 12 0]"
  proof (rule per_text.row [of _ "''-79''" b])
    show "example_per_scanf (b k) = Some (Some (replicate 12 0 ! k), b (Suc k))"
      if "k < length (replicate 12 (0 :: real))" for k using that by (rule scan_b)
    show "per_text example_per_scanf (b (length (replicate 12 (0 :: real)))) (- 79 + 1) []"
      using at_end by simp
  qed (simp_all add: a_def b_def scan_string_def isspace_def atoi_def digit_value_def)
  have "per_text example_per_scanf (''-80'' @ a 0) (- 80) [replicate 12 1, replicate 12 0]"
  proof (rule per_text.row [of _ "''-80''" a])
    show "example_per_scanf (a k) = Some (Some (replicate 12 1 ! k), a (Suc k))"
      if "k < length (replicate 12 (1 :: real))" for k using that by (rule scan_a)
    show "per_text example_per_scanf (a (length (replicate 12 (1 :: real)))) (- 80 + 1) [replicate 12 0]"
      using second by simp
  qed (simp_all add: a_def scan_string_def isspace_def atoi_def digit_value_def)
  then have rows: "per_text example_per_scanf ''-80 111111111111 -79 000000000000'' (- 80) [replicate 12 1, replicate 12 0]"
    by (simp add: a_def)
  have "(255 :: nat) = Suc (Suc (Suc 252))" by simp
  then have line: "fgets 255 ('' x'' @ CHR 0x0A # r) = ('' x'' @ [CHR 0x0A], r)" for r
    by (simp only: fgets.simps append_Cons append_Nil) simp
  show ?thesis unfolding example_per_file_def
    by (rule per_text.comment [where line = "''#''", OF _ _ _ line _ rows])
      (simp_all add: scan_string_def isspace_def)
qed

lemma per_table_roundtrip_witness:
  "\<exists>t. read_per_file example_per_scanf (Some example_per_file)
      \<lparr>per_matrix = [], per_matrix_row_num = 0, per_matrix_signal_min = 0\<rparr> = Inr (True, t) \<and>
    get_error_prob_from_per_matrix t 11 3 2412 = Inr 1 \<and> get_error_prob_from_per_matrix t 12 3 2412 = Inr 0"
proof -
  obtain t where t: "read_per_file example_per_scanf (Some example_per_file)
      \<lparr>per_matrix = [], per_matrix_row_num = 0, per_matrix_signal_min = 0\<rparr> = Inr (True, t)"
    "\<forall>snr idx freq. get_error_prob_from_per_matrix t snr idx freq = Inr
      (let k = double_to_int (snr - 91 - of_int (- 80)); r = (if freq > 5000 then idx + 4 else idx) in
       if k < 0 then 1 else if k \<ge> int (length [replicate 12 1, replicate 12 (0 :: real)]) then 0
       else if r \<ge> 12 then 1 else [replicate 12 1, replicate 12 (0 :: real)] ! nat k ! unat r)"
    using per_table_roundtrip [OF example_per_text, of "\<lparr>per_matrix = [], per_matrix_row_num = 0, per_matrix_signal_min = 0\<rparr>"]
    by auto
  then show ?thesis by (intro exI [of _ t]) (simp add: double_to_int_def)
qed

text \<open>Rows in descending order are not rejected: the second row lowers the minimum, overwrites
  the first row, and the row of the first signal is left uninitialized.\<close>

lemma per_rows_descending:
  "rbind (rfold per_add_row [(- 80, replicate 12 1), (- 81, replicate 12 0)]
      \<lparr>per_matrix = [], per_matrix_row_num = 0, per_matrix_signal_min = 1000\<rparr>)
    (\<lambda>t. get_error_prob_from_per_matrix t 11 0 2412) = Inl Uninitialized"
proof -
  have r: "replicate 12 x = [x, x, x, x, x, x, x, x, x, x, x, x]" for x :: 'a
    by (simp add: numeral_eq_Suc)
  have i: "[0..<12] = [0, 1, 2, 3, 4, 5, 6, 7, 8, 9, 10, 11]" by (simp add: upt_rec)
  show ?thesis
    by (simp add: per_add_row_def per_begin_row_def per_store_def r i
        get_error_prob_from_per_matrix_def double_to_int_def)
qed

end
