(* ===== verification/Frames.thy ===== *)
theory Frames
  imports Error_Rate
begin

text \<open>
  The frames of \<open>wmediumd/wmediumd.c\<close>: frame types and access categories read from the IEEE
  802.11 header bytes, the transmission rates of a frame, and the air time of a packet.
  The bytes of a frame are a list; reading behind its end is \<open>Out_of_bounds\<close>. The four
  entries of \<open>tx_rates\<close> are a list as well; \<open>tx_rates_count\<close> is a field of its own, which
  may be larger.
\<close>

section \<open>Data\<close>

type_synonym mac = "u8 list"

record hwsim_tx_rate =
  tr_idx :: u8
  tr_count :: u8

record frame =
  fr_src :: "nat option"
  fr_cookie :: u64
  fr_freq :: u32
  fr_flags :: u32
  fr_signal :: int
  fr_duration :: int
  fr_tx_rates_count :: int
  fr_sender :: nat
  fr_tx_rates :: "hwsim_tx_rate list"
  fr_data :: "u8 list"

abbreviation (input) IEEE80211_AC_VO :: nat where "IEEE80211_AC_VO \<equiv> 0"
abbreviation (input) IEEE80211_AC_VI :: nat where "IEEE80211_AC_VI \<equiv> 1"
abbreviation (input) IEEE80211_AC_BE :: nat where "IEEE80211_AC_BE \<equiv> 2"
abbreviation (input) IEEE80211_AC_BK :: nat where "IEEE80211_AC_BK \<equiv> 3"

abbreviation (input) FCTL_FTYPE :: u8 where "FCTL_FTYPE \<equiv> 0x0c"
abbreviation (input) FCTL_TODS :: u8 where "FCTL_TODS \<equiv> 0x01"
abbreviation (input) FCTL_FROMDS :: u8 where "FCTL_FROMDS \<equiv> 0x02"
abbreviation (input) FTYPE_MGMT :: u8 where "FTYPE_MGMT \<equiv> 0x00"
abbreviation (input) FTYPE_DATA :: u8 where "FTYPE_DATA \<equiv> 0x08"
abbreviation (input) STYPE_QOS_DATA :: u8 where "STYPE_QOS_DATA \<equiv> 0x80"
abbreviation (input) STYPE_PROBE_REQ :: u8 where "STYPE_PROBE_REQ \<equiv> 0x40"
abbreviation (input) QOS_CTL_TAG1D_MASK :: u8 where "QOS_CTL_TAG1D_MASK \<equiv> 0x07"
abbreviation (input) HWSIM_TX_STAT_ACK :: u32 where "HWSIM_TX_STAT_ACK \<equiv> 4"

definition ieee802_1d_to_ac :: "nat list" where
  "ieee802_1d_to_ac = [IEEE80211_AC_BE, IEEE80211_AC_BK, IEEE80211_AC_BK, IEEE80211_AC_BE,
     IEEE80211_AC_VI, IEEE80211_AC_VI, IEEE80211_AC_VO, IEEE80211_AC_VO]"

definition byte_at :: "u8 list \<Rightarrow> nat \<Rightarrow> u8 result" where
  "byte_at bs i = (if i < length bs then Inr (bs ! i) else Inl Out_of_bounds)"

definition addr1 :: "frame \<Rightarrow> mac" where
  "addr1 fr = take 6 (drop 4 (fr_data fr))"

section \<open>Frame types\<close>

definition frame_has_a4 :: "frame \<Rightarrow> bool result" where
  "frame_has_a4 fr = rbind (byte_at (fr_data fr) 1) (\<lambda>b.
     Inr (b AND (FCTL_TODS OR FCTL_FROMDS) = (FCTL_TODS OR FCTL_FROMDS)))"

definition frame_is_mgmt :: "frame \<Rightarrow> bool result" where
  "frame_is_mgmt fr = rbind (byte_at (fr_data fr) 0) (\<lambda>b. Inr (b AND FCTL_FTYPE = FTYPE_MGMT))"

definition frame_is_data :: "frame \<Rightarrow> bool result" where
  "frame_is_data fr = rbind (byte_at (fr_data fr) 0) (\<lambda>b. Inr (b AND FCTL_FTYPE = FTYPE_DATA))"

definition frame_is_data_qos :: "frame \<Rightarrow> bool result" where
  "frame_is_data_qos fr = rbind (byte_at (fr_data fr) 0) (\<lambda>b.
     Inr (b AND (FCTL_FTYPE OR STYPE_QOS_DATA) = (FTYPE_DATA OR STYPE_QOS_DATA)))"

definition frame_is_probe_req :: "frame \<Rightarrow> bool result" where
  "frame_is_probe_req fr = rbind (byte_at (fr_data fr) 0) (\<lambda>b.
     Inr (b AND (FCTL_FTYPE OR STYPE_PROBE_REQ) = (FTYPE_MGMT OR STYPE_PROBE_REQ)))"

definition is_multicast_ether_addr :: "mac \<Rightarrow> bool result" where
  "is_multicast_ether_addr addr = rbind (byte_at addr 0) (\<lambda>b. Inr (0x01 AND b \<noteq> 0))"

text \<open>The offset of the QoS control field.\<close>

definition frame_get_qos_ctl :: "frame \<Rightarrow> nat result" where
  "frame_get_qos_ctl fr = rbind (frame_has_a4 fr) (\<lambda>a4. Inr (if a4 then 30 else 24))"

definition frame_select_queue_80211 :: "frame \<Rightarrow> nat result" where
  "frame_select_queue_80211 fr =
     rbind (frame_is_data fr) (\<lambda>is_data.
     if \<not> is_data then Inr IEEE80211_AC_VO
     else rbind (frame_is_data_qos fr) (\<lambda>qos.
     if \<not> qos then Inr IEEE80211_AC_BE
     else rbind (frame_get_qos_ctl fr) (\<lambda>p.
       rbind (byte_at (fr_data fr) p) (\<lambda>b.
       Inr (ieee802_1d_to_ac ! unat (b AND QOS_CTL_TAG1D_MASK))))))"

section \<open>Transmission rates\<close>

definition rate_at :: "hwsim_tx_rate list \<Rightarrow> nat \<Rightarrow> hwsim_tx_rate result" where
  "rate_at rates i = (if i < length rates then Inr (rates ! i) else Inl Out_of_bounds)"

definition store_rate :: "nat \<Rightarrow> hwsim_tx_rate \<Rightarrow> hwsim_tx_rate list \<Rightarrow> hwsim_tx_rate list result" where
  "store_rate i r rates = (if i < length rates then Inr (rates[i := r]) else Inl Out_of_bounds)"

text \<open>The loop of \<open>frame_has_zero_rates\<close>, from index \<open>i\<close>, with \<open>n\<close> entries to go.\<close>

fun zero_rates_from :: "hwsim_tx_rate list \<Rightarrow> nat \<Rightarrow> nat \<Rightarrow> bool result" where
  "zero_rates_from rates i 0 = Inr True"
| "zero_rates_from rates i (Suc n) =
     rbind (rate_at rates i) (\<lambda>r.
     if sint (tr_idx r) < 0 then Inr True
     else if tr_count r > 0 then Inr False
     else zero_rates_from rates (Suc i) n)"

definition frame_has_zero_rates :: "frame \<Rightarrow> bool result" where
  "frame_has_zero_rates fr = zero_rates_from (fr_tx_rates fr) 0 (nat (fr_tx_rates_count fr))"

definition fill_tx_rates :: "frame \<Rightarrow> frame result" where
  "fill_tx_rates fr =
     (if fr_tx_rates_count fr \<le> 0 then Inr fr
      else let max_index = get_max_index; basic_rate_start = 4;
               rate_count = min (max_index - basic_rate_start + 1) (fr_tx_rates_count fr)
           in rbind (rfold (\<lambda>i. store_rate i
                  \<lparr>tr_idx = word_of_int (basic_rate_start + rate_count - int i - 1), tr_count = 4\<rparr>)
                [0..<nat rate_count] (fr_tx_rates fr)) (\<lambda>rates.
              rbind (rfold (\<lambda>i. store_rate i \<lparr>tr_idx = - 1, tr_count = 0\<rparr>)
                [nat rate_count..<nat (fr_tx_rates_count fr)] rates) (\<lambda>rates.
              Inr (fr\<lparr>fr_tx_rates := rates\<rparr>))))"

section \<open>Air time\<close>

text \<open>Division of C integers, cutting off towards zero.\<close>

definition div_round :: "int \<Rightarrow> int \<Rightarrow> int" where
  "div_round a b = (a + b - 1) sdiv b"

definition pkt_duration :: "int \<Rightarrow> int \<Rightarrow> int" where
  "pkt_duration len rate = 16 + 4 + 4 * div_round ((16 + 8 * len + 6) * 10) (4 * rate)"

section \<open>Properties\<close>

lemma byte_at_in [simp]: "i < length bs \<Longrightarrow> byte_at bs i = Inr (bs ! i)"
  by (simp add: byte_at_def)

lemma div_round_bounds:
  assumes "0 < b" and "0 \<le> a"
  shows "a \<le> div_round a b * b \<and> div_round a b * b < a + b \<and> 0 \<le> div_round a b"
proof -
  have e: "div_round a b = (a + b - 1) div b"
    using assms by (cases "a + b - 1 = 0") (simp_all add: div_round_def signed_divide_int_def)
  have m: "(a + b - 1) div b * b + (a + b - 1) mod b = a + b - 1" by simp
  have "0 \<le> (a + b - 1) mod b" "(a + b - 1) mod b < b" using assms(1) by simp_all
  then have "a \<le> (a + b - 1) div b * b" "(a + b - 1) div b * b < a + b" using m by linarith+
  then show ?thesis unfolding e using assms by (simp add: pos_imp_zdiv_nonneg_iff)
qed

text \<open>Library: the air time of a packet is the preamble of 20 us and whole symbols of 4 us that
  are enough for the service, data and tail bits at the rate (in units of 100 kbit/s), and
  not a symbol more; it grows with the length and falls with the rate.\<close>

theorem pkt_duration_covers_bits:
  assumes "0 < rate" and "0 \<le> len"
  shows "\<exists>n. pkt_duration len rate = 20 + 4 * n \<and> 0 < n \<and>
    (16 + 8 * len + 6) * 10 \<le> n * (4 * rate) \<and> (n - 1) * (4 * rate) < (16 + 8 * len + 6) * 10 \<and>
    (\<forall>len' rate'. len \<le> len' \<longrightarrow> 0 < rate' \<longrightarrow> rate' \<le> rate \<longrightarrow>
       pkt_duration len rate \<le> pkt_duration len' rate')"
proof -
  let ?b = "\<lambda>l. (16 + 8 * l + 6) * (10 :: int)" and ?n = "\<lambda>l r. div_round ((16 + 8 * l + 6) * 10) (4 * r)"
  have d: "?b l \<le> ?n l r * (4 * r)" "?n l r * (4 * r) < ?b l + 4 * r" "0 \<le> ?n l r"
    if "0 < r" "0 \<le> l" for l r
    using div_round_bounds [of "4 * r" "?b l"] that by simp_all
  have pos: "0 < ?n len rate"
  proof (rule ccontr)
    assume "\<not> 0 < ?n len rate"
    then have "?n len rate * (4 * rate) \<le> 0" using assms(1) by (simp add: mult_nonpos_nonneg)
    then have "?b len \<le> 0" using d(1) [OF assms] by (rule order_trans [rotated])
    then show False using assms(2) by simp
  qed
  have mono: "?n len rate \<le> ?n len' rate'" if l: "len \<le> len'" and r: "0 < rate'" "rate' \<le> rate" for len' rate'
  proof (rule ccontr)
    assume "\<not> ?n len rate \<le> ?n len' rate'"
    then have "?n len' rate' \<le> ?n len rate - 1" by simp
    then have "?n len' rate' * (4 * rate) \<le> (?n len rate - 1) * (4 * rate)"
      using assms(1) by (intro mult_right_mono) simp_all
    also have "\<dots> < ?b len" using d(2) [OF assms] by (simp add: left_diff_distrib)
    also have "\<dots> \<le> ?b len'" using l by simp
    also have "\<dots> \<le> ?n len' rate' * (4 * rate')" using d(1) [of rate' len'] r assms(2) l by simp
    also have "\<dots> \<le> ?n len' rate' * (4 * rate)"
      using d(3) [of rate' len'] r l assms(2) by (intro mult_left_mono) simp_all
    finally show False by simp
  qed
  show ?thesis
  proof (intro exI [of _ "?n len rate"] conjI allI impI)
    show "(?n len rate - 1) * (4 * rate) < ?b len"
      using d(2) [OF assms] by (simp add: left_diff_distrib)
    show "pkt_duration len rate \<le> pkt_duration len' rate'"
      if "len \<le> len'" "0 < rate'" "rate' \<le> rate" for len' rate'
      using mono [OF that] by (simp add: pkt_duration_def)
  qed (use pos d(1) [OF assms] in \<open>simp_all add: pkt_duration_def\<close>)
qed

lemma pkt_duration_covers_bits_witness:
  "\<exists>n. pkt_duration 100 60 = 20 + 4 * n \<and> (16 + 8 * 100 + 6) * 10 \<le> n * (4 * 60)"
  using pkt_duration_covers_bits [of 60 100] by auto

lemma pkt_duration_bounds:
  assumes "0 < rate" and "0 \<le> len"
  shows "20 \<le> pkt_duration len rate \<and> pkt_duration len rate \<le> 24 + 10 * (22 + 8 * len)"
proof -
  let ?n = "div_round ((16 + 8 * len + 6) * 10) (4 * rate)"
  have d: "?n * (4 * rate) < (16 + 8 * len + 6) * 10 + 4 * rate" "0 \<le> ?n"
    using div_round_bounds [of "4 * rate" "(16 + 8 * len + 6) * 10"] assms by simp_all
  have "(?n - 1) * (4 * rate) < (16 + 8 * len + 6) * 10"
    using d(1) by (simp add: left_diff_distrib)
  moreover have "4 * (?n - 1) \<le> (?n - 1) * (4 * rate)" if "1 \<le> ?n"
    using that assms(1) mult_left_mono [of 1 rate "4 * (?n - 1)"] by (simp add: algebra_simps)
  ultimately have "4 * ?n \<le> 4 + (16 + 8 * len + 6) * 10"
    using assms d(2) by (cases "1 \<le> ?n") simp_all
  then show ?thesis using d(2) by (simp add: pkt_duration_def)
qed

subsection \<open>Access categories\<close>

lemma tag1d_less: "unat (b AND 7 :: u8) < 8"
proof -
  have "(7 :: u8) = mask 3" by (simp add: mask_eq_exp_minus_1)
  then have "b AND 7 = take_bit 3 b" by (simp add: take_bit_eq_mask)
  then have "unat (b AND 7) = take_bit 3 (unat b)" by (simp add: unsigned_take_bit_eq)
  then show ?thesis using take_bit_nat_less_exp [of 3 "unat b"] by simp
qed

lemma access_category_less: "i < 8 \<Longrightarrow> ieee802_1d_to_ac ! i < 4"
  by (auto simp: ieee802_1d_to_ac_def nth_Cons' split: if_splits)

lemma select_queue_less: "frame_select_queue_80211 fr = Inr ac \<Longrightarrow> ac < 4"
  by (auto simp: frame_select_queue_80211_def result_simps access_category_less tag1d_less
      split: if_splits)

text \<open>Library: the queue of a frame is one of the four access categories, management and
  control frames always get the highest one (VO), data frames without QoS the best-effort
  one, and QoS data the one of the 802.1D priority in their QoS control field. Reading that
  field is the only access that may lie behind the end of a frame of 16 bytes (the minimum
  the code checks): a frame of 31 bytes is always safe.\<close>

theorem select_queue_categories:
  assumes "16 \<le> length (fr_data fr)"
  shows "(case frame_select_queue_80211 fr of
      Inl e \<Rightarrow> e = Out_of_bounds \<and> length (fr_data fr) \<le> 30 \<and> frame_is_data_qos fr = Inr True
    | Inr ac \<Rightarrow> ac < 4 \<and>
        (frame_is_data fr = Inr False \<longrightarrow> ac = IEEE80211_AC_VO) \<and>
        (frame_is_data fr = Inr True \<longrightarrow> frame_is_data_qos fr = Inr False \<longrightarrow> ac = IEEE80211_AC_BE) \<and>
        (frame_is_data fr = Inr True \<longrightarrow> frame_is_data_qos fr = Inr True \<longrightarrow>
           (\<exists>p b. frame_get_qos_ctl fr = Inr p \<and> byte_at (fr_data fr) p = Inr b \<and>
              ac = ieee802_1d_to_ac ! unat (b AND 7))))"
proof -
  have b: "byte_at (fr_data fr) 0 = Inr (fr_data fr ! 0)" "byte_at (fr_data fr) 1 = Inr (fr_data fr ! 1)"
    using assms by (auto intro!: byte_at_in)
  show ?thesis
    using b assms
    by (auto simp: frame_select_queue_80211_def frame_is_data_def frame_is_data_qos_def
        frame_get_qos_ctl_def frame_has_a4_def byte_at_def [of _ 24] byte_at_def [of _ 30]
        access_category_less tag1d_less split: sum.splits)
qed

lemma frame_is_probe_req_deauth:
  "fr_data fr = 0xC0 # rest \<Longrightarrow> frame_is_probe_req fr = Inr True"
  by (simp add: frame_is_probe_req_def)

subsection \<open>Default rates\<close>

lemma store_rates:
  "b \<le> length rates \<Longrightarrow> rfold (\<lambda>i. store_rate i (f i)) [a..<b] rates =
     Inr (map (\<lambda>i. if a \<le> i \<and> i < b then f i else rates ! i) [0..<length rates])"
proof (induction b)
  case 0
  then show ?case by (simp add: map_nth)
next
  case (Suc b)
  show ?case
  proof (cases "a \<le> b")
    case False
    then show ?thesis by (auto intro!: nth_equalityI)
  next
    case True
    then have "[a..<Suc b] = [a..<b] @ [b]" by simp
    then show ?thesis
      using Suc True
      by (auto simp: rfold_append store_rate_def nth_list_update intro!: nth_equalityI)
  qed
qed

lemma store_rates_overflow:
  assumes "a \<le> length rates" and "length rates < b"
  shows "rfold (\<lambda>i. store_rate i (f i)) [a..<b] rates = Inl Out_of_bounds"
proof -
  have "[a..<b] = [a..<length rates] @ length rates # [Suc (length rates)..<b]"
    using assms by (metis less_imp_le_nat upt_conv_Cons upt_add_eq_append le_add_diff_inverse)
  then show ?thesis
    using store_rates [of "length rates" rates f a] by (simp add: rfold_append store_rate_def)
qed

lemma zero_rates_first:
  "0 < n \<Longrightarrow> rates \<noteq> [] \<Longrightarrow> 0 \<le> sint (tr_idx (rates ! 0)) \<Longrightarrow> 0 < tr_count (rates ! 0) \<Longrightarrow>
   zero_rates_from rates 0 n = Inr False"
  by (cases n) (auto simp: rate_at_def)

text \<open>Library: for a frame with no usable rates and room for its rate count, the probe-request
  workaround fills in the OFDM rates in descending order down to the slowest one, with four
  tries each, and afterwards the frame has usable rates. With a count beyond the four
  entries of the array it writes out of bounds.\<close>

theorem fill_tx_rates_descending:
  assumes "length (fr_tx_rates fr) = 4" and "0 < fr_tx_rates_count fr"
  shows "if fr_tx_rates_count fr \<le> 4
    then \<exists>fr'. fill_tx_rates fr = Inr fr' \<and> frame_has_zero_rates fr' = Inr False \<and>
      fr' = fr\<lparr>fr_tx_rates := fr_tx_rates fr'\<rparr> \<and> length (fr_tx_rates fr') = 4 \<and>
      (\<forall>i < nat (fr_tx_rates_count fr). fr_tx_rates fr' ! i =
        \<lparr>tr_idx = word_of_int (3 + fr_tx_rates_count fr - int i), tr_count = 4\<rparr>)
    else fill_tx_rates fr = Inl Out_of_bounds"
proof (cases "fr_tx_rates_count fr \<le> 4")
  case True
  let ?k = "fr_tx_rates_count fr"
  let ?f = "\<lambda>i. \<lparr>tr_idx = word_of_int (4 + ?k - int i - 1), tr_count = 4\<rparr>"
  have k: "min 8 ?k = ?k" "nat ?k \<le> length (fr_tx_rates fr)" using True assms by simp_all
  define rates where "rates = map (\<lambda>i. if 0 \<le> i \<and> i < nat ?k then ?f i else fr_tx_rates fr ! i) [0..<4]"
  have fill: "fill_tx_rates fr = Inr (fr\<lparr>fr_tx_rates := rates\<rparr>)"
    using assms k store_rates [OF k(2), of ?f 0]
    by (simp add: fill_tx_rates_def get_max_index_def rates_def Let_def)
  have entry: "rates ! i = \<lparr>tr_idx = word_of_int (3 + ?k - int i), tr_count = 4\<rparr>" if "i < nat ?k" for i
    using that True by (simp add: rates_def)
  have "?k = 1 \<or> ?k = 2 \<or> ?k = 3 \<or> ?k = 4" using assms(2) True by linarith
  then have "0 \<le> sint (tr_idx (rates ! 0))" using entry [of 0] by auto
  then have "frame_has_zero_rates (fr\<lparr>fr_tx_rates := rates\<rparr>) = Inr False"
    using entry [of 0] assms(2) zero_rates_first [of "nat ?k" rates]
    by (simp add: frame_has_zero_rates_def rates_def)
  then show ?thesis using True fill entry by (auto simp: rates_def)
next
  case False
  let ?k = "fr_tx_rates_count fr"
  have "nat (min 8 ?k) > length (fr_tx_rates fr)" using False assms by simp
  then have "rfold (\<lambda>i. store_rate i
        \<lparr>tr_idx = word_of_int (4 + min (11 - 4 + 1) ?k - int i - 1), tr_count = 4\<rparr>)
      [0..<nat (min (11 - 4 + 1) ?k)] (fr_tx_rates fr) = Inl Out_of_bounds"
    by (intro store_rates_overflow) simp_all
  then show ?thesis using assms(2) False
    by (simp add: fill_tx_rates_def get_max_index_def Let_def)
qed

lemma select_queue_categories_witness:
  "frame_select_queue_80211 \<lparr>fr_src = None, fr_cookie = 0, fr_freq = 2412, fr_flags = 0,
      fr_signal = 0, fr_duration = 0, fr_tx_rates_count = 2, fr_sender = 0,
      fr_tx_rates = [], fr_data = replicate 16 8\<rparr> = Inr 2"
proof -
  let ?fr = "\<lparr>fr_src = None, fr_cookie = 0, fr_freq = 2412, fr_flags = 0,
      fr_signal = 0, fr_duration = 0, fr_tx_rates_count = 2, fr_sender = 0,
      fr_tx_rates = [], fr_data = replicate 16 8\<rparr> :: frame"
  have "frame_is_data ?fr = Inr True" "frame_is_data_qos ?fr = Inr False"
    by (simp_all add: frame_is_data_def frame_is_data_qos_def)
  then show ?thesis
    using select_queue_categories [of ?fr] by (simp split: sum.splits)
qed

lemma fill_tx_rates_descending_witness:
  "\<exists>fr'. fill_tx_rates \<lparr>fr_src = None, fr_cookie = 0, fr_freq = 2412, fr_flags = 0,
      fr_signal = 0, fr_duration = 0, fr_tx_rates_count = 2, fr_sender = 0,
      fr_tx_rates = replicate 4 \<lparr>tr_idx = 0, tr_count = 0\<rparr>, fr_data = []\<rparr> = Inr fr' \<and>
    fr_tx_rates fr' ! 0 = \<lparr>tr_idx = 5, tr_count = 4\<rparr>"
proof -
  let ?fr = "\<lparr>fr_src = None, fr_cookie = 0, fr_freq = 2412, fr_flags = 0,
      fr_signal = 0, fr_duration = 0, fr_tx_rates_count = 2, fr_sender = 0,
      fr_tx_rates = replicate 4 \<lparr>tr_idx = 0, tr_count = 0\<rparr>, fr_data = []\<rparr> :: frame"
  obtain fr' where "fill_tx_rates ?fr = Inr fr'"
    "\<forall>i < 2. fr_tx_rates fr' ! i = \<lparr>tr_idx = word_of_int (5 - int i), tr_count = 4\<rparr>"
    using fill_tx_rates_descending [of ?fr] by auto
  then show ?thesis by auto
qed

end
