(* ===== verification/Pcap.thy ===== *)
theory Pcap
  imports Frames
begin

text \<open>
  The packet capture file (\<open>init_pcapng\<close>, \<open>log2pcap\<close> and \<open>close_pcapng\<close> of
  \<open>wmediumd/wmediumd.c\<close>) as a list of bytes, and a reader of block-structured files
  written from the pcapng format, against which the writer is proved.
\<close>

section \<open>Little-endian encoding\<close>

definition le_bytes :: "nat \<Rightarrow> 'a::len word \<Rightarrow> u8 list" where
  "le_bytes n w = map (\<lambda>i. ucast (drop_bit (8 * i) w)) [0..<n]"

fun from_le :: "u8 list \<Rightarrow> nat" where
  "from_le [] = 0"
| "from_le (b # bs) = unat b + 256 * from_le bs"

section \<open>Writing\<close>

text \<open>Section header and interface description, what \<open>init_pcapng\<close> writes.\<close>

definition pcap_section_header :: "u8 list" where
  "pcap_section_header = le_bytes 4 (0x0A0D0D0A :: u32) @ le_bytes 4 (28 :: u32) @
     le_bytes 4 (0x1A2B3C4D :: u32) @ le_bytes 2 (1 :: u16) @ le_bytes 2 (0 :: u16) @
     le_bytes 8 (- 1 :: u64) @ le_bytes 4 (28 :: u32)"

definition pcap_interface :: "u8 list" where
  "pcap_interface = le_bytes 4 (1 :: u32) @ le_bytes 4 (32 :: u32) @
     le_bytes 2 (127 :: u16) @ le_bytes 2 (0 :: u16) @ le_bytes 4 (- 1 :: u32) @
     le_bytes 2 (9 :: u16) @ le_bytes 2 (1 :: u16) @ [6] @ [0, 0, 0] @
     le_bytes 2 (0 :: u16) @ le_bytes 2 (0 :: u16) @ le_bytes 4 (32 :: u32)"

definition radiotap_header :: "frame \<Rightarrow> u8 list" where
  "radiotap_header fr = [0] @ [0] @ le_bytes 2 (13 :: u16) @
     le_bytes 4 (push_bit 3 1 OR push_bit 5 1 :: u32) @
     le_bytes 2 (ucast (fr_freq fr) :: u16) @ le_bytes 2 (0 :: u16) @
     [word_of_int (fr_signal fr)]"

text \<open>The header is packed: 7 words of 4 bytes.\<close>

definition log2pcap :: "frame \<Rightarrow> u64 \<Rightarrow> u8 list \<Rightarrow> u8 list" where
  "log2pcap fr ts file =
     (let caplen = word_of_nat (length (fr_data fr) + 13) :: u32;
          sz = caplen + 28 + 4;
          blocklen = (sz + 3) AND NOT 3;
          align = blocklen - sz
      in file @
         (le_bytes 4 (6 :: u32) @ le_bytes 4 blocklen @ le_bytes 4 (0 :: u32) @
          le_bytes 4 (ucast (ts div 2 ^ 32) :: u32) @ le_bytes 4 (ucast ts :: u32) @
          le_bytes 4 caplen @ le_bytes 4 caplen) @
         radiotap_header fr @ fr_data fr @ replicate (unat align) 0 @ le_bytes 4 blocklen)"

text \<open>The file of the context is \<open>None\<close> if no capture is active. Closing keeps the file on
  disk; a new one starts empty. \<open>ok\<close> tells whether \<open>fopen\<close> succeeds: the code writes without
  checking.\<close>

definition init_pcapng :: "bool \<Rightarrow> bool \<Rightarrow> u8 list option \<Rightarrow> u8 list option result" where
  "init_pcapng has_name ok pcap_file =
     (if \<not> has_name then Inr None
      else if ok then Inr (Some (pcap_section_header @ pcap_interface))
      else Inl Null_dereference)"

definition close_pcapng :: "u8 list option \<Rightarrow> u8 list option" where
  "close_pcapng pcap_file = None"

section \<open>Reading\<close>

text \<open>The blocks of a pcapng file: type and body. A block has its length, a multiple of 4, in
  its second word and again at its end.\<close>

fun pcap_blocks :: "nat \<Rightarrow> u8 list \<Rightarrow> (nat \<times> u8 list) list option" where
  "pcap_blocks 0 bs = (if bs = [] then Some [] else None)"
| "pcap_blocks (Suc fuel) bs =
     (if bs = [] then Some []
      else let len = from_le (take 4 (drop 4 bs)) in
        if len < 12 \<or> len mod 4 \<noteq> 0 \<or> length bs < len \<or>
           from_le (take 4 (drop (len - 4) bs)) \<noteq> len
        then None
        else map_option (\<lambda>r. (from_le (take 4 bs), take (len - 12) (drop 8 bs)) # r)
               (pcap_blocks fuel (drop len bs)))"

text \<open>The time stamp and the captured bytes in the body of an enhanced packet block.\<close>

definition pcap_packet :: "u8 list \<Rightarrow> nat \<times> u8 list" where
  "pcap_packet body =
     (from_le (take 4 (drop 4 body)) * 2 ^ 32 + from_le (take 4 (drop 8 body)),
      take (from_le (take 4 (drop 12 body))) (drop 20 body))"

section \<open>Properties\<close>

lemma length_le_bytes [simp]: "length (le_bytes n w) = n"
  by (simp add: le_bytes_def)

lemma le_bytes_eq_Nil [simp]: "le_bytes n w = [] \<longleftrightarrow> n = 0"
  by (simp add: le_bytes_def)

lemma from_le_bytes: "from_le (le_bytes n w) = take_bit (8 * n) (unat w)"
proof -
  have "from_le (map (\<lambda>i. ucast (drop_bit (8 * i) w)) [k..<k + n]) =
      take_bit (8 * n) (drop_bit (8 * k) (unat w))" for k
  proof (induction n arbitrary: k)
    case 0
    then show ?case by simp
  next
    case (Suc n)
    have u: "[k..<k + Suc n] = k # [Suc k..<Suc k + n]" by (simp add: upt_rec)
    let ?x = "drop_bit (8 * k) (unat w)"
    have "unat (ucast (drop_bit (8 * k) w) :: u8) = take_bit 8 ?x"
      by (simp add: unsigned_ucast_eq unat_drop_bit_eq)
    moreover have "drop_bit (8 * Suc k) (unat w) = drop_bit 8 ?x" by simp
    moreover have "take_bit (8 * Suc n) ?x = take_bit 8 ?x + 256 * take_bit (8 * n) (drop_bit 8 ?x)"
    proof -
      have "take_bit (8 + 8 * n) ?x = ?x mod (2 ^ 8 * 2 ^ (8 * n))"
        by (simp add: take_bit_eq_mod power_add)
      also have "\<dots> = 2 ^ 8 * (?x div 2 ^ 8 mod 2 ^ (8 * n)) + ?x mod 2 ^ 8"
        by (rule mod_mult2_eq)
      finally show ?thesis by (simp add: take_bit_eq_mod drop_bit_eq_div)
    qed
    ultimately show ?case unfolding u using Suc.IH [of "Suc k"] by simp
  qed
  from this [of 0] show ?thesis by (simp add: le_bytes_def)
qed

lemma from_le_u32 [simp]: "from_le (le_bytes 4 (w :: u32)) = unat w"
proof -
  have "unat w < 2 ^ LENGTH(32)" by (rule unsigned_less)
  then show ?thesis using from_le_bytes [of 4 w] by (simp add: take_bit_nat_eq_self)
qed

definition padding :: "nat \<Rightarrow> nat" where
  "padding n = (4 - n mod 4) mod 4"

lemma padding_mod: "(n + padding n) mod 4 = 0"
proof -
  have "n mod 4 = 0 \<or> n mod 4 = 1 \<or> n mod 4 = 2 \<or> n mod 4 = 3"
    using mod_less_divisor [of 4 n] by linarith
  then have "(n mod 4 + padding n) mod 4 = 0" unfolding padding_def by (elim disjE) simp_all
  then show ?thesis by (simp only: mod_add_left_eq)
qed

lemma and_not_3: "x AND NOT 3 = x - (x mod 4 :: u32)"
proof -
  have m: "(3 :: u32) = mask 2" by (simp add: mask_eq_exp_minus_1)
  have "x mod 4 = x AND mask 2" by (simp add: take_bit_eq_mask [symmetric] take_bit_eq_mod)
  moreover have "NOT x AND (x AND mask 2) = 0" by (simp add: bit_eq_iff bit_simps)
  then have "x - (x AND mask 2) = x AND NOT (x AND mask 2)" by (rule disjunctive_diff_eq_and_not)
  moreover have "x AND NOT (x AND mask 2) = x AND NOT (mask 2)"
    by (auto simp: bit_eq_iff bit_simps)
  ultimately show ?thesis by (simp only: m)
qed

lemma unat_u32: "k < 2 ^ 32 \<Longrightarrow> unat (word_of_nat k :: u32) = k"
  by (simp add: unat_of_nat take_bit_nat_eq_self)

text \<open>The length fields of a packet block.\<close>

lemma pcap_lengths:
  assumes "n + 64 < 2 ^ 32"
  defines "caplen \<equiv> word_of_nat (n + 13) :: u32"
  defines "blocklen \<equiv> (caplen + 28 + 4 + 3) AND NOT 3"
  shows "unat caplen = n + 13" and "unat blocklen = n + 45 + padding (n + 1)"
    and "unat (blocklen - (caplen + 28 + 4)) = padding (n + 1)"
proof -
  show c: "unat caplen = n + 13"
    unfolding caplen_def using assms(1) by (intro unat_u32) simp
  have sz: "caplen + 28 + 4 = word_of_nat (n + 45)" "caplen + 28 + 4 + 3 = word_of_nat (n + 48)"
    by (simp_all add: caplen_def)
  have u: "unat (word_of_nat (n + 48) :: u32) = n + 48"
    using assms(1) by (intro unat_u32) simp
  have "unat (word_of_nat (n + 48) mod 4 :: u32) = unat (word_of_nat ((n + 48) mod 4) :: u32)"
    unfolding unat_mod u by (subst unat_u32) simp_all
  then have "word_of_nat (n + 48) mod 4 = (word_of_nat ((n + 48) mod 4) :: u32)"
    by (simp only: word_unat_eq_iff)
  then have "blocklen = word_of_nat (n + 48) - word_of_nat ((n + 48) mod 4)"
    unfolding blocklen_def sz(2) and_not_3 by (simp only:)
  then have b: "blocklen = word_of_nat (n + 48 - (n + 48) mod 4)"
    by (simp only: of_nat_diff [OF mod_less_eq_dividend])
  have "n mod 4 = 0 \<or> n mod 4 = 1 \<or> n mod 4 = 2 \<or> n mod 4 = 3"
    using mod_less_divisor [of 4 n] by linarith
  then have p: "n + 48 - (n + 48) mod 4 = n + 45 + padding (n + 1)"
    unfolding padding_def mod_add_eq [of n 4 48, symmetric] mod_add_eq [of n 4 1, symmetric]
    by (elim disjE) simp_all
  have pl: "padding (n + 1) < 4" by (simp add: padding_def)
  show "unat blocklen = n + 45 + padding (n + 1)"
    unfolding b p using assms(1) pl by (intro unat_u32) simp
  have "blocklen - (caplen + 28 + 4) = word_of_nat (padding (n + 1))"
    unfolding b p sz by simp
  then show "unat (blocklen - (caplen + 28 + 4)) = padding (n + 1)"
    using pl by (simp only:) (intro unat_u32, simp)
qed

text \<open>One block, wherever it stands.\<close>

lemma pcap_blocks_cons:
  assumes "length body mod 4 = 0" and "12 + length body < 2 ^ 32"
    and "unat (l :: u32) = 12 + length body"
  shows "pcap_blocks (Suc fuel) (le_bytes 4 (t :: u32) @ le_bytes 4 l @ body @ le_bytes 4 l @ rest) =
    map_option (\<lambda>r. (unat t, body) # r) (pcap_blocks fuel rest)"
proof -
  let ?bs = "le_bytes 4 t @ le_bytes 4 l @ body @ le_bytes 4 l @ rest"
  have ne: "?bs \<noteq> []" by simp
  have len: "from_le (take 4 (drop 4 ?bs)) = 12 + length body"
    using assms(3) by simp
  have last: "from_le (take 4 (drop (12 + length body - 4) ?bs)) = 12 + length body"
    using assms(3) by simp
  have rest: "drop (12 + length body) ?bs = rest" by simp
  have "(12 + length body) mod 4 = 0" using assms(1) by presburger
  then show ?thesis
    using ne len last rest by (simp add: Let_def)
qed

lemma log2pcap_block:
  assumes "length (fr_data fr) + 64 < 2 ^ 32"
  shows "\<exists>l body. log2pcap fr ts file = file @ le_bytes 4 (6 :: u32) @ le_bytes 4 (l :: u32) @ body @ le_bytes 4 l \<and>
    length body mod 4 = 0 \<and> 12 + length body < 2 ^ 32 \<and> unat l = 12 + length body \<and>
    pcap_packet body = (unat ts, radiotap_header fr @ fr_data fr)"
proof -
  let ?n = "length (fr_data fr)"
  define cap where "cap = (word_of_nat (?n + 13) :: u32)"
  define l where "l = (cap + 28 + 4 + 3) AND NOT 3"
  define body where "body = le_bytes 4 (0 :: u32) @ le_bytes 4 (ucast (ts div 2 ^ 32) :: u32) @
    le_bytes 4 (ucast ts :: u32) @ le_bytes 4 cap @ le_bytes 4 cap @
    radiotap_header fr @ fr_data fr @ replicate (padding (?n + 1)) 0"
  note len = pcap_lengths [OF assms, folded cap_def, folded l_def]
  have r: "length (radiotap_header fr) = 13" by (simp add: radiotap_header_def)
  have lb: "length body = ?n + 33 + padding (?n + 1)" by (simp add: body_def r)
  have pad: "padding (?n + 1) < 4" by (simp add: padding_def)
  have "length body mod 4 = (?n + 1 + padding (?n + 1)) mod 4"
    unfolding lb by presburger
  then have m: "length body mod 4 = 0" by (simp only: padding_mod)
  have ul: "unat l = 12 + length body" using len(2) lb by simp
  have "log2pcap fr ts file = file @ le_bytes 4 (6 :: u32) @ le_bytes 4 l @ body @ le_bytes 4 l"
    unfolding log2pcap_def Let_def cap_def [symmetric] l_def [symmetric] len(3) body_def by simp
  moreover have "pcap_packet body = (unat ts, radiotap_header fr @ fr_data fr)"
  proof -
    have hi: "unat (ucast (ts div 2 ^ 32) :: u32) = unat ts div 2 ^ 32"
    proof -
      have "unat ts < 2 ^ LENGTH(64)" by (rule unsigned_less)
      then have "unat ts div 2 ^ 32 < 2 ^ 32" by (simp add: div_less_iff_less_mult)
      then show ?thesis by (simp add: unsigned_ucast_eq unat_div take_bit_nat_eq_self)
    qed
    have lo: "unat (ucast ts :: u32) = unat ts mod 2 ^ 32"
      by (simp add: unsigned_ucast_eq take_bit_eq_mod)
    have "unat ts div 2 ^ 32 * 2 ^ 32 + unat ts mod 2 ^ 32 = unat ts" by simp
    then show ?thesis
      using len(1) r hi lo by (simp add: pcap_packet_def body_def)
  qed
  ultimately show ?thesis
    using m ul lb assms pad by (intro exI [of _ l] exI [of _ body]) auto
qed

text \<open>Two fixed blocks start the file.\<close>

lemma pcap_header_blocks:
  "pcap_blocks (Suc (Suc fuel)) ((pcap_section_header @ pcap_interface) @ rest) =
    map_option (\<lambda>r. (0x0A0D0D0A, take 16 (drop 8 pcap_section_header)) #
      (1, take 20 (drop 8 pcap_interface)) # r) (pcap_blocks fuel rest)"
proof -
  let ?h = "le_bytes 4 (0x1A2B3C4D :: u32) @ le_bytes 2 (1 :: u16) @ le_bytes 2 (0 :: u16) @
     le_bytes 8 (- 1 :: u64)"
  let ?i = "le_bytes 2 (127 :: u16) @ le_bytes 2 (0 :: u16) @ le_bytes 4 (- 1 :: u32) @
     le_bytes 2 (9 :: u16) @ le_bytes 2 (1 :: u16) @ [6] @ [0, 0, 0] @
     le_bytes 2 (0 :: u16) @ le_bytes 2 (0 :: u16)"
  have h: "pcap_section_header = le_bytes 4 (0x0A0D0D0A :: u32) @ le_bytes 4 (28 :: u32) @ ?h @
      le_bytes 4 (28 :: u32)" by (simp add: pcap_section_header_def)
  have i: "pcap_interface = le_bytes 4 (1 :: u32) @ le_bytes 4 (32 :: u32) @ ?i @ le_bytes 4 (32 :: u32)"
    by (simp add: pcap_interface_def)
  have bh: "take 16 (drop 8 pcap_section_header) = ?h" unfolding h by simp
  have bi: "take 20 (drop 8 pcap_interface) = ?i" unfolding i by simp
  have "pcap_blocks (Suc (Suc fuel)) ((pcap_section_header @ pcap_interface) @ rest) =
      map_option (\<lambda>r. (0x0A0D0D0A, ?h) # r) (pcap_blocks (Suc fuel) (pcap_interface @ rest))"
    using pcap_blocks_cons [of ?h 28 "Suc fuel" "0x0A0D0D0A" "pcap_interface @ rest"]
    unfolding h append_assoc by (simp del: pcap_blocks.simps)
  also have "pcap_blocks (Suc fuel) (pcap_interface @ rest) =
      map_option (\<lambda>r. (1, ?i) # r) (pcap_blocks fuel rest)"
    using pcap_blocks_cons [of ?i 32 fuel 1 rest]
    unfolding i append_assoc by (simp del: pcap_blocks.simps)
  finally show ?thesis unfolding bh bi by (simp add: option.map_comp comp_def)
qed

text \<open>Claim C24: a capture file is readable. Whatever frames are logged after the file was
  opened, a reader that follows the block lengths finds the section header, the interface
  description and exactly one packet block per frame, in order, with the frame's time stamp,
  its radiotap header and all its bytes.\<close>

theorem pcap_file_readable:
  assumes "init_pcapng True True old = Inr (Some pcap)"
    and "\<forall>(fr, ts) \<in> set frames. length (fr_data fr) + 64 < 2 ^ 32"
  shows "\<exists>bodies. pcap_blocks (length frames + 3)
      (fold (\<lambda>(fr, ts) pcap. log2pcap fr ts pcap) frames pcap) =
        Some ((0x0A0D0D0A, take 16 (drop 8 pcap_section_header)) #
          (1, take 20 (drop 8 pcap_interface)) # map (Pair 6) bodies) \<and>
    map pcap_packet bodies = map (\<lambda>(fr, ts). (unat ts, radiotap_header fr @ fr_data fr)) frames"
proof -
  have opened: "pcap = pcap_section_header @ pcap_interface"
    using assms(1) by (simp add: init_pcapng_def)
  have "\<exists>tl bodies. fold (\<lambda>(fr, ts) pcap. log2pcap fr ts pcap) frames f = f @ tl \<and>
      (\<forall>fuel. length frames < fuel \<longrightarrow> pcap_blocks fuel tl = Some (map (Pair 6) bodies)) \<and>
      map pcap_packet bodies = map (\<lambda>(fr, ts). (unat ts, radiotap_header fr @ fr_data fr)) frames" for f
    using assms(2)
  proof (induction frames arbitrary: f)
    case Nil
    have "pcap_blocks fuel [] = Some []" for fuel by (cases fuel) simp_all
    then show ?case by (intro exI [of _ "[]"]) simp
  next
    case (Cons x frames)
    obtain fr ts where x: "x = (fr, ts)" by (cases x)
    obtain l body where b: "log2pcap fr ts f = f @ le_bytes 4 (6 :: u32) @ le_bytes 4 (l :: u32) @ body @ le_bytes 4 l"
      "length body mod 4 = 0" "12 + length body < 2 ^ 32" "unat l = 12 + length body"
      "pcap_packet body = (unat ts, radiotap_header fr @ fr_data fr)"
      using log2pcap_block [of fr ts f] Cons.prems x by auto
    obtain tl bodies where t: "fold (\<lambda>(fr, ts) pcap. log2pcap fr ts pcap) frames (log2pcap fr ts f) =
        log2pcap fr ts f @ tl"
      "\<forall>fuel. length frames < fuel \<longrightarrow> pcap_blocks fuel tl = Some (map (Pair 6) bodies)"
      "map pcap_packet bodies = map (\<lambda>(fr, ts). (unat ts, radiotap_header fr @ fr_data fr)) frames"
      using Cons.IH [of "log2pcap fr ts f"] Cons.prems by auto
    let ?tl = "le_bytes 4 (6 :: u32) @ le_bytes 4 l @ body @ le_bytes 4 l @ tl"
    have "pcap_blocks fuel ?tl = Some (map (Pair 6) (body # bodies))" if fl: "length (x # frames) < fuel" for fuel
    proof -
      obtain n where n: "fuel = Suc n" using fl by (cases fuel) simp_all
      then have "length frames < n" using fl by simp
      then show ?thesis
        using pcap_blocks_cons [OF b(2-4), of n 6 tl] t(2) n by (simp del: pcap_blocks.simps)
    qed
    then show ?case using t(1,3) b(1,5) x by (intro exI [of _ ?tl] exI [of _ "body # bodies"]) simp
  qed
  from this [of pcap] obtain tl bodies where t: "fold (\<lambda>(fr, ts) pcap. log2pcap fr ts pcap) frames pcap = pcap @ tl"
    "\<forall>fuel. length frames < fuel \<longrightarrow> pcap_blocks fuel tl = Some (map (Pair 6) bodies)"
    "map pcap_packet bodies = map (\<lambda>(fr, ts). (unat ts, radiotap_header fr @ fr_data fr)) frames" by blast
  have n: "length frames + 3 = Suc (Suc (Suc (length frames)))" by simp
  show ?thesis
    unfolding n using pcap_header_blocks [of "Suc (length frames)" tl] t unfolding opened
    by (intro exI [of _ bodies]) (simp del: pcap_blocks.simps)
qed

lemma pcap_file_readable_witness:
  "\<exists>pcap bodies. init_pcapng True True None = Inr (Some pcap) \<and>
    map pcap_packet bodies = map (\<lambda>(fr, ts). (unat ts, radiotap_header fr @ fr_data fr))
      [(\<lparr>fr_src = None, fr_cookie = 0, fr_freq = 2412, fr_flags = 0, fr_signal = - 50,
         fr_duration = 0, fr_tx_rates_count = 0, fr_sender = 0, fr_tx_rates = [],
         fr_data = [1, 2, 3]\<rparr>, 77 :: u64)]"
proof -
  obtain pcap where f: "init_pcapng True True None = Inr (Some pcap)"
    by (simp add: init_pcapng_def)
  let ?frames = "[(\<lparr>fr_src = None, fr_cookie = 0, fr_freq = 2412,
      fr_flags = 0, fr_signal = - 50, fr_duration = 0, fr_tx_rates_count = 0, fr_sender = 0,
      fr_tx_rates = [], fr_data = [1, 2, 3]\<rparr> :: frame, 77 :: u64)]"
  have "\<exists>bodies. pcap_blocks (length ?frames + 3)
      (fold (\<lambda>(fr, ts) pcap. log2pcap fr ts pcap) ?frames pcap) =
        Some ((0x0A0D0D0A, take 16 (drop 8 pcap_section_header)) #
          (1, take 20 (drop 8 pcap_interface)) # map (Pair 6) bodies) \<and>
    map pcap_packet bodies = map (\<lambda>(fr, ts). (unat ts, radiotap_header fr @ fr_data fr)) ?frames"
    by (rule pcap_file_readable [OF f]) simp
  then show ?thesis using f by blast
qed

end
