(* ===== verification/Medium.thy ===== *)
theory Medium
  imports Scheduler Pcap
begin

text \<open>
  The simulated medium of \<open>wmediumd/wmediumd.c\<close>: stations, clients, link quality,
  interference, and \<open>queue_frame\<close>, which decides how often a frame is sent, whether it is
  acknowledged and when it is delivered. Pointers to stations, clients and frames are
  numbers; \<open>sta_mem\<close>, \<open>cl_mem\<close> and \<open>frame_mem\<close> are the allocated objects (\<open>None\<close> is not
  allocated or freed). The state extends the scheduler; the function pointers that
  \<open>load_config\<close> chooses are data types with one constructor per function of the source.
\<close>

section \<open>State\<close>

record intf_info =
  intf_signal :: int
  intf_duration :: int
  intf_prob_col :: real

record wqueue =
  wq_frames :: "nat list"
  wq_cw_min :: int
  wq_cw_max :: int

record station =
  st_index :: nat
  st_addr :: mac
  st_hwaddr :: mac
  st_x :: real
  st_y :: real
  st_dir_x :: real
  st_dir_y :: real
  st_tx_power :: int
  st_queues :: "wqueue list"
  st_client :: "nat option"
  st_addrs :: "mac list"

datatype client_type = CLIENT_NETLINK | CLIENT_VHOST_USER | CLIENT_API_SOCK

record client =
  cl_type :: client_type
  cl_wait_for_ack :: bool
  cl_flags :: u32

text \<open>The jobs that wmediumd schedules: the delivery and the start of a frame, the interference
  update and the movement of the context, and the movement of a context that
  \<open>validate_config\<close> had on its stack.\<close>

datatype job_ref = Frame_job nat | Start_job nat | Intf_job | Move_job | Stack_move_job

datatype link_snr_fn = Snr_default | Snr_from_matrix
datatype error_prob_fn = Prob_from_snr | Prob_from_matrix | Prob_from_per_matrix
datatype fading_fn = No_fading | Normal_fading
datatype path_loss_fn = Log_distance real real | Free_space | Itu int int

text \<open>A pointer to an allocated array; \<open>Freed\<close> still points to an array that was freed.\<close>

datatype 'a ptr = Null | Freed | Block 'a

definition deref :: "'a ptr \<Rightarrow> 'a result" where
  "deref p = (case p of Null \<Rightarrow> Inl Null_dereference | Freed \<Rightarrow> Inl Use_after_free | Block x \<Rightarrow> Inr x)"

definition free_ptr :: "'a ptr \<Rightarrow> unit result" where
  "free_ptr p = (case p of Freed \<Rightarrow> Inl Use_after_free | _ \<Rightarrow> Inr ())"

lemma deref_simps [simp]:
  "deref Null = Inl Null_dereference" "deref Freed = Inl Use_after_free" "deref (Block x) = Inr x"
  by (simp_all add: deref_def)

lemma deref_eq_Inr [result_simps]: "deref p = Inr x \<longleftrightarrow> p = Block x"
  by (cases p) simp_all

record wmediumd = "job_ref scheduler" +
  sta_mem :: "nat \<Rightarrow> station option"
  stations :: "nat list"
  sta_array :: "nat list option"
  num_stas :: nat
  cl_mem :: "nat \<Rightarrow> client option"
  clients :: "nat list"
  clients_to_free :: "nat list"
  nl_client :: nat
  frame_mem :: "nat \<Rightarrow> frame option"
  next_ptr :: nat
  snr_matrix :: "int list ptr"
  error_prob_matrix :: "real list ptr"
  intf :: "intf_info list option"
  per_table :: per_table
  fading_coefficient :: int
  get_link_snr_fn :: link_snr_fn
  get_error_prob_fn :: error_prob_fn
  get_fading_signal_fn :: fading_fn
  calc_path_loss_fn :: "path_loss_fn option"
  rng :: "48 word"
  need_start_notify :: u32
  pcap_file :: "u8 list option"
  config_path :: "string option"

definition sta :: "'z wmediumd_scheme \<Rightarrow> nat \<Rightarrow> station result" where
  "sta s p = rget Use_after_free (sta_mem s p)"

definition set_sta :: "nat \<Rightarrow> station \<Rightarrow> 'z wmediumd_scheme \<Rightarrow> 'z wmediumd_scheme" where
  "set_sta p st s = s\<lparr>sta_mem := (sta_mem s)(p \<mapsto> st)\<rparr>"

definition frame_at :: "'z wmediumd_scheme \<Rightarrow> nat \<Rightarrow> frame result" where
  "frame_at s p = rget Use_after_free (frame_mem s p)"

definition set_frame :: "nat \<Rightarrow> frame \<Rightarrow> 'z wmediumd_scheme \<Rightarrow> 'z wmediumd_scheme" where
  "set_frame p fr s = s\<lparr>frame_mem := (frame_mem s)(p \<mapsto> fr)\<rparr>"

definition nth_result :: "'a list \<Rightarrow> nat \<Rightarrow> 'a result" where
  "nth_result xs i = (if i < length xs then Inr (xs ! i) else Inl Out_of_bounds)"

definition upd_result :: "'a list \<Rightarrow> nat \<Rightarrow> 'a \<Rightarrow> 'a list result" where
  "upd_result xs i x = (if i < length xs then Inr (xs[i := x]) else Inl Out_of_bounds)"

abbreviation (input) SNR_DEFAULT :: int where "SNR_DEFAULT \<equiv> 30"
abbreviation (input) CCA_THRESHOLD :: int where "CCA_THRESHOLD \<equiv> - 90"

section \<open>Random numbers\<close>

text \<open>\<open>drand48\<close> of the C library, as POSIX defines it: a linear congruential generator modulo
  \<open>2 ^ 48\<close>.\<close>

definition drand48 :: "48 word \<Rightarrow> real \<times> 48 word" where
  "drand48 x = (let x = 0x5DEECE66D * x + 0xB in (of_nat (unat x) / 2 ^ 48, x))"

text \<open>\<open>pseudo_normal_distribution\<close> and the two fading functions of \<open>config.c\<close>.\<close>

definition pseudo_normal_distribution :: "48 word \<Rightarrow> real \<times> 48 word" where
  "pseudo_normal_distribution x =
     fold (\<lambda>i (normal, x). let (d, x) = drand48 x in (normal + d, x)) [0..<12] (- 6, x)"

definition get_fading_signal :: "'z wmediumd_scheme \<Rightarrow> int \<times> 'z wmediumd_scheme" where
  "get_fading_signal s =
     (case get_fading_signal_fn s of
        No_fading \<Rightarrow> (0, s)
      | Normal_fading \<Rightarrow>
          let (normal, x) = pseudo_normal_distribution (rng s)
          in (double_to_int (of_int (fading_coefficient s) * normal), s\<lparr>rng := x\<rparr>))"

section \<open>Links\<close>

definition get_link_snr :: "'z wmediumd_scheme \<Rightarrow> nat \<Rightarrow> nat \<Rightarrow> int result" where
  "get_link_snr s sender receiver =
     (case get_link_snr_fn s of
        Snr_default \<Rightarrow> Inr SNR_DEFAULT
      | Snr_from_matrix \<Rightarrow>
          rbind (sta s sender) (\<lambda>a.
          rbind (sta s receiver) (\<lambda>b.
          rbind (deref (snr_matrix s)) (\<lambda>m.
          nth_result m (st_index a * num_stas s + st_index b)))))"

definition get_error_prob_from_matrix :: "'z wmediumd_scheme \<Rightarrow> nat \<Rightarrow> nat option \<Rightarrow> real result" where
  "get_error_prob_from_matrix s src dst =
     (case dst of
        None \<Rightarrow> Inr 0
      | Some dst \<Rightarrow>
          rbind (sta s src) (\<lambda>a.
          rbind (sta s dst) (\<lambda>b.
          rbind (deref (error_prob_matrix s)) (\<lambda>m.
          nth_result m (num_stas s * st_index a + st_index b)))))"

definition get_error_prob ::
  "(real \<Rightarrow> real) \<Rightarrow> 'z wmediumd_scheme \<Rightarrow> real \<Rightarrow> u32 \<Rightarrow> u32 \<Rightarrow> int \<Rightarrow> nat \<Rightarrow> nat option \<Rightarrow> real result"
  where
  "get_error_prob erfc s snr rate_idx freq frame_len src dst =
     (case get_error_prob_fn s of
        Prob_from_snr \<Rightarrow> Inr (get_error_prob_from_snr erfc snr rate_idx freq frame_len)
      | Prob_from_matrix \<Rightarrow> get_error_prob_from_matrix s src dst
      | Prob_from_per_matrix \<Rightarrow> get_error_prob_from_per_matrix (per_table s) snr rate_idx freq)"

definition use_fixed_random_value :: "'z wmediumd_scheme \<Rightarrow> bool" where
  "use_fixed_random_value s \<longleftrightarrow> error_prob_matrix s \<noteq> Null"

section \<open>Interference\<close>

definition dBm_to_milliwatt :: "int \<Rightarrow> real" where
  "dBm_to_milliwatt decibel_intf =
     (let intf_diff = NOISE_LEVEL - decibel_intf in
      if intf_diff \<ge> 31 then 0.001
      else if intf_diff \<le> - 31 then 1000
      else 10 powr (- of_int intf_diff / 10))"

definition milliwatt_to_dBm :: "real \<Rightarrow> real" where
  "milliwatt_to_dBm value = 10 * log 10 value"

definition set_interference_duration ::
  "nat \<Rightarrow> int \<Rightarrow> int \<Rightarrow> 'z wmediumd_scheme \<Rightarrow> (bool \<times> 'z wmediumd_scheme) result" where
  "set_interference_duration src_idx duration signal s =
     (case intf s of
        None \<Rightarrow> Inr (False, s)
      | Some table \<Rightarrow>
          if signal \<ge> CCA_THRESHOLD then Inr (False, s)
          else rbind (rfold (\<lambda>i t.
                 rbind (nth_result t (num_stas s * src_idx + i)) (\<lambda>e.
                 upd_result t (num_stas s * src_idx + i)
                   (e\<lparr>intf_duration := intf_duration e + duration, intf_signal := signal\<rparr>)))
               [0..<num_stas s] table) (\<lambda>t.
             Inr (True, s\<lparr>intf := Some t\<rparr>)))"

definition get_signal_offset_by_interference ::
  "nat \<Rightarrow> nat \<Rightarrow> 'z wmediumd_scheme \<Rightarrow> (int \<times> 'z wmediumd_scheme) result" where
  "get_signal_offset_by_interference src_idx dst_idx s =
     (case intf s of
        None \<Rightarrow> Inr (0, s)
      | Some table \<Rightarrow>
          rbind (rfold (\<lambda>i (intf_power, x).
              if i = src_idx \<or> i = dst_idx then Inr (intf_power, x)
              else let (d, x) = drand48 x in
                rbind (nth_result table (i * num_stas s + dst_idx)) (\<lambda>e.
                Inr (if d < intf_prob_col e then intf_power + dBm_to_milliwatt (intf_signal e)
                     else intf_power, x)))
            [0..<num_stas s] (0, rng s)) (\<lambda>(intf_power, x).
          let s = s\<lparr>rng := x\<rparr> in
          Inr (if intf_power \<le> 1 then 0 else double_to_int (milliwatt_to_dBm intf_power + 0.5), s)))"

text \<open>The job that turns the durations of the last interval into collision probabilities.\<close>

definition wmediumd_intf_update ::
  "'z wmediumd_scheme sched_ops \<Rightarrow> 'z wmediumd_scheme \<Rightarrow> 'z wmediumd_scheme result" where
  "wmediumd_intf_update ops s =
     rbind (rget Null_dereference (intf s)) (\<lambda>table.
     rbind (rfold (\<lambda>(i, j) t.
         if i = j then Inr t
         else rbind (nth_result t (i * num_stas s + j)) (\<lambda>e.
           upd_result t (i * num_stas s + j)
             (e\<lparr>intf_prob_col := of_int (intf_duration e) / 10000, intf_duration := 0\<rparr>)))
       (List.product [0..<num_stas s] [0..<num_stas s]) table) (\<lambda>t.
     let s = s\<lparr>intf := Some t\<rparr>;
         s = set_job_start Intf_job (start_of s Intf_job + 10000) s
     in usfstl_sched_add_job ops Intf_job s))"

section \<open>Addresses\<close>

text \<open>Searching the list of stations stops at the first match.\<close>

fun find_station ::
  "(station \<Rightarrow> bool) \<Rightarrow> nat list \<Rightarrow> 'z wmediumd_scheme \<Rightarrow> nat option result" where
  "find_station P [] s = Inr None"
| "find_station P (p # ps) s =
     rbind (sta s p) (\<lambda>st. if P st then Inr (Some p) else find_station P ps s)"

definition get_station_by_addr :: "'z wmediumd_scheme \<Rightarrow> mac \<Rightarrow> nat option result" where
  "get_station_by_addr s addr = find_station (\<lambda>st. st_addr st = addr) (stations s) s"

definition station_has_addr :: "station \<Rightarrow> mac \<Rightarrow> bool" where
  "station_has_addr st addr \<longleftrightarrow> st_addr st = addr \<or> (\<exists>a \<in> set (st_addrs st). a = addr)"

definition get_station_by_used_addr :: "'z wmediumd_scheme \<Rightarrow> mac \<Rightarrow> nat option result" where
  "get_station_by_used_addr s addr = find_station (\<lambda>st. station_has_addr st addr) (stations s) s"

definition wqueue_init :: "int \<Rightarrow> int \<Rightarrow> wqueue" where
  "wqueue_init cwmin cwmax = \<lparr>wq_frames = [], wq_cw_min = cwmin, wq_cw_max = cwmax\<rparr>"

definition station_init_queues :: "station \<Rightarrow> station" where
  "station_init_queues st = st\<lparr>st_queues :=
     [wqueue_init 3 7, wqueue_init 7 15, wqueue_init 15 1023, wqueue_init 15 1023]\<rparr>"

end
