(* ===== verification/Queueing.thy ===== *)
theory Queueing
  imports Medium
begin

text \<open>
  \<open>queue_frame\<close> of \<open>wmediumd/wmediumd.c\<close>: the tries at the rates of a frame with their back-off
  and acknowledgement times, the choice of the delivery time behind every frame of the same
  or a higher priority, and the scheduling of the delivery.
\<close>

section \<open>Trying the rates\<close>

text \<open>What changes from try to try: the time used, the contention window, the random number and
  the state of the generator.\<close>

record tx =
  tx_time :: int
  tx_cw :: int
  tx_choice :: real
  tx_rng :: "48 word"

text \<open>What does not change: the times in microseconds and what the frame and the configuration
  decide.\<close>

record tx_env =
  env_noack :: bool
  env_fixed :: bool
  env_ack_time :: int
  env_cw_max :: int

abbreviation (input) slot_time :: int where "slot_time \<equiv> 9"
abbreviation (input) sifs :: int where "sifs \<equiv> 16"
abbreviation (input) difs :: int where "difs \<equiv> 2 * 9 + 16"

definition tx_backoff :: "tx_env \<Rightarrow> nat \<Rightarrow> tx \<Rightarrow> tx" where
  "tx_backoff env j t =
     (if j > 0
      then let t = t\<lparr>tx_time := tx_time t + tx_cw t * slot_time sdiv 2\<rparr>;
               t = t\<lparr>tx_cw := 2 * tx_cw t + 1\<rparr>
           in if tx_cw t > env_cw_max env then t\<lparr>tx_cw := env_cw_max env\<rparr> else t
      else t)"

definition tx_redraw :: "tx_env \<Rightarrow> tx \<Rightarrow> tx" where
  "tx_redraw env t =
     (if env_fixed env then t
      else let (choice, x) = drand48 (tx_rng t) in t\<lparr>tx_choice := choice, tx_rng := x\<rparr>)"

text \<open>The inner loop, with \<open>n\<close> tries to go at try \<open>j\<close>. \<open>airtime\<close> is the time of the packet
  at this rate. The result is the try that succeeded, if one did.\<close>

fun tx_tries ::
  "tx_env \<Rightarrow> real \<Rightarrow> int \<Rightarrow> nat \<Rightarrow> nat \<Rightarrow> tx \<Rightarrow> nat option \<times> tx" where
  "tx_tries env error_prob airtime 0 j t = (None, t)"
| "tx_tries env error_prob airtime (Suc n) j t =
     (let t = t\<lparr>tx_time := tx_time t + (difs + airtime)\<rparr> in
      if env_noack env then (Some j, t)
      else let t = tx_backoff env j t;
               t = t\<lparr>tx_time := tx_time t + env_ack_time env\<rparr>
        in if tx_choice t > error_prob then (Some j, t)
           else tx_tries env error_prob airtime n (Suc j) (tx_redraw env t))"

text \<open>The outer loop from rate \<open>i\<close>, with \<open>n\<close> rates to go. The result is the value of \<open>i\<close>
  behind the loop and the try that succeeded.\<close>

fun tx_loop ::
  "tx_env \<Rightarrow> (u32 \<Rightarrow> real result) \<Rightarrow> (int \<Rightarrow> int) \<Rightarrow> hwsim_tx_rate list \<Rightarrow> nat \<Rightarrow> nat \<Rightarrow> tx \<Rightarrow>
   (nat \<times> nat option \<times> tx) result" where
  "tx_loop env prob airtime rates 0 i t = Inr (i, None, t)"
| "tx_loop env prob airtime rates (Suc n) i t =
     rbind (rate_at rates i) (\<lambda>r.
     let rate_idx = sint (tr_idx r) in
     if rate_idx < 0 then Inr (i, None, t)
     else rbind (prob (word_of_int rate_idx)) (\<lambda>error_prob.
       case tx_tries env error_prob (airtime rate_idx) (unat (tr_count r)) 0 t of
         (Some j, t) \<Rightarrow> Inr (Suc i, Some j, t)
       | (None, t) \<Rightarrow> tx_loop env prob airtime rates n (Suc i) t))"

text \<open>After an acknowledgement: the rate that worked gets the number of its tries, all later
  ones are marked unused. \<open>count\<close> is an unsigned and \<open>idx\<close> a signed byte.\<close>

definition report_rates :: "nat \<Rightarrow> nat \<Rightarrow> int \<Rightarrow> hwsim_tx_rate list \<Rightarrow> hwsim_tx_rate list result" where
  "report_rates i j tx_rates_count rates =
     rbind (rate_at rates (i - 1)) (\<lambda>r.
     rbind (store_rate (i - 1) (r\<lparr>tr_count := word_of_nat (j + 1)\<rparr>) rates) (\<lambda>rates.
     rfold (\<lambda>i. store_rate i \<lparr>tr_idx = - 1, tr_count = - 1\<rparr>) [i..<nat tx_rates_count] rates))"

section \<open>The delivery time\<close>

definition last_opt :: "'a list \<Rightarrow> 'a option" where
  "last_opt xs = (if xs = [] then None else Some (last xs))"

text \<open>The latest delivery among the last frames of the queues \<open>0\<close> to \<open>ac\<close> of all stations, or now.
  The comparison is the plain one on 64 bits.\<close>

definition queue_target :: "nat \<Rightarrow> 'z wmediumd_scheme \<Rightarrow> u64 result" where
  "queue_target ac s =
     rfold (\<lambda>(i, p) target.
         rbind (sta s p) (\<lambda>st.
         rbind (nth_result (st_queues st) i) (\<lambda>q.
         Inr (case last_opt (wq_frames q) of
                None \<Rightarrow> target
              | Some tailf \<Rightarrow> if target < start_of s (Frame_job tailf)
                             then start_of s (Frame_job tailf) else target))))
       (List.product [0..<Suc ac] (stations s)) (current_time s)"

text \<open>Logging the frame, and an acknowledgement if it got one.\<close>

definition pcap_log ::
  "frame \<Rightarrow> bool \<Rightarrow> int \<Rightarrow> int \<Rightarrow> u64 \<Rightarrow> u8 list option \<Rightarrow> u8 list option" where
  "pcap_log fr acked send_time ack_time target file =
     map_option (\<lambda>bs.
       let bs = log2pcap fr target bs in
       if acked
       then log2pcap (fr\<lparr>fr_data := le_bytes 2 (0xd4 :: u16) @
                le_bytes 2 (word_of_int ack_time :: u16) @ take 6 (drop 10 (fr_data fr))\<rparr>)
              (target + word_of_int send_time - word_of_int ack_time) bs
       else bs) file"

section \<open>Queueing a frame\<close>

text \<open>\<open>list_add_tail(&frame->list, &queue->frames)\<close>\<close>

definition append_frame :: "nat \<Rightarrow> nat \<Rightarrow> nat \<Rightarrow> 'z wmediumd_scheme \<Rightarrow> 'z wmediumd_scheme result" where
  "append_frame station ac f s =
     rbind (sta s station) (\<lambda>st.
     rbind (nth_result (st_queues st) ac) (\<lambda>q.
     Inr (set_sta station (st\<lparr>st_queues :=
       (st_queues st)[ac := q\<lparr>wq_frames := wq_frames q @ [f]\<rparr>]\<rparr>) s)))"

text \<open>The signal at the destination, for a unicast frame to a known station.\<close>

definition queue_snr ::
  "nat \<Rightarrow> mac \<Rightarrow> bool \<Rightarrow> 'z wmediumd_scheme \<Rightarrow> (nat option \<times> int \<times> 'z wmediumd_scheme) result" where
  "queue_snr station dest multicast s =
     (if multicast then Inr (None, SNR_DEFAULT, s)
      else rbind (get_station_by_used_addr s dest) (\<lambda>deststa.
        case deststa of
          None \<Rightarrow> Inr (None, SNR_DEFAULT, s)
        | Some d \<Rightarrow>
            rbind (get_link_snr s station d) (\<lambda>snr.
            rbind (sta s station) (\<lambda>a.
            rbind (sta s d) (\<lambda>b.
            rbind (get_signal_offset_by_interference (st_index a) (st_index b) s) (\<lambda>(offset, s).
            let (fading, s) = get_fading_signal s
            in Inr (Some d, snr - offset + fading, s)))))))"

text \<open>The tries of the frame; the result has the new frame, whether it was acknowledged, the
  time it took and the state.\<close>

definition queue_send ::
  "(real \<Rightarrow> real) \<Rightarrow> nat \<Rightarrow> wqueue \<Rightarrow> bool \<Rightarrow> nat option \<Rightarrow> int \<Rightarrow> frame \<Rightarrow> 'z wmediumd_scheme \<Rightarrow>
   (frame \<times> bool \<times> int \<times> 'z wmediumd_scheme) result" where
  "queue_send erfc station queue noack deststa snr fr s =
     (let ack_time_usec = pkt_duration 14 (index_to_rate 0 (fr_freq fr)) + sifs;
          (choice, x) = drand48 (rng s);
          len = int (length (fr_data fr));
          env = \<lparr>env_noack = noack, env_fixed = use_fixed_random_value s,
                 env_ack_time = ack_time_usec, env_cw_max = wq_cw_max queue\<rparr>
      in rbind (tx_loop env
             (\<lambda>idx. get_error_prob erfc s (of_int snr) idx (fr_freq fr) len station deststa)
             (\<lambda>idx. pkt_duration len (index_to_rate (word_of_int idx) (fr_freq fr)))
             (fr_tx_rates fr) (nat (fr_tx_rates_count fr)) 0
             \<lparr>tx_time = 0, tx_cw = wq_cw_min queue, tx_choice = choice, tx_rng = x\<rparr>)
           (\<lambda>(i, acked, t).
         let s = s\<lparr>rng := tx_rng t\<rparr> in
         case acked of
           None \<Rightarrow> Inr (fr, False, tx_time t, s)
         | Some j \<Rightarrow>
             rbind (report_rates i j (fr_tx_rates_count fr) (fr_tx_rates fr)) (\<lambda>rates.
             Inr (fr\<lparr>fr_tx_rates := rates, fr_flags := fr_flags fr OR HWSIM_TX_STAT_ACK\<rparr>,
                  True, tx_time t, s))))"

text \<open>Scheduling the delivery at \<open>target\<close>, and the start notification if someone wants it.\<close>

definition queue_schedule ::
  "'z wmediumd_scheme sched_ops \<Rightarrow> nat \<Rightarrow> u64 \<Rightarrow> int \<Rightarrow> 'z wmediumd_scheme \<Rightarrow>
   'z wmediumd_scheme result" where
  "queue_schedule ops f target send_time s =
     rbind (if need_start_notify s \<noteq> 0
        then usfstl_sched_add_job ops (Start_job f)
               (set_job_start (Start_job f) (target - word_of_int send_time) s)
        else Inr s) (\<lambda>s.
     usfstl_sched_add_job ops (Frame_job f) (set_job_start (Frame_job f) target s))"

text \<open>A probe request without usable rates gets the default ones.\<close>

definition queue_fill :: "frame \<Rightarrow> frame result" where
  "queue_fill fr =
     rbind (frame_is_probe_req fr) (\<lambda>probe_req.
     rbind (if probe_req then frame_has_zero_rates fr else Inr False) (\<lambda>fill.
     if fill then fill_tx_rates fr else Inr fr))"

definition queue_frame ::
  "'z wmediumd_scheme sched_ops \<Rightarrow> (real \<Rightarrow> real) \<Rightarrow> nat \<Rightarrow> nat \<Rightarrow> 'z wmediumd_scheme \<Rightarrow>
   'z wmediumd_scheme result" where
  "queue_frame ops erfc station f s =
     rbind (frame_at s f) (\<lambda>fr.
     rbind (sta s station) (\<lambda>st.
     rbind (frame_select_queue_80211 fr) (\<lambda>ac.
     rbind (nth_result (st_queues st) ac) (\<lambda>queue.
     rbind (is_multicast_ether_addr (addr1 fr)) (\<lambda>noack.
     rbind (queue_snr station (addr1 fr) noack s) (\<lambda>(deststa, snr, s).
     rbind (queue_fill (fr\<lparr>fr_signal := snr + NOISE_LEVEL\<rparr>)) (\<lambda>fr.
     rbind (queue_send erfc station queue noack deststa snr fr s) (\<lambda>(fr, is_acked, send_time, s).
     rbind (queue_target ac s) (\<lambda>target.
     let s = s\<lparr>pcap_file := pcap_log fr (is_acked \<and> \<not> noack) send_time
                 (pkt_duration 14 (index_to_rate 0 (fr_freq fr)) + sifs) target (pcap_file s)\<rparr>;
         target = target + word_of_int send_time;
         fr = fr\<lparr>fr_duration := send_time, fr_src := st_client st\<rparr>;
         s = set_frame f fr s
     in rbind (queue_schedule ops f target send_time s)
          (append_frame station ac f))))))))))"

section \<open>The tries of a frame\<close>

text \<open>All tries the rates allow, in order: the pairs of rate and try number, up to the first
  unused rate.\<close>

fun all_tries :: "hwsim_tx_rate list \<Rightarrow> nat \<Rightarrow> nat \<Rightarrow> (nat \<times> nat) list" where
  "all_tries rates 0 i = []"
| "all_tries rates (Suc n) i =
     (if sint (tr_idx (rates ! i)) < 0 then []
      else map (Pair i) [0..<unat (tr_count (rates ! i))] @ all_tries rates n (Suc i))"

text \<open>The time of a sequence of tries, with the contention window growing at each back-off.\<close>

fun tries_time ::
  "tx_env \<Rightarrow> (int \<Rightarrow> int) \<Rightarrow> hwsim_tx_rate list \<Rightarrow> int \<Rightarrow> (nat \<times> nat) list \<Rightarrow> int" where
  "tries_time env airtime rates cw [] = 0"
| "tries_time env airtime rates cw ((i, j) # ts) =
     difs + airtime (sint (tr_idx (rates ! i))) +
     (if env_noack env then 0
      else env_ack_time env + (if j > 0 then cw * slot_time sdiv 2 else 0)) +
     tries_time env airtime rates
       (if env_noack env \<or> j = 0 then cw else min (2 * cw + 1) (env_cw_max env)) ts"

text \<open>The window after a sequence of tries.\<close>

fun tries_cw :: "tx_env \<Rightarrow> int \<Rightarrow> (nat \<times> nat) list \<Rightarrow> int" where
  "tries_cw env cw [] = cw"
| "tries_cw env cw ((i, j) # ts) =
     tries_cw env (if env_noack env \<or> j = 0 then cw else min (2 * cw + 1) (env_cw_max env)) ts"

lemma tries_time_append:
  "tries_time env airtime rates cw (ts @ us) =
   tries_time env airtime rates cw ts + tries_time env airtime rates (tries_cw env cw ts) us"
  by (induction ts arbitrary: cw) auto

lemma tries_cw_append: "tries_cw env cw (ts @ us) = tries_cw env (tries_cw env cw ts) us"
  by (induction ts arbitrary: cw) auto

text \<open>The tries at one rate: a failing one is made with a random number that does not exceed the
  error probability, the successful one ends the loop.\<close>

lemma tx_tries_account:
  assumes "tx_tries env e a n j t = (r, t')" and "a = airtime (sint (tr_idx (rates ! i)))"
  shows "\<exists>k \<le> n. tx_time t' = tx_time t + tries_time env airtime rates (tx_cw t) (map (Pair i) [j..<j + k]) \<and>
    tx_cw t' = tries_cw env (tx_cw t) (map (Pair i) [j..<j + k]) \<and>
    (case r of None \<Rightarrow> k = n \<and> (env_noack env \<longrightarrow> n = 0)
     | Some j' \<Rightarrow> 0 < k \<and> j' = j + k - 1 \<and> (env_noack env \<longrightarrow> k = 1) \<and>
         (\<not> env_noack env \<longrightarrow> tx_choice t' > e))"
  using assms
proof (induction n arbitrary: j t)
  case 0
  then show ?case by simp
next
  case (Suc n)
  have u: "[j..<j + Suc k] = j # [Suc j..<Suc j + k]" for k by (simp add: upt_rec)
  define t1 where "t1 = t\<lparr>tx_time := tx_time t + (difs + a)\<rparr>"
  define t3 where "t3 = (tx_backoff env j t1)\<lparr>tx_time := tx_time (tx_backoff env j t1) + env_ack_time env\<rparr>"
  have c3: "tx_choice t3 = tx_choice t" by (simp add: t3_def t1_def tx_backoff_def Let_def)
  show ?case
  proof (cases "env_noack env")
    case True
    then have "r = Some j" "t' = t1" using Suc.prems(1) by (auto simp: t1_def)
    then show ?thesis using True Suc.prems(2) by (intro exI [of _ 1]) (simp add: t1_def)
  next
    case noack: False
    have time3: "tx_time t3 = tx_time t + tries_time env airtime rates (tx_cw t) [(i, j)]"
      "tx_cw t3 = tries_cw env (tx_cw t) [(i, j)]"
      using noack Suc.prems(2) by (auto simp: t3_def t1_def tx_backoff_def Let_def min_def)
    have eq: "tx_tries env e a (Suc n) j t =
        (if tx_choice t3 > e then (Some j, t3) else tx_tries env e a n (Suc j) (tx_redraw env t3))"
      using noack by (simp add: t3_def t1_def Let_def)
    show ?thesis
    proof (cases "tx_choice t > e")
      case True
      then have "r = Some j" "t' = t3" using Suc.prems(1) c3 unfolding eq by auto
      then show ?thesis
        using noack time3 True c3 by (intro exI [of _ 1]) (simp add: upt_rec)
    next
      case False
      define t4 where "t4 = tx_redraw env t3"
      have step: "tx_tries env e a n (Suc j) t4 = (r, t')"
        using Suc.prems(1) c3 False unfolding eq t4_def by simp
      have t4: "tx_time t4 = tx_time t3" "tx_cw t4 = tx_cw t3"
        by (simp_all add: t4_def tx_redraw_def case_prod_beta)
      obtain k where k: "k \<le> n"
        "tx_time t' = tx_time t4 + tries_time env airtime rates (tx_cw t4) (map (Pair i) [Suc j..<Suc j + k])"
        "tx_cw t' = tries_cw env (tx_cw t4) (map (Pair i) [Suc j..<Suc j + k])"
        "case r of None \<Rightarrow> k = n \<and> (env_noack env \<longrightarrow> n = 0)
         | Some j' \<Rightarrow> 0 < k \<and> j' = Suc j + k - 1 \<and> (env_noack env \<longrightarrow> k = 1) \<and>
             (\<not> env_noack env \<longrightarrow> tx_choice t' > e)"
        using Suc.IH [OF step Suc.prems(2)] by blast
      have m: "map (Pair i) [j..<j + Suc k] = [(i, j)] @ map (Pair i) [Suc j..<Suc j + k]"
        unfolding u by simp
      show ?thesis
      proof (intro exI [of _ "Suc k"] conjI)
        show "tx_time t' = tx_time t + tries_time env airtime rates (tx_cw t) (map (Pair i) [j..<j + Suc k])"
          unfolding m tries_time_append k(2) t4 time3 by simp
        show "tx_cw t' = tries_cw env (tx_cw t) (map (Pair i) [j..<j + Suc k])"
          unfolding m tries_cw_append k(3) t4 time3 ..
      qed (use k(1,4) noack in \<open>auto split: option.splits\<close>)
    qed
  qed
qed

lemma all_tries_ge: "(i', j') \<in> set (all_tries rates n i) \<Longrightarrow> i \<le> i' \<and> i' < i + n"
  by (induction n arbitrary: i) (fastforce split: if_splits)+

text \<open>The tries of the loop are the first ones of all that the rates allow.\<close>

lemma tx_loop_account:
  assumes "tx_loop env prob airtime rates n i t = Inr (i', r, t')"
  shows "\<exists>ts us. all_tries rates n i = ts @ us \<and>
    tx_time t' = tx_time t + tries_time env airtime rates (tx_cw t) ts \<and>
    (case r of None \<Rightarrow> us = [] \<and> (env_noack env \<longrightarrow> ts = [])
     | Some j \<Rightarrow> 0 < i' \<and> ts \<noteq> [] \<and> last ts = (i' - 1, j) \<and> (env_noack env \<longrightarrow> length ts = 1) \<and>
         (\<not> env_noack env \<longrightarrow> (\<exists>e. prob (word_of_int (sint (tr_idx (rates ! (i' - 1))))) = Inr e \<and>
            tx_choice t' > e)))"
  using assms
proof (induction n arbitrary: i t)
  case 0
  then show ?case by simp
next
  case (Suc n)
  let ?r = "rates ! i"
  have i: "i < length rates" using Suc.prems by (auto simp: result_simps rate_at_def split: if_splits)
  show ?case
  proof (cases "sint (tr_idx ?r) < 0")
    case True
    then show ?thesis using Suc.prems i by (simp add: rate_at_def)
  next
    case idx: False
    then obtain e where e: "prob (word_of_int (sint (tr_idx ?r))) = Inr e"
      and rest: "(case tx_tries env e (airtime (sint (tr_idx ?r))) (unat (tr_count ?r)) 0 t of
         (Some j, t) \<Rightarrow> Inr (Suc i, Some j, t)
       | (None, t) \<Rightarrow> tx_loop env prob airtime rates n (Suc i) t) = Inr (i', r, t')"
      using Suc.prems i by (auto simp: rate_at_def result_simps)
    obtain r1 t1 where tries: "tx_tries env e (airtime (sint (tr_idx ?r))) (unat (tr_count ?r)) 0 t = (r1, t1)"
      by force
    obtain k where k: "k \<le> unat (tr_count ?r)"
      "tx_time t1 = tx_time t + tries_time env airtime rates (tx_cw t) (map (Pair i) [0..<k])"
      "tx_cw t1 = tries_cw env (tx_cw t) (map (Pair i) [0..<k])"
      "case r1 of None \<Rightarrow> k = unat (tr_count ?r) \<and> (env_noack env \<longrightarrow> unat (tr_count ?r) = 0)
       | Some j' \<Rightarrow> 0 < k \<and> j' = 0 + k - 1 \<and> (env_noack env \<longrightarrow> k = 1) \<and>
           (\<not> env_noack env \<longrightarrow> tx_choice t1 > e)"
      using tx_tries_account [where airtime = airtime and rates = rates and i = i, OF tries refl] by auto
    have all: "all_tries rates (Suc n) i =
        map (Pair i) [0..<unat (tr_count ?r)] @ all_tries rates n (Suc i)"
      using idx by simp
    show ?thesis
    proof (cases r1)
      case None
      then have loop: "tx_loop env prob airtime rates n (Suc i) t1 = Inr (i', r, t')"
        using rest tries by simp
      obtain ts us where ih: "all_tries rates n (Suc i) = ts @ us"
        "tx_time t' = tx_time t1 + tries_time env airtime rates (tx_cw t1) ts"
        "case r of None \<Rightarrow> us = [] \<and> (env_noack env \<longrightarrow> ts = [])
         | Some j \<Rightarrow> 0 < i' \<and> ts \<noteq> [] \<and> last ts = (i' - 1, j) \<and> (env_noack env \<longrightarrow> length ts = 1) \<and>
             (\<not> env_noack env \<longrightarrow> (\<exists>e. prob (word_of_int (sint (tr_idx (rates ! (i' - 1))))) = Inr e \<and>
                tx_choice t' > e))"
        using Suc.IH [OF loop] by blast
      let ?p = "map (Pair i) [0..<unat (tr_count ?r)]"
      have "all_tries rates (Suc n) i = (?p @ ts) @ us" unfolding all ih(1) by simp
      moreover have "tx_time t' = tx_time t + tries_time env airtime rates (tx_cw t) (?p @ ts)"
        using k None ih(2) by (simp add: tries_time_append)
      moreover have "env_noack env \<longrightarrow> ?p = []" using k None by simp
      ultimately show ?thesis using ih(3) by (intro exI [of _ "?p @ ts"] exI [of _ us]) (auto split: option.splits)
    next
      case (Some j)
      then have r: "i' = Suc i" "r = Some j" "t' = t1" using rest tries by auto
      let ?u = "map (Pair i) [k..<unat (tr_count ?r)] @ all_tries rates n (Suc i)"
      have j: "0 < k" "j = k - 1" "env_noack env \<longrightarrow> k = 1" "\<not> env_noack env \<longrightarrow> tx_choice t1 > e"
        using k(4) Some by auto
      have "[0..<unat (tr_count ?r)] = [0..<k] @ [k..<unat (tr_count ?r)]"
        using k(1) upt_add_eq_append [of 0 k "unat (tr_count ?r) - k"] by simp
      then have "all_tries rates (Suc n) i = map (Pair i) [0..<k] @ ?u" unfolding all by simp
      then show ?thesis
        using k(2) j r e
        by (intro exI [of _ "map (Pair i) [0..<k]"] exI [of _ ?u]) (simp add: last_map)
    qed
  qed
qed

text \<open>The bounds of the times.\<close>

lemma pkt_duration_slow:
  assumes "10 \<le> rate" and "0 \<le> len"
  shows "20 \<le> pkt_duration len rate \<and> pkt_duration len rate \<le> 46 + 8 * len"
proof -
  let ?n = "div_round ((16 + 8 * len + 6) * 10) (4 * rate)"
  have d: "?n * (4 * rate) < (16 + 8 * len + 6) * 10 + 4 * rate" "0 \<le> ?n"
    using div_round_bounds [of "4 * rate" "(16 + 8 * len + 6) * 10"] assms by simp_all
  have "4 * ?n \<le> 4 + (22 + 8 * len)"
  proof (rule ccontr)
    assume "\<not> 4 * ?n \<le> 4 + (22 + 8 * len)"
    then have "22 + 8 * len < 4 * (?n - 1)" by simp
    then have "(22 + 8 * len) * 10 < 4 * (?n - 1) * 10" by simp
    also have "\<dots> \<le> 4 * (?n - 1) * rate"
      using assms \<open>22 + 8 * len < 4 * (?n - 1)\<close> by (intro mult_left_mono) simp_all
    finally show False using d(1) by (simp add: algebra_simps)
  qed
  then show ?thesis using d(2) by (simp add: pkt_duration_def)
qed

lemma tries_cw_bounds:
  "0 \<le> cw \<Longrightarrow> cw \<le> env_cw_max env \<Longrightarrow> 0 \<le> tries_cw env cw ts \<and> tries_cw env cw ts \<le> env_cw_max env"
  by (induction env cw ts rule: tries_cw.induct) auto

lemma sdiv_two: "0 \<le> x \<Longrightarrow> 0 \<le> x sdiv 2 \<and> x sdiv 2 \<le> (x :: int)"
  by (cases "x = 0") (auto simp: signed_divide_int_def)

lemma tries_time_bounds:
  assumes "0 \<le> cw" and "cw \<le> env_cw_max env" and "0 \<le> env_ack_time env"
    and air: "\<And>idx. 0 \<le> airtime idx \<and> airtime idx \<le> a"
  shows "0 \<le> tries_time env airtime rates cw ts \<and>
    tries_time env airtime rates cw ts \<le>
      int (length ts) * (34 + a + env_ack_time env + env_cw_max env * 9)"
  using assms(1,2)
proof (induction ts arbitrary: cw)
  case Nil
  then show ?case by simp
next
  case (Cons x ts)
  obtain i j where x: "x = (i, j)" by (cases x)
  let ?cw = "if env_noack env \<or> j = 0 then cw else min (2 * cw + 1) (env_cw_max env)"
  let ?b = "34 + a + env_ack_time env + env_cw_max env * 9"
  have ih: "0 \<le> tries_time env airtime rates ?cw ts \<and>
      tries_time env airtime rates ?cw ts \<le> int (length ts) * ?b"
    using Cons.prems by (intro Cons.IH) auto
  have c: "0 \<le> cw * 9 sdiv 2" "cw * 9 sdiv 2 \<le> env_cw_max env * 9"
    using sdiv_two [of "cw * 9"] Cons.prems by auto
  have "tries_time env airtime rates cw (x # ts) \<le> ?b + tries_time env airtime rates ?cw ts"
    "0 \<le> tries_time env airtime rates cw (x # ts)"
    using c air [of "sint (tr_idx (rates ! i))"] assms(3) ih Cons.prems x by auto
  then show ?case using ih by (simp add: distrib_right)
qed

lemma all_tries_length: "length (all_tries rates n i) \<le> n * 255"
proof (induction n arbitrary: i)
  case (Suc n)
  have "unat (tr_count (rates ! i)) < 2 ^ LENGTH(8)" by (rule unsigned_less)
  then have "unat (tr_count (rates ! i)) \<le> 255" by simp
  then show ?case using Suc [of "Suc i"] by simp
qed simp

lemma report_rates_Inr:
  assumes "report_rates i j n rates = Inr rates'" and "0 < i"
  shows "length rates' = length rates \<and> i - 1 < length rates \<and>
    (\<forall>k < length rates. rates' ! k =
      (if i \<le> k \<and> k < nat n then \<lparr>tr_idx = - 1, tr_count = - 1\<rparr>
       else if k = i - 1 then (rates ! k)\<lparr>tr_count := word_of_nat (j + 1)\<rparr> else rates ! k))"
proof -
  let ?r = "rates[i - 1 := (rates ! (i - 1))\<lparr>tr_count := word_of_nat (j + 1)\<rparr>]"
  have i: "i - 1 < length rates"
    and f: "rfold (\<lambda>i. store_rate i \<lparr>tr_idx = - 1, tr_count = - 1\<rparr>) [i..<nat n] ?r = Inr rates'"
    using assms(1) by (auto simp: report_rates_def rate_at_def store_rate_def result_simps split: if_splits)
  show ?thesis
  proof (cases "nat n \<le> length rates")
    case True
    then have "rates' = map (\<lambda>k. if i \<le> k \<and> k < nat n then \<lparr>tr_idx = - 1, tr_count = - 1\<rparr> else ?r ! k)
        [0..<length ?r]"
      using store_rates [of "nat n" ?r "\<lambda>_. \<lparr>tr_idx = - 1, tr_count = - 1\<rparr>" i] f by simp
    then show ?thesis using i assms(2) by (auto simp: nth_list_update)
  next
    case False
    have "i \<le> length ?r" using i by simp
    then show ?thesis
      using store_rates_overflow [of i ?r "nat n" "\<lambda>_. \<lparr>tr_idx = - 1, tr_count = - 1\<rparr>"] f False by simp
  qed
qed

text \<open>The parameters of the tries of a frame.\<close>

definition send_env :: "wqueue \<Rightarrow> bool \<Rightarrow> frame \<Rightarrow> 'z wmediumd_scheme \<Rightarrow> tx_env" where
  "send_env queue noack fr s = \<lparr>env_noack = noack, env_fixed = use_fixed_random_value s,
     env_ack_time = pkt_duration 14 (index_to_rate 0 (fr_freq fr)) + sifs,
     env_cw_max = wq_cw_max queue\<rparr>"

definition send_airtime :: "frame \<Rightarrow> int \<Rightarrow> int" where
  "send_airtime fr idx =
     pkt_duration (int (length (fr_data fr))) (index_to_rate (word_of_int idx) (fr_freq fr))"

lemma queue_send_shape:
  "queue_send erfc station queue noack deststa snr fr s =
     rbind (tx_loop (send_env queue noack fr s)
         (\<lambda>idx. get_error_prob erfc s (of_int snr) idx (fr_freq fr) (int (length (fr_data fr))) station deststa)
         (send_airtime fr) (fr_tx_rates fr) (nat (fr_tx_rates_count fr)) 0
         \<lparr>tx_time = 0, tx_cw = wq_cw_min queue, tx_choice = fst (drand48 (rng s)),
          tx_rng = snd (drand48 (rng s))\<rparr>)
       (\<lambda>(i, acked, t). case acked of
          None \<Rightarrow> Inr (fr, False, tx_time t, s\<lparr>rng := tx_rng t\<rparr>)
        | Some j \<Rightarrow>
           rbind (report_rates i j (fr_tx_rates_count fr) (fr_tx_rates fr)) (\<lambda>rates.
           Inr (fr\<lparr>fr_tx_rates := rates, fr_flags := fr_flags fr OR HWSIM_TX_STAT_ACK\<rparr>,
                True, tx_time t, s\<lparr>rng := tx_rng t\<rparr>)))"
  by (simp add: queue_send_def send_env_def send_airtime_def [abs_def] Let_def case_prod_beta)

lemma queue_send_Inr:
  assumes "queue_send erfc station queue noack deststa snr fr s = Inr (fr', acked, time, s')"
  shows "\<exists>ts us. all_tries (fr_tx_rates fr) (nat (fr_tx_rates_count fr)) 0 = ts @ us \<and>
    time = tries_time (send_env queue noack fr s) (send_airtime fr) (fr_tx_rates fr)
             (wq_cw_min queue) ts \<and>
    (\<not> acked \<longrightarrow> us = [] \<and> fr' = fr \<and> (noack \<longrightarrow> ts = [])) \<and>
    (acked \<longrightarrow> ts \<noteq> [] \<and> (noack \<longrightarrow> length ts = 1) \<and>
       fr_flags fr' = fr_flags fr OR HWSIM_TX_STAT_ACK \<and>
       (\<forall>k < length (fr_tx_rates fr). fr_tx_rates fr' ! k =
         (if fst (last ts) < k \<and> k < nat (fr_tx_rates_count fr)
          then \<lparr>tr_idx = - 1, tr_count = - 1\<rparr>
          else if k = fst (last ts)
               then (fr_tx_rates fr ! k)\<lparr>tr_count := word_of_nat (snd (last ts) + 1)\<rparr>
               else fr_tx_rates fr ! k)))"
proof -
  obtain i r t where loop: "tx_loop (send_env queue noack fr s)
         (\<lambda>idx. get_error_prob erfc s (of_int snr) idx (fr_freq fr) (int (length (fr_data fr))) station deststa)
         (send_airtime fr) (fr_tx_rates fr) (nat (fr_tx_rates_count fr)) 0
         \<lparr>tx_time = 0, tx_cw = wq_cw_min queue, tx_choice = fst (drand48 (rng s)),
          tx_rng = snd (drand48 (rng s))\<rparr> = Inr (i, r, t)"
    and fin: "(case r of
          None \<Rightarrow> Inr (fr, False, tx_time t, s\<lparr>rng := tx_rng t\<rparr>)
        | Some j \<Rightarrow>
           rbind (report_rates i j (fr_tx_rates_count fr) (fr_tx_rates fr)) (\<lambda>rates.
           Inr (fr\<lparr>fr_tx_rates := rates, fr_flags := fr_flags fr OR HWSIM_TX_STAT_ACK\<rparr>,
                True, tx_time t, s\<lparr>rng := tx_rng t\<rparr>))) = Inr (fr', acked, time, s')"
    using assms by (auto simp: queue_send_shape result_simps)
  let ?P = "\<lambda>ts us. all_tries (fr_tx_rates fr) (nat (fr_tx_rates_count fr)) 0 = ts @ us \<and>
    tx_time t = tries_time (send_env queue noack fr s) (send_airtime fr) (fr_tx_rates fr)
       (wq_cw_min queue) ts \<and>
    (case r of None \<Rightarrow> us = [] \<and> (noack \<longrightarrow> ts = [])
     | Some j \<Rightarrow> 0 < i \<and> ts \<noteq> [] \<and> last ts = (i - 1, j) \<and> (noack \<longrightarrow> length ts = 1))"
  have "env_noack (send_env queue noack fr s) = noack" by (simp add: send_env_def)
  then have "\<exists>ts us. ?P ts us"
    using tx_loop_account [OF loop] by (cases r) (simp, simp, blast)
  then obtain ts us where ab: "?P ts us" by blast
  then have a: "all_tries (fr_tx_rates fr) (nat (fr_tx_rates_count fr)) 0 = ts @ us"
    "tx_time t = tries_time (send_env queue noack fr s) (send_airtime fr) (fr_tx_rates fr)
       (wq_cw_min queue) ts"
    and b: "case r of None \<Rightarrow> us = [] \<and> (noack \<longrightarrow> ts = [])
     | Some j \<Rightarrow> 0 < i \<and> ts \<noteq> [] \<and> last ts = (i - 1, j) \<and> (noack \<longrightarrow> length ts = 1)"
    by blast+
  show ?thesis
  proof (cases r)
    case None
    then show ?thesis using a b fin by (intro exI [of _ ts] exI [of _ us]) auto
  next
    case (Some j)
    then obtain rates where rep: "report_rates i j (fr_tx_rates_count fr) (fr_tx_rates fr) = Inr rates"
      and f: "fr' = fr\<lparr>fr_tx_rates := rates, fr_flags := fr_flags fr OR HWSIM_TX_STAT_ACK\<rparr>"
      "acked" "time = tx_time t"
      using fin by (auto simp: result_simps)
    have i: "0 < i" "last ts = (i - 1, j)" using b Some by auto
    have le: "(i \<le> k) = (i - 1 < k)" for k using i(1) by auto
    have ts: "ts \<noteq> []" "noack \<longrightarrow> length ts = 1" using b Some by auto
    have rates: "\<forall>k < length (fr_tx_rates fr). rates ! k =
         (if i - 1 < k \<and> k < nat (fr_tx_rates_count fr) then \<lparr>tr_idx = - 1, tr_count = - 1\<rparr>
          else if k = i - 1 then (fr_tx_rates fr ! k)\<lparr>tr_count := word_of_nat (j + 1)\<rparr>
          else fr_tx_rates fr ! k)"
      using report_rates_Inr [OF rep i(1)] unfolding le by blast
    show ?thesis
    proof (rule exI [of _ ts], rule exI [of _ us], intro conjI impI)
      show "\<forall>k < length (fr_tx_rates fr). fr_tx_rates fr' ! k =
         (if fst (last ts) < k \<and> k < nat (fr_tx_rates_count fr) then \<lparr>tr_idx = - 1, tr_count = - 1\<rparr>
          else if k = fst (last ts) then (fr_tx_rates fr ! k)\<lparr>tr_count := word_of_nat (snd (last ts) + 1)\<rparr>
          else fr_tx_rates fr ! k)"
        unfolding i(2) fst_conv snd_conv f(1) using rates by simp
      show "fr_flags fr' = fr_flags fr OR HWSIM_TX_STAT_ACK" unfolding f(1) by simp
    qed (use a ts f(2,3) in \<open>simp_all only: simp_thms\<close>)
  qed
qed

text \<open>Claim C2: the outcome of sending a frame. The tries made are the first ones of all that
  the rates of the frame allow, in order; the time is the sum of their inter-frame spaces,
  air times, back-offs (with the doubling contention window) and acknowledgement times. A
  frame that is not acknowledged has used up all its tries and is unchanged; an acknowledged
  one stopped at its last try, reports exactly the number of tries made at that rate, marks
  the later rates unused, keeps the earlier ones and carries the ACK flag. Multicast frames
  are sent at most once.\<close>

theorem queue_send_outcome:
  assumes "queue_send erfc station queue noack deststa snr fr s = Inr (fr', acked, time, s')"
  shows "\<exists>ts us. all_tries (fr_tx_rates fr) (nat (fr_tx_rates_count fr)) 0 = ts @ us \<and>
    time = tries_time (send_env queue noack fr s) (send_airtime fr) (fr_tx_rates fr)
             (wq_cw_min queue) ts \<and>
    (\<not> acked \<longrightarrow> us = [] \<and> fr' = fr \<and> (noack \<longrightarrow> ts = [])) \<and>
    (acked \<longrightarrow> ts \<noteq> [] \<and> (noack \<longrightarrow> length ts = 1) \<and>
       fr_flags fr' = fr_flags fr OR HWSIM_TX_STAT_ACK \<and>
       (\<forall>k < length (fr_tx_rates fr). fr_tx_rates fr' ! k =
         (if fst (last ts) < k \<and> k < nat (fr_tx_rates_count fr)
          then \<lparr>tr_idx = - 1, tr_count = - 1\<rparr>
          else if k = fst (last ts)
               then (fr_tx_rates fr ! k)\<lparr>tr_count := word_of_nat (snd (last ts) + 1)\<rparr>
               else fr_tx_rates fr ! k)))"
  by (rule queue_send_Inr [OF assms])

subsection \<open>Bounds\<close>

lemma index_to_rate_range: "10 \<le> index_to_rate index freq \<and> index_to_rate index freq \<le> 540"
proof -
  define i where "i = (let index = (if freq > 5000 then index + 4 else index) in
    if index \<ge> 12 then 12 - 1 else index)"
  have "i < 12"
    by (simp add: i_def Let_def not_le)
  then have "unat i < length rateset" by (simp add: word_less_nat_alt)
  then have m: "rateset ! unat i \<in> set rateset" by (rule nth_mem)
  have e: "index_to_rate index freq = mbps (rateset ! unat i)"
    by (simp add: index_to_rate_def i_def Let_def)
  have "\<forall>r \<in> set rateset. 10 \<le> mbps r \<and> mbps r \<le> 540" by (simp add: rateset_def)
  then show ?thesis using m unfolding e by blast
qed

lemma send_time_bounds:
  assumes "queue_send erfc station queue noack deststa snr fr s = Inr (fr', acked, time, s')"
    and "length (fr_data fr) \<le> 65535" and "fr_tx_rates_count fr \<le> 4"
    and "0 \<le> wq_cw_min queue" and "wq_cw_min queue \<le> wq_cw_max queue" and "wq_cw_max queue \<le> 1023"
  shows "0 \<le> time \<and> time < 2 ^ 31"
proof -
  let ?env = "send_env queue noack fr s"
  obtain ts us where t: "all_tries (fr_tx_rates fr) (nat (fr_tx_rates_count fr)) 0 = ts @ us"
    "time = tries_time ?env (send_airtime fr) (fr_tx_rates fr) (wq_cw_min queue) ts"
    using queue_send_Inr [OF assms(1)] by blast
  have air: "0 \<le> send_airtime fr idx \<and> send_airtime fr idx \<le> 524326" for idx
    using pkt_duration_slow [of "index_to_rate (word_of_int idx) (fr_freq fr)" "int (length (fr_data fr))"]
      index_to_rate_range [of "word_of_int idx" "fr_freq fr"] assms(2)
    by (simp add: send_airtime_def)
  have ack: "0 \<le> env_ack_time ?env" "env_ack_time ?env \<le> 174"
    using pkt_duration_slow [of "index_to_rate 0 (fr_freq fr)" 14] index_to_rate_range [of 0 "fr_freq fr"]
    by (simp_all add: send_env_def)
  have cw: "wq_cw_min queue \<le> env_cw_max ?env" "env_cw_max ?env \<le> 1023"
    using assms(5,6) by (simp_all add: send_env_def)
  have b: "0 \<le> time" "time \<le> int (length ts) * (34 + 524326 + env_ack_time ?env + env_cw_max ?env * 9)"
    using tries_time_bounds [OF assms(4) cw(1) ack(1) air] unfolding t(2) by simp_all
  have "length ts \<le> nat (fr_tx_rates_count fr) * 255"
    using all_tries_length [of "fr_tx_rates fr" "nat (fr_tx_rates_count fr)" 0] t(1) by simp
  then have n: "int (length ts) \<le> 1020" using assms(3) by simp
  have p: "34 + 524326 + env_ack_time ?env + env_cw_max ?env * 9 \<le> 533741"
    using ack(2) cw(2) by simp
  have "int (length ts) * (34 + 524326 + env_ack_time ?env + env_cw_max ?env * 9) \<le> 1020 * 533741"
    using n p ack(1) assms(4) cw(1) by (intro mult_mono) simp_all
  then show ?thesis using b by simp
qed

text \<open>Claim C25: the time a frame takes on the air is never negative and always fits the 32-bit
  \<open>int\<close> it is computed in, for every frame netlink can carry (up to 65535 bytes) with at
  most the four rates there is room for and the contention windows of the code.\<close>

theorem send_time_fits_int:
  assumes "queue_send erfc station queue noack deststa snr fr s = Inr (fr', acked, time, s')"
    and "length (fr_data fr) \<le> 65535" and "fr_tx_rates_count fr \<le> 4"
    and "0 \<le> wq_cw_min queue" and "wq_cw_min queue \<le> wq_cw_max queue" and "wq_cw_max queue \<le> 1023"
  shows "0 \<le> time \<and> time < 2 ^ 31"
  by (rule send_time_bounds [OF assms])

subsection \<open>Certain loss and certain success\<close>

lemma drand48_range: "0 \<le> fst (drand48 x) \<and> fst (drand48 x) < 1"
proof -
  let ?y = "0x5DEECE66D * x + 0xB"
  have "unat ?y < 2 ^ LENGTH(48)" by (rule unsigned_less)
  then have "real (unat ?y) < real (2 ^ LENGTH(48))" by (simp only: of_nat_less_iff)
  moreover have "0 \<le> real (unat ?y)" by (rule of_nat_0_le_iff)
  ultimately show ?thesis by (simp add: drand48_def Let_def)
qed

lemma tx_tries_choice:
  "tx_choice t < 1 \<Longrightarrow> tx_choice (snd (tx_tries env e a n j t)) < 1"
proof (induction n arbitrary: j t)
  case 0
  then show ?case by simp
next
  case (Suc n)
  have b: "tx_choice (tx_backoff env j t') = tx_choice t'" for t' j
    by (simp add: tx_backoff_def Let_def)
  have r: "tx_choice (tx_redraw env t') < 1" if "tx_choice t' < 1" for t'
    using that drand48_range [of "tx_rng t'"] by (simp add: tx_redraw_def case_prod_beta)
  show ?case using Suc.prems by (auto simp: Let_def b intro!: Suc.IH r)
qed

lemma tx_loop_choice:
  "tx_loop env prob airtime rates n i t = Inr (i', r, t') \<Longrightarrow> tx_choice t < 1 \<Longrightarrow> tx_choice t' < 1"
proof (induction n arbitrary: i t)
  case 0
  then show ?case by simp
next
  case (Suc n)
  show ?case
  proof (cases "sint (tr_idx (rates ! i)) < 0")
    case True
    then show ?thesis using Suc.prems by (auto simp: rate_at_def split: if_splits)
  next
    case False
    then obtain e where rest: "(case tx_tries env e (airtime (sint (tr_idx (rates ! i)))) (unat (tr_count (rates ! i))) 0 t of
         (Some j, t) \<Rightarrow> Inr (Suc i, Some j, t)
       | (None, t) \<Rightarrow> tx_loop env prob airtime rates n (Suc i) t) = Inr (i', r, t')"
      using Suc.prems(1) by (auto simp: rate_at_def result_simps split: if_splits)
    obtain r1 t1 where t1: "tx_tries env e (airtime (sint (tr_idx (rates ! i)))) (unat (tr_count (rates ! i))) 0 t
        = (r1, t1)" by force
    have "tx_choice t1 < 1" using tx_tries_choice [OF Suc.prems(2)] t1 by (metis snd_conv)
    then show ?thesis using rest t1 Suc.IH by (cases r1) auto
  qed
qed

text \<open>Library: the channel decides. If every try is certain to fail, a unicast frame is never
  acknowledged and uses all the tries its rates allow; if the first rate is usable and the
  random number exceeds its error probability, the frame is acknowledged at the first try,
  after exactly one inter-frame space, air time and (for unicast) acknowledgement.\<close>

theorem queue_send_extremes:
  assumes "queue_send erfc station queue noack deststa snr fr s = Inr (fr', acked, time, s')"
  shows "((\<forall>idx. get_error_prob erfc s (of_int snr) idx (fr_freq fr) (int (length (fr_data fr)))
        station deststa = Inr 1) \<longrightarrow> \<not> noack \<longrightarrow>
      \<not> acked \<and> fr' = fr \<and> time = tries_time (send_env queue noack fr s) (send_airtime fr)
        (fr_tx_rates fr) (wq_cw_min queue)
        (all_tries (fr_tx_rates fr) (nat (fr_tx_rates_count fr)) 0)) \<and>
    (\<forall>e r. fr_tx_rates_count fr > 0 \<longrightarrow> rate_at (fr_tx_rates fr) 0 = Inr r \<longrightarrow>
      0 \<le> sint (tr_idx r) \<longrightarrow> 0 < tr_count r \<longrightarrow>
      get_error_prob erfc s (of_int snr) (word_of_int (sint (tr_idx r))) (fr_freq fr)
        (int (length (fr_data fr))) station deststa = Inr e \<longrightarrow>
      e < fst (drand48 (rng s)) \<longrightarrow>
      acked \<and> time = difs + send_airtime fr (sint (tr_idx r)) +
        (if noack then 0 else env_ack_time (send_env queue noack fr s)))"
proof -
  let ?env = "send_env queue noack fr s"
  let ?prob = "\<lambda>idx. get_error_prob erfc s (of_int snr) idx (fr_freq fr) (int (length (fr_data fr))) station deststa"
  let ?t = "\<lparr>tx_time = 0, tx_cw = wq_cw_min queue, tx_choice = fst (drand48 (rng s)),
          tx_rng = snd (drand48 (rng s))\<rparr>"
  let ?n = "nat (fr_tx_rates_count fr)"
  obtain i r t where loop: "tx_loop ?env ?prob (send_airtime fr) (fr_tx_rates fr) ?n 0 ?t = Inr (i, r, t)"
    and fin: "(case r of
          None \<Rightarrow> Inr (fr, False, tx_time t, s\<lparr>rng := tx_rng t\<rparr>)
        | Some j \<Rightarrow>
           rbind (report_rates i j (fr_tx_rates_count fr) (fr_tx_rates fr)) (\<lambda>rates.
           Inr (fr\<lparr>fr_tx_rates := rates, fr_flags := fr_flags fr OR HWSIM_TX_STAT_ACK\<rparr>,
                True, tx_time t, s\<lparr>rng := tx_rng t\<rparr>))) = Inr (fr', acked, time, s')"
    using assms by (auto simp: queue_send_shape result_simps)
  have na: "env_noack ?env = noack" by (simp add: send_env_def)
  have lost: "\<not> acked \<and> fr' = fr \<and> time = tries_time ?env (send_airtime fr) (fr_tx_rates fr)
      (wq_cw_min queue) (all_tries (fr_tx_rates fr) ?n 0)" if p: "\<forall>idx. ?prob idx = Inr 1" and "\<not> noack"
  proof -
    have "tx_choice t < 1" using tx_loop_choice [OF loop] drand48_range [of "rng s"] by simp
    then have "r = None"
      using tx_loop_account [OF loop] na p \<open>\<not> noack\<close> by (cases r) auto
    then show ?thesis
      using fin tx_loop_account [OF loop] by auto
  qed
  have first: "acked \<and> time = difs + send_airtime fr (sint (tr_idx q)) +
      (if noack then 0 else env_ack_time ?env)"
    if pos: "fr_tx_rates_count fr > 0" and "rate_at (fr_tx_rates fr) 0 = Inr q" "0 \<le> sint (tr_idx q)"
      "0 < tr_count q" "?prob (word_of_int (sint (tr_idx q))) = Inr e" "e < fst (drand48 (rng s))" for e q
  proof -
    obtain m where m: "?n = Suc m" using pos by (cases ?n) auto
    have "0 < unat (tr_count q)" using that(4) by (simp add: word_less_nat_alt)
    then obtain k where k: "unat (tr_count q) = Suc k" by (cases "unat (tr_count q)") auto
    have "tx_tries ?env e (send_airtime fr (sint (tr_idx q))) (unat (tr_count q)) 0 ?t =
        (Some 0, ?t\<lparr>tx_time := difs + send_airtime fr (sint (tr_idx q)) +
           (if noack then 0 else env_ack_time ?env)\<rparr>)"
      using that(6) unfolding k by (simp add: Let_def na tx_backoff_def)
    then have "r = Some 0 \<and> t = ?t\<lparr>tx_time := difs + send_airtime fr (sint (tr_idx q)) +
           (if noack then 0 else env_ack_time ?env)\<rparr>"
      using loop that(2,3,5) unfolding m by auto
    then show ?thesis using fin by (auto simp: result_simps)
  qed
  show ?thesis using lost first by blast
qed

section \<open>The state of the medium\<close>

text \<open>All fields that \<open>wmediumd\<close> adds to the scheduler.\<close>

definition medium_part :: "'z wmediumd_scheme \<Rightarrow> unit wmediumd_ext" where
  "medium_part s = scheduler.more (wmediumd.truncate s)"

lemma medium_part_eq_iff:
  "medium_part t = medium_part s \<longleftrightarrow>
     sta_mem t = sta_mem s \<and> stations t = stations s \<and> sta_array t = sta_array s \<and>
     num_stas t = num_stas s \<and> cl_mem t = cl_mem s \<and> clients t = clients s \<and>
     clients_to_free t = clients_to_free s \<and> nl_client t = nl_client s \<and>
     frame_mem t = frame_mem s \<and> next_ptr t = next_ptr s \<and> snr_matrix t = snr_matrix s \<and>
     error_prob_matrix t = error_prob_matrix s \<and> intf t = intf s \<and> per_table t = per_table s \<and>
     fading_coefficient t = fading_coefficient s \<and> get_link_snr_fn t = get_link_snr_fn s \<and>
     get_error_prob_fn t = get_error_prob_fn s \<and> get_fading_signal_fn t = get_fading_signal_fn s \<and>
     calc_path_loss_fn t = calc_path_loss_fn s \<and> rng t = rng s \<and>
     need_start_notify t = need_start_notify s \<and> pcap_file t = pcap_file s \<and>
     config_path t = config_path s"
  by (cases s; cases t) (auto simp: medium_part_def wmediumd.truncate_def)

text \<open>The callbacks of the scheduler leave the medium alone.\<close>

definition keeps_medium :: "'z wmediumd_scheme sched_ops \<Rightarrow> bool" where
  "keeps_medium ops \<longleftrightarrow> keeps_queue ops \<and> keeps_now ops \<and>
     (\<forall>f t s s'. external_request ops = Some f \<longrightarrow> f t s = Inr s' \<longrightarrow> medium_part s' = medium_part s) \<and>
     (\<forall>f s s'. next_time_changed ops = Some f \<longrightarrow> f s = Inr s' \<longrightarrow> medium_part s' = medium_part s)"

lemma medium_part_simps [simp]:
  "medium_part (s\<lparr>job_of := a\<rparr>) = medium_part s"
  "medium_part (s\<lparr>joblist := b\<rparr>) = medium_part s"
  "medium_part (s\<lparr>pending_jobs := b\<rparr>) = medium_part s"
  "medium_part (s\<lparr>current_time := c\<rparr>) = medium_part s"
  "medium_part (s\<lparr>prev_external_sync := c\<rparr>) = medium_part s"
  "medium_part (s\<lparr>prev_external_sync_set := d\<rparr>) = medium_part s"
  by (simp_all add: medium_part_eq_iff)

text \<open>Adding a job when no group is blocked, which is always so in wmediumd.\<close>

lemma add_wm_job:
  assumes k: "keeps_medium ops" and "usfstl_sched_add_job ops j s = Inr s'" and "blocked_groups s = 0"
  shows "time_ge (start_of s j) (current_time s) \<and> \<not> usfstl_job_scheduled j s \<and>
    medium_part s' = medium_part s \<and> current_time s' = current_time s \<and> job_of s' = job_of s \<and>
    joblist s' = insert_first (runs_after s j) j (joblist s) \<and> pending_jobs s' = pending_jobs s \<and>
    blocked_groups s' = 0 \<and> allowed_job s' = allowed_job s"
proof -
  have q: "keeps_queue ops" "keeps_now ops" using k by (simp_all add: keeps_medium_def)
  note r = add_job_Inr [OF q(1) assms(2)]
  have run: "runnable s j" using assms(3) by (simp add: runnable_def group_blocked_def)
  have "medium_part s' = medium_part s"
  proof -
    let ?s = "s\<lparr>joblist := insert_first (runs_after s j) j (joblist s)\<rparr>"
    obtain b t where t: "usfstl_sched_external_request ops (start_of s j) ?s = Inr (b, t)"
      "call_opt (next_time_changed ops) t = Inr s'"
      using assms(2,3) by (auto simp: usfstl_sched_add_job_def group_blocked_def result_simps)
    have "medium_part t = medium_part ?s"
      using t(1) k by (fastforce simp: usfstl_sched_external_request_def keeps_medium_def result_simps
          split: option.splits if_splits)
    moreover have "medium_part s' = medium_part t"
      using t(2) k by (auto simp: call_opt_def keeps_medium_def split: option.splits)
    ultimately show ?thesis by simp
  qed
  then show ?thesis
    using r run add_job_keeps_now [OF q(2) assms(2)] assms(3)
    by (auto simp: insert_job_def same_queue_def)
qed

lemma ahead_zero [simp]: "ahead 0 t = unat t"
  by (simp add: ahead_def)

lemma in_window_zero: "in_window 0 t \<longleftrightarrow> unat t < 2 ^ 63"
  by (simp add: in_window_def)

text \<open>All queued frames.\<close>

definition station_frames :: "station \<Rightarrow> nat list" where
  "station_frames st = concat (map wq_frames (st_queues st))"

definition queued :: "'z wmediumd_scheme \<Rightarrow> nat set" where
  "queued s = {f. \<exists>p \<in> set (stations s). \<exists>st. sta_mem s p = Some st \<and> f \<in> set (station_frames st)}"

definition queue_ok :: "'z wmediumd_scheme \<Rightarrow> wqueue \<Rightarrow> bool" where
  "queue_ok s q \<longleftrightarrow> 0 \<le> wq_cw_min q \<and> wq_cw_min q \<le> wq_cw_max q \<and> wq_cw_max q \<le> 1023 \<and>
     sorted (map (\<lambda>f. unat (start_of s (Frame_job f))) (wq_frames q))"

definition stations_ok :: "'z wmediumd_scheme \<Rightarrow> bool" where
  "stations_ok s \<longleftrightarrow> distinct (stations s) \<and>
     (\<forall>p \<in> set (stations s). \<exists>st. sta_mem s p = Some st \<and> length (st_queues st) = 4 \<and>
        distinct (station_frames st) \<and> (\<forall>q \<in> set (st_queues st). queue_ok s q)) \<and>
     (\<forall>p \<in> set (stations s). \<forall>p' \<in> set (stations s). p \<noteq> p' \<longrightarrow>
        set (station_frames (the (sta_mem s p))) \<inter> set (station_frames (the (sta_mem s p'))) = {})"

lemma stations_okD:
  assumes "stations_ok s" and "p \<in> set (stations s)"
  obtains st where "sta_mem s p = Some st" and "length (st_queues st) = 4"
    and "distinct (station_frames st)" and "\<forall>q \<in> set (st_queues st). queue_ok s q"
proof -
  have "\<exists>st. sta_mem s p = Some st \<and> length (st_queues st) = 4 \<and>
      distinct (station_frames st) \<and> (\<forall>q \<in> set (st_queues st). queue_ok s q)"
    using assms by (simp add: stations_ok_def)
  then show thesis using that by blast
qed

lemma stations_ok_disjoint:
  "stations_ok s \<Longrightarrow> p \<in> set (stations s) \<Longrightarrow> p' \<in> set (stations s) \<Longrightarrow> p \<noteq> p' \<Longrightarrow>
   set (station_frames (the (sta_mem s p))) \<inter> set (station_frames (the (sta_mem s p'))) = {}"
  by (simp add: stations_ok_def)

lemma stations_okI:
  assumes "distinct (stations s)"
    and "\<And>p. p \<in> set (stations s) \<Longrightarrow> \<exists>st. sta_mem s p = Some st \<and> length (st_queues st) = 4 \<and>
        distinct (station_frames st) \<and> (\<forall>q \<in> set (st_queues st). queue_ok s q)"
    and "\<And>p p'. p \<in> set (stations s) \<Longrightarrow> p' \<in> set (stations s) \<Longrightarrow> p \<noteq> p' \<Longrightarrow>
        set (station_frames (the (sta_mem s p))) \<inter> set (station_frames (the (sta_mem s p'))) = {}"
  shows "stations_ok s"
  unfolding stations_ok_def using assms by (intro conjI ballI impI)

text \<open>The invariant between the handlers of wmediumd: the scheduler is well-formed, no job lies
  in the past, and the frames in the queues are allocated and are exactly those whose
  delivery is scheduled, in the order of the queue.\<close>

definition medium_inv :: "'z wmediumd_scheme \<Rightarrow> bool" where
  "medium_inv s \<longleftrightarrow> sched_inv 0 s \<and> not_past 0 s \<and> blocked_groups s = 0 \<and> pending_jobs s = [] \<and>
     stations_ok s \<and>
     (\<forall>f. f \<in> queued s \<longleftrightarrow> Frame_job f \<in> set (joblist s)) \<and>
     (\<forall>f. Start_job f \<in> set (joblist s) \<longrightarrow> f \<in> queued s) \<and>
     (\<forall>f \<in> queued s. frame_mem s f \<noteq> None)"

section \<open>The delivery time\<close>

lemma queue_target_fold:
  assumes "rfold (\<lambda>(i, p) target.
         rbind (sta s p) (\<lambda>st.
         rbind (nth_result (st_queues st) i) (\<lambda>q.
         Inr (case last_opt (wq_frames q) of
                None \<Rightarrow> target
              | Some tailf \<Rightarrow> if target < start_of s (Frame_job tailf)
                             then start_of s (Frame_job tailf) else target)))) ps t0 = Inr t"
  shows "t0 \<le> t \<and>
    (\<forall>(i, p) \<in> set ps. \<exists>st. sta_mem s p = Some st \<and> i < length (st_queues st) \<and>
       (\<forall>f. last_opt (wq_frames (st_queues st ! i)) = Some f \<longrightarrow> start_of s (Frame_job f) \<le> t)) \<and>
    (t = t0 \<or> (\<exists>(i, p) \<in> set ps. \<exists>st f. sta_mem s p = Some st \<and> i < length (st_queues st) \<and>
       last_opt (wq_frames (st_queues st ! i)) = Some f \<and> t = start_of s (Frame_job f)))"
  using assms
proof (induction ps arbitrary: t0)
  case Nil
  then show ?case by simp
next
  case (Cons x ps)
  obtain i p where x: "x = (i, p)" by (cases x)
  obtain st where st: "sta_mem s p = Some st" "i < length (st_queues st)"
    and rest: "rfold (\<lambda>(i, p) target.
         rbind (sta s p) (\<lambda>st.
         rbind (nth_result (st_queues st) i) (\<lambda>q.
         Inr (case last_opt (wq_frames q) of
                None \<Rightarrow> target
              | Some tailf \<Rightarrow> if target < start_of s (Frame_job tailf)
                             then start_of s (Frame_job tailf) else target)))) ps
      (case last_opt (wq_frames (st_queues st ! i)) of
                None \<Rightarrow> t0
              | Some tailf \<Rightarrow> if t0 < start_of s (Frame_job tailf)
                             then start_of s (Frame_job tailf) else t0) = Inr t"
    using Cons.prems x by (auto simp: result_simps sta_def nth_result_def split: if_splits)
  define t1 where "t1 = (case last_opt (wq_frames (st_queues st ! i)) of
                None \<Rightarrow> t0
              | Some tailf \<Rightarrow> if t0 < start_of s (Frame_job tailf)
                             then start_of s (Frame_job tailf) else t0)"
  note ih = Cons.IH [OF rest, folded t1_def]
  have t1: "t0 \<le> t1" "\<forall>f. last_opt (wq_frames (st_queues st ! i)) = Some f \<longrightarrow> start_of s (Frame_job f) \<le> t1"
    "t1 = t0 \<or> (\<exists>f. last_opt (wq_frames (st_queues st ! i)) = Some f \<and> t1 = start_of s (Frame_job f))"
    by (auto simp: t1_def split: option.split)
  then have "t0 \<le> t"
    "\<forall>f. last_opt (wq_frames (st_queues st ! i)) = Some f \<longrightarrow> start_of s (Frame_job f) \<le> t"
    using ih by (meson order_trans)+
  then show ?case using ih x st t1(3) by auto
qed

lemma last_sorted:
  "sorted (map g xs) \<Longrightarrow> x \<in> set xs \<Longrightarrow> g x \<le> (g (last xs) :: nat)"
proof (induction xs rule: rev_induct)
  case (snoc y ys)
  then show ?case by (auto simp: sorted_append)
qed simp

lemma queue_target_bounds:
  assumes "queue_target ac s = Inr t" and ok: "stations_ok s"
  shows "current_time s \<le> t"
    and "\<forall>p \<in> set (stations s). \<forall>st i f. sta_mem s p = Some st \<longrightarrow> i \<le> ac \<longrightarrow> i < length (st_queues st) \<longrightarrow>
      f \<in> set (wq_frames (st_queues st ! i)) \<longrightarrow> unat (start_of s (Frame_job f)) \<le> unat t"
    and "t = current_time s \<or> (\<exists>p \<in> set (stations s). \<exists>st i f. sta_mem s p = Some st \<and> i \<le> ac \<and> i < length (st_queues st) \<and>
      f \<in> set (wq_frames (st_queues st ! i)) \<and> f \<in> queued s \<and> t = start_of s (Frame_job f))"
proof -
  note r = queue_target_fold [OF assms(1) [unfolded queue_target_def]]
  show "current_time s \<le> t" using r by blast
  have pairs: "set (List.product [0..<Suc ac] (stations s)) = {0..<Suc ac} \<times> set (stations s)" by (simp del: upt_Suc)
  show "\<forall>p \<in> set (stations s). \<forall>st i f. sta_mem s p = Some st \<longrightarrow> i \<le> ac \<longrightarrow> i < length (st_queues st) \<longrightarrow>
      f \<in> set (wq_frames (st_queues st ! i)) \<longrightarrow> unat (start_of s (Frame_job f)) \<le> unat t"
  proof (intro ballI allI impI)
    fix p st i f
    assume a: "p \<in> set (stations s)" "sta_mem s p = Some st" "i \<le> ac" "i < length (st_queues st)"
      "f \<in> set (wq_frames (st_queues st ! i))"
    let ?q = "st_queues st ! i"
    have ne: "last_opt (wq_frames ?q) = Some (last (wq_frames ?q))" using a(5) by (auto simp: last_opt_def)
    have "?q \<in> set (st_queues st)" using a(4) by simp
    then have so: "sorted (map (\<lambda>f. unat (start_of s (Frame_job f))) (wq_frames ?q))"
      using ok a(1,2) by (fastforce simp: stations_ok_def queue_ok_def)
    have "(i, p) \<in> set (List.product [0..<Suc ac] (stations s))" using a pairs by simp
    then have "start_of s (Frame_job (last (wq_frames ?q))) \<le> t" using r ne a(2) by fastforce
    then show "unat (start_of s (Frame_job f)) \<le> unat t"
      using last_sorted [OF so a(5)] by (simp add: word_le_nat_alt)
  qed
  show "t = current_time s \<or> (\<exists>p \<in> set (stations s). \<exists>st i f. sta_mem s p = Some st \<and> i \<le> ac \<and> i < length (st_queues st) \<and>
      f \<in> set (wq_frames (st_queues st ! i)) \<and> f \<in> queued s \<and> t = start_of s (Frame_job f))"
  proof (cases "t = current_time s")
    case False
    then obtain i p st f where f: "(i, p) \<in> {0..<Suc ac} \<times> set (stations s)" "sta_mem s p = Some st" "i < length (st_queues st)"
      "last_opt (wq_frames (st_queues st ! i)) = Some f" "t = start_of s (Frame_job f)"
      using r unfolding pairs by blast
    have g: "f \<in> set (wq_frames (st_queues st ! i))" using f(4) by (auto simp: last_opt_def split: if_splits)
    then have "f \<in> set (station_frames st)" using f(3) by (auto simp: station_frames_def)
    then have "f \<in> queued s" using f(1,2) by (auto simp: queued_def)
    then show ?thesis using f g by (intro disjI2 bexI [of _ p] exI [of _ st] exI [of _ i] exI [of _ f]) auto
  qed simp
qed

section \<open>Scheduling keeps the invariant\<close>

lemma set_start_inv:
  assumes "sched_inv c s" and "\<not> usfstl_job_scheduled j s"
  shows "sched_inv c (set_job_start j t s)"
proof -
  have same: "job_of (set_job_start j t s) x = job_of s x" if "usfstl_job_scheduled x s" for x
    using that assms(2) by (auto simp: set_job_start_def)
  have "sorted_wrt (\<lambda>a b. key_le c (job_of (set_job_start j t s) a)
      (job_of (set_job_start j t s) b)) (joblist s)"
    using assms same
    by (subst sorted_wrt_cong_set [where Q = "\<lambda>a b. key_le c (job_of s a) (job_of s b)"])
      (auto simp: sched_inv_def jobs_ok_def usfstl_job_scheduled_def)
  then show ?thesis
    using assms same
    by (auto simp: sched_inv_def jobs_ok_def usfstl_job_scheduled_def set_job_start_def runnable_def)
qed

lemma schedule_job:
  assumes k: "keeps_medium ops" and add: "usfstl_sched_add_job ops j (set_job_start j t s) = Inr s'"
    and inv: "sched_inv 0 s" "not_past 0 s" "blocked_groups s = 0" and w: "unat t < 2 ^ 63"
  shows "sched_inv 0 s'" and "not_past 0 s'" and "medium_part s' = medium_part s"
    and "current_time s' = current_time s" and "set (joblist s') = insert j (set (joblist s))"
    and "pending_jobs s' = pending_jobs s" and "blocked_groups s' = 0"
    and "\<not> usfstl_job_scheduled j s"
    and "start_of s' j = t" and "\<forall>x. x \<noteq> j \<longrightarrow> job_of s' x = job_of s x"
proof -
  let ?s = "set_job_start j t s"
  have b: "blocked_groups ?s = 0" using inv(3) by (simp add: set_job_start_def)
  note r = add_wm_job [OF k add b]
  have new: "\<not> usfstl_job_scheduled j s"
    using r by (simp add: usfstl_job_scheduled_def set_job_start_def)
  have inv1: "sched_inv 0 ?s" using inv(1) new by (rule set_start_inv)
  have st: "start_of ?s j = t" by (simp add: set_job_start_def)
  show "sched_inv 0 s'"
    using k add_job_inv [OF _ add inv1] w st by (simp add: keeps_medium_def in_window_zero)
  show "medium_part s' = medium_part s" "current_time s' = current_time s"
    "set (joblist s') = insert j (set (joblist s))" "pending_jobs s' = pending_jobs s"
    "blocked_groups s' = 0" "\<not> usfstl_job_scheduled j s"
    using r new by (simp_all add: set_job_start_def)
  show sj: "start_of s' j = t" using r st by simp
  show oth: "\<forall>x. x \<noteq> j \<longrightarrow> job_of s' x = job_of s x" using r by (simp add: set_job_start_def)
  have "time_ge t (current_time s)" using r st by (simp add: set_job_start_def)
  then have "unat (current_time s) \<le> unat t"
    using inv(2) w by (simp add: not_past_def time_ge_window [of 0] in_window_zero)
  moreover have "j \<notin> set (joblist s)" using new by (simp add: usfstl_job_scheduled_def)
  ultimately show "not_past 0 s'"
    using inv(2) r oth sj by (auto simp: not_past_def set_job_start_def)
qed

lemma station_frames_update:
  fixes f :: nat
  assumes "ac < length (st_queues st)"
  defines "st' \<equiv> st\<lparr>st_queues := (st_queues st)[ac := (st_queues st ! ac)\<lparr>wq_frames :=
      wq_frames (st_queues st ! ac) @ [f]\<rparr>]\<rparr>"
  shows "set (station_frames st') = insert f (set (station_frames st))"
    and "f \<notin> set (station_frames st) \<Longrightarrow> distinct (station_frames st) \<Longrightarrow> distinct (station_frames st')"
proof -
  let ?q = "st_queues st ! ac"
  have split: "st_queues st = take ac (st_queues st) @ ?q # drop (Suc ac) (st_queues st)"
    using assms(1) by (rule id_take_nth_drop)
  have split': "st_queues st' = take ac (st_queues st) @ ?q\<lparr>wq_frames := wq_frames ?q @ [f]\<rparr> #
      drop (Suc ac) (st_queues st)"
    using assms(1) by (simp add: st'_def upd_conv_take_nth_drop)
  let ?a = "concat (map wq_frames (take ac (st_queues st)))"
  let ?b = "concat (map wq_frames (drop (Suc ac) (st_queues st)))"
  have old: "station_frames st = ?a @ wq_frames ?q @ ?b"
    unfolding station_frames_def by (subst split) simp
  have new: "station_frames st' = ?a @ wq_frames ?q @ f # ?b"
    unfolding station_frames_def split' by simp
  show "set (station_frames st') = insert f (set (station_frames st))" unfolding old new by auto
  show "distinct (station_frames st')" if "f \<notin> set (station_frames st)" "distinct (station_frames st)"
    using that unfolding old new by auto
qed

lemma append_frame_ok:
  assumes app: "append_frame p ac f s = Inr s'" and ok: "stations_ok s" and p: "p \<in> set (stations s)"
    and new: "f \<notin> queued s"
    and last: "\<And>st g. sta_mem s p = Some st \<Longrightarrow> ac < length (st_queues st) \<Longrightarrow>
      g \<in> set (wq_frames (st_queues st ! ac)) \<Longrightarrow>
      unat (start_of s (Frame_job g)) \<le> unat (start_of s (Frame_job f))"
  shows "stations_ok s' \<and> queued s' = insert f (queued s) \<and> s' = s\<lparr>sta_mem := sta_mem s'\<rparr> \<and>
    (\<exists>st. sta_mem s p = Some st \<and> ac < length (st_queues st) \<and>
      sta_mem s' = (sta_mem s)(p \<mapsto> st\<lparr>st_queues := (st_queues st)[ac := (st_queues st ! ac)
        \<lparr>wq_frames := wq_frames (st_queues st ! ac) @ [f]\<rparr>]\<rparr>))"
proof -
  obtain st where st: "sta_mem s p = Some st" and ac: "ac < length (st_queues st)"
    using app by (auto simp: append_frame_def sta_def nth_result_def result_simps split: if_splits)
  let ?q = "st_queues st ! ac"
  let ?q' = "?q\<lparr>wq_frames := wq_frames ?q @ [f]\<rparr>"
  define st' where "st' = st\<lparr>st_queues := (st_queues st)[ac := ?q']\<rparr>"
  have s': "s' = s\<lparr>sta_mem := (sta_mem s)(p \<mapsto> st')\<rparr>"
    using app st ac by (simp add: append_frame_def sta_def nth_result_def set_sta_def st'_def)
  have okp: "length (st_queues st) = 4" "distinct (station_frames st)"
    "\<forall>q \<in> set (st_queues st). queue_ok s q"
    using ok p st by (auto simp: stations_ok_def)
  have nf: "f \<notin> set (station_frames st)" using new p st by (auto simp: queued_def)
  note sf = station_frames_update [OF ac, of f, folded st'_def]
  have other: "f \<notin> set (station_frames (the (sta_mem s p')))" if "p' \<in> set (stations s)" for p'
  proof -
    obtain st2 where "sta_mem s p' = Some st2" using ok \<open>p' \<in> set (stations s)\<close> by (auto simp: stations_ok_def)
    then show ?thesis using new \<open>p' \<in> set (stations s)\<close> by (auto simp: queued_def)
  qed
  have qok: "queue_ok s' q" if "queue_ok s q" for q
    using that by (simp add: queue_ok_def s')
  have q': "queue_ok s' ?q'"
    using okp(3) ac last [OF st ac] nth_mem [OF ac]
    by (auto simp: queue_ok_def s' sorted_append)
  have "queue_ok s' q" if "q \<in> set (st_queues st')" for q
    using that q' qok okp(3) set_update_subset_insert [of "st_queues st" ac ?q']
    by (auto simp: st'_def)
  moreover have "length (st_queues st') = 4" using okp(1) by (simp add: st'_def)
  moreover have "\<forall>p' \<in> set (stations s). p' \<noteq> p \<longrightarrow>
      set (station_frames st) \<inter> set (station_frames (the (sta_mem s p'))) = {}"
    using ok p st unfolding stations_ok_def by (metis option.sel)
  ultimately have "stations_ok s'"
    using ok sf nf okp(2) other qok p unfolding s' stations_ok_def
    by (auto simp: fun_upd_apply)
  moreover have "queued s' = insert f (queued s)"
  proof -
    have "x \<in> queued s' \<longleftrightarrow> (\<exists>pa \<in> set (stations s). if pa = p then x = f \<or> x \<in> set (station_frames st)
        else \<exists>st2. sta_mem s pa = Some st2 \<and> x \<in> set (station_frames st2))" for x
      unfolding queued_def s' mem_Collect_eq using sf(1) by simp
    moreover have "x \<in> queued s \<longleftrightarrow> (\<exists>pa \<in> set (stations s). if pa = p then x \<in> set (station_frames st)
        else \<exists>st2. sta_mem s pa = Some st2 \<and> x \<in> set (station_frames st2))" for x
      unfolding queued_def mem_Collect_eq using st by (intro bex_cong refl) auto
    ultimately show ?thesis using p by (intro set_eqI) (simp only: insert_iff, metis)
  qed
  ultimately show ?thesis using s' st ac by (auto simp: st'_def)
qed

lemma queue_snr_rng:
  assumes "queue_snr station dest multicast s = Inr (d, snr, s1)"
  shows "\<exists>x. s1 = s\<lparr>rng := x\<rparr>"
proof -
  have off: "\<exists>x. u = t\<lparr>rng := x\<rparr>" if "get_signal_offset_by_interference a b t = Inr (i, u)" for a b t i u
  proof (cases "intf t")
    case None
    then have "u = t\<lparr>rng := rng t\<rparr>" using that by (simp add: get_signal_offset_by_interference_def)
    then show ?thesis by blast
  next
    case (Some table)
    then show ?thesis
      using that by (auto simp: get_signal_offset_by_interference_def result_simps Let_def)
  qed
  have fad: "\<exists>x. snd (get_fading_signal t) = t\<lparr>rng := x\<rparr>" for t :: "'a wmediumd_scheme"
  proof (cases "get_fading_signal_fn t")
    case No_fading
    then have "snd (get_fading_signal t) = t\<lparr>rng := rng t\<rparr>" by (simp add: get_fading_signal_def)
    then show ?thesis by blast
  qed (auto simp: get_fading_signal_def case_prod_beta)
  have same: "\<exists>x. s = s\<lparr>rng := x\<rparr>" by (rule exI [of _ "rng s"]) simp
  show ?thesis
  proof (cases multicast)
    case True
    then show ?thesis using assms same by (simp add: queue_snr_def)
  next
    case False
    then obtain o1 where o1: "get_station_by_used_addr s dest = Inr o1"
      using assms by (auto simp: queue_snr_def result_simps)
    show ?thesis
    proof (cases o1)
      case None
      then show ?thesis using assms same o1 False by (simp add: queue_snr_def)
    next
      case (Some d')
      then obtain a b i t where t: "get_signal_offset_by_interference a b s = Inr (i, t)"
        "s1 = snd (get_fading_signal t)"
        using assms o1 False by (auto simp: queue_snr_def result_simps case_prod_beta)
      obtain x where "t = s\<lparr>rng := x\<rparr>" using off [OF t(1)] by blast
      moreover obtain y where "snd (get_fading_signal t) = t\<lparr>rng := y\<rparr>" using fad [of t] by blast
      ultimately show ?thesis using t(2) by auto
    qed
  qed
qed

lemma queue_send_rng:
  "queue_send erfc station queue noack deststa snr fr s = Inr (fr', acked, time, s') \<Longrightarrow>
   \<exists>x. s' = s\<lparr>rng := x\<rparr>"
  by (auto simp: queue_send_shape result_simps split: option.splits)

section \<open>Queueing keeps the invariant\<close>

lemma fill_tx_rates_same:
  "fill_tx_rates fr = Inr fr' \<Longrightarrow> fr' = fr\<lparr>fr_tx_rates := fr_tx_rates fr'\<rparr>"
  by (auto simp: fill_tx_rates_def result_simps Let_def split: if_splits)

lemma queue_fill_same:
  assumes "queue_fill fr = Inr fr'"
  shows "fr' = fr\<lparr>fr_tx_rates := fr_tx_rates fr'\<rparr>"
proof -
  have "fill_tx_rates fr = Inr fr' \<or> fr' = fr"
    using assms unfolding queue_fill_def rbind_eq_Inr by (auto split: if_splits)
  then show ?thesis
  proof
    assume "fill_tx_rates fr = Inr fr'"
    then show ?thesis by (rule fill_tx_rates_same)
  qed simp
qed

text \<open>What happens to a frame before it is scheduled.\<close>

lemma queue_frame_parts:
  assumes "queue_frame ops erfc p f s = Inr s'"
  shows "\<exists>fr st ac noack d snr s2 fr2 fr3 acked time s3 target s1.
      frame_mem s f = Some fr \<and> sta_mem s p = Some st \<and> frame_select_queue_80211 fr = Inr ac \<and>
      ac < length (st_queues st) \<and>
      queue_snr p (addr1 fr) noack s = Inr (d, snr, s2) \<and>
      queue_fill (fr\<lparr>fr_signal := snr + NOISE_LEVEL\<rparr>) = Inr fr2 \<and>
      queue_send erfc p (st_queues st ! ac) noack d snr fr2 s2 = Inr (fr3, acked, time, s3) \<and>
      queue_target ac s3 = Inr target \<and>
      queue_schedule ops f (target + word_of_int time) time
         (set_frame f (fr3\<lparr>fr_duration := time, fr_src := st_client st\<rparr>)
           (s3\<lparr>pcap_file := pcap_log fr3 (acked \<and> \<not> noack) time
              (pkt_duration 14 (index_to_rate 0 (fr_freq fr3)) + sifs) target (pcap_file s3)\<rparr>)) = Inr s1 \<and>
      append_frame p ac f s1 = Inr s'"
  using assms unfolding queue_frame_def frame_at_def sta_def rbind_eq_Inr rget_eq_Inr
  by (elim exE conjE) (clarsimp simp: Let_def rbind_eq_Inr nth_result_def split: if_splits, blast)

lemma queue_frame_steps:
  assumes "queue_frame ops erfc p f s = Inr s'"
  shows "\<exists>fr st ac target fr' time x pcap s1. frame_mem s f = Some fr \<and> sta_mem s p = Some st \<and>
    frame_select_queue_80211 fr = Inr ac \<and> ac < length (st_queues st) \<and>
    fr_data fr' = fr_data fr \<and> fr_duration fr' = time \<and> fr_src fr' = st_client st \<and>
    fr_cookie fr' = fr_cookie fr \<and> fr_freq fr' = fr_freq fr \<and> fr_sender fr' = fr_sender fr \<and>
    fr_tx_rates_count fr' = fr_tx_rates_count fr \<and> (fr_flags fr' = fr_flags fr \<or> fr_flags fr' = fr_flags fr OR HWSIM_TX_STAT_ACK) \<and>
    (length (fr_data fr) \<le> 65535 \<longrightarrow> fr_tx_rates_count fr \<le> 4 \<longrightarrow>
       queue_ok s (st_queues st ! ac) \<longrightarrow> 0 \<le> time \<and> time < 2 ^ 31) \<and>
    queue_target ac s = Inr target \<and>
    queue_schedule ops f (target + word_of_int time) time
      (set_frame f fr' (s\<lparr>rng := x, pcap_file := pcap\<rparr>)) = Inr s1 \<and>
    append_frame p ac f s1 = Inr s'"
proof -
  obtain fr st ac noack d snr s2 fr2 fr3 acked time s3 target s1 where
    steps: "frame_mem s f = Some fr" "sta_mem s p = Some st" "frame_select_queue_80211 fr = Inr ac"
      "ac < length (st_queues st)"
      "queue_snr p (addr1 fr) noack s = Inr (d, snr, s2)"
      "queue_fill (fr\<lparr>fr_signal := snr + NOISE_LEVEL\<rparr>) = Inr fr2"
      "queue_send erfc p (st_queues st ! ac) noack d snr fr2 s2 = Inr (fr3, acked, time, s3)"
      "queue_target ac s3 = Inr target"
      "queue_schedule ops f (target + word_of_int time) time
         (set_frame f (fr3\<lparr>fr_duration := time, fr_src := st_client st\<rparr>)
           (s3\<lparr>pcap_file := pcap_log fr3 (acked \<and> \<not> noack) time
              (pkt_duration 14 (index_to_rate 0 (fr_freq fr3)) + sifs) target (pcap_file s3)\<rparr>)) = Inr s1"
      "append_frame p ac f s1 = Inr s'"
    using queue_frame_parts [OF assms] by blast
  obtain x where s2: "s2 = s\<lparr>rng := x\<rparr>" using queue_snr_rng [OF steps(5)] by blast
  obtain y where s3: "s3 = s\<lparr>rng := y\<rparr>" using queue_send_rng [OF steps(7)] s2 by auto
  have fr2: "fr_data fr2 = fr_data fr" "fr_tx_rates_count fr2 = fr_tx_rates_count fr"
    "fr_cookie fr2 = fr_cookie fr" "fr_freq fr2 = fr_freq fr" "fr_sender fr2 = fr_sender fr" "fr_flags fr2 = fr_flags fr"
    by (subst queue_fill_same [OF steps(6)], simp)+
  have fr3: "fr_data fr3 = fr_data fr2" "fr_cookie fr3 = fr_cookie fr2" "fr_freq fr3 = fr_freq fr2"
    "fr_sender fr3 = fr_sender fr2" "fr_tx_rates_count fr3 = fr_tx_rates_count fr2"
    "fr_flags fr3 = fr_flags fr2 \<or> fr_flags fr3 = fr_flags fr2 OR HWSIM_TX_STAT_ACK"
    using steps(7) by (auto simp: queue_send_shape result_simps split: option.splits)
  have time: "0 \<le> time \<and> time < 2 ^ 31"
    if "length (fr_data fr) \<le> 65535" "fr_tx_rates_count fr \<le> 4" "queue_ok s (st_queues st ! ac)"
    using send_time_bounds [OF steps(7)] that fr2 by (simp add: queue_ok_def)
  have target: "queue_target ac s = Inr target"
    using steps(8) s3 by (simp add: queue_target_def sta_def cong: option.case_cong if_cong)
  have sched: "queue_schedule ops f (target + word_of_int time) time
      (set_frame f (fr3\<lparr>fr_duration := time, fr_src := st_client st\<rparr>)
        (s\<lparr>rng := y, pcap_file := pcap_log fr3 (acked \<and> \<not> noack) time
              (pkt_duration 14 (index_to_rate 0 (fr_freq fr3)) + sifs) target (pcap_file s3)\<rparr>)) = Inr s1"
    using steps(9) unfolding s3 by simp
  show ?thesis
    using steps(1-4,10) target sched time fr2 fr3
    by (intro exI [of _ fr] exI [of _ st] exI [of _ ac] exI [of _ target]
        exI [of _ "fr3\<lparr>fr_duration := time, fr_src := st_client st\<rparr>"] exI [of _ time] exI [of _ y]
        exI [of _ "pcap_log fr3 (acked \<and> \<not> noack) time
              (pkt_duration 14 (index_to_rate 0 (fr_freq fr3)) + sifs) target (pcap_file s3)"]
        exI [of _ s1]) auto
qed

lemma stations_ok_cong:
  assumes "stations t = stations s" and "sta_mem t = sta_mem s"
    and "\<And>g. g \<in> queued s \<Longrightarrow> start_of t (Frame_job g) = start_of s (Frame_job g)"
  shows "queued t = queued s" and "stations_ok s \<Longrightarrow> stations_ok t"
proof -
  show "queued t = queued s" using assms(1,2) by (simp add: queued_def)
  have q: "queue_ok t q" if "queue_ok s q" "p \<in> set (stations s)" "sta_mem s p = Some st"
    "q \<in> set (st_queues st)" for p st q
  proof -
    have m: "map (\<lambda>f. unat (start_of t (Frame_job f))) (wq_frames q) =
        map (\<lambda>f. unat (start_of s (Frame_job f))) (wq_frames q)"
    proof (rule map_cong [OF refl])
      show "unat (start_of t (Frame_job g)) = unat (start_of s (Frame_job g))" if "g \<in> set (wq_frames q)" for g
        using that \<open>p \<in> set (stations s)\<close> \<open>sta_mem s p = Some st\<close> \<open>q \<in> set (st_queues st)\<close>
        by (subst assms(3)) (auto simp: queued_def station_frames_def)
    qed
    show ?thesis using that(1) unfolding queue_ok_def m .
  qed
  show "stations_ok t" if "stations_ok s"
    using that q assms(1,2) unfolding stations_ok_def by metis
qed

text \<open>Scheduling the delivery of a frame \<open>target + time\<close> with its start notification.\<close>

lemma queue_schedule_ok:
  assumes k: "keeps_medium ops"
    and run: "queue_schedule ops f (target + word_of_int time) time s = Inr s'"
    and inv: "sched_inv 0 s" "not_past 0 s" "blocked_groups s = 0"
    and w: "unat target < 2 ^ 62" and time: "0 \<le> time" "time < 2 ^ 31"
  shows "sched_inv 0 s' \<and> not_past 0 s' \<and> blocked_groups s' = 0 \<and> pending_jobs s' = pending_jobs s \<and>
    medium_part s' = medium_part s \<and> current_time s' = current_time s \<and>
    set (joblist s') = insert (Frame_job f)
      (set (joblist s) \<union> (if need_start_notify s \<noteq> 0 then {Start_job f} else {})) \<and>
    unat (start_of s' (Frame_job f)) = unat target + nat time \<and>
    (need_start_notify s \<noteq> 0 \<longrightarrow> start_of s' (Start_job f) = target) \<and>
    (\<forall>j. j \<noteq> Frame_job f \<longrightarrow> j \<noteq> Start_job f \<longrightarrow> job_of s' j = job_of s j)"
proof -
  let ?t = "target + word_of_int time"
  have time': "unat (word_of_int time :: u64) = nat time"
    using time by (simp add: unat_eq_nat_uint uint_word_of_int)
  have sum: "unat ?t = unat target + nat time"
    using w time unfolding time' [symmetric] by (subst unat_plus_simple [THEN iffD1]) (simp_all add: time' no_olen_add_nat)
  have t63: "unat ?t < 2 ^ 63" "unat target < 2 ^ 63" using sum w time by simp_all
  obtain s1 where s1: "(if need_start_notify s \<noteq> 0
        then usfstl_sched_add_job ops (Start_job f) (set_job_start (Start_job f) target s)
        else Inr s) = Inr s1"
    and fin: "usfstl_sched_add_job ops (Frame_job f) (set_job_start (Frame_job f) ?t s1) = Inr s'"
    using run unfolding queue_schedule_def rbind_eq_Inr add_diff_cancel_right' by blast
  have a: "sched_inv 0 s1 \<and> not_past 0 s1 \<and> medium_part s1 = medium_part s \<and>
    current_time s1 = current_time s \<and> pending_jobs s1 = pending_jobs s \<and> blocked_groups s1 = 0 \<and>
    set (joblist s1) = set (joblist s) \<union> (if need_start_notify s \<noteq> 0 then {Start_job f} else {}) \<and>
    (need_start_notify s \<noteq> 0 \<longrightarrow> start_of s1 (Start_job f) = target) \<and>
    (\<forall>j. j \<noteq> Start_job f \<longrightarrow> job_of s1 j = job_of s j)"
  proof (cases "need_start_notify s \<noteq> 0")
    case True
    then have "usfstl_sched_add_job ops (Start_job f) (set_job_start (Start_job f) target s) = Inr s1"
      using s1 by simp
    from schedule_job [OF k this inv t63(2)] True show ?thesis by simp
  next
    case False
    then show ?thesis using s1 inv by simp
  qed
  have inv1: "sched_inv 0 s1" "not_past 0 s1" "blocked_groups s1 = 0" using a by simp_all
  note b = schedule_job [OF k fin inv1 t63(1)]
  have "start_of s' (Start_job f) = start_of s1 (Start_job f)" using b(10) by simp
  then show ?thesis using a b sum by auto
qed

text \<open>What queueing a frame does, with its air time \<open>d\<close> and delivery time \<open>t\<close>.\<close>

definition queued_behind :: "nat \<Rightarrow> nat \<Rightarrow> u64 \<Rightarrow> 'z wmediumd_scheme \<Rightarrow> bool" where
  "queued_behind ac d t s \<longleftrightarrow> unat (current_time s) + d \<le> unat t \<and>
     (\<forall>p \<in> set (stations s). \<forall>st i g. sta_mem s p = Some st \<longrightarrow> i \<le> ac \<longrightarrow> i < length (st_queues st) \<longrightarrow>
        g \<in> set (wq_frames (st_queues st ! i)) \<longrightarrow> unat (start_of s (Frame_job g)) + d \<le> unat t) \<and>
     (unat t = unat (current_time s) + d \<or>
      (\<exists>p \<in> set (stations s). \<exists>st i g. sta_mem s p = Some st \<and> i \<le> ac \<and> i < length (st_queues st) \<and>
        g \<in> set (wq_frames (st_queues st ! i)) \<and> unat t = unat (start_of s (Frame_job g)) + d))"

lemma queue_frame_ok:
  assumes k: "keeps_medium ops" and run: "queue_frame ops erfc p f s = Inr s'"
    and inv: "medium_inv s" and p: "p \<in> set (stations s)" and new: "f \<notin> queued s"
    and fr: "frame_mem s f = Some fr"
    and small: "length (fr_data fr) \<le> 65535" "fr_tx_rates_count fr \<le> 4"
    and now: "unat (current_time s) < 2 ^ 62"
      "\<forall>g \<in> queued s. unat (start_of s (Frame_job g)) < 2 ^ 62"
  shows "medium_inv s' \<and> current_time s' = current_time s \<and> queued s' = insert f (queued s) \<and>
    stations s' = stations s \<and> clients s' = clients s \<and> cl_mem s' = cl_mem s \<and> next_ptr s' = next_ptr s \<and>
    (\<exists>ac st fr' d. frame_select_queue_80211 fr = Inr ac \<and> sta_mem s p = Some st \<and>
       ac < length (st_queues st) \<and>
       frame_mem s' = (frame_mem s)(f \<mapsto> fr') \<and> fr_duration fr' = int d \<and> d < 2 ^ 31 \<and>
       fr_src fr' = st_client st \<and> fr_data fr' = fr_data fr \<and>
       fr_cookie fr' = fr_cookie fr \<and> fr_freq fr' = fr_freq fr \<and> fr_sender fr' = fr_sender fr \<and>
       fr_tx_rates_count fr' = fr_tx_rates_count fr \<and> (fr_flags fr' = fr_flags fr \<or> fr_flags fr' = fr_flags fr OR HWSIM_TX_STAT_ACK) \<and>
       sta_mem s' = (sta_mem s)(p \<mapsto> st\<lparr>st_queues := (st_queues st)[ac := (st_queues st ! ac)
         \<lparr>wq_frames := wq_frames (st_queues st ! ac) @ [f]\<rparr>]\<rparr>) \<and>
       queued_behind ac d (start_of s' (Frame_job f)) s \<and>
       (Start_job f \<in> set (joblist s') \<longleftrightarrow> need_start_notify s \<noteq> 0) \<and>
       (need_start_notify s \<noteq> 0 \<longrightarrow>
          unat (start_of s' (Start_job f)) + d = unat (start_of s' (Frame_job f))))"
proof -
  obtain fr0 st ac target fr' time x pcap s1 where q:
    "frame_mem s f = Some fr0" "sta_mem s p = Some st"
    "frame_select_queue_80211 fr0 = Inr ac" "ac < length (st_queues st)"
    "fr_data fr' = fr_data fr0" "fr_duration fr' = time" "fr_src fr' = st_client st"
    "fr_cookie fr' = fr_cookie fr0" "fr_freq fr' = fr_freq fr0" "fr_sender fr' = fr_sender fr0"
    "fr_tx_rates_count fr' = fr_tx_rates_count fr0"
    "fr_flags fr' = fr_flags fr0 \<or> fr_flags fr' = fr_flags fr0 OR HWSIM_TX_STAT_ACK"
    and time0: "length (fr_data fr0) \<le> 65535 \<longrightarrow> fr_tx_rates_count fr0 \<le> 4 \<longrightarrow>
       queue_ok s (st_queues st ! ac) \<longrightarrow> 0 \<le> time \<and> time < 2 ^ 31"
    and tgt: "queue_target ac s = Inr target"
    and sch: "queue_schedule ops f (target + word_of_int time) time
      (set_frame f fr' (s\<lparr>rng := x, pcap_file := pcap\<rparr>)) = Inr s1"
    and app: "append_frame p ac f s1 = Inr s'"
    using queue_frame_steps [OF run] by blast
  have so: "stations_ok s" using inv by (simp add: medium_inv_def)
  have "queue_ok s (st_queues st ! ac)" using so p q(2,4) by (fastforce simp: stations_ok_def)
  then have time: "0 \<le> time" "time < 2 ^ 31" using time0 small fr q(1) by simp_all
  note tb = queue_target_bounds [OF tgt so]
  have w: "unat target < 2 ^ 62" using tb(3) now by auto
  let ?s0 = "set_frame f fr' (s\<lparr>rng := x, pcap_file := pcap\<rparr>)"
  have inv0: "sched_inv 0 ?s0" "not_past 0 ?s0" "blocked_groups ?s0 = 0"
    using inv by (simp_all add: medium_inv_def set_frame_def sched_inv_def jobs_ok_def not_past_def runnable_def group_blocked_def)
  note sc = queue_schedule_ok [OF k sch inv0 w time]
  have mp: "stations s1 = stations s" "sta_mem s1 = sta_mem s" "frame_mem s1 = (frame_mem s)(f \<mapsto> fr')"
    "need_start_notify s1 = need_start_notify s" "clients s1 = clients s" "cl_mem s1 = cl_mem s"
    "next_ptr s1 = next_ptr s"
    using sc by (simp_all add: medium_part_eq_iff set_frame_def)
  have same: "start_of s1 (Frame_job g) = start_of s (Frame_job g)" if "g \<noteq> f" for g
    using sc that by (simp add: set_frame_def)
  have cong: "queued s1 = queued s" "stations_ok s1"
    using stations_ok_cong [OF mp(1,2)] same new so by metis+
  have t: "unat (start_of s1 (Frame_job f)) = unat target + nat time" using sc by simp
  have last: "unat (start_of s1 (Frame_job g)) \<le> unat (start_of s1 (Frame_job f))"
    if "sta_mem s1 p = Some st2" "ac < length (st_queues st2)" "g \<in> set (wq_frames (st_queues st2 ! ac))"
    for st2 g
  proof -
    have "st_queues st2 ! ac \<in> set (st_queues st2)" using that(2) by simp
    then have "g \<in> set (station_frames st2)" using that(3) by (auto simp: station_frames_def)
    then have "g \<in> queued s" using that(1) p mp by (auto simp: queued_def)
    then have "start_of s1 (Frame_job g) = start_of s (Frame_job g)" using new same by metis
    moreover have "unat (start_of s (Frame_job g)) \<le> unat target"
      using tb(2) p that mp(2) by auto
    ultimately show ?thesis using t by simp
  qed
  have p1: "p \<in> set (stations s1)" and new1: "f \<notin> queued s1" using p new mp cong by simp_all
  have "stations_ok s' \<and> queued s' = insert f (queued s1) \<and> s' = s1\<lparr>sta_mem := sta_mem s'\<rparr> \<and>
    (\<exists>st. sta_mem s1 p = Some st \<and> ac < length (st_queues st) \<and>
      sta_mem s' = (sta_mem s1)(p \<mapsto> st\<lparr>st_queues := (st_queues st)[ac := (st_queues st ! ac)
        \<lparr>wq_frames := wq_frames (st_queues st ! ac) @ [f]\<rparr>]\<rparr>))"
    by (rule append_frame_ok [OF app cong(2) p1 new1]) (rule last)
  then have ap: "stations_ok s'" "queued s' = insert f (queued s)" "s' = s1\<lparr>sta_mem := sta_mem s'\<rparr>"
    "sta_mem s' = (sta_mem s)(p \<mapsto> st\<lparr>st_queues := (st_queues st)[ac := (st_queues st ! ac)
        \<lparr>wq_frames := wq_frames (st_queues st ! ac) @ [f]\<rparr>]\<rparr>)"
    unfolding mp cong q(2) by blast+
  have jl: "joblist s' = joblist s1" "pending_jobs s' = pending_jobs s1" "blocked_groups s' = blocked_groups s1"
    "job_of s' = job_of s1" "current_time s' = current_time s1" "frame_mem s' = frame_mem s1"
    "stations s' = stations s1" "clients s' = clients s1" "cl_mem s' = cl_mem s1" "next_ptr s' = next_ptr s1"
    by (subst ap(3), simp)+
  have jobs: "set (joblist s') = insert (Frame_job f)
      (set (joblist s) \<union> (if need_start_notify s \<noteq> 0 then {Start_job f} else {}))"
    using sc jl by (simp add: set_frame_def)
  have i: "sched_inv 0 s' \<and> not_past 0 s'"
  proof -
    have "same_queue s1 s'" by (subst ap(3)) (simp add: same_queue_def)
    moreover have "sched_inv 0 s1" "not_past 0 s1" using sc by blast+
    ultimately show ?thesis using same_queue_inv jl by (simp add: not_past_def)
  qed
  have old: "\<forall>g. g \<in> queued s \<longleftrightarrow> Frame_job g \<in> set (joblist s)"
    "\<forall>g. Start_job g \<in> set (joblist s) \<longrightarrow> g \<in> queued s" "\<forall>g \<in> queued s. frame_mem s g \<noteq> None"
    using inv unfolding medium_inv_def by blast+
  have quiet: "blocked_groups s' = 0" "pending_jobs s' = []"
    using sc jl inv by (simp_all add: medium_inv_def set_frame_def)
  have "\<forall>g. g \<in> queued s' \<longleftrightarrow> Frame_job g \<in> set (joblist s')"
    "\<forall>g. Start_job g \<in> set (joblist s') \<longrightarrow> g \<in> queued s'" "\<forall>g \<in> queued s'. frame_mem s' g \<noteq> None"
    unfolding ap(2) jobs jl(6) mp(3) using old by auto
  then have "medium_inv s'"
    unfolding medium_inv_def using i quiet ap(1) by blast
  moreover have "Start_job f \<in> set (joblist s') \<longleftrightarrow> need_start_notify s \<noteq> 0"
    using jobs old new by auto
  moreover have "queued_behind ac (nat time) (start_of s' (Frame_job f)) s"
    using tb unfolding queued_behind_def jl t by (fastforce simp: word_le_nat_alt)
  moreover have "need_start_notify s \<noteq> 0 \<longrightarrow>
      unat (start_of s' (Start_job f)) + nat time = unat (start_of s' (Frame_job f))"
    using sc t jl by (auto simp: set_frame_def)
  moreover have "current_time s' = current_time s" using sc jl by (simp add: set_frame_def)
  ultimately show ?thesis
    using q ap(2,4) time fr jl mp by (intro conjI exI [of _ ac] exI [of _ st] exI [of _ fr'] exI [of _ "nat time"]) simp_all
qed

section \<open>Examples\<close>

text \<open>Two stations without queued frames, and the allocated frames 7 (a broadcast) and 8 (from
  station 0 to station 1), in a configuration with error probabilities.\<close>

definition example_station :: "nat \<Rightarrow> u8 \<Rightarrow> station" where
  "example_station i x = station_init_queues
     \<lparr>st_index = i, st_addr = [2, 0, 0, 0, x, 0], st_hwaddr = [0x42, 0, 0, 0, x, 0],
      st_x = 0, st_y = 0, st_dir_x = 0, st_dir_y = 0, st_tx_power = 30, st_queues = [],
      st_client = Some 0, st_addrs = []\<rparr>"

definition example_frame :: "mac \<Rightarrow> frame" where
  "example_frame dest = \<lparr>fr_src = None, fr_cookie = 1, fr_freq = 2412, fr_flags = 0,
      fr_signal = 0, fr_duration = 0, fr_tx_rates_count = 2, fr_sender = 0,
      fr_tx_rates = [\<lparr>tr_idx = 3, tr_count = 2\<rparr>, \<lparr>tr_idx = 0, tr_count = 1\<rparr>,
        \<lparr>tr_idx = 0, tr_count = 0\<rparr>, \<lparr>tr_idx = 0, tr_count = 0\<rparr>],
      fr_data = [8, 0, 0, 0] @ dest @ [2, 0, 0, 0, 0, 0] @ replicate 8 0\<rparr>"

definition example_medium :: wmediumd where
  "example_medium =
     \<lparr>job_of = (\<lambda>_. \<lparr>job_start = 0, job_priority = 0, job_group = 0\<rparr>), current_time = 1000,
      prev_external_sync = 0, next_external_sync = 0, joblist = [], pending_jobs = [],
      allowed_job = None, blocked_groups = 0, next_external_sync_set = False,
      prev_external_sync_set = False, sched_waiting = False,
      sta_mem = (\<lambda>p. if p = 0 then Some (example_station 0 0)
                    else if p = 1 then Some (example_station 1 1) else None),
      stations = [0, 1], sta_array = Some [0, 1], num_stas = 2,
      cl_mem = (\<lambda>p. if p = 0 then Some \<lparr>cl_type = CLIENT_NETLINK, cl_wait_for_ack = False, cl_flags = 0\<rparr>
                   else None),
      clients = [0], clients_to_free = [], nl_client = 0,
      frame_mem = (\<lambda>p. if p = 7 then Some (example_frame [255, 255, 255, 255, 255, 255])
                      else if p = 8 then Some (example_frame [2, 0, 0, 0, 1, 0]) else None),
      next_ptr = 9, snr_matrix = Block [0, 20, 20, 0], error_prob_matrix = Block [0, 0, 0, 0],
      intf = None,
      per_table = \<lparr>per_matrix = [], per_matrix_row_num = 0, per_matrix_signal_min = 0\<rparr>,
      fading_coefficient = 0, get_link_snr_fn = Snr_from_matrix,
      get_error_prob_fn = Prob_from_matrix, get_fading_signal_fn = No_fading,
      calc_path_loss_fn = None, rng = 0, need_start_notify = 1, pcap_file = None,
      config_path = None\<rparr>"

lemmas example_defs = example_medium_def example_station_def example_frame_def station_init_queues_def
  wqueue_init_def

lemma example_snr:
  "queue_snr 0 (addr1 (example_frame [2, 0, 0, 0, 1, 0])) False example_medium = Inr (Some (Suc 0), 20, example_medium)"
  by (simp add: queue_snr_def example_defs addr1_def get_station_by_used_addr_def sta_def station_has_addr_def
     get_link_snr_def nth_result_def get_signal_offset_by_interference_def get_fading_signal_def)

lemma example_head:
  "frame_select_queue_80211 (example_frame d) = Inr 2"
  "queue_fill ((example_frame d)\<lparr>fr_signal := z\<rparr>) = Inr ((example_frame d)\<lparr>fr_signal := z\<rparr>)"
  by (simp_all add: queue_fill_def example_frame_def frame_select_queue_80211_def frame_is_data_def
    frame_is_data_qos_def frame_is_probe_req_def)

definition "example_sent = (example_frame [2, 0, 0, 0, 1, 0])\<lparr>fr_signal := - 71, fr_flags := 4,
  fr_tx_rates := [\<lparr>tr_idx = 3, tr_count = 1\<rparr>, \<lparr>tr_idx = - 1, tr_count = - 1\<rparr>,
        \<lparr>tr_idx = 0, tr_count = 0\<rparr>, \<lparr>tr_idx = 0, tr_count = 0\<rparr>]\<rparr>"

lemma example_times:
  "index_to_rate 0 2412 = 10" "index_to_rate 3 2412 = 110"
  "pkt_duration 14 10 = 156" "pkt_duration 24 110 = 40"
  by (simp_all add: index_to_rate_def rateset_def pkt_duration_def div_round_def signed_divide_int_def)

lemma example_send:
  "queue_send (\<lambda>_. 0) 0 (wqueue_init 15 1023) False (Some (Suc 0)) 20
     ((example_frame [2, 0, 0, 0, 1, 0])\<lparr>fr_signal := - 71\<rparr>) example_medium =
   Inr (example_sent, True, 246, example_medium\<lparr>rng := 11\<rparr>)"
proof -
  let ?fr = "(example_frame [2, 0, 0, 0, 1, 0])\<lparr>fr_signal := - 71\<rparr>"
  let ?t = "\<lparr>tx_time = 0, tx_cw = 15, tx_choice = 11 / 2 ^ 48, tx_rng = 11\<rparr>"
  have d: "drand48 (rng example_medium) = (11 / 2 ^ 48, 11)"
    by (simp add: drand48_def example_medium_def)
  have env: "send_env (wqueue_init 15 1023) False ?fr example_medium =
      \<lparr>env_noack = False, env_fixed = True, env_ack_time = 172, env_cw_max = 1023\<rparr>"
    by (simp add: send_env_def example_defs example_times use_fixed_random_value_def)
  have air: "send_airtime ?fr 3 = 40"
    by (simp add: send_airtime_def example_defs example_times)
  have prob: "get_error_prob e example_medium snr i fq len 0 (Some (Suc 0)) = Inr 0" for e snr i fq len
    by (simp add: get_error_prob_def get_error_prob_from_matrix_def example_defs sta_def nth_result_def)
  have loop: "tx_loop \<lparr>env_noack = False, env_fixed = True, env_ack_time = 172, env_cw_max = 1023\<rparr>
      (\<lambda>_. Inr 0) (send_airtime ?fr) (fr_tx_rates ?fr) (Suc n) 0 ?t = Inr (1, Some 0, ?t\<lparr>tx_time := 246\<rparr>)" for n
  proof -
    have "fr_tx_rates ?fr = [\<lparr>tr_idx = 3, tr_count = 2\<rparr>, \<lparr>tr_idx = 0, tr_count = 1\<rparr>,
        \<lparr>tr_idx = 0, tr_count = 0\<rparr>, \<lparr>tr_idx = 0, tr_count = 0\<rparr>]" by (simp add: example_frame_def)
    moreover have "tx_tries \<lparr>env_noack = False, env_fixed = True, env_ack_time = 172, env_cw_max = 1023\<rparr>
        0 40 2 0 ?t = (Some 0, ?t\<lparr>tx_time := 246\<rparr>)"
      unfolding numeral_2_eq_2 by (simp add: tx_backoff_def Let_def)
    ultimately show ?thesis by (simp add: rate_at_def air)
  qed
  have upt: "[Suc 0..<2] = [Suc 0]" by (simp add: numeral_2_eq_2)
  have two: "nat (fr_tx_rates_count ?fr) = Suc 1" by (simp add: example_frame_def)
  show ?thesis
    unfolding queue_send_shape d env two prob
    by (simp only: loop fst_conv snd_conv wqueue_init_def wqueue.simps)
       (simp add: loop upt report_rates_def example_sent_def example_frame_def rate_at_def store_rate_def)
qed
lemma example_send_rates: "wqueue_init 15 1023 = (st_queues (example_station 0 0)) ! 2"
  by (simp add: example_station_def station_init_queues_def)

lemma example_inv: "medium_inv example_medium"
  by (auto simp: medium_inv_def sched_inv_def jobs_ok_def not_past_def example_defs in_window_def
      stations_ok_def queued_def station_frames_def queue_ok_def ahead_def)

lemma example_keeps: "keeps_medium USFSTL_SCHEDULER_ops"
  by (simp add: keeps_medium_def keeps_queue_def keeps_now_def USFSTL_SCHEDULER_ops_def)

lemma example_target: "queue_target 2 (example_medium\<lparr>rng := x\<rparr>) = Inr 1000"
  by (simp add: queue_target_def example_defs sta_def nth_result_def last_opt_def eval_nat_numeral)

lemma example_frame_runs:
  "\<exists>s'. queue_frame USFSTL_SCHEDULER_ops (\<lambda>_. 0) 0 8 example_medium = Inr s'"
proof -
  have f: "frame_at example_medium 8 = Inr (example_frame [2, 0, 0, 0, 1, 0])"
    by (simp add: frame_at_def example_medium_def)
  have st: "sta example_medium 0 = Inr (example_station 0 0)" by (simp add: sta_def example_medium_def)
  have q: "nth_result (st_queues (example_station 0 0)) 2 = Inr (wqueue_init 15 1023)"
    by (simp add: nth_result_def example_station_def station_init_queues_def)
  have m: "is_multicast_ether_addr (addr1 (example_frame [2, 0, 0, 0, 1, 0])) = Inr False"
    by (simp add: is_multicast_ether_addr_def addr1_def example_frame_def)
  show ?thesis
    unfolding returns_iff queue_frame_def f st
    by (simp add: example_head q m example_snr example_send example_target)
      (simp add: example_medium_def queue_schedule_def set_frame_def set_job_start_def
        usfstl_sched_add_job_def USFSTL_SCHEDULER_ops_def group_blocked_def usfstl_job_scheduled_def
        call_opt_def usfstl_sched_external_request_def time_ge_def append_frame_def sta_def
        nth_result_def set_sta_def sint_eq_uint64 example_station_def station_init_queues_def)
qed

text \<open>Claim C1: queueing a frame keeps the invariant of the medium (the delivery jobs are exactly
  the queued frames, every queue is in the order of its delivery times, no job lies in the
  past) and serialises the medium by priority: the frame is appended to its queue, its
  delivery lies at least its own air time behind the present and behind every frame of the
  same or a higher priority of any station, with equality for the latest of these (or the present, so that
  frames of a lower priority do not delay it); the frame keeps its attributes but for the ACK flag and the
  rates, which report the tries; and the
  start notification, sent if and only if someone asked for it, comes one air time before
  the delivery.\<close>

theorem queue_frame_serialises:
  assumes "keeps_medium ops" and "queue_frame ops erfc p f s = Inr s'"
    and "medium_inv s" and "p \<in> set (stations s)" and "f \<notin> queued s"
    and "frame_mem s f = Some fr"
    and "length (fr_data fr) \<le> 65535" and "fr_tx_rates_count fr \<le> 4"
    and "unat (current_time s) < 2 ^ 62"
    and "\<forall>g \<in> queued s. unat (start_of s (Frame_job g)) < 2 ^ 62"
  shows "medium_inv s' \<and> current_time s' = current_time s \<and> queued s' = insert f (queued s) \<and>
    stations s' = stations s \<and> clients s' = clients s \<and> cl_mem s' = cl_mem s \<and> next_ptr s' = next_ptr s \<and>
    (\<exists>ac st fr' d. frame_select_queue_80211 fr = Inr ac \<and> sta_mem s p = Some st \<and>
       ac < length (st_queues st) \<and>
       frame_mem s' = (frame_mem s)(f \<mapsto> fr') \<and> fr_duration fr' = int d \<and> d < 2 ^ 31 \<and>
       fr_src fr' = st_client st \<and> fr_data fr' = fr_data fr \<and>
       fr_cookie fr' = fr_cookie fr \<and> fr_freq fr' = fr_freq fr \<and> fr_sender fr' = fr_sender fr \<and>
       fr_tx_rates_count fr' = fr_tx_rates_count fr \<and> (fr_flags fr' = fr_flags fr \<or> fr_flags fr' = fr_flags fr OR HWSIM_TX_STAT_ACK) \<and>
       sta_mem s' = (sta_mem s)(p \<mapsto> st\<lparr>st_queues := (st_queues st)[ac := (st_queues st ! ac)
         \<lparr>wq_frames := wq_frames (st_queues st ! ac) @ [f]\<rparr>]\<rparr>) \<and>
       queued_behind ac d (start_of s' (Frame_job f)) s \<and>
       (Start_job f \<in> set (joblist s') \<longleftrightarrow> need_start_notify s \<noteq> 0) \<and>
       (need_start_notify s \<noteq> 0 \<longrightarrow>
          unat (start_of s' (Start_job f)) + d = unat (start_of s' (Frame_job f))))"
  by (rule queue_frame_ok [OF assms])

lemma queue_frame_serialises_witness:
  "\<exists>s'. queue_frame USFSTL_SCHEDULER_ops (\<lambda>_. 0) 0 8 example_medium = Inr s' \<and> medium_inv s' \<and>
     Start_job 8 \<in> set (joblist s')"
proof -
  obtain s' where s': "queue_frame USFSTL_SCHEDULER_ops (\<lambda>_. 0) 0 8 example_medium = Inr s'"
    using example_frame_runs by blast
  have e: "0 \<in> set (stations example_medium)" "8 \<notin> queued example_medium"
    "frame_mem example_medium 8 = Some (example_frame [2, 0, 0, 0, 1, 0])"
    "length (fr_data (example_frame [2, 0, 0, 0, 1, 0])) \<le> 65535"
    "fr_tx_rates_count (example_frame [2, 0, 0, 0, 1, 0]) \<le> 4"
    "unat (current_time example_medium) < 2 ^ 62"
    "\<forall>g \<in> queued example_medium. unat (start_of example_medium (Frame_job g)) < 2 ^ 62"
    by (auto simp: example_defs queued_def station_frames_def)
  have "need_start_notify example_medium \<noteq> 0" by (simp add: example_medium_def)
  then show ?thesis
    using s' queue_frame_serialises [OF example_keeps s' example_inv e] by blast
qed

lemma queue_send_outcome_witness:
  "\<exists>ts us. all_tries (fr_tx_rates (example_frame [2, 0, 0, 0, 1, 0])) 2 0 = ts @ us \<and> ts \<noteq> []"
  using queue_send_outcome [OF example_send] by (auto simp: example_frame_def)

lemma send_time_fits_int_witness: "(0 :: int) \<le> 246 \<and> fr_duration example_sent = 0"
  using send_time_fits_int [OF example_send] by (simp add: example_defs example_sent_def)

lemma queue_send_extremes_witness:
  "get_error_prob (\<lambda>_. 0) example_medium 20 3 2412 24 0 (Some (Suc 0)) = Inr 0"
  using queue_send_extremes [OF example_send]
  by (simp add: get_error_prob_def get_error_prob_from_matrix_def example_defs sta_def nth_result_def)

end
