(* ===== verification/Config.thy ===== *)
theory Config
  imports Queueing
begin

text \<open>
  The configuration of \<open>wmediumd/config.c\<close>: the stations, the link matrices, the path loss models
  and the movement of stations. The configuration library is a parameter: a \<open>config\<close> holds the
  answers of its lookup functions for the settings the code asks for, and \<open>read\<close> is the file
  system. Allocation succeeds; doubles are real numbers.
\<close>

section \<open>Settings\<close>

text \<open>A list or array setting, as its length and elements are read.\<close>

record setting =
  set_length :: nat
  set_int :: "nat \<Rightarrow> int"
  set_float :: "nat \<Rightarrow> real"

record config =
  cfg_ids :: "string option list option"
  cfg_enable_interference :: "bool option"
  cfg_fading_coefficient :: "int option"
  cfg_iface_links :: "setting list option"
  cfg_model_type :: "string option"
  cfg_model_links :: "setting list option"
  cfg_default_prob :: "real option"
  cfg_positions :: "setting list option"
  cfg_directions :: "setting list option"
  cfg_tx_powers :: "setting option"
  cfg_model_name :: "string option"
  cfg_path_loss_exp :: "real option"
  cfg_xg :: "real option"
  cfg_nfloors :: "int option"
  cfg_lf :: "int option"

text \<open>The functions return an error code, \<open>0\<close> is success.\<close>

type_synonym 's coded = "(int \<times> 's) result"

definition proceed :: "'s coded \<Rightarrow> ('s \<Rightarrow> 's coded) \<Rightarrow> 's coded" where
  "proceed m f = rbind m (\<lambda>(r, s). if r \<noteq> 0 then Inr (r, s) else f s)"

fun each :: "('a \<Rightarrow> 's \<Rightarrow> 's coded) \<Rightarrow> 'a list \<Rightarrow> 's \<Rightarrow> 's coded" where
  "each f [] s = Inr (0, s)"
| "each f (x # xs) s = proceed (f x s) (each f xs)"

abbreviation (input) EIO :: int where "EIO \<equiv> 5"
abbreviation (input) EINVAL :: int where "EINVAL \<equiv> 22"

section \<open>Addresses\<close>

text \<open>\<open>sscanf\<close> with the format \<open>%x:%x:%x:%x:%x:%x\<close>.\<close>

definition hex_value :: "char \<Rightarrow> int option" where
  "hex_value c = (let n = int (of_char c) in
     if 48 \<le> n \<and> n \<le> 57 then Some (n - 48)
     else if 97 \<le> n \<and> n \<le> 102 then Some (n - 87)
     else if 65 \<le> n \<and> n \<le> 70 then Some (n - 55) else None)"

fun hex_digits :: "int \<Rightarrow> string \<Rightarrow> int \<times> string" where
  "hex_digits acc [] = (acc, [])"
| "hex_digits acc (c # s) =
     (case hex_value c of None \<Rightarrow> (acc, c # s) | Some d \<Rightarrow> hex_digits (16 * acc + d) s)"

definition starts_hex :: "string \<Rightarrow> bool" where
  "starts_hex s \<longleftrightarrow> s \<noteq> [] \<and> hex_value (hd s) \<noteq> None"

definition scan_hex :: "string \<Rightarrow> (int \<times> string) option" where
  "scan_hex s =
     (let s = dropWhile isspace s;
          neg = (s \<noteq> [] \<and> hd s = CHR ''-'');
          s = (if s \<noteq> [] \<and> (hd s = CHR ''-'' \<or> hd s = CHR ''+'') then tl s else s);
          s = (if take 2 s = ''0x'' \<or> take 2 s = ''0X'' then drop 2 s else s)
      in if starts_hex s
         then let (v, r) = hex_digits 0 s; v = min v (2 ^ 64 - 1) in Some (if neg then - v else v, r)
         else None)"

fun scan_bytes :: "nat \<Rightarrow> string \<Rightarrow> u8 list" where
  "scan_bytes 0 s = []"
| "scan_bytes (Suc n) s =
     (case scan_hex s of
        None \<Rightarrow> []
      | Some (v, r) \<Rightarrow> word_of_int v #
          (if n > 0 \<and> r \<noteq> [] \<and> hd r = CHR '':'' then scan_bytes n (tl r) else []))"

text \<open>Bytes without a conversion stay uninitialised.\<close>

definition string_to_mac_address :: "string \<Rightarrow> mac result" where
  "string_to_mac_address str =
     (let bs = scan_bytes 6 str in if length bs = 6 then Inr bs else Inl Uninitialized)"

section \<open>Path loss\<close>

abbreviation (input) FREQ_1CH :: real where "FREQ_1CH \<equiv> 2.412 * 10 ^ 9"
abbreviation (input) SPEED_LIGHT :: real where "SPEED_LIGHT \<equiv> 2.99792458 * 10 ^ 8"

definition distance :: "station \<Rightarrow> station \<Rightarrow> real" where
  "distance dst src = sqrt ((st_x src - st_x dst) * (st_x src - st_x dst) +
     (st_y src - st_y dst) * (st_y src - st_y dst))"

text \<open>At distance zero the logarithm is minus infinity, and the loss is an infinity or, for an exponent of
  zero, not a number; no \<open>int\<close> can hold any of these.\<close>

definition calc_path_loss_free_space :: "station \<Rightarrow> station \<Rightarrow> int result" where
  "calc_path_loss_free_space dst src =
     (let d = distance dst src in
      if d = 0 then Inl Invalid_conversion
      else let PL = 20 * log 10 (4 * pi * d * FREQ_1CH / SPEED_LIGHT) in Inr (double_to_int PL))"

definition calc_path_loss_log_distance :: "real \<Rightarrow> real \<Rightarrow> station \<Rightarrow> station \<Rightarrow> int result" where
  "calc_path_loss_log_distance path_loss_exponent Xg dst src =
     (let d = distance dst src in
      if d = 0 then Inl Invalid_conversion
      else let PL0 = 20 * log 10 (4 * pi * 1 * FREQ_1CH / SPEED_LIGHT);
               PL = PL0 + 10 * path_loss_exponent * log 10 d + Xg
           in Inr (double_to_int PL))"

definition calc_path_loss_itu :: "int \<Rightarrow> int \<Rightarrow> station \<Rightarrow> station \<Rightarrow> int result" where
  "calc_path_loss_itu nFLOORS LF dst src =
     (let d = distance dst src; N = (if d > 16 then 38 else 28) in
      if d = 0 then Inl Invalid_conversion
      else let PL = 20 * log 10 FREQ_1CH + N * log 10 d + of_int (LF * nFLOORS) - 28
           in Inr (double_to_int PL))"

definition calc_path_loss :: "path_loss_fn \<Rightarrow> station \<Rightarrow> station \<Rightarrow> int result" where
  "calc_path_loss m dst src =
     (case m of
        Log_distance path_loss_exponent Xg \<Rightarrow> calc_path_loss_log_distance path_loss_exponent Xg dst src
      | Free_space \<Rightarrow> calc_path_loss_free_space dst src
      | Itu nFLOORS LF \<Rightarrow> calc_path_loss_itu nFLOORS LF dst src)"

text \<open>Writing and reading an element of an allocated matrix.\<close>

definition poke :: "'a list ptr \<Rightarrow> nat \<Rightarrow> 'a \<Rightarrow> 'a list ptr result" where
  "poke p i x = rbind (deref p) (\<lambda>m. rbind (upd_result m i x) (\<lambda>m. Inr (Block m)))"

definition peek :: "'a list ptr \<Rightarrow> nat \<Rightarrow> 'a result" where
  "peek p i = rbind (deref p) (\<lambda>m. nth_result m i)"

definition recalc_pair :: "nat \<times> nat \<Rightarrow> 'z wmediumd_scheme \<Rightarrow> 'z wmediumd_scheme result" where
  "recalc_pair = (\<lambda>(start, end') s.
     if start = end' then Inr s
     else rbind (rget Null_dereference (sta_array s)) (\<lambda>array.
       rbind (nth_result array end') (\<lambda>e. rbind (sta s e) (\<lambda>e.
       rbind (nth_result array start) (\<lambda>b. rbind (sta s b) (\<lambda>b.
       rbind (rget Null_dereference (calc_path_loss_fn s)) (\<lambda>m.
       rbind (calc_path_loss m e b) (\<lambda>path_loss.
       rbind (poke (snr_matrix s) (num_stas s * start + end') (st_tx_power b - path_loss - NOISE_LEVEL))
         (\<lambda>m. Inr (s\<lparr>snr_matrix := m\<rparr>))))))))))"

definition recalc_path_loss :: "'z wmediumd_scheme \<Rightarrow> 'z wmediumd_scheme result" where
  "recalc_path_loss s =
     rfold recalc_pair (List.product [0..<num_stas s] [0..<num_stas s]) s"

definition move_station :: "nat \<Rightarrow> 'z wmediumd_scheme \<Rightarrow> 'z wmediumd_scheme result" where
  "move_station p s = rbind (sta s p) (\<lambda>st.
     Inr (set_sta p (st\<lparr>st_x := st_x st + st_dir_x st, st_y := st_y st + st_dir_y st\<rparr>) s))"

text \<open>\<open>MOVE_INTERVAL\<close> is three seconds. The job is the one that fired.\<close>

definition move_stations_to_direction ::
  "'z wmediumd_scheme sched_ops \<Rightarrow> job_ref \<Rightarrow> 'z wmediumd_scheme \<Rightarrow> 'z wmediumd_scheme result" where
  "move_stations_to_direction ops job s =
     rbind (rfold move_station (stations s) s) (\<lambda>s.
     rbind (recalc_path_loss s) (\<lambda>s.
     usfstl_sched_add_job ops job (set_job_start job (start_of s job + 3 * 1000000) s)))"

section \<open>The path loss model\<close>

definition parse_model :: "config \<Rightarrow> path_loss_fn option" where
  "parse_model cf =
     (case cfg_model_name cf of
        None \<Rightarrow> None
      | Some name \<Rightarrow>
          if name = ''log_distance''
          then (case (cfg_path_loss_exp cf, cfg_xg cf) of
                  (Some e, Some xg) \<Rightarrow> Some (Log_distance e xg) | _ \<Rightarrow> None)
          else if name = ''free_space'' then Some Free_space
          else if name = ''itu''
          then (case (cfg_nfloors cf, cfg_lf cf) of
                  (Some n, Some lf) \<Rightarrow> Some (Itu n lf) | _ \<Rightarrow> None)
          else None)"

definition place_station ::
  "setting list \<Rightarrow> setting list option \<Rightarrow> setting \<Rightarrow> nat \<Rightarrow> 'z wmediumd_scheme \<Rightarrow>
   'z wmediumd_scheme coded" where
  "place_station positions directions tx_powers p s =
     rbind (sta s p) (\<lambda>st.
     rbind (nth_result positions (st_index st)) (\<lambda>position.
     if set_length position \<noteq> 2 then Inr (- EINVAL, s)
     else let st = st\<lparr>st_x := set_float position 0, st_y := set_float position 1\<rparr> in
       proceed
         (case directions of
            None \<Rightarrow> Inr (0, set_sta p st s)
          | Some directions \<Rightarrow>
              rbind (nth_result directions (st_index st)) (\<lambda>direction.
              if set_length direction \<noteq> 2 then Inr (- EINVAL, set_sta p st s)
              else Inr (0, set_sta p (st\<lparr>st_dir_x := set_float direction 0,
                                        st_dir_y := set_float direction 1\<rparr>) s)))
         (\<lambda>s. rbind (sta s p) (\<lambda>st.
           Inr (0, set_sta p (st\<lparr>st_tx_power :=
             double_to_int (set_float tx_powers (st_index st))\<rparr>) s)))))"

definition schedule_move ::
  "'z wmediumd_scheme sched_ops \<Rightarrow> job_ref \<Rightarrow> config \<Rightarrow> 'z wmediumd_scheme \<Rightarrow>
   'z wmediumd_scheme coded" where
  "schedule_move ops mv cf s =
     (case cfg_directions cf of
        None \<Rightarrow> Inr (0, s)
      | Some directions \<Rightarrow>
          if length directions \<noteq> num_stas s then Inr (- EINVAL, s)
          else rbind (usfstl_sched_add_job ops mv (set_job_start mv (3 * 1000000) s))
                 (\<lambda>s. Inr (0, s)))"

definition parse_path_loss ::
  "'z wmediumd_scheme sched_ops \<Rightarrow> job_ref \<Rightarrow> config \<Rightarrow> 'z wmediumd_scheme \<Rightarrow>
   'z wmediumd_scheme coded" where
  "parse_path_loss ops mv cf s =
     (case cfg_positions cf of
        None \<Rightarrow> Inr (- EINVAL, s)
      | Some positions \<Rightarrow>
          if length positions \<noteq> num_stas s then Inr (- EINVAL, s)
          else proceed (schedule_move ops mv cf s) (\<lambda>s.
            case cfg_tx_powers cf of
              None \<Rightarrow> Inr (- EINVAL, s)
            | Some tx_powers \<Rightarrow>
                if set_length tx_powers \<noteq> num_stas s then Inr (- EINVAL, s)
                else case parse_model cf of
                  None \<Rightarrow> Inr (- EINVAL, s)
                | Some m \<Rightarrow>
                    let s = s\<lparr>calc_path_loss_fn := Some m\<rparr> in
                    proceed (each (place_station positions (cfg_directions cf) tx_powers) (stations s) s)
                      (\<lambda>s. rbind (recalc_path_loss s) (\<lambda>s. Inr (0, s)))))"

section \<open>Loading a configuration\<close>

definition load_station :: "nat \<times> string option \<Rightarrow> 'z wmediumd_scheme \<Rightarrow> 'z wmediumd_scheme result" where
  "load_station = (\<lambda>(i, str) s.
     rbind (rget Null_dereference str) (\<lambda>str.
     rbind (string_to_mac_address str) (\<lambda>addr.
     let p = next_ptr s;
         st = station_init_queues \<lparr>st_index = i, st_addr = addr, st_hwaddr = addr, st_x = 0, st_y = 0,
           st_dir_x = 0, st_dir_y = 0, st_tx_power = SNR_DEFAULT, st_queues = [], st_client = None,
           st_addrs = []\<rparr>
     in Inr (s\<lparr>next_ptr := p + 1, sta_mem := (sta_mem s)(p \<mapsto> st), stations := stations s @ [p],
               sta_array := map_option (\<lambda>a. a @ [p]) (sta_array s)\<rparr>))))"

definition load_stations :: "string option list \<Rightarrow> 'z wmediumd_scheme \<Rightarrow> 'z wmediumd_scheme result" where
  "load_stations ids s =
     rbind (rfold load_station (zip [0..<length ids] ids) (s\<lparr>sta_array := Some []\<rparr>)) (\<lambda>s.
     Inr (s\<lparr>num_stas := length ids\<rparr>))"

definition load_interference :: "config \<Rightarrow> 'z wmediumd_scheme \<Rightarrow> 'z wmediumd_scheme" where
  "load_interference cf s =
     (if cfg_enable_interference cf = Some True
      then s\<lparr>intf := Some (replicate (num_stas s * num_stas s)
             \<lparr>intf_signal = - 200, intf_duration = 0, intf_prob_col = 0\<rparr>)\<rparr>
      else s\<lparr>intf := None\<rparr>)"

definition load_fading :: "config \<Rightarrow> 'z wmediumd_scheme \<Rightarrow> 'z wmediumd_scheme" where
  "load_fading cf s =
     (case cfg_fading_coefficient cf of
        Some k \<Rightarrow> if k > 0 then s\<lparr>get_fading_signal_fn := Normal_fading, fading_coefficient := k\<rparr>
                  else s\<lparr>get_fading_signal_fn := No_fading, fading_coefficient := 0\<rparr>
      | None \<Rightarrow> s\<lparr>get_fading_signal_fn := No_fading, fading_coefficient := 0\<rparr>)"

text \<open>The source of the links: the result has the settings \<open>links\<close> and \<open>error_probs\<close>.\<close>

definition load_model ::
  "'z wmediumd_scheme sched_ops \<Rightarrow> job_ref \<Rightarrow> config \<Rightarrow> 'z wmediumd_scheme \<Rightarrow>
   (int \<times> (setting list option \<times> setting list option) \<times> 'z wmediumd_scheme) result" where
  "load_model ops mv cf s =
     (case cfg_iface_links cf of
        Some links \<Rightarrow> Inr (0, (Some links, None), s)
      | None \<Rightarrow> (case cfg_model_type cf of
          None \<Rightarrow> Inr (0, (None, None), s)
        | Some t \<Rightarrow>
            if take 3 t = ''snr'' then Inr (0, (cfg_model_links cf, None), s)
            else if take 4 t = ''prob'' then Inr (0, (None, cfg_model_links cf), s)
            else if take 9 t = ''path_loss''
            then rbind (parse_path_loss ops mv cf s) (\<lambda>(r, s). Inr (r, (None, None), s))
            else Inr (0, (None, None), s)))"

text \<open>\<open>read_per_file\<close> returns \<open>EXIT_FAILURE\<close>, which is positive, and sets the error function.\<close>

definition load_per ::
  "(string \<Rightarrow> (real option \<times> string) option) \<Rightarrow> (string \<Rightarrow> string option) \<Rightarrow> string option \<Rightarrow>
   'z wmediumd_scheme \<Rightarrow> 'z wmediumd_scheme coded" where
  "load_per scanf_f per_content per_file s =
     (let s = s\<lparr>get_link_snr_fn := Snr_from_matrix, get_error_prob_fn := Prob_from_snr,
                per_table := (per_table s)\<lparr>per_matrix := [], per_matrix_row_num := 0\<rparr>\<rparr>
      in case per_file of
           None \<Rightarrow> Inr (0, s)
         | Some path \<Rightarrow>
             rbind (read_per_file scanf_f (per_content path) (per_table s)) (\<lambda>(ok, t).
             let s = s\<lparr>per_table := t\<rparr> in
             if ok then Inr (0, s\<lparr>get_error_prob_fn := Prob_from_per_matrix\<rparr>) else Inr (1, s)))"

text \<open>The error probability matrix; the result has the default probability.\<close>

definition load_error_probs ::
  "config \<Rightarrow> setting list option \<Rightarrow> 'z wmediumd_scheme \<Rightarrow> (int \<times> real \<times> 'z wmediumd_scheme) result"
  where
  "load_error_probs cf error_probs s =
     (if error_probs = None then Inr (0, 0, s\<lparr>error_prob_matrix := Null\<rparr>)
      else let s = s\<lparr>error_prob_matrix := Block (replicate (num_stas s * num_stas s) 0),
                     get_link_snr_fn := Snr_default, get_error_prob_fn := Prob_from_matrix\<rparr>
        in case cfg_default_prob cf of
             None \<Rightarrow> Inr (0, 0, s)
           | Some d \<Rightarrow> if d < 0 \<or> d > 1 then Inr (- EINVAL, d, s) else Inr (0, d, s))"

text \<open>One link, one error probability, and the pass that mirrors links given in one direction
  only. The second component of the state is \<open>link_map\<close>.\<close>

definition read_link ::
  "setting \<Rightarrow> 'z wmediumd_scheme \<times> bool list \<Rightarrow> ('z wmediumd_scheme \<times> bool list) coded" where
  "read_link link = (\<lambda>(s, link_map).
     if set_length link \<noteq> 3 then Inr (- EINVAL, s, link_map)
     else let start = set_int link 0; end' = set_int link 1; snr = set_int link 2 in
       if start < 0 \<or> start \<ge> int (num_stas s) \<or> end' < 0 \<or> end' \<ge> int (num_stas s)
       then Inr (- EINVAL, s, link_map)
       else let k = num_stas s * nat start + nat end' in
         rbind (poke (snr_matrix s) k snr) (\<lambda>m.
         rbind (upd_result link_map k True) (\<lambda>link_map.
         Inr (0, s\<lparr>snr_matrix := m\<rparr>, link_map))))"

definition default_error_prob :: "real \<Rightarrow> nat \<times> nat \<Rightarrow> 'z wmediumd_scheme \<Rightarrow> 'z wmediumd_scheme result" where
  "default_error_prob d = (\<lambda>(start, end') s.
     if start < end'
     then rbind (poke (error_prob_matrix s) (num_stas s * end' + start) d) (\<lambda>m.
          rbind (poke m (num_stas s * start + end') d) (\<lambda>m.
          Inr (s\<lparr>error_prob_matrix := m\<rparr>)))
     else Inr s)"

definition read_error_prob ::
  "setting \<Rightarrow> 'z wmediumd_scheme \<times> bool list \<Rightarrow> ('z wmediumd_scheme \<times> bool list) coded" where
  "read_error_prob error_prob = (\<lambda>(s, link_map).
     if set_length error_prob \<noteq> 3 then Inr (- EINVAL, s, link_map)
     else let start = set_int error_prob 0; end' = set_int error_prob 1;
              v = set_float error_prob 2 in
       if start < 0 \<or> start \<ge> int (num_stas s) \<or> end' < 0 \<or> end' \<ge> int (num_stas s) \<or> v < 0 \<or> v > 1
       then Inr (- EINVAL, s, link_map)
       else let k = num_stas s * nat start + nat end' in
         rbind (poke (error_prob_matrix s) k v) (\<lambda>m.
         rbind (upd_result link_map k True) (\<lambda>link_map.
         Inr (0, s\<lparr>error_prob_matrix := m\<rparr>, link_map))))"

definition mirror_link :: "nat \<Rightarrow> nat \<Rightarrow> 'z wmediumd_scheme \<Rightarrow> 'z wmediumd_scheme result" where
  "mirror_link from to s =
     rbind (peek (snr_matrix s) (num_stas s * from + to)) (\<lambda>x.
     rbind (poke (snr_matrix s) (num_stas s * to + from) x) (\<lambda>m.
     let s = s\<lparr>snr_matrix := m\<rparr> in
     if error_prob_matrix s = Null then Inr s
     else rbind (peek (error_prob_matrix s) (num_stas s * from + to)) (\<lambda>x.
          rbind (poke (error_prob_matrix s) (num_stas s * to + from) x) (\<lambda>m.
          Inr (s\<lparr>error_prob_matrix := m\<rparr>)))))"

definition mirror_pair :: "bool list \<Rightarrow> nat \<times> nat \<Rightarrow> 'z wmediumd_scheme \<Rightarrow> 'z wmediumd_scheme result" where
  "mirror_pair link_map = (\<lambda>(i, j) s.
     if i = j then Inr s
     else rbind (nth_result link_map (num_stas s * i + j)) (\<lambda>there.
          rbind (nth_result link_map (num_stas s * j + i)) (\<lambda>back.
          if there \<and> \<not> back then mirror_link i j s else Inr s)))"

definition load_links ::
  "setting list option \<Rightarrow> setting list option \<Rightarrow> real \<Rightarrow> 'z wmediumd_scheme \<Rightarrow> 'z wmediumd_scheme coded"
  where
  "load_links links error_probs d s =
     (let n = num_stas s; pairs = List.product [0..<n] [0..<n] in
      rbind (each read_link (case links of None \<Rightarrow> [] | Some l \<Rightarrow> l)
          (s, replicate (n * n) False)) (\<lambda>(r, s, link_map).
      if r \<noteq> 0 then Inr (r, s)
      else rbind (if error_probs = None then Inr s else rfold (default_error_prob d) pairs s) (\<lambda>s.
        rbind (each read_error_prob (case error_probs of None \<Rightarrow> [] | Some l \<Rightarrow> l) (s, link_map))
          (\<lambda>(r, s, link_map).
        if r \<noteq> 0 then Inr (r, s)
        else rbind (rfold (mirror_pair link_map) pairs s) (\<lambda>s. Inr (0, s))))))"

text \<open>The \<open>fail\<close> label frees the matrices and leaves the pointers.\<close>

definition load_fail :: "'z wmediumd_scheme \<Rightarrow> 'z wmediumd_scheme coded" where
  "load_fail s =
     rbind (free_ptr (snr_matrix s)) (\<lambda>_.
     rbind (free_ptr (error_prob_matrix s)) (\<lambda>_.
     let s = s\<lparr>snr_matrix := if snr_matrix s = Null then Null else Freed\<rparr>;
         s = s\<lparr>error_prob_matrix := if error_prob_matrix s = Null then Null else Freed\<rparr>
     in Inr (- EINVAL, s)))"

definition load_config ::
  "'z wmediumd_scheme sched_ops \<Rightarrow> (string \<Rightarrow> config option) \<Rightarrow>
   (string \<Rightarrow> (real option \<times> string) option) \<Rightarrow> (string \<Rightarrow> string option) \<Rightarrow>
   job_ref \<Rightarrow> string \<Rightarrow> string option \<Rightarrow> 'z wmediumd_scheme \<Rightarrow> 'z wmediumd_scheme coded" where
  "load_config ops config_read scanf_f per_content mv path per_file s =
     (let s = s\<lparr>config_path := Some path\<rparr> in
      case config_read path of
        None \<Rightarrow> Inr (- EIO, s)
      | Some cf \<Rightarrow>
          (case cfg_ids cf of
             None \<Rightarrow> Inr (- EIO, s)
           | Some ids \<Rightarrow>
               rbind (load_stations ids s) (\<lambda>s.
               let s = load_interference cf s;
                   s = load_fading cf s;
                   s = s\<lparr>snr_matrix := Block (replicate (length ids * length ids) SNR_DEFAULT)\<rparr>
               in rbind (load_model ops mv cf s) (\<lambda>(r, (links, error_probs), s).
                 if r \<noteq> 0 \<or> per_file \<noteq> None \<and> error_probs \<noteq> None then load_fail s
                 else rbind (load_per scanf_f per_content per_file s) (\<lambda>(r, s).
                   if r \<noteq> 0 then load_fail s
                   else rbind (load_error_probs cf error_probs s) (\<lambda>(r, d, s).
                     if r \<noteq> 0 then load_fail s
                     else rbind (load_links links error_probs d s) (\<lambda>(r, s).
                       if r \<noteq> 0 then load_fail s else Inr (0, s))))))))"

definition clear_config :: "'z wmediumd_scheme \<Rightarrow> 'z wmediumd_scheme result" where
  "clear_config s =
     rbind (free_ptr (snr_matrix s)) (\<lambda>_.
     rbind (free_ptr (error_prob_matrix s)) (\<lambda>_.
     let s = s\<lparr>sta_array := None, intf := None, snr_matrix := Null, error_prob_matrix := Null,
               config_path := None\<rparr>;
         s = s\<lparr>sta_mem := (\<lambda>p. if p \<in> set (stations s) then None else sta_mem s p)\<rparr>
     in Inr (s\<lparr>stations := []\<rparr>)))"

text \<open>\<open>validate_config\<close> loads the file into a zeroed context on its stack, whose scheduler is the
  global one; only the scheduler keeps what happens.\<close>

definition zero_context :: "'z wmediumd_scheme \<Rightarrow> 'z wmediumd_scheme" where
  "zero_context s = s\<lparr>stations := [], sta_array := None, num_stas := 0, clients := [],
     clients_to_free := [], snr_matrix := Null, error_prob_matrix := Null, intf := None,
     per_table := \<lparr>per_matrix = [], per_matrix_row_num = 0, per_matrix_signal_min = 0\<rparr>,
     fading_coefficient := 0, calc_path_loss_fn := None, need_start_notify := 0, pcap_file := None,
     config_path := None\<rparr>"

definition with_context_of :: "'z wmediumd_scheme \<Rightarrow> 'z wmediumd_scheme \<Rightarrow> 'z wmediumd_scheme" where
  "with_context_of s t = t\<lparr>sta_mem := sta_mem s, stations := stations s, sta_array := sta_array s,
     num_stas := num_stas s, cl_mem := cl_mem s, clients := clients s,
     clients_to_free := clients_to_free s, nl_client := nl_client s, frame_mem := frame_mem s,
     next_ptr := next_ptr s, snr_matrix := snr_matrix s, error_prob_matrix := error_prob_matrix s,
     intf := intf s, per_table := per_table s, fading_coefficient := fading_coefficient s,
     get_link_snr_fn := get_link_snr_fn s, get_error_prob_fn := get_error_prob_fn s,
     get_fading_signal_fn := get_fading_signal_fn s, calc_path_loss_fn := calc_path_loss_fn s,
     rng := rng s, need_start_notify := need_start_notify s, pcap_file := pcap_file s,
     config_path := config_path s\<rparr>"

definition validate_config ::
  "'z wmediumd_scheme sched_ops \<Rightarrow> (string \<Rightarrow> config option) \<Rightarrow>
   (string \<Rightarrow> (real option \<times> string) option) \<Rightarrow> (string \<Rightarrow> string option) \<Rightarrow> string \<Rightarrow>
   'z wmediumd_scheme \<Rightarrow> (bool \<times> 'z wmediumd_scheme) result" where
  "validate_config ops config_read scanf_f per_content path s =
     rbind (load_config ops config_read scanf_f per_content Stack_move_job path None (zero_context s))
       (\<lambda>(load_result, t).
     rbind (clear_config t) (\<lambda>t.
     Inr (load_result \<ge> 0, with_context_of s t)))"

section \<open>Addresses as text\<close>

text \<open>\<open>MAC_FMT\<close>, the format in which addresses are logged.\<close>

definition hex_char :: "nat \<Rightarrow> char" where
  "hex_char n = ''0123456789abcdef'' ! n"

definition format_byte :: "u8 \<Rightarrow> string" where
  "format_byte b = [hex_char (unat b div 16), hex_char (unat b mod 16)]"

fun format_mac :: "mac \<Rightarrow> string" where
  "format_mac [] = []"
| "format_mac [b] = format_byte b"
| "format_mac (b # bs) = format_byte b @ CHR '':'' # format_mac bs"

lemma hex_char_all:
  "\<forall>n \<in> set [0..<16]. hex_value (hex_char n) = Some (int n) \<and> \<not> isspace (hex_char n) \<and>
     hex_char n \<notin> set [CHR ''-'', CHR ''+'', CHR ''x'', CHR ''X'']"
  by code_simp

lemma hex_char_props:
  assumes "n < 16"
  shows "hex_value (hex_char n) = Some (int n)" and "\<not> isspace (hex_char n)"
    and "hex_char n \<notin> set [CHR ''-'', CHR ''+'', CHR ''x'', CHR ''X'']"
  using assms hex_char_all by simp_all

lemma hex_value_colon: "hex_value CHR '':'' = None"
  by code_simp

lemma scan_hex_byte:
  assumes "r = [] \<or> hd r = CHR '':''"
  shows "scan_hex (format_byte b @ r) = Some (int (unat b), r)"
proof -
  have "unat b < 2 ^ LENGTH(8)" by (rule unsigned_less)
  then have b: "unat b div 16 < 16" "unat b mod 16 < 16" by simp_all
  note h = hex_char_props [OF b(1)] and l = hex_char_props [OF b(2)]
  have d: "hex_digits 0 (format_byte b @ r) = (int (unat b), r)"
  proof -
    have r: "hex_digits v r = (v, r)" for v
      using assms by (cases r) (auto simp: hex_value_colon)
    have "int (unat b) = 16 * int (unat b div 16) + int (unat b mod 16)"
      by (metis mult_div_mod_eq of_nat_add of_nat_mult of_nat_numeral)
    then show ?thesis using h(1) l(1) r by (simp add: format_byte_def)
  qed
  have "unat b < 256" using \<open>unat b < 2 ^ LENGTH(8)\<close> by simp
  then have "int (unat b) < 256" by linarith
  then have "int (unat b) < 2 ^ 64" by (rule order_less_trans) simp
  moreover have "dropWhile isspace (format_byte b @ r) = format_byte b @ r"
    using h(2) by (simp add: format_byte_def)
  ultimately show ?thesis
    using h l d by (simp add: scan_hex_def starts_hex_def Let_def) (simp add: format_byte_def)
qed

lemma scan_bytes_format:
  "bs \<noteq> [] \<Longrightarrow> length bs \<le> n \<Longrightarrow> scan_bytes n (format_mac bs) = bs"
proof (induction bs arbitrary: n rule: format_mac.induct)
  case (2 b)
  then obtain m where "n = Suc m" by (cases n) auto
  then show ?case using scan_hex_byte [of "[]" b] by simp
next
  case (3 b c bs)
  then obtain m where m: "n = Suc m" "m > 0" by (cases n) auto
  have "scan_bytes m (format_mac (c # bs)) = c # bs" using 3 m by simp
  then show ?case using scan_hex_byte [of "CHR '':'' # format_mac (c # bs)" b] m by simp
qed simp

text \<open>Library: an address printed in the format of the log is read back by
  \<open>string_to_mac_address\<close> as the same six bytes.\<close>

theorem mac_address_roundtrip:
  assumes "length m = 6"
  shows "string_to_mac_address (format_mac m) = Inr m"
proof -
  have "m \<noteq> []" using assms by auto
  then have "scan_bytes 6 (format_mac m) = m" using assms by (intro scan_bytes_format) simp_all
  then show ?thesis using assms by (simp add: string_to_mac_address_def)
qed

lemma mac_address_roundtrip_witness:
  "format_mac [2, 0, 0, 0, 26, 255] = ''02:00:00:00:1a:ff'' \<and>
   string_to_mac_address ''02:00:00:00:1a:ff'' = Inr [2, 0, 0, 0, 26, 255]"
proof -
  have "format_mac [2, 0, 0, 0, 26, 255] = ''02:00:00:00:1a:ff''" by code_simp
  then show ?thesis using mac_address_roundtrip [of "[2, 0, 0, 0, 26, 255]"] by simp
qed

end
