(* ===== verification/Config_Links.thy ===== *)
theory Config_Links
  imports Config
begin

text \<open>
  What \<open>load_config\<close> makes of the links of a configuration: the last setting of a link counts,
  links given in one direction only are mirrored, all others keep the default; and the lookup
  of a link between configured stations never leaves the matrix.
\<close>

section \<open>Indices of a square matrix\<close>

lemma index_less: "i < n \<Longrightarrow> j < n \<Longrightarrow> n * i + j < n * (n :: nat)"
proof -
  assume a: "i < n" "j < n"
  have "n * i + j < n * i + n" using a(2) by simp
  also have "\<dots> = n * Suc i" by simp
  also have "\<dots> \<le> n * n" using a(1) by (intro mult_le_mono2) simp
  finally show ?thesis .
qed

lemma index_inject:
  "j < n \<Longrightarrow> j' < n \<Longrightarrow> n * i + j = n * i' + j' \<longleftrightarrow> i = i' \<and> j = (j' :: nat)"
proof
  assume a: "j < n" "j' < n" and e: "n * i + j = n * i' + j'"
  have "(n * i + j) div n = i" "(n * i' + j') div n = i'" using a by simp_all
  then have "i = i'" using e by simp
  then show "i = i' \<and> j = j'" using e by simp
qed simp

lemma nth_update_index:
  "i < n \<Longrightarrow> j < n \<Longrightarrow> i' < n \<Longrightarrow> j' < n \<Longrightarrow> length m = n * n \<Longrightarrow>
   m[n * i + j := x] ! (n * i' + j') = (if i' = i \<and> j' = j then x else m ! (n * i' + j'))"
  using index_less [of i n j] by (auto simp: nth_list_update index_inject)

lemma matrix_equalityI:
  assumes "length m = n * n" and "length m' = n * n"
    and "\<And>i j. i < n \<Longrightarrow> j < n \<Longrightarrow> m ! (n * i + j) = m' ! (n * i + j)"
  shows "m = m'"
proof (rule nth_equalityI)
  show "length m = length m'" using assms by simp
next
  fix k assume k: "k < length m"
  then have n: "0 < n" using assms(1) by (cases n) auto
  have "k = n * (k div n) + k mod n" by simp
  moreover have "k div n < n" using k assms(1) by (simp add: less_mult_imp_div_less)
  moreover have "k mod n < n" using n by simp
  ultimately show "m ! k = m' ! k" using assms(3) by metis
qed

section \<open>Reading the links\<close>

text \<open>The last of the settings for a link.\<close>

definition last_setting :: "setting list \<Rightarrow> nat \<Rightarrow> nat \<Rightarrow> setting option" where
  "last_setting ls i j =
     last_opt (filter (\<lambda>l. set_int l 0 = int i \<and> set_int l 1 = int j) ls)"

lemma last_setting_snoc:
  "last_setting (ls @ [l]) i j =
     (if set_int l 0 = int i \<and> set_int l 1 = int j then Some l else last_setting ls i j)"
  by (simp add: last_setting_def last_opt_def)

lemma last_setting_Nil [simp]: "last_setting [] i j = None"
  by (simp add: last_setting_def last_opt_def)

definition link_ok :: "nat \<Rightarrow> setting \<Rightarrow> bool" where
  "link_ok n l \<longleftrightarrow> set_length l = 3 \<and> 0 \<le> set_int l 0 \<and> set_int l 0 < int n \<and>
     0 \<le> set_int l 1 \<and> set_int l 1 < int n"

lemma each_append: "each f (xs @ ys) s = proceed (each f xs s) (each f ys)"
proof (induction xs arbitrary: s)
  case Nil
  then show ?case by (simp add: proceed_def)
next
  case (Cons x xs)
  show ?case
  proof (cases "f x s")
    case (Inr rs)
    then show ?thesis using Cons by (cases rs) (simp add: proceed_def)
  qed (simp add: proceed_def)
qed

text \<open>Reading a list of links, up to the first invalid one.\<close>

lemma read_links:
  assumes "num_stas s = n" and "snr_matrix s = Block m" and "length m = n * n" and "length lm = n * n"
  shows "\<exists>m' lm'. length m' = n * n \<and> length lm' = n * n \<and>
    each read_link ls (s, lm) =
      Inr (if \<forall>l \<in> set ls. link_ok n l then 0 else - EINVAL, s\<lparr>snr_matrix := Block m'\<rparr>, lm') \<and>
    ((\<forall>l \<in> set ls. link_ok n l) \<longrightarrow>
      (\<forall>i < n. \<forall>j < n. m' ! (n * i + j) = (case last_setting ls i j of None \<Rightarrow> m ! (n * i + j)
          | Some l \<Rightarrow> set_int l 2) \<and>
        (lm' ! (n * i + j) \<longleftrightarrow> lm ! (n * i + j) \<or> last_setting ls i j \<noteq> None)))"
proof (induction ls rule: rev_induct)
  case Nil
  have "s\<lparr>snr_matrix := Block m\<rparr> = s" using assms(2) by simp
  then show ?case using assms by (intro exI [of _ m] exI [of _ lm]) simp
next
  case (snoc l ls)
  then obtain m1 lm1 where ih: "length m1 = n * n" "length lm1 = n * n"
    "each read_link ls (s, lm) =
      Inr (if \<forall>l \<in> set ls. link_ok n l then 0 else - EINVAL, s\<lparr>snr_matrix := Block m1\<rparr>, lm1)"
    "(\<forall>l \<in> set ls. link_ok n l) \<longrightarrow>
      (\<forall>i < n. \<forall>j < n. m1 ! (n * i + j) = (case last_setting ls i j of None \<Rightarrow> m ! (n * i + j)
          | Some l \<Rightarrow> set_int l 2) \<and>
        (lm1 ! (n * i + j) \<longleftrightarrow> lm ! (n * i + j) \<or> last_setting ls i j \<noteq> None))"
    by blast
  show ?case
  proof (cases "(\<forall>l \<in> set ls. link_ok n l) \<and> link_ok n l")
    case False
    show ?thesis
    proof (cases "\<forall>l \<in> set ls. link_ok n l")
      case True
      then have nl: "\<not> link_ok n l" using False by simp
      then have "read_link l (s\<lparr>snr_matrix := Block m1\<rparr>, lm1) = Inr (- EINVAL, s\<lparr>snr_matrix := Block m1\<rparr>, lm1)"
        using assms(1) by (auto simp: read_link_def link_ok_def Let_def)
      moreover have "each read_link ls (s, lm) = Inr (0, s\<lparr>snr_matrix := Block m1\<rparr>, lm1)"
        using ih(3) unfolding if_P [OF True] .
      ultimately have "each read_link (ls @ [l]) (s, lm) = Inr (- EINVAL, s\<lparr>snr_matrix := Block m1\<rparr>, lm1)"
        by (simp add: each_append proceed_def)
      then show ?thesis
        using nl ih(1,2) by (intro exI [of _ m1] exI [of _ lm1]) simp
    next
      case bad: False
      have "each read_link ls (s, lm) = Inr (- EINVAL, s\<lparr>snr_matrix := Block m1\<rparr>, lm1)"
        using ih(3) unfolding if_not_P [OF bad] .
      then have "each read_link (ls @ [l]) (s, lm) = Inr (- EINVAL, s\<lparr>snr_matrix := Block m1\<rparr>, lm1)"
        by (simp add: each_append proceed_def)
      moreover have "\<not> (\<forall>l \<in> set (ls @ [l]). link_ok n l)" using bad by simp
      ultimately show ?thesis
        using ih(1,2) by (intro exI [of _ m1] exI [of _ lm1]) (simp only: if_False HOL.simp_thms)
    qed
  next
    case True
    define a b where "a = nat (set_int l 0)" and "b = nat (set_int l 1)"
    have ab: "set_int l 0 = int a" "set_int l 1 = int b" "a < n" "b < n"
      using True by (auto simp: link_ok_def a_def b_def)
    let ?m = "m1[n * a + b := set_int l 2]" and ?lm = "lm1[n * a + b := True]"
    have k: "n * a + b < n * n" using index_less ab by simp
    have "read_link l (s\<lparr>snr_matrix := Block m1\<rparr>, lm1) = Inr (0, s\<lparr>snr_matrix := Block ?m\<rparr>, ?lm)"
      using assms(1) True ab k ih(1,2)
      by (simp add: read_link_def link_ok_def poke_def upd_result_def Let_def)
    moreover have "each read_link ls (s, lm) = Inr (0, s\<lparr>snr_matrix := Block m1\<rparr>, lm1)"
      using ih(3) unfolding if_P [OF conjunct1 [OF True]] .
    ultimately have "each read_link (ls @ [l]) (s, lm) = Inr (0, s\<lparr>snr_matrix := Block ?m\<rparr>, ?lm)"
      by (simp add: each_append proceed_def)
    moreover have "?m ! (n * i + j) = (case last_setting (ls @ [l]) i j of None \<Rightarrow> m ! (n * i + j)
          | Some l \<Rightarrow> set_int l 2)"
      "?lm ! (n * i + j) \<longleftrightarrow> lm ! (n * i + j) \<or> last_setting (ls @ [l]) i j \<noteq> None"
      if "i < n" "j < n" for i j
      using ih(1,2,4) True ab that by (auto simp: nth_update_index last_setting_snoc)
    ultimately show ?thesis
      using ih(1,2) True by (intro exI [of _ ?m] exI [of _ ?lm]) simp
  qed
qed

section \<open>The mirror pass\<close>

text \<open>The pairs of links that are copied, and the matrix after copying from those in \<open>D\<close>.\<close>

definition one_way :: "nat \<Rightarrow> bool list \<Rightarrow> nat \<Rightarrow> nat \<Rightarrow> bool" where
  "one_way n lm i j \<longleftrightarrow> i \<noteq> j \<and> lm ! (n * i + j) \<and> \<not> lm ! (n * j + i)"

definition mirrored :: "nat \<Rightarrow> bool list \<Rightarrow> (nat \<times> nat) set \<Rightarrow> 'a list \<Rightarrow> 'a list" where
  "mirrored n lm D m = map (\<lambda>k. let i = k div n; j = k mod n in
     if (j, i) \<in> D \<and> one_way n lm j i then m ! (n * j + i) else m ! k) [0..<n * n]"

lemma length_mirrored [simp]: "length (mirrored n lm D m) = n * n"
  by (simp add: mirrored_def)

lemma nth_mirrored:
  "i < n \<Longrightarrow> j < n \<Longrightarrow> mirrored n lm D m ! (n * i + j) =
     (if (j, i) \<in> D \<and> one_way n lm j i then m ! (n * j + i) else m ! (n * i + j))"
  using index_less [of i n j] by (simp add: mirrored_def Let_def)

lemma mirrored_empty: "length m = n * n \<Longrightarrow> mirrored n lm {} m = m"
  by (rule matrix_equalityI [of _ n]) (simp_all add: nth_mirrored)

lemma mirrored_insert:
  assumes "length m = n * n" and "i < n" and "j < n"
  shows "mirrored n lm (insert (i, j) D) m =
    (if one_way n lm i j then (mirrored n lm D m)[n * j + i := mirrored n lm D m ! (n * i + j)]
     else mirrored n lm D m)"
proof (rule matrix_equalityI [of _ n])
  fix a b assume ab: "a < n" "b < n"
  have o: "\<not> one_way n lm j i" if "one_way n lm i j" using that by (simp add: one_way_def)
  show "mirrored n lm (insert (i, j) D) m ! (n * a + b) =
      (if one_way n lm i j then (mirrored n lm D m)[n * j + i := mirrored n lm D m ! (n * i + j)]
       else mirrored n lm D m) ! (n * a + b)"
    using assms ab o by (auto simp: nth_mirrored nth_update_index)
qed (use assms in simp_all)

text \<open>A list of pairs, on both matrices.\<close>

definition mirror_ptr :: "nat \<Rightarrow> bool list \<Rightarrow> (nat \<times> nat) set \<Rightarrow> 'a list ptr \<Rightarrow> 'a list ptr" where
  "mirror_ptr n lm D p = (case p of Block m \<Rightarrow> Block (mirrored n lm D m) | _ \<Rightarrow> p)"

lemma mirror_pairs:
  assumes s: "num_stas s = n" "snr_matrix s = Block m" "length m = n * n" and lm: "length lm = n * n"
    and e: "error_prob_matrix s \<noteq> Freed" "\<forall>e. error_prob_matrix s = Block e \<longrightarrow> length e = n * n"
    and ps: "set ps \<subseteq> {..<n} \<times> {..<n}"
  shows "rfold (mirror_pair lm) ps s = Inr (s\<lparr>snr_matrix := Block (mirrored n lm (set ps) m),
    error_prob_matrix := mirror_ptr n lm (set ps) (error_prob_matrix s)\<rparr>)"
  using ps
proof (induction ps rule: rev_induct)
  case Nil
  have "mirror_ptr n lm {} (error_prob_matrix s) = error_prob_matrix s"
    using e by (auto simp: mirror_ptr_def mirrored_empty split: ptr.split)
  moreover have "s\<lparr>snr_matrix := Block m, error_prob_matrix := error_prob_matrix s\<rparr> = s"
    using s(2) by simp
  ultimately show ?case using s(3) by (simp add: mirrored_empty)
next
  case (snoc x ps)
  obtain i j where x: "x = (i, j)" by (cases x)
  then have ij: "i < n" "j < n" using snoc.prems by auto
  let ?D = "set ps"
  let ?s = "s\<lparr>snr_matrix := Block (mirrored n lm ?D m),
    error_prob_matrix := mirror_ptr n lm ?D (error_prob_matrix s)\<rparr>"
  have k: "n * i + j < n * n" "n * j + i < n * n" using index_less ij by simp_all
  have step: "mirror_pair lm (i, j) ?s =
      Inr (s\<lparr>snr_matrix := Block (mirrored n lm (insert (i, j) ?D) m),
        error_prob_matrix := mirror_ptr n lm (insert (i, j) ?D) (error_prob_matrix s)\<rparr>)"
  proof (cases "one_way n lm i j")
    case False
    then have "mirror_pair lm (i, j) ?s = Inr ?s"
      using s(1) lm k by (auto simp: mirror_pair_def nth_result_def one_way_def)
    then show ?thesis
      using False s(3) e ij by (auto simp: mirrored_insert mirror_ptr_def split: ptr.split)
  next
    case True
    then have "mirror_pair lm (i, j) ?s = mirror_link i j ?s"
      using s(1) lm k by (simp add: mirror_pair_def nth_result_def one_way_def)
    also have "\<dots> = Inr (s\<lparr>snr_matrix := Block (mirrored n lm (insert (i, j) ?D) m),
        error_prob_matrix := mirror_ptr n lm (insert (i, j) ?D) (error_prob_matrix s)\<rparr>)"
    proof (cases "error_prob_matrix s")
      case Null
      then show ?thesis
        using True s ij k
        by (simp add: mirror_link_def peek_def poke_def nth_result_def upd_result_def mirror_ptr_def
            mirrored_insert)
    next
      case Freed
      then show ?thesis using e by simp
    next
      case (Block em)
      then have "length em = n * n" using e by simp
      then show ?thesis
        using True s ij k Block
        by (simp add: mirror_link_def peek_def poke_def nth_result_def upd_result_def mirror_ptr_def
            mirrored_insert)
    qed
    finally show ?thesis .
  qed
  then show ?case using snoc x by (simp add: rfold_append)
qed

section \<open>Loaded links\<close>

text \<open>The value of the link from \<open>i\<close> to \<open>j\<close>: its own last setting, else that of the opposite
  direction, else the default.\<close>

definition link_snr :: "setting list \<Rightarrow> nat \<Rightarrow> nat \<Rightarrow> int" where
  "link_snr ls i j =
     (case last_setting ls i j of
        Some l \<Rightarrow> set_int l 2
      | None \<Rightarrow> if i = j then SNR_DEFAULT
          else (case last_setting ls j i of Some l \<Rightarrow> set_int l 2 | None \<Rightarrow> SNR_DEFAULT))"

lemma load_links_snr:
  assumes s: "num_stas s = n" "snr_matrix s = Block (replicate (n * n) SNR_DEFAULT)"
    "error_prob_matrix s = Null"
  shows "\<exists>m. length m = n * n \<and> (\<forall>i < n. \<forall>j < n. (\<forall>l \<in> set ls. link_ok n l) \<longrightarrow>
      m ! (n * i + j) = link_snr ls i j) \<and>
    load_links (Some ls) None d s =
      Inr (if \<forall>l \<in> set ls. link_ok n l then 0 else - EINVAL, s\<lparr>snr_matrix := Block m\<rparr>)"
proof -
  have len: "length (replicate (n * n) SNR_DEFAULT) = n * n" "length (replicate (n * n) False) = n * n"
    by simp_all
  obtain m lm where m: "length m = n * n" "length lm = n * n"
    "each read_link ls (s, replicate (n * n) False) =
      Inr (if \<forall>l \<in> set ls. link_ok n l then 0 else - EINVAL, s\<lparr>snr_matrix := Block m\<rparr>, lm)"
    and v: "(\<forall>l \<in> set ls. link_ok n l) \<longrightarrow>
      (\<forall>i < n. \<forall>j < n. m ! (n * i + j) = (case last_setting ls i j of
            None \<Rightarrow> replicate (n * n) SNR_DEFAULT ! (n * i + j) | Some l \<Rightarrow> set_int l 2) \<and>
        (lm ! (n * i + j) \<longleftrightarrow> replicate (n * n) False ! (n * i + j) \<or> last_setting ls i j \<noteq> None))"
    using read_links [OF s(1,2) len, of ls] by blast
  show ?thesis
  proof (cases "\<forall>l \<in> set ls. link_ok n l")
    case False
    have "each read_link ls (s, replicate (n * n) False) = Inr (- EINVAL, s\<lparr>snr_matrix := Block m\<rparr>, lm)"
      using m(3) unfolding if_not_P [OF False] .
    then have "load_links (Some ls) None d s = Inr (- EINVAL, s\<lparr>snr_matrix := Block m\<rparr>)"
      using s(1) by (simp add: load_links_def Let_def)
    then show ?thesis using m(1) False by (intro exI [of _ m]) (simp only: if_False HOL.simp_thms)
  next
    case True
    let ?ps = "List.product [0..<n] [0..<n]"
    have r: "each read_link ls (s, replicate (n * n) False) = Inr (0, s\<lparr>snr_matrix := Block m\<rparr>, lm)"
      using m(3) unfolding if_P [OF True] .
    have ps: "set ?ps = {..<n} \<times> {..<n}" by auto
    have mp: "rfold (mirror_pair lm) ?ps (s\<lparr>snr_matrix := Block m\<rparr>) =
        Inr (s\<lparr>snr_matrix := Block (mirrored n lm (set ?ps) m), error_prob_matrix := Null\<rparr>)"
      using mirror_pairs [of "s\<lparr>snr_matrix := Block m\<rparr>" n m lm ?ps] s m(1,2) ps
      by (simp add: mirror_ptr_def)
    have "s\<lparr>error_prob_matrix := Null\<rparr> = s" using s(3) by simp
    then have same: "s\<lparr>snr_matrix := x, error_prob_matrix := Null\<rparr> = s\<lparr>snr_matrix := x\<rparr>" for x
      using s(3) by simp
    have "load_links (Some ls) None d s = Inr (0, s\<lparr>snr_matrix := Block (mirrored n lm (set ?ps) m)\<rparr>)"
      using r mp s(1) same by (simp add: load_links_def Let_def)
    moreover have "mirrored n lm (set ?ps) m ! (n * i + j) = link_snr ls i j" if "i < n" "j < n" for i j
      using v True that index_less [of i n j] index_less [of j n i] ps
      by (auto simp: nth_mirrored one_way_def link_snr_def split: option.splits)
    ultimately show ?thesis using True
      by (intro exI [of _ "mirrored n lm (set ?ps) m"]) simp
  qed
qed

lemma zip_upt_snoc: "zip [0..<length (xs @ [x])] (xs @ [x]) = zip [0..<length xs] xs @ [(length xs, x)]"
  by simp

definition fresh_station :: "nat \<Rightarrow> mac \<Rightarrow> station" where
  "fresh_station i addr = station_init_queues \<lparr>st_index = i, st_addr = addr, st_hwaddr = addr,
     st_x = 0, st_y = 0, st_dir_x = 0, st_dir_y = 0, st_tx_power = SNR_DEFAULT, st_queues = [],
     st_client = None, st_addrs = []\<rparr>"

lemma load_station_fold:
  assumes "rfold load_station (zip [0..<length ids] ids) s = Inr t"
  shows "\<exists>macs. length macs = length ids \<and>
    (\<forall>i < length ids. \<exists>str. ids ! i = Some str \<and> string_to_mac_address str = Inr (macs ! i)) \<and>
    t = s\<lparr>next_ptr := next_ptr s + length ids,
      sta_mem := (\<lambda>p. if next_ptr s \<le> p \<and> p < next_ptr s + length ids
        then Some (fresh_station (p - next_ptr s) (macs ! (p - next_ptr s))) else sta_mem s p),
      stations := stations s @ [next_ptr s..<next_ptr s + length ids],
      sta_array := map_option (\<lambda>a. a @ [next_ptr s..<next_ptr s + length ids]) (sta_array s)\<rparr>"
  using assms
proof (induction ids arbitrary: t rule: rev_induct)
  case Nil
  have m: "(\<lambda>p. if next_ptr s \<le> p \<and> p < next_ptr s + length []
        then Some (fresh_station (p - next_ptr s) ([] ! (p - next_ptr s))) else sta_mem s p) = sta_mem s"
    by (auto simp: fun_eq_iff)
  have "t = s" using Nil by simp
  then show ?case
    by (intro exI [of _ "[]"] conjI) (simp_all only: m, simp_all add: option.map_ident)
next
  case (snoc x ids)
  then obtain u where u: "rfold load_station (zip [0..<length ids] ids) s = Inr u"
    and last: "load_station (length ids, x) u = Inr t"
    unfolding zip_upt_snoc rfold_append by (auto simp: result_simps)
  obtain macs where macs: "length macs = length ids"
    "\<forall>i < length ids. \<exists>str. ids ! i = Some str \<and> string_to_mac_address str = Inr (macs ! i)"
    and ueq: "u = s\<lparr>next_ptr := next_ptr s + length ids,
      sta_mem := (\<lambda>p. if next_ptr s \<le> p \<and> p < next_ptr s + length ids
        then Some (fresh_station (p - next_ptr s) (macs ! (p - next_ptr s))) else sta_mem s p),
      stations := stations s @ [next_ptr s..<next_ptr s + length ids],
      sta_array := map_option (\<lambda>a. a @ [next_ptr s..<next_ptr s + length ids]) (sta_array s)\<rparr>"
    using snoc.IH [OF u] by blast
  obtain str a where str: "x = Some str" "string_to_mac_address str = Inr a"
    using last by (auto simp: load_station_def result_simps)
  let ?n = "length ids"
  let ?macs = "macs @ [a]"
  have t: "t = u\<lparr>next_ptr := next_ptr u + 1, sta_mem := (sta_mem u)(next_ptr u \<mapsto> fresh_station ?n a),
      stations := stations u @ [next_ptr u], sta_array := map_option (\<lambda>a. a @ [next_ptr u]) (sta_array u)\<rparr>"
    using last str by (simp add: load_station_def fresh_station_def Let_def)
  have mem: "(\<lambda>p. if next_ptr s \<le> p \<and> p < next_ptr s + ?n
        then Some (fresh_station (p - next_ptr s) (macs ! (p - next_ptr s))) else sta_mem s p)
      (next_ptr s + ?n \<mapsto> fresh_station ?n a) =
      (\<lambda>p. if next_ptr s \<le> p \<and> p < next_ptr s + length (ids @ [x])
        then Some (fresh_station (p - next_ptr s) (?macs ! (p - next_ptr s))) else sta_mem s p)"
    using macs(1) by (auto simp: fun_eq_iff nth_append)
  have arr: "map_option (\<lambda>a. a @ [next_ptr s + ?n]) (map_option (\<lambda>a. a @ [next_ptr s..<next_ptr s + ?n]) (sta_array s)) =
      map_option (\<lambda>a. a @ [next_ptr s..<next_ptr s + length (ids @ [x])]) (sta_array s)"
    by (simp add: option.map_comp o_def)
  have "t = s\<lparr>next_ptr := next_ptr s + length (ids @ [x]),
      sta_mem := (\<lambda>p. if next_ptr s \<le> p \<and> p < next_ptr s + length (ids @ [x])
        then Some (fresh_station (p - next_ptr s) (?macs ! (p - next_ptr s))) else sta_mem s p),
      stations := stations s @ [next_ptr s..<next_ptr s + length (ids @ [x])],
      sta_array := map_option (\<lambda>a. a @ [next_ptr s..<next_ptr s + length (ids @ [x])]) (sta_array s)\<rparr>"
    unfolding mem [symmetric] arr [symmetric] t ueq by simp
  moreover have "\<forall>i < length (ids @ [x]). \<exists>str. (ids @ [x]) ! i = Some str \<and>
      string_to_mac_address str = Inr (?macs ! i)"
    using macs str by (auto simp: nth_append less_Suc_eq)
  ultimately show ?case using macs(1) by (intro exI [of _ ?macs]) simp
qed

lemma load_per_Inr:
  "load_per scanf_f content file s = Inr (0, t) \<Longrightarrow>
   t = s\<lparr>get_link_snr_fn := Snr_from_matrix, get_error_prob_fn := get_error_prob_fn t,
     per_table := per_table t\<rparr>"
  by (auto simp: load_per_def Let_def result_simps split: option.splits if_splits)

lemma load_interference_fields:
  "num_stas (load_interference cf s) = num_stas s" "stations (load_interference cf s) = stations s"
  "sta_mem (load_interference cf s) = sta_mem s" "sta_array (load_interference cf s) = sta_array s"
  by (simp_all add: load_interference_def)

lemma load_fading_fields:
  "num_stas (load_fading cf s) = num_stas s" "stations (load_fading cf s) = stations s"
  "sta_mem (load_fading cf s) = sta_mem s" "sta_array (load_fading cf s) = sta_array s"
  by (simp_all add: load_fading_def split: option.split)

text \<open>Claim C32: loading a configuration with links. If \<open>load_config\<close> succeeds, every link was
  valid, one new station was made for each interface, in order and with its address, and the
  lookup of the link between any two of them stays inside the matrix and gives the last value
  configured for that direction, else the last one for the opposite direction, else the
  default.\<close>

theorem load_config_links:
  assumes "load_config ops config_read scanf_f content mv path per_file s = Inr (0, s')"
    and "config_read path = Some cf" and "cfg_ids cf = Some ids" and "cfg_iface_links cf = Some ls"
  defines "p \<equiv> next_ptr s"
  shows "(\<forall>l \<in> set ls. link_ok (length ids) l) \<and> num_stas s' = length ids \<and>
    stations s' = stations s @ [p..<p + length ids] \<and> sta_array s' = Some [p..<p + length ids] \<and>
    (\<forall>i < length ids. \<exists>st str. sta_mem s' (p + i) = Some st \<and> st_index st = i \<and>
       ids ! i = Some str \<and> string_to_mac_address str = Inr (st_addr st)) \<and>
    (\<forall>i < length ids. \<forall>j < length ids. get_link_snr s' (p + i) (p + j) = Inr (link_snr ls i j))"
proof -
  let ?n = "length ids"
  obtain s1 where s1: "load_stations ids (s\<lparr>config_path := Some path\<rparr>) = Inr s1"
    using assms(1-3) by (auto simp: load_config_def result_simps)
  let ?s2 = "(load_fading cf (load_interference cf s1))\<lparr>snr_matrix := Block (replicate (?n * ?n) SNR_DEFAULT)\<rparr>"
  have rest: "rbind (load_per scanf_f content per_file ?s2) (\<lambda>(r, s).
      if r \<noteq> 0 then load_fail s
      else rbind (load_error_probs cf None s) (\<lambda>(r, d, s).
        if r \<noteq> 0 then load_fail s
        else rbind (load_links (Some ls) None d s) (\<lambda>(r, s).
          if r \<noteq> 0 then load_fail s else Inr (0, s)))) = Inr (0, s')"
    using assms(1-4) s1 by (simp add: load_config_def Let_def load_model_def)
  have fail: "load_fail x \<noteq> Inr (0, y)" for x y :: "'a wmediumd_scheme"
    by (auto simp: load_fail_def Let_def result_simps)
  obtain s3 where s3: "load_per scanf_f content per_file ?s2 = Inr (0, s3)"
    and rest3: "rbind (load_links (Some ls) None 0 (s3\<lparr>error_prob_matrix := Null\<rparr>)) (\<lambda>(r, s).
          if r \<noteq> 0 then load_fail s else Inr (0, s)) = Inr (0, s')"
    using rest fail by (auto simp: load_error_probs_def rbind_eq_Inr split: if_splits)
  obtain e pt where s3eq: "s3 = ?s2\<lparr>get_link_snr_fn := Snr_from_matrix, get_error_prob_fn := e, per_table := pt\<rparr>"
    using load_per_Inr [OF s3] by metis
  obtain s0 where s0: "rfold load_station (zip [0..<?n] ids) (s\<lparr>config_path := Some path, sta_array := Some []\<rparr>) = Inr s0"
    and s1eq: "s1 = s0\<lparr>num_stas := ?n\<rparr>"
    using s1 by (auto simp: load_stations_def result_simps)
  have nu: "next_ptr (s\<lparr>config_path := Some path, sta_array := Some []\<rparr>) = p"
    "sta_mem (s\<lparr>config_path := Some path, sta_array := Some []\<rparr>) = sta_mem s"
    "stations (s\<lparr>config_path := Some path, sta_array := Some []\<rparr>) = stations s"
    "sta_array (s\<lparr>config_path := Some path, sta_array := Some []\<rparr>) = Some []"
    by (simp_all add: p_def)
  obtain macs where macs: "length macs = ?n"
    "\<forall>i < ?n. \<exists>str. ids ! i = Some str \<and> string_to_mac_address str = Inr (macs ! i)"
    and s0eq: "s0 = s\<lparr>config_path := Some path, sta_array := Some [p..<p + ?n], next_ptr := p + ?n,
      sta_mem := (\<lambda>q. if p \<le> q \<and> q < p + ?n
        then Some (fresh_station (q - p) (macs ! (q - p))) else sta_mem s q),
      stations := stations s @ [p..<p + ?n]\<rparr>"
    using load_station_fold [OF s0, unfolded nu] by auto
  let ?s4 = "s3\<lparr>error_prob_matrix := Null\<rparr>"
  have n4: "num_stas ?s4 = ?n" "snr_matrix ?s4 = Block (replicate (?n * ?n) SNR_DEFAULT)"
    "error_prob_matrix ?s4 = Null" "get_link_snr_fn ?s4 = Snr_from_matrix"
    "stations ?s4 = stations s @ [p..<p + ?n]" "sta_array ?s4 = Some [p..<p + ?n]"
    "sta_mem ?s4 = (\<lambda>q. if p \<le> q \<and> q < p + ?n
        then Some (fresh_station (q - p) (macs ! (q - p))) else sta_mem s q)"
    unfolding s3eq by (simp_all add: load_fading_fields load_interference_fields s1eq s0eq)
  obtain m where m: "length m = ?n * ?n"
    "\<forall>i < ?n. \<forall>j < ?n. (\<forall>l \<in> set ls. link_ok ?n l) \<longrightarrow> m ! (?n * i + j) = link_snr ls i j"
    and ll: "load_links (Some ls) None 0 ?s4 =
      Inr (if \<forall>l \<in> set ls. link_ok ?n l then 0 else - EINVAL, ?s4\<lparr>snr_matrix := Block m\<rparr>)"
    using load_links_snr [OF n4(1-3)] by blast
  have ok: "\<forall>l \<in> set ls. link_ok ?n l"
    using rest3 fail unfolding ll by (auto split: if_splits)
  have s': "s' = ?s4\<lparr>snr_matrix := Block m\<rparr>"
    using rest3 ok unfolding ll by simp
  have st: "sta_mem s' (p + i) = Some (fresh_station i (macs ! i))" if "i < ?n" for i
    unfolding s' using that n4(7) by simp
  have idx: "st_index (fresh_station i a) = i" "st_addr (fresh_station i a) = a" for i a
    by (simp_all add: fresh_station_def station_init_queues_def)
  have "get_link_snr s' (p + i) (p + j) = Inr (link_snr ls i j)" if "i < ?n" "j < ?n" for i j
    using that ok m n4 st idx index_less [of i ?n j]
    by (simp add: get_link_snr_def sta_def s' nth_result_def mult.commute)
  moreover have "num_stas s' = ?n" "stations s' = stations s @ [p..<p + ?n]" "sta_array s' = Some [p..<p + ?n]"
    using n4 by (simp_all add: s')
  ultimately show ?thesis using ok macs(2) st idx by auto
qed

section \<open>Invalid configurations\<close>

definition ids_parse :: "string option list \<Rightarrow> bool" where
  "ids_parse ids \<longleftrightarrow> (\<forall>x \<in> set ids. case x of None \<Rightarrow> False
     | Some str \<Rightarrow> (case string_to_mac_address str of Inl _ \<Rightarrow> False | Inr _ \<Rightarrow> True))"

lemma load_stations_total:
  assumes "ids_parse ids"
  shows "\<exists>t. load_stations ids s = Inr t"
proof -
  have step: "\<exists>t. load_station (i, x) u = Inr t" if "x \<in> set ids" for i x and u :: "'a wmediumd_scheme"
  proof -
    obtain str a where "x = Some str" "string_to_mac_address str = Inr a"
      using bspec [OF assms [unfolded ids_parse_def] \<open>x \<in> set ids\<close>]
      by (cases x) (auto split: sum.splits)
    then show ?thesis by (simp add: load_station_def Let_def)
  qed
  have "\<exists>t. rfold load_station xs u = Inr t" if "set (map snd xs) \<subseteq> set ids" for xs and u :: "'a wmediumd_scheme"
    using that
  proof (induction xs arbitrary: u)
    case (Cons x xs)
    obtain i y where x: "x = (i, y)" by (cases x)
    then obtain v where "load_station x u = Inr v" using step [of y i u] Cons.prems by auto
    then show ?case using Cons by simp
  qed simp
  moreover have "set (map snd (zip [0..<length ids] ids)) \<subseteq> set ids" by simp
  ultimately obtain t where "rfold load_station (zip [0..<length ids] ids) (s\<lparr>sta_array := Some []\<rparr>) = Inr t"
    by blast
  then show ?thesis by (simp add: load_stations_def)
qed

text \<open>Claim C33: a configuration with an invalid link (not three numbers, or a station that does
  not exist) makes \<open>load_config\<close> fail with \<open>EINVAL\<close> and leaves the pointer to the freed matrix
  behind, so that \<open>validate_config\<close>, which clears the context whatever the result, frees the
  matrix a second time: the check that protects the reload of a configuration is undefined
  behaviour on exactly the files it should reject.\<close>

theorem invalid_link_double_free:
  assumes "config_read path = Some cf" and "cfg_ids cf = Some ids" and "ids_parse ids"
    and "cfg_iface_links cf = Some ls" and "l \<in> set ls" and "\<not> link_ok (length ids) l"
  shows "(\<exists>s'. load_config ops config_read scanf_f content mv path None s = Inr (- EINVAL, s') \<and>
      snr_matrix s' = Freed) \<and>
    validate_config ops config_read scanf_f content path s = Inl Use_after_free"
proof -
  have bad: "\<not> (\<forall>l \<in> set ls. link_ok (length ids) l)" using assms(5,6) by blast
  have load: "\<exists>s'. load_config ops config_read scanf_f content mv path None u = Inr (- EINVAL, s') \<and>
      snr_matrix s' = Freed" for u mv
  proof -
    let ?n = "length ids"
    obtain s1 where s1: "load_stations ids (u\<lparr>config_path := Some path\<rparr>) = Inr s1"
      using load_stations_total [OF assms(3)] by blast
    then have n1: "num_stas s1 = ?n" by (auto simp: load_stations_def result_simps)
    let ?s2 = "(load_fading cf (load_interference cf s1))\<lparr>snr_matrix := Block (replicate (?n * ?n) SNR_DEFAULT)\<rparr>"
    let ?s3 = "?s2\<lparr>get_link_snr_fn := Snr_from_matrix, get_error_prob_fn := Prob_from_snr,
        per_table := (per_table ?s2)\<lparr>per_matrix := [], per_matrix_row_num := 0\<rparr>, error_prob_matrix := Null\<rparr>"
    have n3: "num_stas ?s3 = ?n" "snr_matrix ?s3 = Block (replicate (?n * ?n) SNR_DEFAULT)"
      "error_prob_matrix ?s3 = Null"
      by (simp_all add: load_fading_fields load_interference_fields n1)
    obtain m where "load_links (Some ls) None 0 ?s3 =
        Inr (if \<forall>l \<in> set ls. link_ok ?n l then 0 else - EINVAL, ?s3\<lparr>snr_matrix := Block m\<rparr>)"
      using load_links_snr [OF n3] by blast
    then have "load_links (Some ls) None 0 ?s3 = Inr (- EINVAL, ?s3\<lparr>snr_matrix := Block m\<rparr>)"
      unfolding if_not_P [OF bad] .
    then have "load_config ops config_read scanf_f content mv path None u = load_fail (?s3\<lparr>snr_matrix := Block m\<rparr>)"
      using assms(1,2,4) s1
      by (simp add: load_config_def Let_def load_model_def load_per_def load_error_probs_def)
    then show ?thesis by (simp add: load_fail_def free_ptr_def Let_def)
  qed
  obtain t where "load_config ops config_read scanf_f content Stack_move_job path None (zero_context s) =
      Inr (- EINVAL, t)" "snr_matrix t = Freed"
    using load by blast
  then have "validate_config ops config_read scanf_f content path s = Inl Use_after_free"
    by (simp add: validate_config_def clear_config_def free_ptr_def)
  then show ?thesis using load by blast
qed

section \<open>Examples\<close>

definition link_setting :: "int \<Rightarrow> int \<Rightarrow> int \<Rightarrow> setting" where
  "link_setting a b v = \<lparr>set_length = 3,
     set_int = (\<lambda>i. if i = 0 then a else if i = 1 then b else v), set_float = (\<lambda>_. of_int v)\<rparr>"

definition example_config :: "setting list \<Rightarrow> config" where
  "example_config ls = \<lparr>cfg_ids = Some [Some ''02:00:00:00:00:00'', Some ''02:00:00:00:01:00''],
     cfg_enable_interference = None, cfg_fading_coefficient = None, cfg_iface_links = Some ls,
     cfg_model_type = None, cfg_model_links = None, cfg_default_prob = None, cfg_positions = None,
     cfg_directions = None, cfg_tx_powers = None, cfg_model_name = None, cfg_path_loss_exp = None,
     cfg_xg = None, cfg_nfloors = None, cfg_lf = None\<rparr>"

lemma example_macs:
  "string_to_mac_address ''02:00:00:00:00:00'' = Inr [2, 0, 0, 0, 0, 0]"
  "string_to_mac_address ''02:00:00:00:01:00'' = Inr [2, 0, 0, 0, 1, 0]"
  by code_simp+

lemma invalid_link_double_free_witness:
  "validate_config USFSTL_SCHEDULER_ops (\<lambda>_. Some (example_config [link_setting 0 2 15])) (\<lambda>_. None)
     (\<lambda>_. None) ''test.cfg'' example_medium = Inl Use_after_free"
proof (rule invalid_link_double_free [THEN conjunct2])
  show "cfg_ids (example_config [link_setting 0 2 15]) =
      Some [Some ''02:00:00:00:00:00'', Some ''02:00:00:00:01:00'']"
    "cfg_iface_links (example_config [link_setting 0 2 15]) = Some [link_setting 0 2 15]"
    by (simp_all add: example_config_def)
  show "ids_parse [Some ''02:00:00:00:00:00'', Some ''02:00:00:00:01:00'']"
    using example_macs by (simp add: ids_parse_def)
  show "link_setting 0 2 15 \<in> set [link_setting 0 2 15]" by simp
  show "\<not> link_ok (length [Some ''02:00:00:00:00:00'', Some ''02:00:00:00:01:00'']) (link_setting 0 2 15)"
    by (simp add: link_ok_def link_setting_def)
qed simp

lemma example_load:
  "\<exists>s'. load_config USFSTL_SCHEDULER_ops (\<lambda>_. Some (example_config [link_setting 0 1 15])) (\<lambda>_. None)
     (\<lambda>_. None) Move_job ''test.cfg'' None example_medium = Inr (0, s')"
proof -
  let ?ids = "[Some ''02:00:00:00:00:00'', Some ''02:00:00:00:01:00'']"
  have ok: "\<forall>l \<in> set [link_setting 0 1 15]. link_ok 2 l" by (simp add: link_ok_def link_setting_def)
  obtain s1 where s1: "load_stations ?ids (example_medium\<lparr>config_path := Some ''test.cfg''\<rparr>) = Inr s1"
    using load_stations_total [of ?ids] example_macs by (auto simp: ids_parse_def)
  then have n1: "num_stas s1 = 2" by (auto simp: load_stations_def result_simps)
  let ?s2 = "(load_fading (example_config [link_setting 0 1 15]) (load_interference (example_config [link_setting 0 1 15]) s1))
      \<lparr>snr_matrix := Block (replicate (2 * 2) SNR_DEFAULT)\<rparr>"
  let ?s3 = "?s2\<lparr>get_link_snr_fn := Snr_from_matrix, get_error_prob_fn := Prob_from_snr,
      per_table := (per_table ?s2)\<lparr>per_matrix := [], per_matrix_row_num := 0\<rparr>, error_prob_matrix := Null\<rparr>"
  have n3: "num_stas ?s3 = 2" "snr_matrix ?s3 = Block (replicate (2 * 2) SNR_DEFAULT)"
    "error_prob_matrix ?s3 = Null"
    by (simp_all add: load_fading_fields load_interference_fields n1)
  obtain m where "load_links (Some [link_setting 0 1 15]) None 0 ?s3 =
      Inr (if \<forall>l \<in> set [link_setting 0 1 15]. link_ok 2 l then 0 else - EINVAL, ?s3\<lparr>snr_matrix := Block m\<rparr>)"
    using load_links_snr [OF n3] by blast
  then have "load_links (Some [link_setting 0 1 15]) None 0 ?s3 = Inr (0, ?s3\<lparr>snr_matrix := Block m\<rparr>)"
    unfolding if_P [OF ok] .
  then show ?thesis
    using s1 by (simp add: load_config_def Let_def load_model_def load_per_def load_error_probs_def
        example_config_def numeral_2_eq_2)
qed

lemma load_config_links_witness:
  "\<exists>s'. get_link_snr s' 10 9 = Inr 15 \<and> get_link_snr s' 9 10 = Inr 15 \<and> num_stas (s' :: wmediumd) = 2"
proof -
  obtain s' where s': "load_config USFSTL_SCHEDULER_ops (\<lambda>_. Some (example_config [link_setting 0 1 15])) (\<lambda>_. None)
     (\<lambda>_. None) Move_job ''test.cfg'' None example_medium = Inr (0, s')"
    using example_load by blast
  let ?ids = "[Some ''02:00:00:00:00:00'', Some ''02:00:00:00:01:00'']"
  have c: "cfg_ids (example_config ls) = Some ?ids" "cfg_iface_links (example_config ls) = Some ls" for ls
    by (simp_all add: example_config_def)
  have "num_stas s' = length ?ids \<and>
    (\<forall>i < length ?ids. \<forall>j < length ?ids.
      get_link_snr s' (next_ptr example_medium + i) (next_ptr example_medium + j) =
        Inr (link_snr [link_setting 0 1 15] i j))"
    using load_config_links [OF s' refl c] by blast
  moreover have "link_snr [link_setting 0 1 15] 1 0 = 15" "link_snr [link_setting 0 1 15] 0 1 = 15"
    by (simp_all add: link_snr_def last_setting_def link_setting_def last_opt_def)
  moreover have "next_ptr example_medium = 9" by (simp add: example_medium_def)
  ultimately have "num_stas s' = 2"
    "\<forall>i < 2. \<forall>j < 2. get_link_snr s' (9 + i) (9 + j) = Inr (link_snr [link_setting 0 1 15] i j)"
    and v: "link_snr [link_setting 0 1 15] 1 0 = 15" "link_snr [link_setting 0 1 15] 0 1 = 15"
    by (simp_all add: numeral_2_eq_2)
  then have "get_link_snr s' (9 + 1) (9 + 0) = Inr 15" "get_link_snr s' (9 + 0) (9 + 1) = Inr 15"
    "num_stas s' = 2" by (metis one_less_numeral_iff semiring_norm(76) zero_less_numeral)+
  then show ?thesis by (intro exI [of _ s']) simp
qed

end
