(* ===== verification/Path_Loss.thy ===== *)
theory Path_Loss
  imports Config_Links
begin

text \<open>
  The signal between moving stations: what \<open>recalc_path_loss\<close> stores, the periodic move, and
  what loading a configuration with movement does to the scheduler.
\<close>

section \<open>Recomputing the matrix\<close>

lemma distance_sym: "distance a b = distance b a"
proof -
  have "(st_x b - st_x a) * (st_x b - st_x a) = (st_x a - st_x b) * (st_x a - st_x b)"
    "(st_y b - st_y a) * (st_y b - st_y a) = (st_y a - st_y b) * (st_y a - st_y b)"
    by (simp_all add: algebra_simps)
  then show ?thesis by (simp add: distance_def)
qed

lemma calc_path_loss_sym: "calc_path_loss m a b = calc_path_loss m b a"
  by (simp add: calc_path_loss_def calc_path_loss_free_space_def calc_path_loss_log_distance_def
      calc_path_loss_itu_def distance_sym [of a b] split: path_loss_fn.split)

lemma distance_eq_0_iff: "distance a b = 0 \<longleftrightarrow> st_x a = st_x b \<and> st_y a = st_y b"
proof -
  have "distance a b = 0 \<longleftrightarrow> (st_x b - st_x a) * (st_x b - st_x a) + (st_y b - st_y a) * (st_y b - st_y a) = 0"
    by (simp add: distance_def)
  also have "\<dots> \<longleftrightarrow> st_x b - st_x a = 0 \<and> st_y b - st_y a = 0" by (rule sum_squares_eq_zero_iff)
  finally show ?thesis by auto
qed

lemma calc_path_loss_defined:
  "(\<exists>l. calc_path_loss m a b = Inr l) \<longleftrightarrow> \<not> (st_x a = st_x b \<and> st_y a = st_y b)"
  "st_x a = st_x b \<Longrightarrow> st_y a = st_y b \<Longrightarrow> calc_path_loss m a b = Inl Invalid_conversion"
  using distance_eq_0_iff [of a b]
  by (auto simp: calc_path_loss_def calc_path_loss_free_space_def calc_path_loss_log_distance_def
      calc_path_loss_itu_def Let_def split: path_loss_fn.split)

text \<open>The stations of the array and the matrix are in place.\<close>

definition placed :: "'z wmediumd_scheme \<Rightarrow> nat list \<Rightarrow> (nat \<Rightarrow> station) \<Rightarrow> path_loss_fn \<Rightarrow> int list \<Rightarrow> bool" where
  "placed s array st m mat \<longleftrightarrow> sta_array s = Some array \<and> length array = num_stas s \<and>
     (\<forall>i < num_stas s. sta_mem s (array ! i) = Some (st i)) \<and> calc_path_loss_fn s = Some m \<and>
     snr_matrix s = Block mat \<and> length mat = num_stas s * num_stas s"

definition same_place :: "(nat \<Rightarrow> station) \<Rightarrow> nat \<times> nat \<Rightarrow> bool" where
  "same_place st = (\<lambda>(i, j). i \<noteq> j \<and> st_x (st i) = st_x (st j) \<and> st_y (st i) = st_y (st j))"

lemma recalc_pairs:
  assumes p: "placed s array st m mat"
    and apart: "\<forall>x \<in> set ps. \<not> same_place st x"
    and ps: "set ps \<subseteq> {..<num_stas s} \<times> {..<num_stas s}"
  shows "\<exists>mat'. rfold recalc_pair ps s = Inr (s\<lparr>snr_matrix := Block mat'\<rparr>) \<and>
    length mat' = num_stas s * num_stas s \<and>
    (\<forall>i < num_stas s. \<forall>j < num_stas s. mat' ! (num_stas s * i + j) =
      (if (i, j) \<in> set ps \<and> i \<noteq> j
       then st_tx_power (st i) - projr (calc_path_loss m (st j) (st i)) + 91
       else mat ! (num_stas s * i + j)))"
  using ps apart
proof (induction ps rule: rev_induct)
  case Nil
  have "s\<lparr>snr_matrix := Block mat\<rparr> = s" using p by (simp add: placed_def)
  then show ?case using p by (intro exI [of _ mat]) (simp add: placed_def)
next
  case (snoc x ps)
  let ?n = "num_stas s"
  obtain mat1 where ih: "rfold recalc_pair ps s = Inr (s\<lparr>snr_matrix := Block mat1\<rparr>)"
    "length mat1 = ?n * ?n"
    "\<forall>i < ?n. \<forall>j < ?n. mat1 ! (?n * i + j) =
      (if (i, j) \<in> set ps \<and> i \<noteq> j
       then st_tx_power (st i) - projr (calc_path_loss m (st j) (st i)) + 91 else mat ! (?n * i + j))"
    using snoc by auto
  obtain a b where x: "x = (a, b)" by (cases x)
  then have ab: "a < ?n" "b < ?n" using snoc.prems by auto
  show ?case
  proof (cases "a = b")
    case True
    then have "rfold recalc_pair (ps @ [x]) s = Inr (s\<lparr>snr_matrix := Block mat1\<rparr>)"
      using ih x by (simp add: rfold_append recalc_pair_def)
    then show ?thesis using ih(2,3) True x by (intro exI [of _ mat1]) auto
  next
    case False
    let ?v = "st_tx_power (st a) - projr (calc_path_loss m (st b) (st a)) + 91"
    let ?mat = "mat1[?n * a + b := ?v]"
    obtain l where l: "calc_path_loss m (st b) (st a) = Inr l"
      using calc_path_loss_defined(1) [of m "st b" "st a"] snoc.prems(2) False x
      by (auto simp: same_place_def)
    have "recalc_pair (a, b) (s\<lparr>snr_matrix := Block mat1\<rparr>) = Inr (s\<lparr>snr_matrix := Block ?mat\<rparr>)"
      using False p ab l ih(2) index_less [of a ?n b]
      by (simp add: recalc_pair_def placed_def sta_def nth_result_def poke_def upd_result_def)
    then have "rfold recalc_pair (ps @ [x]) s = Inr (s\<lparr>snr_matrix := Block ?mat\<rparr>)"
      using ih x by (simp add: rfold_append)
    moreover have "?mat ! (?n * i + j) =
      (if (i, j) \<in> set (ps @ [x]) \<and> i \<noteq> j
       then st_tx_power (st i) - projr (calc_path_loss m (st j) (st i)) + 91 else mat ! (?n * i + j))"
      if "i < ?n" "j < ?n" for i j
      using ih(2,3) ab that x False by (auto simp: nth_update_index)
    ultimately show ?thesis using ih(2) by (intro exI [of _ ?mat]) simp
  qed
qed

lemma recalc_same_place:
  assumes p: "placed s array st m mat" and ps: "set ps \<subseteq> {..<num_stas s} \<times> {..<num_stas s}"
    and close: "\<exists>x \<in> set ps. same_place st x"
  shows "rfold recalc_pair ps s = Inl Invalid_conversion"
  using ps close
proof (induction ps rule: rev_induct)
  case (snoc x ps)
  let ?n = "num_stas s"
  show ?case
  proof (cases "\<exists>y \<in> set ps. same_place st y")
    case True
    then show ?thesis using snoc by (simp add: rfold_append)
  next
    case False
    then obtain mat1 where "rfold recalc_pair ps s = Inr (s\<lparr>snr_matrix := Block mat1\<rparr>)"
      using recalc_pairs [OF p, of ps] snoc.prems(1) by auto
    moreover obtain a b where x: "x = (a, b)" "a < ?n" "b < ?n" "a \<noteq> b"
      "st_x (st a) = st_x (st b)" "st_y (st a) = st_y (st b)"
      using False snoc.prems by (cases x) (auto simp: same_place_def)
    moreover have "recalc_pair (a, b) (s\<lparr>snr_matrix := Block mat1\<rparr>) = Inl Invalid_conversion"
      using p x calc_path_loss_defined(2) [of "st b" "st a" m]
      by (simp add: recalc_pair_def placed_def sta_def nth_result_def)
    ultimately show ?thesis by (simp add: rfold_append)
  qed
qed simp

text \<open>Claim C34: recomputing the path loss. If no two stations stand at the same place, the result
  has for every link from one station to another the transmission power of the sender, less
  the loss of the model at their distance, above the noise, and leaves the diagonal alone; the
  loss is the same in both directions, so that two stations of equal power hear each other
  equally well. Two stations at the same place make it convert minus infinity to an integer.\<close>

theorem recalc_path_loss_matrix:
  assumes p: "placed s array st m mat"
  shows "if \<exists>i < num_stas s. \<exists>j < num_stas s. same_place st (i, j)
    then recalc_path_loss s = Inl Invalid_conversion
    else \<exists>mat' loss. recalc_path_loss s = Inr (s\<lparr>snr_matrix := Block mat'\<rparr>) \<and>
      length mat' = num_stas s * num_stas s \<and>
      (\<forall>i < num_stas s. \<forall>j < num_stas s. i \<noteq> j \<longrightarrow>
         calc_path_loss m (st j) (st i) = Inr (loss i j) \<and> loss j i = loss i j \<and>
         mat' ! (num_stas s * i + j) = st_tx_power (st i) - loss i j + 91) \<and>
      (\<forall>i < num_stas s. mat' ! (num_stas s * i + i) = mat ! (num_stas s * i + i))"
proof -
  let ?n = "num_stas s" and ?ps = "List.product [0..<num_stas s] [0..<num_stas s]"
  let ?loss = "\<lambda>i j. projr (calc_path_loss m (st j) (st i))"
  have ps: "set ?ps = {..<?n} \<times> {..<?n}" by auto
  show ?thesis
  proof (split if_split, intro conjI impI)
    assume "\<exists>i < ?n. \<exists>j < ?n. same_place st (i, j)"
    then show "recalc_path_loss s = Inl Invalid_conversion"
      unfolding recalc_path_loss_def using ps by (intro recalc_same_place [OF p]) auto
  next
    assume "\<not> (\<exists>i < ?n. \<exists>j < ?n. same_place st (i, j))"
    then have apart: "\<forall>x \<in> set ?ps. \<not> same_place st x" using ps by auto
    then obtain mat' where mat': "recalc_path_loss s = Inr (s\<lparr>snr_matrix := Block mat'\<rparr>)"
      "length mat' = ?n * ?n"
      "\<forall>i < ?n. \<forall>j < ?n. mat' ! (?n * i + j) =
        (if (i, j) \<in> set ?ps \<and> i \<noteq> j then st_tx_power (st i) - ?loss i j + 91 else mat ! (?n * i + j))"
      using recalc_pairs [OF p apart] ps by (auto simp: recalc_path_loss_def)
    define loss where "loss = ?loss"
    have "calc_path_loss m (st j) (st i) = Inr (loss i j) \<and> loss j i = loss i j"
      if ij: "i < ?n" "j < ?n" "i \<noteq> j" for i j
    proof -
      have "\<not> same_place st (j, i)" using apart ps ij by auto
      then obtain l where "calc_path_loss m (st j) (st i) = Inr l"
        using calc_path_loss_defined(1) [of m "st j" "st i"] ij(3)
        by (simp add: same_place_def) metis
      then show ?thesis using calc_path_loss_sym [of m "st i" "st j"] by (simp add: loss_def)
    qed
    moreover have "mat' ! (?n * i + j) = (if i \<noteq> j then st_tx_power (st i) - loss i j + 91
        else mat ! (?n * i + j))" if "i < ?n" "j < ?n" for i j
      using mat'(3) that ps by (simp add: loss_def)
    ultimately show "\<exists>mat' loss. recalc_path_loss s = Inr (s\<lparr>snr_matrix := Block mat'\<rparr>) \<and>
      length mat' = ?n * ?n \<and>
      (\<forall>i < ?n. \<forall>j < ?n. i \<noteq> j \<longrightarrow>
         calc_path_loss m (st j) (st i) = Inr (loss i j) \<and> loss j i = loss i j \<and>
         mat' ! (?n * i + j) = st_tx_power (st i) - loss i j + 91) \<and>
      (\<forall>i < ?n. mat' ! (?n * i + i) = mat ! (?n * i + i))"
      using mat'(1,2) by (intro exI [of _ mat'] exI [of _ loss]) simp
  qed
qed

lemma recalc_path_loss_matrix_witness:
  "recalc_path_loss (example_medium\<lparr>calc_path_loss_fn := Some Free_space\<rparr>) = Inl Invalid_conversion"
proof -
  let ?s = "example_medium\<lparr>calc_path_loss_fn := Some Free_space\<rparr>"
  let ?st = "\<lambda>i. if i = 0 then example_station 0 0 else example_station 1 1"
  have p: "placed ?s [0, 1] ?st Free_space [0, 20, 20, 0]"
    by (auto simp: placed_def example_medium_def less_2_cases_iff)
  have "\<exists>i < num_stas ?s. \<exists>j < num_stas ?s. same_place ?st (i, j)"
    by (rule exI [of _ 0], simp add: example_defs, rule exI [of _ 1], simp add: same_place_def example_defs)
  then show ?thesis using recalc_path_loss_matrix [OF p] by simp
qed

section \<open>Movement and the scheduler\<close>

text \<open>Library: a configuration with movement can be loaded only once and only in the first three
  seconds. Loading it adds the move job at time 3000000; when that is in the past, or when the
  job is still scheduled from the load before, the scheduler aborts the program. A reload
  therefore never survives the second load of such a configuration, and the check before it
  adds a job of a context that lives on the stack of \<open>validate_config\<close>.\<close>

theorem schedule_move_once:
  assumes "cfg_directions cf = Some directions" and "length directions = num_stas s"
    and "mv \<in> set (joblist s) \<or> unat (current_time s) > 3000000 \<and> unat (current_time s) < 2 ^ 63"
  shows "schedule_move ops mv cf s = Inl Assertion_failed"
proof -
  let ?s = "set_job_start mv 3000000 s"
  have t: "start_of ?s mv = 3000000" "current_time ?s = current_time s" "joblist ?s = joblist s"
    by (simp_all add: set_job_start_def)
  have "usfstl_sched_add_job ops mv ?s = Inl Assertion_failed"
  proof (cases "mv \<in> set (joblist s)")
    case True
    then show ?thesis
      by (simp add: usfstl_sched_add_job_def usfstl_job_scheduled_def t rassert_def)
  next
    case False
    then have late: "unat (current_time s) > 3000000" "unat (current_time s) < 2 ^ 63" using assms(3) by auto
    have u: "unat (3000000 :: u64) = 3000000" by simp
    have w: "in_window 0 (3000000 :: u64)" "in_window 0 (current_time s)"
      unfolding in_window_zero u using late(2) by simp_all
    have "\<not> time_ge (3000000 :: u64) (current_time s)"
      unfolding time_ge_window [OF w] ahead_zero u using late(1) by simp
    then show ?thesis by (simp add: usfstl_sched_add_job_def t rassert_def)
  qed
  then show ?thesis using assms(1,2) by (simp add: schedule_move_def)
qed

lemma schedule_move_once_witness:
  "schedule_move USFSTL_SCHEDULER_ops Move_job ((example_config [])\<lparr>cfg_directions := Some [link_setting 0 0 0, link_setting 0 0 0]\<rparr>)
     (example_medium\<lparr>joblist := [Move_job]\<rparr>) = Inl Assertion_failed"
  by (rule schedule_move_once [where directions = "[link_setting 0 0 0, link_setting 0 0 0]"])
    (simp_all add: example_medium_def example_config_def)

end
