(* ===== verification/Guest_Memory.thy ===== *)
theory Guest_Memory
  imports Medium
begin

text \<open>
  The memory that a vhost-user device shares with its guest, and the copying between a buffer and
  the pieces of that memory (\<open>iov_len\<close>, \<open>iov_fill\<close> and \<open>iov_read\<close> of
  \<open>wmediumd/lib/vhost.c\<close>). An address is 64 bits wide, a byte that is in no mapping is \<open>None\<close>, and
  an access to it is \<open>Out_of_bounds\<close>. The host is little-endian, where the conversions between
  virtio and host order do nothing with and without VIRTIO_F_VERSION_1.
\<close>

section \<open>Memory\<close>

type_synonym memory = "u64 \<Rightarrow> u8 option"

definition load :: "nat \<Rightarrow> u64 \<Rightarrow> memory \<Rightarrow> u8 list result" where
  "load n a m =
     (if list_all (\<lambda>i. m (a + word_of_nat i) \<noteq> None) [0..<n]
      then Inr (map (\<lambda>i. the (m (a + word_of_nat i))) [0..<n]) else Inl Out_of_bounds)"

definition store :: "u8 list \<Rightarrow> u64 \<Rightarrow> memory \<Rightarrow> memory result" where
  "store bs a m =
     (if list_all (\<lambda>i. m (a + word_of_nat i) \<noteq> None) [0..<length bs]
      then Inr (\<lambda>x. if unat (x - a) < length bs then Some (bs ! unat (x - a)) else m x)
      else Inl Out_of_bounds)"

definition load16 :: "u64 \<Rightarrow> memory \<Rightarrow> u16 result" where
  "load16 a m = rbind (load 2 a m) (\<lambda>bs. Inr (word_of_nat (from_le bs)))"

definition load32 :: "u64 \<Rightarrow> memory \<Rightarrow> u32 result" where
  "load32 a m = rbind (load 4 a m) (\<lambda>bs. Inr (word_of_nat (from_le bs)))"

definition load64 :: "u64 \<Rightarrow> memory \<Rightarrow> u64 result" where
  "load64 a m = rbind (load 8 a m) (\<lambda>bs. Inr (word_of_nat (from_le bs)))"

definition store16 :: "u16 \<Rightarrow> u64 \<Rightarrow> memory \<Rightarrow> memory result" where
  "store16 v = store (le_bytes 2 v)"

definition store32 :: "u32 \<Rightarrow> u64 \<Rightarrow> memory \<Rightarrow> memory result" where
  "store32 v = store (le_bytes 4 v)"

section \<open>Pieces of memory\<close>

fun iov_len :: "(u64 \<times> u32) list \<Rightarrow> nat" where
  "iov_len [] = 0"
| "iov_len ((base, len) # sg) = unat len + iov_len sg"

text \<open>The result is the number of copied bytes and the memory.\<close>

fun iov_fill :: "(u64 \<times> u32) list \<Rightarrow> u8 list \<Rightarrow> memory \<Rightarrow> (nat \<times> memory) result" where
  "iov_fill [] buf m = Inr (0, m)"
| "iov_fill ((base, len) # sg) buf m =
     (if buf = [] then Inr (0, m)
      else let cpy = min (length buf) (unat len) in
        rbind (store (take cpy buf) base m) (\<lambda>m.
        rbind (iov_fill sg (drop cpy buf) m) (\<lambda>(copied, m).
        Inr (cpy + copied, m))))"

text \<open>The bytes that are copied to a buffer of \<open>buflen\<close> bytes.\<close>

fun iov_read :: "nat \<Rightarrow> (u64 \<times> u32) list \<Rightarrow> memory \<Rightarrow> u8 list result" where
  "iov_read buflen [] m = Inr []"
| "iov_read buflen ((base, len) # sg) m =
     (if buflen = 0 then Inr []
      else let cpy = min buflen (unat len) in
        rbind (load cpy base m) (\<lambda>bs.
        rbind (iov_read (buflen - cpy) sg m) (\<lambda>rest.
        Inr (bs @ rest))))"

section \<open>Loads and stores\<close>

text \<open>The addresses of \<open>n\<close> bytes from \<open>a\<close> on.\<close>

definition piece :: "u64 \<Rightarrow> nat \<Rightarrow> u64 set" where
  "piece a n = {x. unat (x - a) < n}"

lemma unat_u64: "i < 2 ^ 64 \<Longrightarrow> unat (word_of_nat i :: u64) = i"
  by (simp add: unsigned_of_nat take_bit_nat_eq_self)

lemma in_piece: "a + word_of_nat i \<in> piece a n" if "i < n" "n \<le> 2 ^ 64"
  using that by (simp add: piece_def unat_u64)

lemma piece_set: "n \<le> 2 ^ 64 \<Longrightarrow> piece a n = set (map (\<lambda>i. a + word_of_nat i) [0..<n])"
proof
  show "piece a n \<subseteq> set (map (\<lambda>i. a + word_of_nat i) [0..<n])"
  proof
    fix x assume "x \<in> piece a n"
    then show "x \<in> set (map (\<lambda>i. a + word_of_nat i) [0..<n])"
      by (auto simp: piece_def intro!: image_eqI [of _ _ "unat (x - a)"])
  qed
qed (auto simp: in_piece)

text \<open>Pieces at an offset into others.\<close>

lemma piece_offset:
  assumes "x \<in> piece (a + word_of_nat k) n" and "k + n \<le> 2 ^ 64"
  shows "unat (x - a) = k + unat (x - (a + word_of_nat k))"
proof -
  let ?j = "unat (x - (a + word_of_nat k))"
  have "x - a = word_of_nat k + word_of_nat ?j" by simp
  also have "\<dots> = word_of_nat (k + ?j)" by simp
  finally show ?thesis using assms unat_u64 [of "k + ?j"] by (simp add: piece_def)
qed

lemma piece_within: "k + n \<le> b \<Longrightarrow> b \<le> 2 ^ 64 \<Longrightarrow> piece (a + word_of_nat k) n \<subseteq> piece a b"
proof
  fix x assume b: "k + n \<le> b" "b \<le> 2 ^ 64" and x: "x \<in> piece (a + word_of_nat k) n"
  have "unat (x - a) = k + unat (x - (a + word_of_nat k))" by (rule piece_offset [OF x]) (use b in simp)
  then show "x \<in> piece a b" using x b(1) by (simp add: piece_def)
qed

lemma pieces_apart:
  assumes "i + n \<le> k" and "k + l \<le> 2 ^ 64"
  shows "piece (a + word_of_nat i) n \<inter> piece (a + word_of_nat k) l = {}"
proof -
  have "False" if x: "x \<in> piece (a + word_of_nat i) n" "x \<in> piece (a + word_of_nat k) l" for x
    using piece_offset [OF x(1)] piece_offset [OF x(2)] x assms by (simp add: piece_def)
  then show ?thesis by blast
qed

lemma load_eq_Inr:
  "load n a m = Inr bs \<longleftrightarrow> length bs = n \<and> (\<forall>i < n. m (a + word_of_nat i) = Some (bs ! i))"
proof
  assume "load n a m = Inr bs"
  then have all: "\<forall>i < n. m (a + word_of_nat i) \<noteq> None" and bs: "bs = map (\<lambda>i. the (m (a + word_of_nat i))) [0..<n]"
    by (auto simp: load_def list_all_iff split: if_splits)
  show "length bs = n \<and> (\<forall>i < n. m (a + word_of_nat i) = Some (bs ! i))"
    using all unfolding bs by auto
next
  assume r: "length bs = n \<and> (\<forall>i < n. m (a + word_of_nat i) = Some (bs ! i))"
  then have "map (\<lambda>i. the (m (a + word_of_nat i))) [0..<n] = bs"
    by (intro nth_equalityI) simp_all
  then show "load n a m = Inr bs" using r by (simp add: load_def list_all_iff)
qed

lemma store_eq_Inr:
  "store bs a m = Inr m' \<longleftrightarrow> (\<forall>i < length bs. m (a + word_of_nat i) \<noteq> None) \<and>
     m' = (\<lambda>x. if x \<in> piece a (length bs) then Some (bs ! unat (x - a)) else m x)"
  by (auto simp: store_def list_all_iff piece_def)

lemma load_cong: "(\<And>x. x \<in> piece a n \<Longrightarrow> m x = m' x) \<Longrightarrow> n \<le> 2 ^ 64 \<Longrightarrow> load n a m = load n a m'"
  unfolding load_def using in_piece [of _ n a] by (intro if_cong arg_cong [where f = Inr] map_cong) (auto simp: list_all_iff)

text \<open>What was stored is loaded again.\<close>

lemma load_store:
  assumes "store bs a m = Inr m'" and "length bs \<le> 2 ^ 64"
  shows "load (length bs) a m' = Inr bs"
  unfolding load_eq_Inr using assms in_piece [of _ "length bs" a] by (auto simp: store_eq_Inr unat_u64)

text \<open>A store elsewhere changes nothing.\<close>

lemma load_store_other:
  assumes "store bs a m = Inr m'" and "piece a (length bs) \<inter> piece b n = {}" and "n \<le> 2 ^ 64"
  shows "load n b m' = load n b m"
  by (rule load_cong) (use assms in \<open>auto simp: store_eq_Inr\<close>)

lemma store_mapped:
  assumes "store bs a m = Inr m'"
  shows "m' x = None \<longleftrightarrow> m x = None"
proof (cases "x \<in> piece a (length bs)")
  case True
  then have "m (a + word_of_nat (unat (x - a))) \<noteq> None" using assms by (auto simp: store_eq_Inr piece_def)
  then show ?thesis using True assms by (simp add: store_eq_Inr)
qed (use assms in \<open>simp add: store_eq_Inr\<close>)

lemma store_ok:
  assumes "\<forall>x \<in> piece a (length bs). m x \<noteq> None" and "length bs \<le> 2 ^ 64"
  shows "\<exists>m'. store bs a m = Inr m'"
  using assms in_piece [of _ "length bs" a] by (auto simp: store_def list_all_iff)

text \<open>What can be loaded from a part of the memory is the same in all of it.\<close>

lemma load_mono: "load n a m = Inr bs \<Longrightarrow> m \<subseteq>\<^sub>m m' \<Longrightarrow> load n a m' = Inr bs"
  unfolding load_eq_Inr map_le_def by (metis domIff option.distinct(1))

lemma load_int_mono:
  "load16 a m = Inr v \<Longrightarrow> m \<subseteq>\<^sub>m m' \<Longrightarrow> load16 a m' = Inr v"
  "load32 a m = Inr w \<Longrightarrow> m \<subseteq>\<^sub>m m' \<Longrightarrow> load32 a m' = Inr w"
  "load64 a m = Inr x \<Longrightarrow> m \<subseteq>\<^sub>m m' \<Longrightarrow> load64 a m' = Inr x"
  by (auto simp: load16_def load32_def load64_def rbind_eq_Inr dest: load_mono)

lemma load16_le: "word_of_nat (from_le (le_bytes 2 (v :: u16))) = v"
proof -
  have "unat v < 2 ^ LENGTH(16)" by (rule unsigned_less)
  then show ?thesis using from_le_bytes [of 2 v] by (simp add: take_bit_nat_eq_self)
qed

lemma load16_store16: "store16 v a m = Inr m' \<Longrightarrow> load16 a m' = Inr v"
  using load_store [of "le_bytes 2 v" a m m'] by (simp add: store16_def load16_def load16_le)

lemma load32_store32: "store32 v a m = Inr m' \<Longrightarrow> load32 a m' = Inr v"
  using load_store [of "le_bytes 4 v" a m m'] by (simp add: store32_def load32_def)

text \<open>Stores and loads of integers at different places.\<close>

lemma load_apart:
  assumes "store bs a m = Inr m'" and "piece a (length bs) \<inter> piece b n = {}"
  shows "n = 2 \<Longrightarrow> load16 b m' = load16 b m" and "n = 4 \<Longrightarrow> load32 b m' = load32 b m"
  using load_store_other [OF assms] by (simp_all add: load16_def load32_def)

section \<open>Filling and reading\<close>

definition pieces :: "(u64 \<times> u32) list \<Rightarrow> u64 set" where
  "pieces sg = (\<Union>(base, len) \<in> set sg. piece base (unat len))"

fun disjoint_pieces :: "(u64 \<times> u32) list \<Rightarrow> bool" where
  "disjoint_pieces [] = True"
| "disjoint_pieces ((base, len) # sg) = (piece base (unat len) \<inter> pieces sg = {} \<and> disjoint_pieces sg)"

lemma pieces_simps [simp]: "pieces [] = {}" "pieces ((base, len) # sg) = piece base (unat len) \<union> pieces sg"
  by (simp_all add: pieces_def)

lemma piece_mono: "n \<le> k \<Longrightarrow> piece a n \<subseteq> piece a k"
  by (auto simp: piece_def)

lemma len_le: "unat (len :: u32) \<le> 2 ^ 64"
  using unsigned_less [of len, where 'a = nat] by simp

lemma iov_read_cong: "(\<And>x. x \<in> pieces sg \<Longrightarrow> m x = m' x) \<Longrightarrow> iov_read n sg m = iov_read n sg m'"
proof (induction sg arbitrary: n)
  case (Cons p sg)
  obtain base len where p: "p = (base, len)" by (cases p)
  have "min n (unat len) \<le> 2 ^ 64" using len_le [of len] by simp
  then have "load (min n (unat len)) base m = load (min n (unat len)) base m'"
    using Cons.prems piece_mono [of "min n (unat len)" "unat len" base] by (intro load_cong) (auto simp: p)
  moreover have "iov_read k sg m = iov_read k sg m'" for k by (rule Cons.IH) (simp add: Cons.prems p)
  ultimately show ?case by (simp add: p Let_def)
qed simp

lemma iov_read_mono: "iov_read n sg m = Inr bs \<Longrightarrow> m \<subseteq>\<^sub>m m' \<Longrightarrow> iov_read n sg m' = Inr bs"
proof (induction sg arbitrary: n bs)
  case (Cons p sg)
  obtain base len where p: "p = (base, len)" by (cases p)
  show ?case
  proof (cases "n = 0")
    case False
    then obtain xs ys where xs: "load (min n (unat len)) base m = Inr xs"
      "iov_read (n - min n (unat len)) sg m = Inr ys" "bs = xs @ ys"
      using Cons.prems(1) by (auto simp: p rbind_eq_Inr Let_def)
    then show ?thesis
      using False load_mono [OF xs(1) Cons.prems(2)] Cons.IH [OF xs(2) Cons.prems(2)] by (simp add: p Let_def)
  qed (use Cons.prems in \<open>simp add: p\<close>)
qed simp

text \<open>The memory without the given addresses.\<close>

definition outside :: "u64 set \<Rightarrow> memory \<Rightarrow> memory" where
  "outside area m = (\<lambda>x. if x \<in> area then None else m x)"

lemma outside_le: "outside area m \<subseteq>\<^sub>m m"
  by (auto simp: outside_def map_le_def)

lemma outside_same: "(\<And>x. x \<notin> area \<Longrightarrow> m' x = m x) \<Longrightarrow> outside area m' = outside area m"
  by (auto simp: outside_def)

lemma iov_fill_frame: "iov_fill sg buf m = Inr (c, m') \<Longrightarrow> x \<notin> pieces sg \<Longrightarrow> m' x = m x"
proof (induction sg arbitrary: buf m c)
  case (Cons p sg)
  obtain base len where p: "p = (base, len)" by (cases p)
  show ?case
  proof (cases "buf = []")
    case False
    then obtain m1 c1 where m1: "store (take (min (length buf) (unat len)) buf) base m = Inr m1"
      "iov_fill sg (drop (min (length buf) (unat len)) buf) m1 = Inr (c1, m')"
      using Cons.prems(1) by (auto simp: p result_simps Let_def)
    have "m' x = m1 x" using Cons.IH [OF m1(2)] Cons.prems(2) p by simp
    also have "x \<notin> piece base (min (length buf) (unat len))"
      using Cons.prems(2) piece_mono [of "min (length buf) (unat len)" "unat len" base] by (auto simp: p)
    then have "m1 x = m x" using m1(1) by (simp add: store_eq_Inr min_def split: if_splits)
    finally show ?thesis .
  qed (use Cons.prems in \<open>simp add: p\<close>)
qed simp

text \<open>Claim C35: filling mapped, disjoint pieces of memory with a buffer copies as much of the buffer
  as the pieces hold; reading them gives those bytes back, in order, and no other byte of the
  memory changes.\<close>

theorem iov_fill_read:
  assumes "\<forall>x \<in> pieces sg. m x \<noteq> None" and "disjoint_pieces sg"
  shows "\<exists>m'. iov_fill sg buf m = Inr (min (length buf) (iov_len sg), m') \<and>
    iov_read (min (length buf) (iov_len sg)) sg m' = Inr (take (iov_len sg) buf) \<and>
    (\<forall>x. x \<notin> pieces sg \<longrightarrow> m' x = m x)"
proof -
  have "\<exists>m'. iov_fill sg buf m = Inr (min (length buf) (iov_len sg), m') \<and>
    iov_read (min (length buf) (iov_len sg)) sg m' = Inr (take (iov_len sg) buf)"
    using assms
  proof (induction sg arbitrary: buf m)
    case (Cons p sg)
    obtain base len where p: "p = (base, len)" by (cases p)
    show ?case
    proof (cases "buf = []")
      case False
      define n where "n = min (length buf) (unat len)"
      have n: "n \<le> 2 ^ 64" "n \<le> unat len" "length (take n buf) = n" using len_le [of len] by (auto simp: n_def)
      have map: "m (base + word_of_nat i) \<noteq> None" if "i < n" for i
        using Cons.prems(1) in_piece [of i "unat len" base] that n len_le [of len] by (auto simp: p)
      then obtain m1 where m1: "store (take n buf) base m = Inr m1" by (auto simp: store_def list_all_iff n(3))
      have "\<forall>x \<in> pieces sg. m1 x \<noteq> None" "disjoint_pieces sg"
        using Cons.prems store_mapped [OF m1] by (auto simp: p)
      from Cons.IH [OF this, of "drop n buf"] obtain m' where m':
        "iov_fill sg (drop n buf) m1 = Inr (min (length buf - n) (iov_len sg), m')"
        "iov_read (min (length buf - n) (iov_len sg)) sg m' = Inr (take (iov_len sg) (drop n buf))"
        by auto
      have "piece base n \<inter> pieces sg = {}" using Cons.prems(2) piece_mono [OF n(2), of base] by (auto simp: p)
      then have "load n base m' = load n base m1"
        using iov_fill_frame [OF m'(1)] n(1) by (intro load_cong) auto
      then have load: "load n base m' = Inr (take n buf)" using load_store [OF m1] n by simp
      have c: "n + min (length buf - n) (iov_len sg) = min (length buf) (iov_len (p # sg))"
        by (auto simp: n_def p min_def)
      have k: "min (min (length buf) (iov_len (p # sg))) (unat len) = n"
        "min (length buf) (iov_len (p # sg)) - n = min (length buf - n) (iov_len sg)"
        by (auto simp: n_def p min_def)
      have t: "take n buf @ take (iov_len sg) (drop n buf) = take (iov_len (p # sg)) buf"
        unfolding take_add [symmetric] by (cases "length buf \<le> unat len") (simp_all add: n_def p)
      have fill: "iov_fill (p # sg) buf m = Inr (min (length buf) (iov_len (p # sg)), m')"
        using False m1 m'(1) c by (simp add: p Let_def n_def [symmetric])
      show ?thesis
      proof (cases "min (length buf) (iov_len (p # sg)) = 0")
        case True
        then have "iov_len (p # sg) = 0" using False by (cases buf) (auto simp: min_def split: if_splits)
        then show ?thesis using fill by (simp add: p del: iov_fill.simps)
      next
        case pos: False
        have "iov_read (min (length buf) (iov_len (p # sg))) (p # sg) m' = Inr (take (iov_len (p # sg)) buf)"
          using pos load m'(2) k t by (simp add: p Let_def del: iov_len.simps)
        then show ?thesis using fill by blast
      qed
    qed (simp add: p)
  qed simp
  then show ?thesis using iov_fill_frame by blast
qed

text \<open>Two pieces of two bytes.\<close>

lemma iov_fill_read_witness:
  "\<exists>m'. iov_fill [(16, 2), (32, 2)] [1, 2, 3] (\<lambda>_. Some 0) = Inr (3, m') \<and>
     iov_read 3 [(16, 2), (32, 2)] m' = Inr [1, 2, 3] \<and> m' 34 = Some 0"
proof -
  let ?sg = "[(16, 2), (32, 2)] :: (u64 \<times> u32) list"
  have d: "disjoint_pieces ?sg" and n: "min (length [1, 2, 3 :: u8]) (iov_len ?sg) = 3" "34 \<notin> pieces ?sg"
    by (simp_all add: piece_set upt_rec)
  have mapped: "\<forall>x \<in> pieces ?sg. (\<lambda>_. Some 0 :: u8 option) x \<noteq> None" by simp
  have t: "take (iov_len ?sg) [1, 2, 3 :: u8] = [1, 2, 3]" by simp
  from iov_fill_read [OF mapped d, of "[1, 2, 3]"] show ?thesis unfolding n(1) t using n(2) by blast
qed

end
