(* ===== verification/Vhost_Queue.thy ===== *)
theory Vhost_Queue
  imports Guest_Memory
begin

text \<open>
  The virtqueues of a vhost-user device (\<open>wmediumd/lib/vhost.c\<close>): taking a buffer from the
  available ring of the guest, handing it to the handler, and putting it on the used ring. The
  state of a device extends that of the scheduler that its interrupts are jobs of. The guest can
  write to the shared memory at any time; the model gives it the memory between the two passes
  over a descriptor chain, which is where it matters.
\<close>

section \<open>Devices\<close>

record vhost_region =
  guest_phys_addr :: u64
  region_size :: u64
  user_addr :: u64
  mmap_offset :: u64

record virtq =
  vq_entry_fd :: int
  vq_enabled :: bool
  vq_triggered :: bool
  vq_num :: u32
  vq_desc :: "u64 option"
  vq_avail :: "u64 option"
  vq_used :: "u64 option"
  vq_call_fd :: int
  vq_last_avail_idx :: u16

text \<open>The entries of a device in the event loop, and what it writes: to the call descriptor of a
  queue, a message on the request descriptor (with its flags), and a reply.\<close>

datatype vhost_entry = Dev_entry | Virtq_entry nat

datatype vhost_out = Call nat | Slave_vring_call nat u32 | Slave_config_change u32 | Reply "u8 list"

record 'j vhost = "'j scheduler" +
  vd_features :: u64
  vd_protocol_features :: u64
  vd_n_regions :: nat
  vd_regions :: "vhost_region list"
  vd_region_fds :: "int list"
  vd_region_vaddr :: "u64 option list"
  vd_req_fd :: int
  vd_virtqs :: "virtq list"
  vd_loop :: "vhost_entry list"
  vd_mem :: memory
  vd_out :: "vhost_out list"

text \<open>A buffer: its pieces of memory, the number of bytes written to it, the index of its first
  descriptor, and whether its arrays are on the heap.\<close>

record vhost_buf =
  vb_in :: "(u64 \<times> u32) list"
  vb_out :: "(u64 \<times> u32) list"
  vb_written :: nat
  vb_idx :: u16
  vb_allocated :: bool

text \<open>The server: its configuration, the scheduler (\<open>server->scheduler\<close> may be null), the
  controller, the callbacks, the wait for a reply of the guest, \<open>mmap\<close>, and what the guest does to
  its memory between the two passes.\<close>

record ('j, 's) vhost_server =
  vs_ops :: "'s sched_ops"
  vs_irq_job :: 'j
  vs_scheduler :: bool
  vs_sync_to :: "'s \<Rightarrow> 's result"
  vs_sync_from :: "'s \<Rightarrow> 's result"
  vs_wait_reply :: "'s \<Rightarrow> 's result"
  vs_connected :: "'s \<Rightarrow> 's result"
  vs_handle :: "vhost_buf \<Rightarrow> nat \<Rightarrow> 's \<Rightarrow> 's result"
  vs_disconnected :: "'s \<Rightarrow> 's result"
  vs_guest :: "memory \<Rightarrow> memory"
  vs_mmap :: "u64 \<Rightarrow> int \<Rightarrow> memory \<Rightarrow> (u64 \<times> memory) option"
  vs_interrupt_latency :: u32
  vs_max_queues :: nat
  vs_input_queues :: u64
  vs_features :: u64
  vs_protocol_features :: u64
  vs_config :: "u8 list"

abbreviation (input) VRING_DESC_F_NEXT :: u16 where "VRING_DESC_F_NEXT \<equiv> 1"
abbreviation (input) VRING_DESC_F_WRITE :: u16 where "VRING_DESC_F_WRITE \<equiv> 2"

definition has_feature :: "u64 \<Rightarrow> nat \<Rightarrow> bool" where
  "has_feature features n \<longleftrightarrow> push_bit n 1 AND features \<noteq> 0"

definition virtq_at :: "('j, 'z) vhost_scheme \<Rightarrow> nat \<Rightarrow> virtq result" where
  "virtq_at s i = nth_result (vd_virtqs s) i"

definition set_virtq :: "nat \<Rightarrow> virtq \<Rightarrow> ('j, 'z) vhost_scheme \<Rightarrow> ('j, 'z) vhost_scheme" where
  "set_virtq i q s = s\<lparr>vd_virtqs := (vd_virtqs s)[i := q]\<rparr>"

section \<open>Addresses\<close>

text \<open>The first region that holds the address, by guest physical or by user address.\<close>

definition translate :: "(vhost_region \<Rightarrow> u64) \<Rightarrow> u64 \<Rightarrow> ('j, 'z) vhost_scheme \<Rightarrow> u64 result" where
  "translate start addr s =
     (case List.find (\<lambda>(r, v). addr \<ge> start r \<and> addr < start r + region_size r)
             (take (vd_n_regions s) (zip (vd_regions s) (vd_region_vaddr s))) of
        None \<Rightarrow> Inl Assertion_failed
      | Some (r, v) \<Rightarrow>
          rbind (rget Null_dereference v) (\<lambda>v. Inr (v + (addr - start r + mmap_offset r))))"

definition usfstl_vhost_user_to_va :: "u64 \<Rightarrow> ('j, 'z) vhost_scheme \<Rightarrow> u64 result" where
  "usfstl_vhost_user_to_va = translate user_addr"

definition usfstl_vhost_phys_to_va :: "u64 \<Rightarrow> ('j, 'z) vhost_scheme \<Rightarrow> u64 result" where
  "usfstl_vhost_phys_to_va = translate guest_phys_addr"

section \<open>Taking a buffer\<close>

text \<open>The flags and the next descriptor of descriptor \<open>i\<close> of the table at \<open>desc\<close>. The index is not
  compared with the size of the table.\<close>

definition desc_link :: "u64 \<Rightarrow> u16 \<Rightarrow> memory \<Rightarrow> (u16 \<times> u16) result" where
  "desc_link desc i m =
     (let a = desc + 16 * ucast i in
      rbind (load16 (a + 12) m) (\<lambda>flags.
      rbind (load16 (a + 14) m) (\<lambda>next.
      Inr (flags, next))))"

text \<open>The first pass counts the descriptors. The chain may have a cycle; after \<open>2 ^ 16\<close> steps without an
  end there is none.\<close>

fun count_descs :: "nat \<Rightarrow> u64 \<Rightarrow> u16 \<Rightarrow> memory \<Rightarrow> nat \<Rightarrow> nat \<Rightarrow> (nat \<times> nat) result" where
  "count_descs 0 desc i m n_in n_out = Inl Out_of_fuel"
| "count_descs (Suc fuel) desc i m n_in n_out =
     rbind (desc_link desc i m) (\<lambda>(flags, next).
     let (n_in, n_out) = (if flags AND VRING_DESC_F_WRITE \<noteq> 0 then (n_in + 1, n_out) else (n_in, n_out + 1))
     in if flags AND VRING_DESC_F_NEXT \<noteq> 0 then count_descs fuel desc next m n_in n_out
        else Inr (n_in, n_out))"

text \<open>The second pass fills the arrays, which have \<open>max_in\<close> and \<open>max_out\<close> entries.\<close>

fun fill_descs ::
  "nat \<Rightarrow> (u64 \<Rightarrow> u64 result) \<Rightarrow> u64 \<Rightarrow> u16 \<Rightarrow> memory \<Rightarrow> nat \<times> nat \<Rightarrow> (u64 \<times> u32) list \<Rightarrow> (u64 \<times> u32) list \<Rightarrow>
   ((u64 \<times> u32) list \<times> (u64 \<times> u32) list) result" where
  "fill_descs 0 to_va desc i m room ins outs = Inl Out_of_fuel"
| "fill_descs (Suc fuel) to_va desc i m room ins outs =
     rbind (desc_link desc i m) (\<lambda>(flags, next).
     let a = desc + 16 * ucast i; write = (flags AND VRING_DESC_F_WRITE \<noteq> 0) in
     rbind (load64 a m) (\<lambda>addr.
     rbind (to_va addr) (\<lambda>base.
     rbind (load32 (a + 8) m) (\<lambda>len.
     if (if write then length ins \<ge> fst room else length outs \<ge> snd room) then Inl Out_of_bounds
     else let (ins, outs) = (if write then (ins @ [(base, len)], outs) else (ins, outs @ [(base, len)]))
       in if flags AND VRING_DESC_F_NEXT \<noteq> 0 then fill_descs fuel to_va desc next m room ins outs
          else Inr (ins, outs)))))"

text \<open>\<open>fixed\<close> has the numbers of entries that the preallocated buffer is said to have; each of its
  arrays has \<open>SG_STACK_PREALLOC\<close> entries.\<close>

definition usfstl_vhost_user_get_virtq_buf ::
  "('j, ('j, 'z) vhost_scheme) vhost_server \<Rightarrow> nat \<Rightarrow> nat \<times> nat \<Rightarrow> ('j, 'z) vhost_scheme \<Rightarrow>
   (vhost_buf option \<times> ('j, 'z) vhost_scheme) result" where
  "usfstl_vhost_user_get_virtq_buf srv virtq_idx fixed s =
     rbind (virtq_at s virtq_idx) (\<lambda>q.
     rbind (rget Null_dereference (vq_avail q)) (\<lambda>avail.
     rbind (load16 (avail + 2) (vd_mem s)) (\<lambda>avail_idx.
     if avail_idx = vq_last_avail_idx q then Inr (None, s)
     else let idx = vq_last_avail_idx q;
              s = set_virtq virtq_idx (q\<lparr>vq_last_avail_idx := idx + 1\<rparr>) s
       in if vq_num q = 0 then Inl Division_by_zero
          else let idx = ucast idx mod vq_num q in
            rbind (load16 (avail + 4 + 2 * ucast idx) (vd_mem s)) (\<lambda>desc_idx.
            rassert (ucast desc_idx < vq_num q)
           (rbind (rget Null_dereference (vq_desc q)) (\<lambda>desc.
            rbind (count_descs (2 ^ 16) desc desc_idx (vd_mem s) 0 0) (\<lambda>(n_in, n_out).
            let allocated = (n_in > fst fixed \<or> n_out > snd fixed);
                room = (if allocated then (n_in, n_out) else (5, 5));
                s = s\<lparr>vd_mem := vs_guest srv (vd_mem s)\<rparr>
            in rbind (fill_descs (2 ^ 16) (\<lambda>a. usfstl_vhost_phys_to_va a s) desc desc_idx (vd_mem s) room [] []) (\<lambda>(ins, outs).
               Inr (Some \<lparr>vb_in = ins, vb_out = outs, vb_written = 0, vb_idx = desc_idx,
                          vb_allocated = allocated\<rparr>, s)))))))))"

section \<open>Giving a buffer back\<close>

text \<open>A write to a descriptor that the guest sent succeeds. \<open>usfstl_vhost_user_send_msg\<close> waits for the
  reply of the guest if that was negotiated.\<close>

definition usfstl_vhost_user_send_msg ::
  "('j, ('j, 'z) vhost_scheme) vhost_server \<Rightarrow> (u32 \<Rightarrow> vhost_out) \<Rightarrow> ('j, 'z) vhost_scheme \<Rightarrow>
   ('j, 'z) vhost_scheme result" where
  "usfstl_vhost_user_send_msg srv msg s =
     (let ack = has_feature (vd_protocol_features s) 3;
          flags = (if ack then 1 OR 8 else 1)
      in rassert (vd_req_fd s \<ge> 0)
        (let s = s\<lparr>vd_out := vd_out s @ [msg flags]\<rparr>
         in if ack then vs_wait_reply srv s else Inr s))"

definition usfstl_vhost_user_send_virtq_buf ::
  "('j, ('j, 'z) vhost_scheme) vhost_server \<Rightarrow> vhost_buf \<Rightarrow> nat \<Rightarrow> ('j, 'z) vhost_scheme \<Rightarrow>
   ('j, 'z) vhost_scheme result" where
  "usfstl_vhost_user_send_virtq_buf srv buf virtq_idx s =
     rbind (virtq_at s virtq_idx) (\<lambda>q0.
     rbind (vs_sync_to srv s) (\<lambda>s.
     rbind (virtq_at s virtq_idx) (\<lambda>q.
     rbind (rget Null_dereference (vq_used q)) (\<lambda>used.
     rbind (load16 (used + 2) (vd_mem s)) (\<lambda>used_idx.
     let widx = unat used_idx + 1 in
     if vq_num q = 0 then Inl Division_by_zero
     else let idx = ucast used_idx mod vq_num q; elem = used + 4 + 8 * ucast idx in
       rbind (store32 (ucast (vb_idx buf)) elem (vd_mem s)) (\<lambda>m.
       rbind (store32 (word_of_nat (vb_written buf)) (elem + 4) m) (\<lambda>m.
       rbind (store16 (word_of_nat widx) (used + 2) m) (\<lambda>m.
       let s = s\<lparr>vd_mem := m\<rparr> in
       if vq_call_fd q0 < 0 \<and> has_feature (vd_protocol_features s) 14 \<and> has_feature (vd_protocol_features s) 5
       then usfstl_vhost_user_send_msg srv (Slave_vring_call virtq_idx) s
       else rassert (vq_call_fd q \<ge> 0) (Inr (s\<lparr>vd_out := vd_out s @ [Call virtq_idx]\<rparr>))))))))))"

section \<open>Handling a queue\<close>

text \<open>The preallocated buffer is used again with the numbers of entries that its last use left.
  \<open>2 ^ 16\<close> rounds take every buffer that the ring can announce.\<close>

fun handle_buffers ::
  "nat \<Rightarrow> ('j, ('j, 'z) vhost_scheme) vhost_server \<Rightarrow> nat \<Rightarrow> nat \<times> nat \<Rightarrow> ('j, 'z) vhost_scheme \<Rightarrow>
   ('j, 'z) vhost_scheme result" where
  "handle_buffers 0 srv virtq_idx fixed s = Inl Out_of_fuel"
| "handle_buffers (Suc fuel) srv virtq_idx fixed s =
     rbind (usfstl_vhost_user_get_virtq_buf srv virtq_idx fixed s) (\<lambda>(buf, s).
     case buf of
       None \<Rightarrow> Inr s
     | Some buf \<Rightarrow>
         rbind (vs_handle srv buf virtq_idx s) (\<lambda>s.
         rbind (usfstl_vhost_user_send_virtq_buf srv buf virtq_idx s) (\<lambda>s.
         handle_buffers fuel srv virtq_idx
           (if vb_allocated buf then fixed else (length (vb_in buf), length (vb_out buf))) s)))"

definition usfstl_vhost_user_handle_queue ::
  "('j, ('j, 'z) vhost_scheme) vhost_server \<Rightarrow> nat \<Rightarrow> ('j, 'z) vhost_scheme \<Rightarrow> ('j, 'z) vhost_scheme result" where
  "usfstl_vhost_user_handle_queue srv virtq_idx s = handle_buffers (2 ^ 16) srv virtq_idx (5, 5) s"

text \<open>The loop without any bound on its rounds: \<open>handle_rounds srv i k fixed s r\<close> says that it ends
  in round \<open>k\<close>, because there is no buffer left or because a step of the round fails, with the
  result \<open>r\<close>.\<close>

inductive handle_rounds ::
  "('j, ('j, 'z) vhost_scheme) vhost_server \<Rightarrow> nat \<Rightarrow> nat \<Rightarrow> nat \<times> nat \<Rightarrow> ('j, 'z) vhost_scheme \<Rightarrow>
   ('j, 'z) vhost_scheme result \<Rightarrow> bool" for srv i where
  no_buffer: "usfstl_vhost_user_get_virtq_buf srv i fixed s = Inr (None, t) \<Longrightarrow>
    handle_rounds srv i 1 fixed s (Inr t)"
| get_fails: "usfstl_vhost_user_get_virtq_buf srv i fixed s = Inl e \<Longrightarrow>
    handle_rounds srv i 1 fixed s (Inl e)"
| handle_fails: "usfstl_vhost_user_get_virtq_buf srv i fixed s = Inr (Some b, s1) \<Longrightarrow>
    vs_handle srv b i s1 = Inl e \<Longrightarrow> handle_rounds srv i 1 fixed s (Inl e)"
| send_fails: "usfstl_vhost_user_get_virtq_buf srv i fixed s = Inr (Some b, s1) \<Longrightarrow>
    vs_handle srv b i s1 = Inr s2 \<Longrightarrow> usfstl_vhost_user_send_virtq_buf srv b i s2 = Inl e \<Longrightarrow>
    handle_rounds srv i 1 fixed s (Inl e)"
| next_round: "usfstl_vhost_user_get_virtq_buf srv i fixed s = Inr (Some b, s1) \<Longrightarrow>
    vs_handle srv b i s1 = Inr s2 \<Longrightarrow> usfstl_vhost_user_send_virtq_buf srv b i s2 = Inr s3 \<Longrightarrow>
    handle_rounds srv i k (if vb_allocated b then fixed else (length (vb_in b), length (vb_out b))) s3 r \<Longrightarrow>
    handle_rounds srv i (Suc k) fixed s r"

section \<open>Sending to the guest\<close>

definition usfstl_vhost_user_dev_notify ::
  "('j, ('j, 'z) vhost_scheme) vhost_server \<Rightarrow> nat \<Rightarrow> u8 list \<Rightarrow> ('j, 'z) vhost_scheme \<Rightarrow>
   ('j, 'z) vhost_scheme result" where
  "usfstl_vhost_user_dev_notify srv virtq_idx data s =
     rassert (virtq_idx \<le> vs_max_queues srv)
    (rbind (virtq_at s virtq_idx) (\<lambda>q.
     if \<not> vq_enabled q then Inr s
     else rbind (usfstl_vhost_user_get_virtq_buf srv virtq_idx (5, 5) s) (\<lambda>(buf, s).
       case buf of
         None \<Rightarrow> Inr s
       | Some buf \<Rightarrow>
           rassert (vb_in buf \<noteq> [] \<and> vb_out buf = [])
          (rbind (iov_fill (vb_in buf) data (vd_mem s)) (\<lambda>(_, m).
           usfstl_vhost_user_send_virtq_buf srv (buf\<lparr>vb_written := length data\<rparr>) virtq_idx
             (s\<lparr>vd_mem := m\<rparr>))))))"

section \<open>Descriptor chains end soon or never\<close>

text \<open>The descriptor after \<open>i\<close>, if the chain goes on, and the descriptor after \<open>k\<close> steps.\<close>

definition next_desc :: "u64 \<Rightarrow> memory \<Rightarrow> u16 \<Rightarrow> u16 option" where
  "next_desc desc m i =
     (case desc_link desc i m of
        Inl _ \<Rightarrow> None
      | Inr (flags, next) \<Rightarrow> if flags AND VRING_DESC_F_NEXT \<noteq> 0 then Some next else None)"

definition walk :: "u64 \<Rightarrow> memory \<Rightarrow> nat \<Rightarrow> u16 \<Rightarrow> u16" where
  "walk desc m k = ((\<lambda>i. the (next_desc desc m i)) ^^ k)"

lemma walk_simps [simp]: "walk desc m 0 i = i" "walk desc m (Suc k) i = walk desc m k (the (next_desc desc m i))"
  by (simp_all add: walk_def funpow_Suc_right del: funpow.simps)

lemma walk_add: "walk desc m (a + b) i = walk desc m a (walk desc m b i)"
  by (simp add: walk_def funpow_add)

lemma count_descs_step:
  "count_descs (Suc fuel) desc i m a b =
     (case next_desc desc m i of
        None \<Rightarrow> count_descs 1 desc i m a b
      | Some next \<Rightarrow> rbind (desc_link desc i m) (\<lambda>(flags, _).
          if flags AND VRING_DESC_F_WRITE \<noteq> 0 then count_descs fuel desc next m (a + 1) b
          else count_descs fuel desc next m a (b + 1)))"
  by (cases "desc_link desc i m") (auto simp: next_desc_def)

declare count_descs.simps(2) [simp del]

text \<open>The count is the same with any fuel that reaches the end.\<close>

lemma count_descs_fuel:
  assumes "next_desc desc m (walk desc m k i) = None" and "k < f" and "k < g"
  shows "count_descs f desc i m a b = count_descs g desc i m a b"
  using assms
proof (induction k arbitrary: f g i a b)
  case 0
  then obtain f' g' where "f = Suc f'" "g = Suc g'" by (cases f; cases g) auto
  then show ?case using 0 by (simp add: count_descs_step [of f'] count_descs_step [of g'])
next
  case (Suc k)
  obtain f' g' where fg: "f = Suc f'" "g = Suc g'" "k < f'" "k < g'"
    using Suc.prems(2,3) by (cases f; cases g) auto
  show ?case
  proof (cases "next_desc desc m i")
    case None
    then show ?thesis by (simp add: fg count_descs_step [of f'] count_descs_step [of g'])
  next
    case (Some j)
    have "count_descs f' desc j m a b = count_descs g' desc j m a b" for a b
      by (rule Suc.IH) (use Suc.prems(1) Some fg in simp_all)
    then show ?thesis
      by (simp add: fg count_descs_step [of f'] count_descs_step [of g'] Some cong: if_cong)
  qed
qed

text \<open>Without an end it runs out of fuel.\<close>

lemma count_descs_endless:
  assumes "\<forall>k < f. next_desc desc m (walk desc m k i) \<noteq> None"
  shows "count_descs f desc i m a b = Inl Out_of_fuel"
  using assms
proof (induction f arbitrary: i a b)
  case (Suc f)
  obtain j where j: "next_desc desc m i = Some j" using Suc.prems [rule_format, of 0] by auto
  have "\<forall>k < f. next_desc desc m (walk desc m k j) \<noteq> None"
    using Suc.prems j by (metis Suc_mono option.sel walk_simps(2))
  then have "count_descs f desc j m a b = Inl Out_of_fuel" for a b by (rule Suc.IH)
  moreover obtain flags where "desc_link desc i m = Inr (flags, j)"
    using j by (cases "desc_link desc i m") (auto simp: next_desc_def split: if_splits)
  ultimately show ?case by (simp add: count_descs_step [of f] j)
qed simp

text \<open>An end is reached before a descriptor is seen again, that is within \<open>2 ^ 16\<close> steps.\<close>

lemma chain_end_bound:
  assumes "next_desc desc m (walk desc m n i) = None"
  shows "\<exists>k < 2 ^ 16. next_desc desc m (walk desc m k i) = None"
proof -
  let ?P = "\<lambda>k. next_desc desc m (walk desc m k i) = None"
  define k where "k = (LEAST k. ?P k)"
  have end_k: "?P k" and least: "\<And>j. ?P j \<Longrightarrow> k \<le> j"
    unfolding k_def using assms by (auto intro: LeastI Least_le)
  have "a = b" if "walk desc m a i = walk desc m b i" "a \<le> b" "b \<le> k" for a b
  proof -
    have "walk desc m (k - b + a) i = walk desc m (k - b + b) i"
      unfolding walk_add using that(1) by simp
    then have "?P (k - b + a)" using that(3) end_k by simp
    then show ?thesis using least [of "k - b + a"] that(2,3) by simp
  qed
  then have "inj_on (\<lambda>j. unat (walk desc m j i)) {0..k}"
    by (intro inj_onI) (metis atLeastAtMost_iff nat_le_linear word_unat_eq_iff)
  then have "card ((\<lambda>j. unat (walk desc m j i)) ` {0..k}) = Suc k" by (simp add: card_image)
  moreover have "(\<lambda>j. unat (walk desc m j i)) ` {0..k} \<subseteq> {..<2 ^ 16}"
    using unsigned_less [where 'a = nat and 'b = 16] by auto
  then have "card ((\<lambda>j. unat (walk desc m j i)) ` {0..k}) \<le> 2 ^ 16"
    using card_mono [of "{..<2 ^ 16 :: nat}"] by simp
  ultimately show ?thesis using end_k by (intro exI [of _ k]) simp
qed

text \<open>Library: the first pass over a descriptor chain ends within \<open>2 ^ 16\<close> descriptors, with the same
  result however long one lets it run, or never: a guest whose chain has a cycle makes the
  program loop for ever.\<close>

theorem chain_ends_or_never:
  "count_descs (2 ^ 16 + n) desc i m a b = count_descs (2 ^ 16) desc i m a b"
proof (cases "\<exists>k. next_desc desc m (walk desc m k i) = None")
  case True
  then obtain k where "k < 2 ^ 16" "next_desc desc m (walk desc m k i) = None" using chain_end_bound by blast
  then show ?thesis by (intro count_descs_fuel) simp_all
next
  case False
  then show ?thesis by (simp add: count_descs_endless)
qed

text \<open>A descriptor that is its own successor.\<close>

lemma self_chain_never_ends:
  assumes "desc_link desc i m = Inr (1, i)"
  shows "count_descs fuel desc i m a b = Inl Out_of_fuel"
proof (rule count_descs_endless)
  have n: "next_desc desc m i = Some i" using assms by (simp add: next_desc_def)
  have "walk desc m k i = i" for k by (induction k) (simp_all add: n)
  then show "\<forall>k < fuel. next_desc desc m (walk desc m k i) \<noteq> None" by (simp add: n)
qed

section \<open>Buffers of a chain\<close>

text \<open>The descriptors of a chain: address, length and flags.\<close>

fun desc_chain :: "u64 \<Rightarrow> memory \<Rightarrow> u16 \<Rightarrow> (u64 \<times> u32 \<times> u16) list \<Rightarrow> bool" where
  "desc_chain desc m i [] = False"
| "desc_chain desc m i ((addr, len, flags) # ds) =
     (load64 (desc + 16 * ucast i) m = Inr addr \<and> load32 (desc + 16 * ucast i + 8) m = Inr len \<and>
      (case desc_link desc i m of
         Inl _ \<Rightarrow> False
       | Inr (f, next) \<Rightarrow> f = flags \<and>
           (if flags AND VRING_DESC_F_NEXT \<noteq> 0 then desc_chain desc m next ds else ds = [])))"

definition device_writes :: "u64 \<times> u32 \<times> u16 \<Rightarrow> bool" where
  "device_writes = (\<lambda>(addr, len, flags). flags AND VRING_DESC_F_WRITE \<noteq> 0)"

definition parts :: "(u64 \<Rightarrow> u64) \<Rightarrow> (u64 \<times> u32 \<times> u16) list \<Rightarrow> (u64 \<times> u32) list" where
  "parts va = map (\<lambda>(addr, len, flags). (va addr, len))"

lemma count_descs_chain:
  assumes "desc_chain desc m i ds" and "length ds \<le> f"
  shows "count_descs f desc i m a b =
    Inr (a + length (filter device_writes ds), b + length (filter (\<lambda>d. \<not> device_writes d) ds))"
  using assms
proof (induction ds arbitrary: i f a b)
  case (Cons d ds)
  obtain addr len flags where d: "d = (addr, len, flags)" by (cases d)
  obtain f' where f: "f = Suc f'" using Cons.prems(2) by (cases f) simp_all
  obtain j where j: "desc_link desc i m = Inr (flags, j)"
    "if flags AND VRING_DESC_F_NEXT \<noteq> 0 then desc_chain desc m j ds else ds = []"
    using Cons.prems(1) by (auto simp: d split: sum.splits)
  show ?case
    using j Cons.IH [of j f'] Cons.prems(2)
    by (simp add: f d count_descs.simps(2) device_writes_def Let_def split: if_splits)
qed simp

lemma fill_descs_chain:
  assumes "desc_chain desc m i ds" and "length ds \<le> f"
    and "\<forall>x \<in> set ds. to_va (fst x) = Inr (va (fst x))"
    and "length ins + length (filter device_writes ds) \<le> fst room"
    and "length outs + length (filter (\<lambda>d. \<not> device_writes d) ds) \<le> snd room"
  shows "fill_descs f to_va desc i m room ins outs =
    Inr (ins @ parts va (filter device_writes ds), outs @ parts va (filter (\<lambda>d. \<not> device_writes d) ds))"
  using assms
proof (induction ds arbitrary: i f ins outs)
  case (Cons d ds)
  obtain addr len flags where d: "d = (addr, len, flags)" by (cases d)
  obtain f' where f: "f = Suc f'" using Cons.prems(2) by (cases f) simp_all
  obtain j where j: "desc_link desc i m = Inr (flags, j)" "load64 (desc + 16 * ucast i) m = Inr addr"
      "load32 (desc + 16 * ucast i + 8) m = Inr len"
    "if flags AND VRING_DESC_F_NEXT \<noteq> 0 then desc_chain desc m j ds else ds = []"
    using Cons.prems(1) by (auto simp: d split: sum.splits)
  have va: "to_va addr = Inr (va addr)" "\<forall>x \<in> set ds. to_va (fst x) = Inr (va (fst x))"
    using Cons.prems(3) by (auto simp: d)
  have IH: "desc_chain desc m j ds \<Longrightarrow> length ins' + length (filter device_writes ds) \<le> fst room \<Longrightarrow>
      length outs' + length (filter (\<lambda>d. \<not> device_writes d) ds) \<le> snd room \<Longrightarrow>
      fill_descs f' to_va desc j m room ins' outs' =
        Inr (ins' @ parts va (filter device_writes ds), outs' @ parts va (filter (\<lambda>d. \<not> device_writes d) ds))"
    for ins' outs'
    by (rule Cons.IH) (use Cons.prems(2) f va(2) in simp_all)
  show ?case
    using j va(1) IH [of "ins @ [(va addr, len)]" outs] IH [of ins "outs @ [(va addr, len)]"] Cons.prems(4,5)
    by (cases "flags AND VRING_DESC_F_WRITE = 0"; cases "flags AND VRING_DESC_F_NEXT = 0")
      (simp_all add: f d device_writes_def parts_def Let_def)
qed simp

lemma desc_chain_mono: "desc_chain desc m i ds \<Longrightarrow> m \<subseteq>\<^sub>m m' \<Longrightarrow> desc_chain desc m' i ds"
proof (induction desc m i ds rule: desc_chain.induct)
  case (2 desc m i addr len flags ds)
  obtain j where link: "desc_link desc i m = Inr (flags, j)"
    "if flags AND VRING_DESC_F_NEXT \<noteq> 0 then desc_chain desc m j ds else ds = []"
    using 2(2) by (auto split: sum.splits)
  have "desc_link desc i m' = Inr (flags, j)"
    using link(1) by (auto simp: desc_link_def rbind_eq_Inr Let_def dest: load_int_mono(1) [OF _ 2(3)])
  moreover have "if flags AND VRING_DESC_F_NEXT \<noteq> 0 then desc_chain desc m' j ds else ds = []"
    using link(2) 2(1) [OF link(1) refl] 2(3) by (cases "flags AND VRING_DESC_F_NEXT = 0") simp_all
  ultimately show ?case using 2(2) by (auto dest: load_int_mono(2,3) [OF _ 2(3)])
qed simp

lemma translate_virtq [simp]:
  "usfstl_vhost_phys_to_va a (set_virtq i q s) = usfstl_vhost_phys_to_va a s"
  "usfstl_vhost_phys_to_va a (s\<lparr>vd_mem := m\<rparr>) = usfstl_vhost_phys_to_va a s"
  "vd_mem (set_virtq i q s) = vd_mem s"
  by (simp_all add: usfstl_vhost_phys_to_va_def translate_def set_virtq_def)

lemma get_virtq_buf_chain_state:
  assumes q: "virtq_at s i = Inr q" "vq_avail q = Some avail" "vq_desc q = Some desc" "vq_num q \<noteq> 0"
    and idx: "load16 (avail + 2) (vd_mem s) = Inr avail_idx" "avail_idx \<noteq> vq_last_avail_idx q"
    and ring: "load16 (avail + 4 + 2 * ucast (ucast (vq_last_avail_idx q) mod vq_num q)) (vd_mem s) = Inr d" "ucast d < vq_num q"
    and chain: "desc_chain desc (vd_mem s) d ds" "length ds \<le> 2 ^ 16"
    and va: "\<forall>x \<in> set ds. usfstl_vhost_phys_to_va (fst x) s = Inr (va (fst x))"
    and guest: "vs_guest srv (vd_mem s) = vd_mem s" and fixed: "fst fixed \<le> 5" "snd fixed \<le> 5"
  shows "usfstl_vhost_user_get_virtq_buf srv i fixed s =
    Inr (Some \<lparr>vb_in = parts va (filter device_writes ds), vb_out = parts va (filter (\<lambda>d. \<not> device_writes d) ds),
               vb_written = 0, vb_idx = d,
               vb_allocated = (length (filter device_writes ds) > fst fixed \<or>
                               length (filter (\<lambda>d. \<not> device_writes d) ds) > snd fixed)\<rparr>,
         set_virtq i (q\<lparr>vq_last_avail_idx := vq_last_avail_idx q + 1\<rparr>) s)"
proof -
  let ?in = "filter device_writes ds" and ?out = "filter (\<lambda>d. \<not> device_writes d) ds"
  let ?alloc = "length ?in > fst fixed \<or> length ?out > snd fixed"
  let ?room = "if ?alloc then (length ?in, length ?out) else (5, 5)"
  let ?s = "set_virtq i (q\<lparr>vq_last_avail_idx := vq_last_avail_idx q + 1\<rparr>) s"
  have count: "count_descs 65536 desc d (vd_mem s) 0 0 = Inr (length ?in, length ?out)"
    using count_descs_chain [OF chain, of 0 0] by simp
  have room: "length ?in \<le> fst ?room" "length ?out \<le> snd ?room" using fixed by auto
  have "fill_descs 65536 (\<lambda>a. usfstl_vhost_phys_to_va a s) desc d (vd_mem s) ?room [] [] = Inr (parts va ?in, parts va ?out)"
    using fill_descs_chain [OF chain va, of "[]" ?room "[]"] room by simp
  moreover have "?s\<lparr>vd_mem := vd_mem s\<rparr> = ?s" by (simp add: set_virtq_def)
  ultimately show ?thesis
    using q idx ring by (simp add: usfstl_vhost_user_get_virtq_buf_def count guest Let_def)
qed

text \<open>Claim C18: when the guest has announced a buffer with a descriptor chain, taking it gives the
  memory of the chain in order, the parts for the device to write and those for it to read apart,
  translated to addresses of the program, and advances the index of the queue by one; if the guest
  does not change its memory meanwhile, no array is overrun, whether the preallocated one is used
  or a new one.\<close>

theorem get_virtq_buf_chain:
  assumes q: "virtq_at s i = Inr q" "vq_avail q = Some avail" "vq_desc q = Some desc" "vq_num q \<noteq> 0"
    and idx: "load16 (avail + 2) (vd_mem s) = Inr avail_idx" "avail_idx \<noteq> vq_last_avail_idx q"
    and ring: "load16 (avail + 4 + 2 * ucast (ucast (vq_last_avail_idx q) mod vq_num q)) (vd_mem s) = Inr d" "ucast d < vq_num q"
    and chain: "desc_chain desc (vd_mem s) d ds" "length ds \<le> 2 ^ 16"
    and va: "\<forall>x \<in> set ds. usfstl_vhost_phys_to_va (fst x) s = Inr (va (fst x))"
    and guest: "vs_guest srv (vd_mem s) = vd_mem s" and fixed: "fst fixed \<le> 5" "snd fixed \<le> 5"
  shows "\<exists>allocated. usfstl_vhost_user_get_virtq_buf srv i fixed s =
    Inr (Some \<lparr>vb_in = parts va (filter device_writes ds), vb_out = parts va (filter (\<lambda>d. \<not> device_writes d) ds),
               vb_written = 0, vb_idx = d, vb_allocated = allocated\<rparr>,
         set_virtq i (q\<lparr>vq_last_avail_idx := vq_last_avail_idx q + 1\<rparr>) s)"
  using get_virtq_buf_chain_state [OF assms] by blast

text \<open>A guest that has announced a buffer of three bytes on queue 0, and a buffer of four bytes for the
  device to write on queue 1.\<close>

definition example_memory :: memory where
  "example_memory x =
     (if 4096 \<le> x \<and> x < 8192
      then Some (if x = 4098 then 1 else if x = 4225 then 1 else if x = 4232 then 3
                 else if x = 4610 then 1 else if x = 4737 then 4 else if x = 4744 then 4 else if x = 4748 then 2
                 else if x = 4352 then 7 else if x = 4353 then 8 else if x = 4354 then 9 else 0)
      else None)"

definition example_queue :: virtq where
  "example_queue = \<lparr>vq_entry_fd = 5, vq_enabled = True, vq_triggered = False, vq_num = 4, vq_desc = Some 4224,
     vq_avail = Some 4096, vq_used = Some 4160, vq_call_fd = 6, vq_last_avail_idx = 0\<rparr>"

definition example_rx_queue :: virtq where
  "example_rx_queue = \<lparr>vq_entry_fd = - 1, vq_enabled = True, vq_triggered = False, vq_num = 4, vq_desc = Some 4736,
     vq_avail = Some 4608, vq_used = Some 4672, vq_call_fd = 7, vq_last_avail_idx = 0\<rparr>"

definition example_vhost :: "'z \<Rightarrow> (unit, 'z) vhost_scheme" where
  "example_vhost z = \<lparr>job_of = (\<lambda>_. \<lparr>job_start = 0, job_priority = 0, job_group = 0\<rparr>), current_time = 0,
     prev_external_sync = 0, next_external_sync = 0, joblist = [], pending_jobs = [], allowed_job = None,
     blocked_groups = 0, next_external_sync_set = False, prev_external_sync_set = False, sched_waiting = False,
     vd_features = 0, vd_protocol_features = 0, vd_n_regions = 1,
     vd_regions = replicate 8 \<lparr>guest_phys_addr = 0, region_size = 4096, user_addr = 0, mmap_offset = 0\<rparr>,
     vd_region_fds = replicate 8 4, vd_region_vaddr = Some 4096 # replicate 7 None, vd_req_fd = - 1,
     vd_virtqs = [example_queue, example_rx_queue],
     vd_loop = [Virtq_entry 0, Dev_entry], vd_mem = example_memory, vd_out = [], \<dots> = z\<rparr>"

lemma example_loads:
  "load16 4098 example_memory = Inr 1" "load16 4100 example_memory = Inr 0"
  "load64 4224 example_memory = Inr 256" "load32 4232 example_memory = Inr 3"
  "desc_link 4224 0 example_memory = Inr (0, 0)" "load16 4162 example_memory = Inr 0"
  by (simp_all add: load16_def load32_def load64_def desc_link_def load_def upt_rec example_memory_def)

lemma example_outside:
  "load16 4098 (outside (piece 4162 34) example_memory) = Inr 1"
  "load16 4100 (outside (piece 4162 34) example_memory) = Inr 0"
  "load64 4224 (outside (piece 4162 34) example_memory) = Inr 256"
  "load32 4232 (outside (piece 4162 34) example_memory) = Inr 3"
  "desc_link 4224 0 (outside (piece 4162 34) example_memory) = Inr (0, 0)"
  "iov_read 4096 [(4352, 3)] (outside (piece 4162 34) example_memory) = Inr [7, 8, 9]"
  by (simp_all add: load16_def load32_def load64_def desc_link_def load_def upt_rec example_memory_def outside_def piece_def)

definition example_server :: "(unit, 's) vhost_server" where
  "example_server = \<lparr>vs_ops = USFSTL_SCHEDULER_ops, vs_irq_job = (), vs_scheduler = False, vs_sync_to = Inr,
     vs_sync_from = Inr, vs_wait_reply = Inr, vs_connected = Inr, vs_handle = (\<lambda>_ _. Inr), vs_disconnected = Inr,
     vs_guest = (\<lambda>m. m), vs_mmap = (\<lambda>_ _ _. None), vs_interrupt_latency = 0, vs_max_queues = 2,
     vs_input_queues = 1, vs_features = 0, vs_protocol_features = 0, vs_config = []\<rparr>"

lemma example_chain:
  "desc_chain 4224 (outside (piece 4162 34) example_memory) 0 [(256, 3, 0)]"
  "desc_chain 4224 example_memory 0 [(256, 3, 0)]"
  "usfstl_vhost_phys_to_va 256 (example_vhost z) = Inr 4352"
proof -
  have r: "replicate 8 r = r # replicate 7 r" for r :: vhost_region by (simp add: eval_nat_numeral)
  show "usfstl_vhost_phys_to_va 256 (example_vhost z) = Inr 4352"
    by (simp add: usfstl_vhost_phys_to_va_def translate_def example_vhost_def r)
qed (simp_all add: example_outside example_loads)

lemma example_virtq: "virtq_at (example_vhost z) 0 = Inr example_queue" "vd_mem (example_vhost z) = example_memory"
  by (simp_all add: virtq_at_def example_vhost_def nth_result_def)

lemma get_virtq_buf_chain_witness:
  "\<exists>allocated. usfstl_vhost_user_get_virtq_buf example_server 0 (5, 5) (example_vhost ()) =
     Inr (Some \<lparr>vb_in = [], vb_out = [(4352, 3)], vb_written = 0, vb_idx = 0, vb_allocated = allocated\<rparr>,
          set_virtq 0 (example_queue\<lparr>vq_last_avail_idx := 1\<rparr>) (example_vhost ()))"
proof -
  have q: "vq_avail example_queue = Some 4096" "vq_desc example_queue = Some 4224" "vq_num example_queue \<noteq> 0"
    "vq_last_avail_idx example_queue = 0" "vq_num example_queue = 4"
    by (simp_all add: example_queue_def)
  have idx: "load16 (4096 + 2) (vd_mem (example_vhost ())) = Inr 1" "1 \<noteq> vq_last_avail_idx example_queue"
    and ring: "load16 (4096 + 4 + 2 * ucast (ucast (vq_last_avail_idx example_queue) mod vq_num example_queue))
      (vd_mem (example_vhost ())) = Inr 0" "ucast (0 :: u16) < vq_num example_queue"
    and chain: "desc_chain 4224 (vd_mem (example_vhost ())) 0 [(256, 3, 0)]"
    using example_loads example_chain(2) by (simp_all add: q example_virtq)
  have va: "\<forall>x \<in> set [(256 :: u64, 3 :: u32, 0 :: u16)]. usfstl_vhost_phys_to_va (fst x) (example_vhost ()) = Inr (fst x + 4096)"
    using example_chain(3) [of "()"] by simp
  have guest: "vs_guest example_server (vd_mem (example_vhost ())) = vd_mem (example_vhost ())" by (simp add: example_server_def)
  show ?thesis
    using get_virtq_buf_chain [OF example_virtq(1) q(1-3) idx ring chain _ va guest, of "(5, 5)"]
    by (simp add: device_writes_def parts_def q(4))
qed

section \<open>The rings\<close>

text \<open>What the callbacks of a server leave alone: the memory, the queues, the regions and the entries
  in the event loop.\<close>

definition same_vhost :: "('j, 'z) vhost_scheme \<Rightarrow> ('j, 'z) vhost_scheme \<Rightarrow> bool" where
  "same_vhost s t \<longleftrightarrow> vd_mem t = vd_mem s \<and> vd_virtqs t = vd_virtqs s \<and>
     vd_protocol_features t = vd_protocol_features s \<and> vd_req_fd t = vd_req_fd s \<and>
     vd_n_regions t = vd_n_regions s \<and> vd_regions t = vd_regions s \<and> vd_region_vaddr t = vd_region_vaddr s \<and>
     vd_region_fds t = vd_region_fds s \<and> vd_loop t = vd_loop s"

text \<open>Queue \<open>i\<close> has its rings at \<open>avail\<close> and \<open>used\<close>, with \<open>num\<close> entries; \<open>a\<close>, \<open>l\<close> and \<open>u\<close> are the
  available index of the guest, the index the program is at, and the used index.\<close>

definition ring_state ::
  "nat \<Rightarrow> u64 \<Rightarrow> u64 \<Rightarrow> u32 \<Rightarrow> u16 \<Rightarrow> u16 \<Rightarrow> u16 \<Rightarrow> ('j, 'z) vhost_scheme \<Rightarrow> bool" where
  "ring_state i avail used num a l u s \<longleftrightarrow>
     (\<exists>q. virtq_at s i = Inr q \<and> vq_avail q = Some avail \<and> vq_used q = Some used \<and> vq_num q = num \<and>
        vq_last_avail_idx q = l \<and> load16 (avail + 2) (vd_mem s) = Inr a \<and> load16 (used + 2) (vd_mem s) = Inr u)"

text \<open>The used ring does not cover the available index.\<close>

definition rings_apart :: "u64 \<Rightarrow> u64 \<Rightarrow> u32 \<Rightarrow> bool" where
  "rings_apart avail used num \<longleftrightarrow> piece (avail + 2) 2 \<inter> piece (used + 2) (2 + 8 * unat num) = {}"

lemma ring_state_same: "ring_state i avail used num a l u s \<Longrightarrow> same_vhost s t \<Longrightarrow> ring_state i avail used num a l u t"
  by (simp add: ring_state_def same_vhost_def virtq_at_def)

lemma virtq_at_set: "virtq_at s i = Inr q \<Longrightarrow> virtq_at (set_virtq i p s) i = Inr p"
  by (simp add: virtq_at_def set_virtq_def nth_result_def split: if_splits)

text \<open>An entry of the used ring lies in it, behind its index.\<close>

lemma used_elem:
  assumes "num \<noteq> 0"
  shows "\<exists>k. used + 4 + 8 * ucast (ucast (u :: u16) mod (num :: u32)) = used + 2 + word_of_nat k \<and> 2 \<le> k \<and>
    k + 8 \<le> 2 + 8 * unat num"
proof -
  let ?i = "ucast u mod num"
  have "unat ?i < unat num" using assms by (simp add: unat_mod_distrib unat_gt_0)
  moreover have "ucast ?i = (word_of_nat (unat ?i) :: u64)" by simp
  then have "used + 4 + 8 * ucast ?i = used + 2 + word_of_nat (2 + 8 * unat ?i)" by simp
  ultimately show ?thesis by (intro exI [of _ "2 + 8 * unat ?i"]) simp
qed

text \<open>What a server provides: callbacks that leave the device alone, and a guest that does not change
  its memory while a chain is read.\<close>

locale vhost_callbacks =
  fixes srv :: "('j, ('j, 'z) vhost_scheme) vhost_server"
  assumes handle: "vs_handle srv b i s = Inr t \<Longrightarrow> same_vhost s t"
    and sync_to: "vs_sync_to srv s = Inr t \<Longrightarrow> same_vhost s t"
    and wait_reply: "vs_wait_reply srv s = Inr t \<Longrightarrow> same_vhost s t"
    and guest: "vs_guest srv m = m"
begin

text \<open>Taking a buffer advances the index of the program.\<close>

lemma get_ring:
  assumes run: "usfstl_vhost_user_get_virtq_buf srv i fixed s = Inr (r, t)"
    and ring: "ring_state i avail used num a l u s"
  shows "(r = None \<longleftrightarrow> a = l) \<and> (r = None \<longrightarrow> t = s) \<and>
    (r \<noteq> None \<longrightarrow> num \<noteq> 0 \<and> vd_mem t = vd_mem s \<and> ring_state i avail used num a (l + 1) u t)"
proof -
  obtain q where q: "virtq_at s i = Inr q" "vq_avail q = Some avail" "vq_used q = Some used" "vq_num q = num"
    "vq_last_avail_idx q = l" "load16 (avail + 2) (vd_mem s) = Inr a" "load16 (used + 2) (vd_mem s) = Inr u"
    using ring by (auto simp: ring_state_def)
  let ?s = "set_virtq i (q\<lparr>vq_last_avail_idx := l + 1\<rparr>) s"
  show ?thesis
  proof (cases "a = l")
    case True
    then show ?thesis using run q by (simp add: usfstl_vhost_user_get_virtq_buf_def)
  next
    case False
    then have "num \<noteq> 0" "r \<noteq> None" "t = ?s\<lparr>vd_mem := vd_mem s\<rparr>"
      using run q unfolding usfstl_vhost_user_get_virtq_buf_def
      by (auto simp: result_simps Let_def guest split: if_splits)
    moreover have "?s\<lparr>vd_mem := vd_mem s\<rparr> = ?s" by (simp add: set_virtq_def)
    moreover have "ring_state i avail used num a (l + 1) u ?s"
      using q virtq_at_set [OF q(1)] by (simp add: ring_state_def)
    ultimately show ?thesis using False by auto
  qed
qed

lemma send_msg_same:
  assumes run: "usfstl_vhost_user_send_msg srv f v = Inr t"
  shows "same_vhost v t"
proof -
  let ?v = "\<lambda>flags. v\<lparr>vd_out := vd_out v @ [f flags]\<rparr>"
  have "vs_wait_reply srv (?v (1 OR 8)) = Inr t \<or> t = ?v 1"
    using run by (auto simp: usfstl_vhost_user_send_msg_def Let_def rassert_eq_Inr split: if_split_asm)
  then show ?thesis using wait_reply [of "?v (1 OR 8)" t] by (auto simp: same_vhost_def)
qed

text \<open>The steps of giving a buffer back.\<close>

lemma send_steps:
  assumes run: "usfstl_vhost_user_send_virtq_buf srv b i s = Inr t"
  shows "\<exists>s1 q used u m1 m2 m3. same_vhost s s1 \<and> virtq_at s1 i = Inr q \<and> vq_used q = Some used \<and>
    load16 (used + 2) (vd_mem s1) = Inr u \<and> vq_num q \<noteq> 0 \<and>
    store32 (ucast (vb_idx b)) (used + 4 + 8 * ucast (ucast u mod vq_num q)) (vd_mem s1) = Inr m1 \<and>
    store32 (word_of_nat (vb_written b)) (used + 4 + 8 * ucast (ucast u mod vq_num q) + 4) m1 = Inr m2 \<and>
    store16 (word_of_nat (unat u + 1)) (used + 2) m2 = Inr m3 \<and> same_vhost (s1\<lparr>vd_mem := m3\<rparr>) t"
proof -
  obtain q0 s1 q used u where s1: "virtq_at s i = Inr q0" "vs_sync_to srv s = Inr s1" "virtq_at s1 i = Inr q"
    "vq_used q = Some used" "load16 (used + 2) (vd_mem s1) = Inr u"
    using run by (auto simp: usfstl_vhost_user_send_virtq_buf_def result_simps)
  have num: "vq_num q \<noteq> 0" using run s1 by (auto simp: usfstl_vhost_user_send_virtq_buf_def)
  let ?elem = "used + 4 + 8 * ucast (ucast u mod vq_num q) :: u64"
  let ?inband = "\<lambda>s. vq_call_fd q0 < 0 \<and> has_feature (vd_protocol_features s) 14 \<and> has_feature (vd_protocol_features s) 5"
  have "rbind (store32 (ucast (vb_idx b)) ?elem (vd_mem s1)) (\<lambda>m.
      rbind (store32 (word_of_nat (vb_written b)) (?elem + 4) m) (\<lambda>m.
      rbind (store16 (word_of_nat (unat u + 1)) (used + 2) m) (\<lambda>m.
      if ?inband (s1\<lparr>vd_mem := m\<rparr>)
      then usfstl_vhost_user_send_msg srv (Slave_vring_call i) (s1\<lparr>vd_mem := m\<rparr>)
      else rassert (vq_call_fd q \<ge> 0)
        (Inr (s1\<lparr>vd_mem := m, vd_out := vd_out (s1\<lparr>vd_mem := m\<rparr>) @ [Call i]\<rparr>))))) = Inr t"
    using run by (simp only: usfstl_vhost_user_send_virtq_buf_def s1 rbind.simps rget_Some Let_def if_not_P [OF num])
  then obtain m1 m2 m3 where m: "store32 (ucast (vb_idx b)) ?elem (vd_mem s1) = Inr m1"
      "store32 (word_of_nat (vb_written b)) (?elem + 4) m1 = Inr m2"
      "store16 (word_of_nat (unat u + 1)) (used + 2) m2 = Inr m3"
    and out: "(if ?inband (s1\<lparr>vd_mem := m3\<rparr>)
        then usfstl_vhost_user_send_msg srv (Slave_vring_call i) (s1\<lparr>vd_mem := m3\<rparr>)
        else rassert (vq_call_fd q \<ge> 0)
          (Inr (s1\<lparr>vd_mem := m3, vd_out := vd_out (s1\<lparr>vd_mem := m3\<rparr>) @ [Call i]\<rparr>))) = Inr t"
    unfolding rbind_eq_Inr by blast
  have "same_vhost (s1\<lparr>vd_mem := m3\<rparr>) t"
  proof (cases "?inband (s1\<lparr>vd_mem := m3\<rparr>)")
    case True
    show ?thesis by (rule send_msg_same [OF out [unfolded if_P [OF True]]])
  next
    case False
    then show ?thesis using out unfolding if_not_P [OF False] rassert_eq_Inr by (auto simp: same_vhost_def)
  qed
  then show ?thesis using sync_to [OF s1(2)] s1(3-5) num m by blast
qed

text \<open>Giving a buffer back fills the next entry of the used ring and advances its index.\<close>

lemma send_ring:
  assumes run: "usfstl_vhost_user_send_virtq_buf srv b i s = Inr t"
    and ring: "ring_state i avail used num a l u s" and apart: "rings_apart avail used num"
  shows "ring_state i avail used num a l (u + 1) t \<and>
    load32 (used + 4 + 8 * ucast (ucast u mod num)) (vd_mem t) = Inr (ucast (vb_idx b)) \<and>
    load32 (used + 4 + 8 * ucast (ucast u mod num) + 4) (vd_mem t) = Inr (word_of_nat (vb_written b)) \<and>
    vd_virtqs t = vd_virtqs s \<and> (\<forall>x. x \<notin> piece (used + 2) (2 + 8 * unat num) \<longrightarrow> vd_mem t x = vd_mem s x)"
proof -
  let ?elem = "used + 4 + 8 * ucast (ucast u mod num) :: u64" and ?area = "piece (used + 2) (2 + 8 * unat num)"
  obtain s1 q used' u' m1 m2 m3 where same1: "same_vhost s s1" and q': "virtq_at s1 i = Inr q" "vq_used q = Some used'"
      "load16 (used' + 2) (vd_mem s1) = Inr u'" "vq_num q \<noteq> 0"
    and m': "store32 (ucast (vb_idx b)) (used' + 4 + 8 * ucast (ucast u' mod vq_num q)) (vd_mem s1) = Inr m1"
      "store32 (word_of_nat (vb_written b)) (used' + 4 + 8 * ucast (ucast u' mod vq_num q) + 4) m1 = Inr m2"
      "store16 (word_of_nat (unat u' + 1)) (used' + 2) m2 = Inr m3" and same3: "same_vhost (s1\<lparr>vd_mem := m3\<rparr>) t"
    using send_steps [OF run] by blast
  have q: "vq_avail q = Some avail" "vq_used q = Some used" "vq_num q = num"
    "vq_last_avail_idx q = l" "load16 (avail + 2) (vd_mem s1) = Inr a" and u: "used' = used" "u' = u"
    using ring_state_same [OF ring same1] q' by (auto simp: ring_state_def)
  note m = m' [unfolded u q(3)]
  have num: "num \<noteq> 0" using q'(4) q(3) by simp
  have t: "vd_mem t = m3" "vd_virtqs t = vd_virtqs s1" using same3 by (simp_all add: same_vhost_def)
  obtain k where k: "?elem = used + 2 + word_of_nat k" "2 \<le> k" "k + 8 \<le> 2 + 8 * unat num"
    using used_elem [OF num] by blast
  have big: "2 + 8 * unat num \<le> 2 ^ 64" using unsigned_less [of num, where 'a = nat] by simp
  have e4: "?elem + 4 = used + 2 + word_of_nat (k + 4)" by (simp add: k(1))
  have area: "piece ?elem 4 \<subseteq> ?area" "piece (?elem + 4) 4 \<subseteq> ?area" "piece (used + 2) 2 \<subseteq> ?area"
    using piece_within [of k 4 "2 + 8 * unat num" "used + 2"] piece_within [of "k + 4" 4 "2 + 8 * unat num" "used + 2"]
      piece_mono [of 2 "2 + 8 * unat num" "used + 2"] k(2,3) big unfolding e4 unfolding k(1) by simp_all
  have idx: "piece (used + 2) 2 \<inter> piece ?elem 4 = {}" "piece (used + 2) 2 \<inter> piece (?elem + 4) 4 = {}"
    "piece (?elem + 4) 4 \<inter> piece ?elem 4 = {}"
    using pieces_apart [of 0 2 k 4 "used + 2"] pieces_apart [of 0 2 "k + 4" 4 "used + 2"]
      pieces_apart [of k 4 "k + 4" 4 "used + 2"] k(2,3) big
    unfolding e4 unfolding k(1) by (simp_all add: Int_commute)
  note st = m [unfolded store32_def store16_def]
  have a: "load16 (avail + 2) m3 = Inr a"
  proof -
    have d: "piece ?elem 4 \<inter> piece (avail + 2) 2 = {}" "piece (?elem + 4) 4 \<inter> piece (avail + 2) 2 = {}"
      "piece (used + 2) 2 \<inter> piece (avail + 2) 2 = {}"
      using apart area by (auto simp: rings_apart_def)
    show ?thesis
      using load_apart(1) [OF st(1), of "avail + 2" 2] load_apart(1) [OF st(2), of "avail + 2" 2]
        load_apart(1) [OF st(3), of "avail + 2" 2] d q(5) by simp
  qed
  have "word_of_nat (unat u + 1) = u + 1" by simp
  then have idx': "load16 (used + 2) m3 = Inr (u + 1)" using load16_store16 [OF m(3)] by simp
  have e: "load32 ?elem m3 = Inr (ucast (vb_idx b))" "load32 (?elem + 4) m3 = Inr (word_of_nat (vb_written b))"
    using load32_store32 [OF m(1)] load32_store32 [OF m(2)] load_apart(2) [OF st(2), of ?elem 4]
      load_apart(2) [OF st(3), of ?elem 4] load_apart(2) [OF st(3), of "?elem + 4" 4] idx by simp_all
  have rest: "vd_mem t x = vd_mem s x" if "x \<notin> ?area" for x
    using st that area same1 by (auto simp: t(1) store_eq_Inr same_vhost_def)
  have "ring_state i avail used num a l (u + 1) t"
    using q'(1) q(1-4) a idx' by (simp add: ring_state_def t virtq_at_def)
  moreover have "vd_virtqs t = vd_virtqs s" using t(2) same1 by (simp add: same_vhost_def)
  ultimately show ?thesis using e rest by (simp add: t(1))
qed

text \<open>The loop over the announced buffers needs one round for each of them, and the last.\<close>

lemma round_ring:
  assumes get: "usfstl_vhost_user_get_virtq_buf srv i fixed s = Inr (Some b, s1)"
    and steps: "vs_handle srv b i s1 = Inr s2" "usfstl_vhost_user_send_virtq_buf srv b i s2 = Inr s3"
    and ring: "ring_state i avail used num a l u s" and apart: "rings_apart avail used num"
  shows "ring_state i avail used num a (l + 1) (u + 1) s3" and "unat (a - l) = Suc (unat (a - (l + 1)))"
proof -
  have "a \<noteq> l" and r1: "ring_state i avail used num a (l + 1) u s1" using get_ring [OF get ring] by auto
  have "ring_state i avail used num a (l + 1) u s2" by (rule ring_state_same [OF r1 handle [OF steps(1)]])
  then show "ring_state i avail used num a (l + 1) (u + 1) s3" using send_ring [OF steps(2) _ apart] by blast
  have "unat ((a - l) - 1) = unat (a - l) - 1" using \<open>a \<noteq> l\<close> by (intro unat_minus_one) simp
  moreover have "unat (a - l) \<noteq> 0" using \<open>a \<noteq> l\<close> by (simp add: unat_eq_0)
  ultimately show "unat (a - l) = Suc (unat (a - (l + 1)))" by (simp add: diff_diff_eq)
qed

lemma handle_buffers_rounds:
  assumes "ring_state i avail used num a l u s" and apart: "rings_apart avail used num"
    and "unat (a - l) < f"
  shows "\<exists>k \<le> Suc (unat (a - l)). handle_rounds srv i k fixed s (handle_buffers f srv i fixed s) \<and>
    (\<forall>t. handle_buffers f srv i fixed s = Inr t \<longrightarrow> k = Suc (unat (a - l)))"
  using assms(1,3)
proof (induction f arbitrary: fixed l u s)
  case (Suc f)
  have error: ?case if "handle_rounds srv i 1 fixed s (Inl e)" "handle_buffers (Suc f) srv i fixed s = Inl e" for e
    using that by (intro exI [of _ 1]) simp
  show ?case
  proof (cases "usfstl_vhost_user_get_virtq_buf srv i fixed s")
    case (Inl e)
    then show ?thesis by (intro error [of e] handle_rounds.get_fails) simp_all
  next
    case (Inr p)
    then obtain r s1 where get: "usfstl_vhost_user_get_virtq_buf srv i fixed s = Inr (r, s1)" by (cases p) auto
    show ?thesis
    proof (cases r)
      case None
      then have "a = l" using get_ring [OF get Suc.prems(1)] by simp
      then show ?thesis
        using handle_rounds.no_buffer [OF get [unfolded None]] None get by (intro exI [of _ 1]) simp
    next
      case (Some b)
      note get = get [unfolded Some]
      show ?thesis
      proof (cases "vs_handle srv b i s1")
        case (Inl e)
        then show ?thesis using get by (intro error [of e] handle_rounds.handle_fails [OF get]) simp_all
      next
        case handled: (Inr s2)
        show ?thesis
        proof (cases "usfstl_vhost_user_send_virtq_buf srv b i s2")
          case (Inl e)
          then show ?thesis
            using get handled by (intro error [of e] handle_rounds.send_fails [OF get handled]) simp_all
        next
          case sent: (Inr s3)
          let ?fx = "if vb_allocated b then fixed else (length (vb_in b), length (vb_out b))"
          note r = round_ring [OF get handled sent Suc.prems(1) apart]
          have "unat (a - (l + 1)) < f" using Suc.prems(2) r(2) by simp
          from Suc.IH [OF r(1) this, of ?fx] obtain k where
            k: "k \<le> Suc (unat (a - (l + 1)))" "handle_rounds srv i k ?fx s3 (handle_buffers f srv i ?fx s3)"
              "\<forall>t. handle_buffers f srv i ?fx s3 = Inr t \<longrightarrow> k = Suc (unat (a - (l + 1)))" by blast
          have e: "handle_buffers (Suc f) srv i fixed s = handle_buffers f srv i ?fx s3"
            using get handled sent by simp
          show ?thesis
            using k handle_rounds.next_round [OF get handled sent k(2)] unfolding e r(2)
            by (intro exI [of _ "Suc k"]) simp
        qed
      qed
    qed
  qed
qed simp

lemma handle_buffers_done:
  assumes "handle_buffers f srv i fixed s = Inr t" and "ring_state i avail used num a l u s"
    and apart: "rings_apart avail used num"
  shows "ring_state i avail used num a a (u + (a - l)) t"
  using assms(1,2)
proof (induction f arbitrary: fixed l u s)
  case (Suc f)
  obtain r s1 where get: "usfstl_vhost_user_get_virtq_buf srv i fixed s = Inr (r, s1)"
    and rest: "(case r of None \<Rightarrow> Inr s1
     | Some buf \<Rightarrow> rbind (vs_handle srv buf i s1) (\<lambda>s.
         rbind (usfstl_vhost_user_send_virtq_buf srv buf i s) (\<lambda>s.
         handle_buffers f srv i (if vb_allocated buf then fixed else (length (vb_in buf), length (vb_out buf))) s))) = Inr t"
    using Suc.prems(1) by (auto simp: rbind_eq_Inr)
  show ?case
  proof (cases r)
    case None
    then show ?thesis using rest get_ring [OF get Suc.prems(2)] Suc.prems(2) by simp
  next
    case (Some b)
    then obtain s2 s3 where st: "vs_handle srv b i s1 = Inr s2" "usfstl_vhost_user_send_virtq_buf srv b i s2 = Inr s3"
      "handle_buffers f srv i (if vb_allocated b then fixed else (length (vb_in b), length (vb_out b))) s3 = Inr t"
      using rest unfolding Some option.case rbind_eq_Inr by blast
    have "u + 1 + (a - (l + 1)) = u + (a - l)" by simp
    then show ?thesis
      using Suc.IH [OF st(3) round_ring(1) [OF get [unfolded Some] st(1,2) Suc.prems(2) apart]] by simp
  qed
qed simp

text \<open>A message for the guest.\<close>

lemma dev_notify_delivers:
  assumes run: "usfstl_vhost_user_dev_notify srv i data s = Inr t"
    and q: "virtq_at s i = Inr q" "vq_enabled q" and ring: "ring_state i avail used num a l u s"
    and apart: "rings_apart avail used num"
    and get: "usfstl_vhost_user_get_virtq_buf srv i (5, 5) s = Inr (Some b, s1)"
    and mem: "\<forall>x \<in> pieces (vb_in b). vd_mem s x \<noteq> None" "disjoint_pieces (vb_in b)"
      "pieces (vb_in b) \<inter> piece (avail + 2) 2 = {}" "pieces (vb_in b) \<inter> piece (used + 2) (2 + 8 * unat num) = {}"
  shows "iov_read (min (length data) (iov_len (vb_in b))) (vb_in b) (vd_mem t) = Inr (take (iov_len (vb_in b)) data) \<and>
    ring_state i avail used num a (l + 1) (u + 1) t \<and>
    load32 (used + 4 + 8 * ucast (ucast u mod num)) (vd_mem t) = Inr (ucast (vb_idx b)) \<and>
    load32 (used + 4 + 8 * ucast (ucast u mod num) + 4) (vd_mem t) = Inr (word_of_nat (length data))"
proof -
  let ?n = "min (length data) (iov_len (vb_in b))" and ?area = "piece (used + 2) (2 + 8 * unat num)"
  have r1: "ring_state i avail used num a (l + 1) u s1" "vd_mem s1 = vd_mem s" using get_ring [OF get ring] by auto
  have "\<forall>x \<in> pieces (vb_in b). vd_mem s1 x \<noteq> None" using mem(1) r1(2) by simp
  from iov_fill_read [OF this mem(2), of data] obtain m where m: "iov_fill (vb_in b) data (vd_mem s1) = Inr (?n, m)"
    "iov_read ?n (vb_in b) m = Inr (take (iov_len (vb_in b)) data)"
    "\<forall>x. x \<notin> pieces (vb_in b) \<longrightarrow> m x = vd_mem s1 x"
    by blast
  have send: "usfstl_vhost_user_send_virtq_buf srv (b\<lparr>vb_written := length data\<rparr>) i (s1\<lparr>vd_mem := m\<rparr>) = Inr t"
    using run q get m(1) by (auto simp: usfstl_vhost_user_dev_notify_def rassert_eq_Inr)
  have keep: "load16 x m = load16 x (vd_mem s1)" if "pieces (vb_in b) \<inter> piece x 2 = {}" for x
  proof -
    have "load 2 x m = load 2 x (vd_mem s1)" by (rule load_cong) (use that m(3) in auto)
    then show ?thesis by (simp add: load16_def)
  qed
  have "piece (used + 2) 2 \<subseteq> ?area" by (rule piece_mono) simp
  then have "pieces (vb_in b) \<inter> piece (used + 2) 2 = {}" using mem(4) by blast
  then have "ring_state i avail used num a (l + 1) u (s1\<lparr>vd_mem := m\<rparr>)"
    using r1(1) keep mem(3) by (simp add: ring_state_def virtq_at_def)
  note sr = send_ring [OF send this apart]
  have "iov_read ?n (vb_in b) (vd_mem t) = iov_read ?n (vb_in b) m"
    by (rule iov_read_cong) (use sr mem(4) in auto)
  then show ?thesis using sr m(2) by simp
qed

end

end
