(* ===== verification/Vhost_Device.thy ===== *)
theory Vhost_Device
  imports Vhost_Queue
begin

text \<open>
  The messages of the vhost-user protocol (\<open>wmediumd/lib/vhost.c\<close>, \<open>wmediumd/inc/usfstl/vhostproto.h\<close>):
  reading a message, its treatment, the reply, the mapping of the guest's memory, the kicks of the
  queues, and the beginning and the end of a device.
\<close>

section \<open>Messages\<close>

text \<open>What the socket delivers: the bytes of the header (\<open>None\<close> on an error, none at the end of the
  connection), those behind the header (\<open>None\<close> on an error), the descriptors of the control message
  if there is one, and the results of the calls of \<open>sendmsg\<close> for the reply.\<close>

record vhost_input =
  vi_hdr :: "u8 list option"
  vi_data :: "u8 list option"
  vi_fds :: "int list option"
  vi_sent :: "int list"

record vhost_user_msg =
  vm_request :: u32
  vm_flags :: u32
  vm_payload :: "u8 list"

abbreviation (input) VHOST_USER_VERSION :: u32 where "VHOST_USER_VERSION \<equiv> 1"
abbreviation (input) MSG_FLAGS_VERSION :: u32 where "MSG_FLAGS_VERSION \<equiv> 3"
abbreviation (input) MSG_FLAGS_REPLY :: u32 where "MSG_FLAGS_REPLY \<equiv> 4"
abbreviation (input) MSG_FLAGS_NEED_REPLY :: u32 where "MSG_FLAGS_NEED_REPLY \<equiv> 8"

definition bytes32 :: "nat \<Rightarrow> u8 list \<Rightarrow> u32" where
  "bytes32 i bs = word_of_nat (from_le (take 4 (drop i bs)))"

definition bytes64 :: "nat \<Rightarrow> u8 list \<Rightarrow> u64" where
  "bytes64 i bs = word_of_nat (from_le (take 8 (drop i bs)))"

text \<open>The message is read into the message structure alone, whose payload has 264 bytes, although
  the size is only compared with the space of all pieces, \<open>maxlen\<close>. The result is \<open>None\<close> for an error.\<close>

definition usfstl_vhost_user_read_msg :: "nat \<Rightarrow> vhost_input \<Rightarrow> vhost_user_msg option result" where
  "usfstl_vhost_user_read_msg maxlen input =
     (case vi_hdr input of
        None \<Rightarrow> Inr None
      | Some hdr \<Rightarrow>
          if hdr = [] then Inr None
          else rassert (length hdr = 12)
            (let request = bytes32 0 hdr; flags = bytes32 4 hdr; len = unat (bytes32 8 hdr)
             in rassert (len \<le> maxlen)
               (if len = 0 then Inr (Some \<lparr>vm_request = request, vm_flags = flags, vm_payload = []\<rparr>)
                else case vi_data input of
                       None \<Rightarrow> Inr None
                     | Some data \<Rightarrow>
                         if data = [] then Inr None
                         else if length data > 264 then Inl Out_of_bounds
                         else rassert (length data = len)
                           (Inr (Some \<lparr>vm_request = request, vm_flags = flags, vm_payload = data\<rparr>)))))"

text \<open>Fields of the payload; what was not received is not initialised.\<close>

definition payload32 :: "nat \<Rightarrow> vhost_user_msg \<Rightarrow> u32 result" where
  "payload32 i msg = (if i + 4 \<le> length (vm_payload msg) then Inr (bytes32 i (vm_payload msg)) else Inl Uninitialized)"

definition payload64 :: "nat \<Rightarrow> vhost_user_msg \<Rightarrow> u64 result" where
  "payload64 i msg = (if i + 8 \<le> length (vm_payload msg) then Inr (bytes64 i (vm_payload msg)) else Inl Uninitialized)"

text \<open>The received descriptors replace the first ones of \<open>outfds\<close>.\<close>

definition usfstl_vhost_user_get_msg_fds :: "vhost_input \<Rightarrow> nat \<Rightarrow> 'a list \<Rightarrow> (int \<Rightarrow> 'a) \<Rightarrow> 'a list result" where
  "usfstl_vhost_user_get_msg_fds input max_fds outfds f =
     (case vi_fds input of
        None \<Rightarrow> Inr outfds
      | Some fds \<Rightarrow> rassert (length fds \<le> max_fds) (Inr (map f fds @ drop (length fds) outfds)))"

section \<open>The memory of the guest\<close>

definition unmap :: "u64 \<Rightarrow> u64 \<Rightarrow> memory \<Rightarrow> memory" where
  "unmap a len m = (\<lambda>x. if unat (x - a) < unat len then None else m x)"

definition clear_mapping :: "nat \<Rightarrow> ('j, 'z) vhost_scheme \<Rightarrow> ('j, 'z) vhost_scheme result" where
  "clear_mapping idx s =
     rbind (nth_result (vd_region_vaddr s) idx) (\<lambda>vaddr.
     rbind (nth_result (vd_regions s) idx) (\<lambda>r.
     let s = (case vaddr of
                None \<Rightarrow> s
              | Some v \<Rightarrow> s\<lparr>vd_mem := unmap v (region_size r + mmap_offset r) (vd_mem s),
                           vd_region_vaddr := (vd_region_vaddr s)[idx := None]\<rparr>)
     in Inr (s\<lparr>vd_region_fds := (vd_region_fds s)[idx := - 1]\<rparr>)))"

definition usfstl_vhost_user_clear_mappings :: "('j, 'z) vhost_scheme \<Rightarrow> ('j, 'z) vhost_scheme result" where
  "usfstl_vhost_user_clear_mappings s = rfold clear_mapping [0..<8] s"

definition setup_mapping ::
  "('j, ('j, 'z) vhost_scheme) vhost_server \<Rightarrow> nat \<Rightarrow> ('j, 'z) vhost_scheme \<Rightarrow> ('j, 'z) vhost_scheme result" where
  "setup_mapping srv idx s =
     rbind (nth_result (vd_region_vaddr s) idx) (\<lambda>vaddr.
     rassert (vaddr = None)
    (rbind (nth_result (vd_regions s) idx) (\<lambda>r.
     rbind (nth_result (vd_region_fds s) idx) (\<lambda>fd.
     case vs_mmap srv (region_size r + mmap_offset r) fd (vd_mem s) of
       None \<Rightarrow> Inl Assertion_failed
     | Some (v, m) \<Rightarrow>
         Inr (s\<lparr>vd_mem := m, vd_region_vaddr := (vd_region_vaddr s)[idx := Some v]\<rparr>)))))"

definition usfstl_vhost_user_setup_mappings ::
  "('j, ('j, 'z) vhost_scheme) vhost_server \<Rightarrow> ('j, 'z) vhost_scheme \<Rightarrow> ('j, 'z) vhost_scheme result" where
  "usfstl_vhost_user_setup_mappings srv s = rfold (setup_mapping srv) [0..<vd_n_regions s] s"

section \<open>Kicks\<close>

definition run_triggered ::
  "('j, ('j, 'z) vhost_scheme) vhost_server \<Rightarrow> nat \<Rightarrow> ('j, 'z) vhost_scheme \<Rightarrow> ('j, 'z) vhost_scheme result" where
  "run_triggered srv virtq s =
     rbind (virtq_at s virtq) (\<lambda>q.
     if \<not> vq_triggered q then Inr s
     else usfstl_vhost_user_handle_queue srv virtq (set_virtq virtq (q\<lparr>vq_triggered := False\<rparr>) s))"

definition usfstl_vhost_user_job_callback ::
  "('j, ('j, 'z) vhost_scheme) vhost_server \<Rightarrow> ('j, 'z) vhost_scheme \<Rightarrow> ('j, 'z) vhost_scheme result" where
  "usfstl_vhost_user_job_callback srv s = rfold (run_triggered srv) [0..<vs_max_queues srv] s"

definition usfstl_vhost_user_virtq_kick ::
  "('j, ('j, 'z) vhost_scheme) vhost_server \<Rightarrow> nat \<Rightarrow> ('j, 'z) vhost_scheme \<Rightarrow> ('j, 'z) vhost_scheme result" where
  "usfstl_vhost_user_virtq_kick srv virtq s =
     (if \<not> has_feature (vs_input_queues srv) virtq then Inr s
      else rbind (virtq_at s virtq) (\<lambda>q.
        let s = set_virtq virtq (q\<lparr>vq_triggered := True\<rparr>) s; job = vs_irq_job srv in
        if usfstl_job_scheduled job s then Inr s
        else if \<not> vs_scheduler srv then usfstl_vhost_user_job_callback srv s
        else rbind (vs_sync_from srv s) (\<lambda>s.
          rbind (usfstl_sched_current_time (vs_ops srv) s) (\<lambda>(t, s).
          usfstl_sched_add_job (vs_ops srv) job (set_job_start job (t + ucast (vs_interrupt_latency srv)) s)))))"

text \<open>The handler of a queue's entry in the event loop; reading the event counter succeeds.\<close>

definition usfstl_vhost_user_virtq_fdkick ::
  "('j, ('j, 'z) vhost_scheme) vhost_server \<Rightarrow> nat \<Rightarrow> ('j, 'z) vhost_scheme \<Rightarrow> ('j, 'z) vhost_scheme result" where
  "usfstl_vhost_user_virtq_fdkick srv virtq s =
     rassert (virtq < vs_max_queues srv) (usfstl_vhost_user_virtq_kick srv virtq s)"

text \<open>Entries of the same priority are registered at the front.\<close>

definition usfstl_vhost_user_update_virtq_kick ::
  "nat \<Rightarrow> int \<Rightarrow> ('j, 'z) vhost_scheme \<Rightarrow> ('j, 'z) vhost_scheme result" where
  "usfstl_vhost_user_update_virtq_kick virtq fd s =
     rbind (virtq_at s virtq) (\<lambda>q.
     rbind (if vq_entry_fd q \<noteq> - 1
        then rbind (usfstl_loop_unregister (Virtq_entry virtq) (vd_loop s)) (\<lambda>l. Inr (s\<lparr>vd_loop := l\<rparr>))
        else Inr s) (\<lambda>s.
     Inr (if fd \<noteq> - 1
        then (set_virtq virtq (q\<lparr>vq_entry_fd := fd\<rparr>) s)\<lparr>vd_loop := Virtq_entry virtq # vd_loop s\<rparr>
        else s)))"

section \<open>The treatment of a message\<close>

definition usfstl_vhost_user_dev_free ::
  "('j, ('j, 'z) vhost_scheme) vhost_server \<Rightarrow> ('j, 'z) vhost_scheme \<Rightarrow> ('j, 'z) vhost_scheme result" where
  "usfstl_vhost_user_dev_free srv s =
     rbind (usfstl_loop_unregister Dev_entry (vd_loop s)) (\<lambda>l.
     let s = usfstl_sched_del_job (vs_irq_job srv) (s\<lparr>vd_loop := l\<rparr>) in
     rbind (rfold (\<lambda>virtq. usfstl_vhost_user_update_virtq_kick virtq (- 1)) [0..<vs_max_queues srv] s) (\<lambda>s.
     rbind (usfstl_vhost_user_clear_mappings s) (\<lambda>s.
     vs_disconnected srv s)))"

definition region_at :: "nat \<Rightarrow> vhost_user_msg \<Rightarrow> vhost_region result" where
  "region_at i msg =
     rbind (payload64 (8 + 32 * i) msg) (\<lambda>phys.
     rbind (payload64 (16 + 32 * i) msg) (\<lambda>len.
     rbind (payload64 (24 + 32 * i) msg) (\<lambda>user.
     rbind (payload64 (32 + 32 * i) msg) (\<lambda>offset.
     Inr \<lparr>guest_phys_addr = phys, region_size = len, user_addr = user, mmap_offset = offset\<rparr>))))"

fun regions_at :: "nat list \<Rightarrow> vhost_user_msg \<Rightarrow> vhost_region list result" where
  "regions_at [] msg = Inr []"
| "regions_at (i # is) msg = rbind (region_at i msg) (\<lambda>r. rbind (regions_at is msg) (\<lambda>rs. Inr (r # rs)))"

definition set_mem_table ::
  "('j, ('j, 'z) vhost_scheme) vhost_server \<Rightarrow> vhost_input \<Rightarrow> vhost_user_msg \<Rightarrow> ('j, 'z) vhost_scheme \<Rightarrow>
   ('j, 'z) vhost_scheme result" where
  "set_mem_table srv input msg s =
     rassert (length (vm_payload msg) \<le> 264)
    (rbind (payload32 0 msg) (\<lambda>n.
     rassert (n \<le> 8)
    (rbind (usfstl_vhost_user_clear_mappings s) (\<lambda>s.
     rbind (regions_at [0..<unat n] msg) (\<lambda>rs.
     let s = s\<lparr>vd_regions := rs @ drop (length rs) (vd_regions s), vd_n_regions := unat n\<rparr> in
     rbind (usfstl_vhost_user_get_msg_fds input 8 (vd_region_fds s) id) (\<lambda>fds.
     usfstl_vhost_user_setup_mappings srv (s\<lparr>vd_region_fds := fds\<rparr>)))))))"

definition set_vring_addr ::
  "('j, ('j, 'z) vhost_scheme) vhost_server \<Rightarrow> vhost_user_msg \<Rightarrow> ('j, 'z) vhost_scheme \<Rightarrow>
   ('j, 'z) vhost_scheme result" where
  "set_vring_addr srv msg s =
     rassert (length (vm_payload msg) = 40)
    (rbind (payload32 0 msg) (\<lambda>idx.
     rbind (payload32 4 msg) (\<lambda>flags.
     let idx = unat idx in
     rassert (idx \<le> vs_max_queues srv)
    (rassert (flags = 0)
    (rbind (virtq_at s idx) (\<lambda>q.
     rassert (\<not> vq_enabled q)
    (rbind (rbind (payload64 8 msg) (\<lambda>a. usfstl_vhost_user_to_va a s)) (\<lambda>desc.
     rbind (rbind (payload64 16 msg) (\<lambda>a. usfstl_vhost_user_to_va a s)) (\<lambda>used.
     rbind (rbind (payload64 24 msg) (\<lambda>a. usfstl_vhost_user_to_va a s)) (\<lambda>avail.
     rassert (avail \<noteq> 0 \<and> desc \<noteq> 0 \<and> used \<noteq> 0)
       (Inr (set_virtq idx (q\<lparr>vq_last_avail_idx := 0, vq_desc := Some desc, vq_used := Some used,
                            vq_avail := Some avail\<rparr>) s))))))))))))"

definition set_vring_kick ::
  "('j, ('j, 'z) vhost_scheme) vhost_server \<Rightarrow> vhost_input \<Rightarrow> vhost_user_msg \<Rightarrow> ('j, 'z) vhost_scheme \<Rightarrow>
   ('j, 'z) vhost_scheme result" where
  "set_vring_kick srv input msg s =
     rassert (length (vm_payload msg) = 8)
    (rbind (payload64 0 msg) (\<lambda>v.
     let virtq = unat (v AND 0x7f) in
     rassert (virtq \<le> vs_max_queues srv)
    (rbind (if v AND 0x80 \<noteq> 0 then Inr (- 1)
        else rbind (usfstl_vhost_user_get_msg_fds input 1 [None] Some) (\<lambda>fds. rget Uninitialized (hd fds))) (\<lambda>fd.
     usfstl_vhost_user_update_virtq_kick virtq fd s))))"

definition set_vring_call ::
  "('j, ('j, 'z) vhost_scheme) vhost_server \<Rightarrow> vhost_input \<Rightarrow> vhost_user_msg \<Rightarrow> ('j, 'z) vhost_scheme \<Rightarrow>
   ('j, 'z) vhost_scheme result" where
  "set_vring_call srv input msg s =
     rassert (length (vm_payload msg) = 8)
    (rbind (payload64 0 msg) (\<lambda>v.
     let virtq = unat (v AND 0x7f) in
     rassert (virtq \<le> vs_max_queues srv)
    (rbind (virtq_at s virtq) (\<lambda>q.
     rbind (if v AND 0x80 \<noteq> 0 then Inr (- 1)
        else rbind (usfstl_vhost_user_get_msg_fds input 1 [vq_call_fd q] id) (\<lambda>fds. Inr (hd fds))) (\<lambda>fd.
     Inr (set_virtq virtq (q\<lparr>vq_call_fd := fd\<rparr>) s))))))"

text \<open>A message that has a queue and a number.\<close>

definition on_vring ::
  "('j, ('j, 'z) vhost_scheme) vhost_server \<Rightarrow> vhost_user_msg \<Rightarrow> (nat \<Rightarrow> u32 \<Rightarrow> virtq \<Rightarrow> ('j, 'z) vhost_scheme result) \<Rightarrow>
   ('j, 'z) vhost_scheme \<Rightarrow> ('j, 'z) vhost_scheme result" where
  "on_vring srv msg f s =
     rassert (length (vm_payload msg) = 8)
    (rbind (payload32 0 msg) (\<lambda>idx.
     rbind (payload32 4 msg) (\<lambda>num.
     rassert (unat idx < vs_max_queues srv)
    (rbind (virtq_at s (unat idx)) (\<lambda>q.
     f (unat idx) num q)))))"

definition get_config ::
  "('j, ('j, 'z) vhost_scheme) vhost_server \<Rightarrow> vhost_user_msg \<Rightarrow> u8 list list result" where
  "get_config srv msg =
     rbind (payload32 4 msg) (\<lambda>n.
     rassert (word_of_nat (length (vm_payload msg)) = 12 + n)
    (rassert (vs_config srv \<noteq> [])
    (rbind (payload32 0 msg) (\<lambda>offset.
     rassert (offset = 0)
    (rassert (unat n \<le> length (vs_config srv))
       (Inr [take 8 (vm_payload msg) @ le_bytes 4 (0 :: u32), take 256 (vs_config srv)]))))))"

definition no_reply :: "'s result \<Rightarrow> ((nat \<times> u8 list list) option \<times> 's) result" where
  "no_reply m = rbind m (\<lambda>s. Inr (None, s))"

text \<open>The \<open>switch\<close>: the length of the reply and the pieces it is taken from, if the message has one.\<close>

definition handle_request ::
  "('j, ('j, 'z) vhost_scheme) vhost_server \<Rightarrow> vhost_input \<Rightarrow> vhost_user_msg \<Rightarrow> ('j, 'z) vhost_scheme \<Rightarrow>
   ((nat \<times> u8 list list) option \<times> ('j, 'z) vhost_scheme) result" where
  "handle_request srv input msg s =
     (let req = vm_request msg; len = length (vm_payload msg);
          u64_reply = (\<lambda>v :: u64. Inr (Some (8, [le_bytes 8 v]), s))
      in if req = 1 then rassert (len = 0) (u64_reply (vs_features srv OR push_bit 30 1))
      else if req = 2 then rassert (len = 8) (no_reply (rbind (payload64 0 msg) (\<lambda>v. Inr (s\<lparr>vd_features := v\<rparr>))))
      else if req = 3 then rassert (len = 0) (Inr (None, s))
      else if req = 5 then no_reply (set_mem_table srv input msg s)
      else if req = 8 then no_reply (on_vring srv msg (\<lambda>i num q. Inr (set_virtq i (q\<lparr>vq_num := num\<rparr>) s)) s)
      else if req = 9 then no_reply (set_vring_addr srv msg s)
      else if req = 10 then Inr (None, s)
      else if req = 12 then no_reply (set_vring_kick srv input msg s)
      else if req = 13 then no_reply (set_vring_call srv input msg s)
      else if req = 15 then rassert (len = 0) (u64_reply
        (vs_protocol_features srv OR (if vs_config srv \<noteq> [] then push_bit 9 1 else 0) OR
         push_bit 5 1 OR push_bit 10 1 OR push_bit 3 1))
      else if req = 18 then no_reply (on_vring srv msg (\<lambda>i num q. Inr (set_virtq i (q\<lparr>vq_enabled := (num \<noteq> 0)\<rparr>) s)) s)
      else if req = 16 then rassert (len = 8) (no_reply (rbind (payload64 0 msg) (\<lambda>v. Inr (s\<lparr>vd_protocol_features := v\<rparr>))))
      else if req = 21 then rassert (len = 0)
        (rbind (usfstl_vhost_user_get_msg_fds input 1 [vd_req_fd s] id) (\<lambda>fds.
         rassert (hd fds \<noteq> - 1) (Inr (None, s\<lparr>vd_req_fd := hd fds\<rparr>))))
      else if req = 24 then rbind (get_config srv msg) (\<lambda>vs. Inr (Some (len, vs), s))
      else if req = 35 then no_reply (on_vring srv msg (\<lambda>i num q.
        rassert (num = 0) (usfstl_vhost_user_virtq_kick srv i s)) s)
      else Inl Assertion_failed)"

section \<open>The reply\<close>

text \<open>The pieces are cut to the length of the reply; \<open>sendmsg\<close> takes a part of what is left, at most
  as much as its answer says.\<close>

fun cut_iov :: "nat \<Rightarrow> u8 list list \<Rightarrow> u8 list list" where
  "cut_iov tmp [] = []"
| "cut_iov tmp (v # vs) =
     (if tmp = 0 then []
      else let v = (if tmp \<le> length v then take tmp v else v) in v # cut_iov (tmp - length v) vs)"

fun advance_iov :: "nat \<Rightarrow> u8 list list \<Rightarrow> u8 list list" where
  "advance_iov len [] = []"
| "advance_iov len (v # vs) =
     (if len = 0 then v # vs
      else let rm = (if length v \<le> len then length v else len) in drop rm v # advance_iov (len - rm) vs)"

text \<open>The result is what was sent, or \<open>None\<close> if a call failed.\<close>

fun send_reply :: "int list \<Rightarrow> nat \<Rightarrow> u8 list list \<Rightarrow> u8 list option result" where
  "send_reply answers 0 vs = Inr (Some [])"
| "send_reply [] (Suc n) vs = Inl Starved"
| "send_reply (a # answers) (Suc n) vs =
     (if a < 0 then Inr None
      else let len = min (nat a) (length (concat vs)) in
        rassert (len \<noteq> 0)
       (rbind (send_reply answers (Suc n - len) (advance_iov len vs)) (\<lambda>sent.
        Inr (map_option (\<lambda>bs. take len (concat vs) @ bs) sent))))"

section \<open>The handler\<close>

text \<open>The result says whether the device was freed.\<close>

definition usfstl_vhost_user_handle_msg ::
  "('j, ('j, 'z) vhost_scheme) vhost_server \<Rightarrow> vhost_input \<Rightarrow> ('j, 'z) vhost_scheme \<Rightarrow>
   (bool \<times> ('j, 'z) vhost_scheme) result" where
  "usfstl_vhost_user_handle_msg srv input s =
     (let free = (\<lambda>s. rbind (usfstl_vhost_user_dev_free srv s) (\<lambda>s. Inr (True, s))) in
      rbind (usfstl_vhost_user_read_msg 520 input) (\<lambda>msg.
      case msg of
        None \<Rightarrow> free s
      | Some msg \<Rightarrow>
          rassert (vm_flags msg AND MSG_FLAGS_VERSION = VHOST_USER_VERSION)
         (rbind (handle_request srv input msg s) (\<lambda>(reply, s).
          if reply = None \<and> vm_flags msg AND MSG_FLAGS_NEED_REPLY = 0 then Inr (False, s)
          else let (len, vs) = (case reply of None \<Rightarrow> (8, [le_bytes 8 (0 :: u64)]) | Some r \<Rightarrow> r);
                   flags = (vm_flags msg AND NOT MSG_FLAGS_NEED_REPLY) OR MSG_FLAGS_REPLY;
                   hdr = le_bytes 4 (vm_request msg) @ le_bytes 4 flags @ le_bytes 4 (word_of_nat len :: u32)
            in rbind (send_reply (vi_sent input) (12 + len) (cut_iov (12 + len) (hdr # vs))) (\<lambda>sent.
               case sent of
                 None \<Rightarrow> free s
               | Some bs \<Rightarrow> Inr (False, s\<lparr>vd_out := vd_out s @ [Reply bs]\<rparr>))))))"

section \<open>The beginning of a device\<close>

definition new_virtq :: virtq where
  "new_virtq = \<lparr>vq_entry_fd = - 1, vq_enabled = False, vq_triggered = False, vq_num = 0, vq_desc = None,
     vq_avail = None, vq_used = None, vq_call_fd = - 1, vq_last_avail_idx = 0\<rparr>"

definition usfstl_vhost_user_connected ::
  "('j, ('j, 'z) vhost_scheme) vhost_server \<Rightarrow> ('j, 'z) vhost_scheme \<Rightarrow> ('j, 'z) vhost_scheme result" where
  "usfstl_vhost_user_connected srv s =
     (let region = \<lparr>guest_phys_addr = 0, region_size = 0, user_addr = 0, mmap_offset = 0\<rparr>;
          s = s\<lparr>job_of := (job_of s)(vs_irq_job srv := \<lparr>job_start = 0, job_priority = 0x10000000, job_group = 0\<rparr>),
                vd_features := 0, vd_protocol_features := 0, vd_n_regions := 0, vd_regions := replicate 8 region,
                vd_region_fds := replicate 8 (- 1), vd_region_vaddr := replicate 8 None, vd_req_fd := - 1,
                vd_virtqs := replicate (vs_max_queues srv) new_virtq\<rparr>
      in rbind (vs_connected srv s) (\<lambda>s.
         Inr (s\<lparr>vd_loop := [Dev_entry]\<rparr>)))"

definition usfstl_vhost_user_config_changed ::
  "('j, ('j, 'z) vhost_scheme) vhost_server \<Rightarrow> ('j, 'z) vhost_scheme \<Rightarrow> ('j, 'z) vhost_scheme result" where
  "usfstl_vhost_user_config_changed srv s =
     (if has_feature (vd_protocol_features s) 9 then usfstl_vhost_user_send_msg srv Slave_config_change s
      else Inr s)"

text \<open>The life of a device: it is connected, then the event loop calls its handler or that of a queue,
  the program sends to the guest or announces a change of the configuration, until it is freed.\<close>

inductive device_run ::
  "('j, ('j, 'z) vhost_scheme) vhost_server \<Rightarrow> ('j, 'z) vhost_scheme \<Rightarrow> bool" for srv where
  connect: "usfstl_vhost_user_connected srv s = Inr t \<Longrightarrow> device_run srv t"
| message: "device_run srv s \<Longrightarrow> usfstl_vhost_user_handle_msg srv input s = Inr (False, t) \<Longrightarrow> device_run srv t"
| kick: "device_run srv s \<Longrightarrow> Virtq_entry i \<in> set (vd_loop s) \<Longrightarrow> usfstl_vhost_user_virtq_fdkick srv i s = Inr t \<Longrightarrow>
    device_run srv t"
| interrupt: "device_run srv s \<Longrightarrow> usfstl_vhost_user_job_callback srv s = Inr t \<Longrightarrow> device_run srv t"
| notify: "device_run srv s \<Longrightarrow> usfstl_vhost_user_dev_notify srv i data s = Inr t \<Longrightarrow> device_run srv t"
| config_changed: "device_run srv s \<Longrightarrow> usfstl_vhost_user_config_changed srv s = Inr t \<Longrightarrow> device_run srv t"

section \<open>Messages that break the program\<close>

text \<open>When the kick descriptor of a queue is taken away, the queue leaves the event loop but keeps the
  number of the descriptor: the next change of it, or the end of the device, unregisters it again.\<close>

lemma kick_removed_twice:
  assumes "virtq_at s i = Inr q" and "vq_entry_fd q \<noteq> - 1" and "distinct (vd_loop s)"
    and "usfstl_vhost_user_update_virtq_kick i (- 1) s = Inr t"
  shows "usfstl_vhost_user_update_virtq_kick i fd t = Inl Null_dereference"
proof -
  have t: "t = s\<lparr>vd_loop := remove1 (Virtq_entry i) (vd_loop s)\<rparr>"
    using assms by (auto simp: usfstl_vhost_user_update_virtq_kick_def usfstl_loop_unregister_def split: if_splits)
  have "virtq_at t i = Inr q" using assms(1) by (simp add: t virtq_at_def)
  moreover have "Virtq_entry i \<notin> set (vd_loop t)" using assms(3) by (simp add: t set_remove1_eq)
  ultimately show ?thesis
    using assms(2) by (simp add: usfstl_vhost_user_update_virtq_kick_def usfstl_loop_unregister_def)
qed

text \<open>The index of a queue is accepted if it is the number of queues, which is behind the array.\<close>

lemma kick_index_overrun:
  assumes "length (vd_virtqs s) = 2" and "vs_max_queues srv = 2" and "vm_payload msg = [0x82, 0, 0, 0, 0, 0, 0, 0]"
  shows "set_vring_kick srv input msg s = Inl Out_of_bounds"
proof -
  have "payload64 0 msg = Inr 0x82" by (simp add: payload64_def bytes64_def assms(3))
  then show ?thesis
    using assms by (simp add: set_vring_kick_def usfstl_vhost_user_update_virtq_kick_def virtq_at_def nth_result_def)
qed

text \<open>A message may announce more bytes than the structure that it is read into has.\<close>

lemma message_overruns_payload:
  assumes "vi_hdr input = Some (le_bytes 4 (request :: u32) @ le_bytes 4 (flags :: u32) @ le_bytes 4 (300 :: u32))"
    and "vi_data input = Some data" and "length data = 300"
  shows "usfstl_vhost_user_read_msg 520 input = Inl Out_of_bounds"
proof -
  have "bytes32 8 (le_bytes 4 request @ le_bytes 4 flags @ le_bytes 4 (300 :: u32)) = 300"
    by (simp add: bytes32_def)
  then show ?thesis using assms by (cases "data = []") (simp_all add: usfstl_vhost_user_read_msg_def)
qed

section \<open>The reply is sent completely\<close>

lemma concat_cut_iov: "concat (cut_iov n vs) = take n (concat vs)"
  by (induction vs arbitrary: n) (auto simp: Let_def)

lemma concat_advance_iov: "concat (advance_iov n vs) = drop n (concat vs)"
  by (induction vs arbitrary: n) auto

lemma send_reply_all:
  assumes "length (concat vs) = n" and "\<forall>a \<in> set answers. 0 < a" and "n \<le> length answers"
  shows "send_reply answers n vs = Inr (Some (concat vs))"
  using assms
proof (induction answers n vs rule: send_reply.induct)
  case (3 a answers n vs)
  let ?k = "min (nat a) (length (concat vs))"
  have k: "0 < ?k" "?k \<le> Suc n" using 3(2,3) by auto
  have "send_reply answers (Suc n - ?k) (advance_iov ?k vs) = Inr (Some (concat (advance_iov ?k vs)))"
    by (rule 3(1)) (use 3(2-4) k in \<open>auto simp: concat_advance_iov\<close>)
  then show ?case using 3(3) k by (simp add: concat_advance_iov Let_def)
qed simp_all

text \<open>Claim C36: a reply is sent completely and in order, header, message and data, whatever part of it
  each call of \<open>sendmsg\<close> takes, as long as each takes something.\<close>

theorem reply_sent_completely:
  assumes "n \<le> length (concat vs)" and "\<forall>a \<in> set answers. 0 < a" and "n \<le> length answers"
  shows "send_reply answers n (cut_iov n vs) = Inr (Some (take n (concat vs)))"
  using send_reply_all [of "cut_iov n vs" n answers] assms by (simp add: concat_cut_iov)

lemma reply_sent_completely_witness:
  "send_reply [2, 1, 1, 9, 9] 5 (cut_iov 5 [[1, 2, 3], [4, 5, 6, 7]]) = Inr (Some [1, 2, 3, 4, 5])"
  using reply_sent_completely [of 5 "[[1, 2, 3], [4, 5, 6, 7]]" "[2, 1, 1, 9, 9]"] by simp

section \<open>The device keeps its shape\<close>

text \<open>What queue operations do to a device: the mapped addresses, the descriptors of the queues, the
  entries in the loop and the regions stay.\<close>

definition keeps_device :: "('j, 'z) vhost_scheme \<Rightarrow> ('j, 'z) vhost_scheme \<Rightarrow> bool" where
  "keeps_device s t \<longleftrightarrow> (\<forall>x. vd_mem t x = None \<longleftrightarrow> vd_mem s x = None) \<and>
     map vq_entry_fd (vd_virtqs t) = map vq_entry_fd (vd_virtqs s) \<and> vd_loop t = vd_loop s \<and>
     vd_n_regions t = vd_n_regions s \<and> vd_regions t = vd_regions s \<and> vd_region_vaddr t = vd_region_vaddr s \<and>
     vd_region_fds t = vd_region_fds s"

lemma keeps_device_refl [simp]: "keeps_device s s"
  by (simp add: keeps_device_def)

lemma keeps_device_trans: "keeps_device s t \<Longrightarrow> keeps_device t u \<Longrightarrow> keeps_device s u"
  by (auto simp: keeps_device_def)

lemma same_keeps: "same_vhost s t \<Longrightarrow> keeps_device s t"
  by (simp add: same_vhost_def keeps_device_def)

lemma set_virtq_keeps:
  assumes "virtq_at s i = Inr q" and "vq_entry_fd p = vq_entry_fd q"
  shows "keeps_device s (set_virtq i p s)"
proof -
  have "vd_virtqs s ! i = q" "i < length (vd_virtqs s)"
    using assms(1) by (auto simp: virtq_at_def nth_result_def split: if_splits)
  then have "map vq_entry_fd ((vd_virtqs s)[i := p]) = map vq_entry_fd (vd_virtqs s)"
    using assms(2) by (intro nth_equalityI) (auto simp: nth_list_update)
  then show ?thesis by (simp add: keeps_device_def set_virtq_def)
qed

text \<open>The shape of a device: arrays of their lengths, exactly the regions in use are mapped, all of
  their memory can be accessed, and every queue in the event loop has a descriptor.\<close>

definition vhost_inv :: "('j, ('j, 'z) vhost_scheme) vhost_server \<Rightarrow> ('j, 'z) vhost_scheme \<Rightarrow> bool" where
  "vhost_inv srv s \<longleftrightarrow> length (vd_virtqs s) = vs_max_queues srv \<and> length (vd_regions s) = 8 \<and>
     length (vd_region_fds s) = 8 \<and> length (vd_region_vaddr s) = 8 \<and> vd_n_regions s \<le> 8 \<and>
     (\<forall>i < 8. vd_region_vaddr s ! i \<noteq> None \<longleftrightarrow> i < vd_n_regions s) \<and>
     (\<forall>i < 8. \<forall>v. vd_region_vaddr s ! i = Some v \<longrightarrow>
        (\<forall>x \<in> piece v (unat (region_size (vd_regions s ! i) + mmap_offset (vd_regions s ! i))). vd_mem s x \<noteq> None)) \<and>
     distinct (vd_loop s) \<and>
     (\<forall>i. Virtq_entry i \<in> set (vd_loop s) \<longrightarrow> i < vs_max_queues srv \<and> vq_entry_fd (vd_virtqs s ! i) \<noteq> - 1)"

lemma vhost_inv_keeps:
  assumes "vhost_inv srv s" and "keeps_device s t"
  shows "vhost_inv srv t"
proof -
  have fds: "map vq_entry_fd (vd_virtqs t) = map vq_entry_fd (vd_virtqs s)" using assms(2) by (simp add: keeps_device_def)
  from arg_cong [OF this, of length] have len: "length (vd_virtqs t) = length (vd_virtqs s)" by simp
  have fd: "vq_entry_fd (vd_virtqs t ! i) = vq_entry_fd (vd_virtqs s ! i)" if "i < length (vd_virtqs s)" for i
    using arg_cong [OF fds, of "\<lambda>xs. xs ! i"] that len by simp
  have same: "vd_mem t x = None \<longleftrightarrow> vd_mem s x = None" "vd_loop t = vd_loop s" "vd_n_regions t = vd_n_regions s"
    "vd_regions t = vd_regions s" "vd_region_vaddr t = vd_region_vaddr s" "vd_region_fds t = vd_region_fds s" for x
    using assms(2) by (simp_all add: keeps_device_def)
  show ?thesis
    using assms(1) fd unfolding vhost_inv_def same len by auto
qed

context vhost_callbacks
begin

lemma get_keeps:
  assumes run: "usfstl_vhost_user_get_virtq_buf srv i fixed s = Inr (r, t)"
  shows "keeps_device s t"
proof -
  obtain q where q: "virtq_at s i = Inr q"
    using run by (auto simp: usfstl_vhost_user_get_virtq_buf_def rbind_eq_Inr)
  let ?s = "set_virtq i (q\<lparr>vq_last_avail_idx := vq_last_avail_idx q + 1\<rparr>) s"
  have "t = s \<or> t = ?s\<lparr>vd_mem := vd_mem s\<rparr>"
    using run q unfolding usfstl_vhost_user_get_virtq_buf_def
    by (auto simp: result_simps Let_def guest split: if_splits)
  moreover have "?s\<lparr>vd_mem := vd_mem s\<rparr> = ?s" by (simp add: set_virtq_def)
  moreover have "keeps_device s ?s" by (rule set_virtq_keeps [OF q]) simp
  ultimately show ?thesis by auto
qed

lemma send_keeps:
  assumes run: "usfstl_vhost_user_send_virtq_buf srv b i s = Inr t"
  shows "keeps_device s t"
proof -
  obtain s1 m1 m2 m3 a1 a2 a3 v1 v2 v3 where same1: "same_vhost s s1" and m: "store32 v1 a1 (vd_mem s1) = Inr m1"
    "store32 v2 a2 m1 = Inr m2" "store16 v3 a3 m2 = Inr m3" and same3: "same_vhost (s1\<lparr>vd_mem := m3\<rparr>) t"
    using send_steps [OF run] by blast
  have mapped: "m3 x = None \<longleftrightarrow> vd_mem s1 x = None" for x
    using store_mapped [OF m(1) [unfolded store32_def]] store_mapped [OF m(2) [unfolded store32_def]]
      store_mapped [OF m(3) [unfolded store16_def]] by simp
  have "keeps_device s1 (s1\<lparr>vd_mem := m3\<rparr>)" using mapped by (simp add: keeps_device_def)
  then show ?thesis using same_keeps [OF same1] same_keeps [OF same3] keeps_device_trans by blast
qed

lemma handle_buffers_keeps: "handle_buffers f srv i fixed s = Inr t \<Longrightarrow> keeps_device s t"
proof (induction f arbitrary: fixed s)
  case (Suc f)
  obtain r s1 where get: "usfstl_vhost_user_get_virtq_buf srv i fixed s = Inr (r, s1)"
    and rest: "(case r of None \<Rightarrow> Inr s1
     | Some buf \<Rightarrow> rbind (vs_handle srv buf i s1) (\<lambda>s.
         rbind (usfstl_vhost_user_send_virtq_buf srv buf i s) (\<lambda>s.
         handle_buffers f srv i (if vb_allocated buf then fixed else (length (vb_in buf), length (vb_out buf))) s))) = Inr t"
    using Suc.prems(1) by (auto simp: rbind_eq_Inr)
  show ?case
  proof (cases r)
    case None
    then show ?thesis using rest get_keeps [OF get] by simp
  next
    case (Some b)
    then obtain s2 s3 where st: "vs_handle srv b i s1 = Inr s2" "usfstl_vhost_user_send_virtq_buf srv b i s2 = Inr s3"
      "handle_buffers f srv i (if vb_allocated b then fixed else (length (vb_in b), length (vb_out b))) s3 = Inr t"
      using rest unfolding Some option.case rbind_eq_Inr by blast
    show ?thesis
      using get_keeps [OF get] same_keeps [OF handle [OF st(1)]] send_keeps [OF st(2)] Suc.IH [OF st(3)]
        keeps_device_trans by blast
  qed
qed simp

lemma job_callback_keeps:
  assumes "usfstl_vhost_user_job_callback srv s = Inr t"
  shows "keeps_device s t"
proof -
  have "keeps_device u v" if run: "run_triggered srv i u = Inr v" for i u v
  proof -
    obtain q where q: "virtq_at u i = Inr q" using run by (auto simp: run_triggered_def rbind_eq_Inr)
    have "keeps_device u (set_virtq i (q\<lparr>vq_triggered := False\<rparr>) u)" by (rule set_virtq_keeps [OF q]) simp
    moreover have "v = u \<or> handle_buffers (2 ^ 16) srv i (5, 5) (set_virtq i (q\<lparr>vq_triggered := False\<rparr>) u) = Inr v"
      using run q by (auto simp: run_triggered_def usfstl_vhost_user_handle_queue_def split: if_splits)
    ultimately show ?thesis using handle_buffers_keeps keeps_device_trans keeps_device_refl by blast
  qed
  then show ?thesis
    using rfold_invariant [where I = "keeps_device s", OF assms [unfolded usfstl_vhost_user_job_callback_def]]
      keeps_device_trans keeps_device_refl by blast
qed

lemma dev_notify_keeps:
  assumes run: "usfstl_vhost_user_dev_notify srv i data s = Inr t"
  shows "keeps_device s t"
proof -
  have fill: "m' x = None \<longleftrightarrow> m x = None" if "iov_fill sg buf m = Inr (c, m')" for sg buf m c m' x
    using that
  proof (induction sg arbitrary: buf m c)
    case (Cons p sg)
    obtain base len where p: "p = (base, len)" by (cases p)
    show ?case
    proof (cases "buf = []")
      case False
      then obtain m1 c1 where m1: "store (take (min (length buf) (unat len)) buf) base m = Inr m1"
        "iov_fill sg (drop (min (length buf) (unat len)) buf) m1 = Inr (c1, m')"
        using Cons.prems by (auto simp: p result_simps Let_def)
      then show ?thesis using Cons.IH [OF m1(2)] store_mapped [OF m1(1)] by simp
    qed (use Cons.prems in \<open>simp add: p\<close>)
  qed simp
  obtain q where q: "virtq_at s i = Inr q" using run by (auto simp: usfstl_vhost_user_dev_notify_def result_simps)
  show ?thesis
  proof (cases "vq_enabled q")
    case True
    then obtain r s1 where get: "usfstl_vhost_user_get_virtq_buf srv i (5, 5) s = Inr (r, s1)"
      using run q by (auto simp: usfstl_vhost_user_dev_notify_def rassert_eq_Inr rbind_eq_Inr)
    show ?thesis
    proof (cases r)
      case None
      then show ?thesis using run q True get get_keeps [OF get] by (simp add: usfstl_vhost_user_dev_notify_def rassert_eq_Inr)
    next
      case (Some b)
      then obtain c m where m: "iov_fill (vb_in b) data (vd_mem s1) = Inr (c, m)"
        "usfstl_vhost_user_send_virtq_buf srv (b\<lparr>vb_written := length data\<rparr>) i (s1\<lparr>vd_mem := m\<rparr>) = Inr t"
        using run q True get by (auto simp: usfstl_vhost_user_dev_notify_def rassert_eq_Inr rbind_eq_Inr)
      have "keeps_device s1 (s1\<lparr>vd_mem := m\<rparr>)" using fill [OF m(1)] by (simp add: keeps_device_def)
      then show ?thesis using get_keeps [OF get] send_keeps [OF m(2)] keeps_device_trans by blast
    qed
  next
    case False
    then have "t = s" using run q by (simp add: usfstl_vhost_user_dev_notify_def rassert_eq_Inr)
    then show ?thesis by simp
  qed
qed

end

section \<open>Messages keep the shape of the device\<close>

text \<open>The external part of the scheduler leaves the device alone.\<close>

definition keeps_vhost :: "('j, 'z) vhost_scheme sched_ops \<Rightarrow> bool" where
  "keeps_vhost ops \<longleftrightarrow>
     (\<forall>f x s t. external_request ops = Some f \<longrightarrow> f x s = Inr t \<longrightarrow> same_vhost s t) \<and>
     (\<forall>f s t. next_time_changed ops = Some f \<longrightarrow> f s = Inr t \<longrightarrow> same_vhost s t) \<and>
     (\<forall>f s x t. external_sync_from ops = Some f \<longrightarrow> f s = Inr (x, t) \<longrightarrow> same_vhost s t) \<and>
     (\<forall>f x s t. time_advanced ops = Some f \<longrightarrow> f x s = Inr t \<longrightarrow> same_vhost s t)"

lemma same_vhost_refl [simp]: "same_vhost s s"
  by (simp add: same_vhost_def)

lemma same_vhost_trans: "same_vhost s t \<Longrightarrow> same_vhost t u \<Longrightarrow> same_vhost s u"
  by (simp add: same_vhost_def)

lemma current_time_same:
  assumes k: "keeps_vhost ops" and run: "usfstl_sched_current_time ops s = Inr (x, t)"
  shows "same_vhost s t"
proof -
  have time: "same_vhost u v" if "usfstl_sched_set_time ops y u = Inr v" for y u v
  proof (cases "current_time u = y")
    case True
    then show ?thesis using that by (simp add: usfstl_sched_set_time_def usfstl_sched_set_time_internal_def rassert_eq_Inr)
  next
    case False
    have "same_vhost u (u\<lparr>current_time := y\<rparr>)" by (simp add: same_vhost_def)
    moreover have "same_vhost (u\<lparr>current_time := y\<rparr>) v"
      using that False k by (cases "time_advanced ops")
        (auto simp: usfstl_sched_set_time_def usfstl_sched_set_time_internal_def call_opt_def rassert_eq_Inr keeps_vhost_def Let_def)
    ultimately show ?thesis by (rule same_vhost_trans)
  qed
  show ?thesis
  proof (cases "external_sync_from ops")
    case None
    then show ?thesis using run by (simp add: usfstl_sched_current_time_def)
  next
    case (Some f)
    show ?thesis
    proof (cases "sched_waiting s")
      case True
      then obtain y u where u: "f s = Inr (y, u)" "usfstl_sched_set_time ops y u = Inr t"
        using run Some by (auto simp: usfstl_sched_current_time_def rbind_eq_Inr)
      have "same_vhost s u" using k Some u(1) by (simp add: keeps_vhost_def)
      then show ?thesis using time [OF u(2)] same_vhost_trans by blast
    qed (use run Some in \<open>simp add: usfstl_sched_current_time_def\<close>)
  qed
qed

lemma vhost_add_job_same:
  assumes k: "keeps_vhost ops" and run: "usfstl_sched_add_job ops j s = Inr t"
  shows "same_vhost s t"
proof (cases "group_blocked (group_of s j) (blocked_groups s) \<and> Some j \<noteq> allowed_job s")
  case True
  then have "t = (set_job_start j 0 s)\<lparr>pending_jobs := pending_jobs (set_job_start j 0 s) @ [j]\<rparr>"
    using run by (auto simp: usfstl_sched_add_job_def rassert_eq_Inr Let_def)
  then show ?thesis by (simp add: same_vhost_def set_job_start_def)
next
  case False
  let ?s = "s\<lparr>joblist := insert_first (runs_after s j) j (joblist s)\<rparr>"
  obtain b u where u: "usfstl_sched_external_request ops (start_of s j) ?s = Inr (b, u)"
    "call_opt (next_time_changed ops) u = Inr t"
    using run unfolding usfstl_sched_add_job_def rassert_eq_Inr if_not_P [OF False] Let_def
    by (auto simp: rbind_eq_Inr)
  have req: "same_vhost ?s u"
  proof (cases "external_request ops")
    case None
    then show ?thesis using u(1) by (simp add: usfstl_sched_external_request_def)
  next
    case (Some f)
    let ?t = "?s\<lparr>prev_external_sync := start_of s j, prev_external_sync_set := True\<rparr>"
    have "u = ?s \<or> f (start_of s j) ?t = Inr u"
      using u(1) Some by (auto simp: usfstl_sched_external_request_def rbind_eq_Inr split: if_splits)
    then show ?thesis
    proof
      assume "f (start_of s j) ?t = Inr u"
      then have "same_vhost ?t u" using k Some by (simp add: keeps_vhost_def)
      then show ?thesis by (simp add: same_vhost_def)
    qed simp
  qed
  have "same_vhost u t" using u(2) k by (cases "next_time_changed ops") (auto simp: call_opt_def keeps_vhost_def)
  moreover have "same_vhost s ?s" by (simp add: same_vhost_def)
  ultimately show ?thesis using req same_vhost_trans by blast
qed

text \<open>The first \<open>k\<close> regions are mapped.\<close>

definition mapped_upto :: "nat \<Rightarrow> ('j, 'z) vhost_scheme \<Rightarrow> bool" where
  "mapped_upto k s \<longleftrightarrow> length (vd_regions s) = 8 \<and> length (vd_region_fds s) = 8 \<and> length (vd_region_vaddr s) = 8 \<and>
     (\<forall>i < 8. vd_region_vaddr s ! i \<noteq> None \<longleftrightarrow> i < k) \<and>
     (\<forall>i < 8. \<forall>v. vd_region_vaddr s ! i = Some v \<longrightarrow>
        (\<forall>x \<in> piece v (unat (region_size (vd_regions s ! i) + mmap_offset (vd_regions s ! i))). vd_mem s x \<noteq> None))"

text \<open>A server with \<open>mmap\<close>: it maps all of the region, and unmaps nothing.\<close>

locale vhost_device = vhost_callbacks srv for srv :: "('j, ('j, 'z) vhost_scheme) vhost_server" +
  assumes sync_from: "vs_sync_from srv s = Inr t \<Longrightarrow> same_vhost s t"
    and vhost_ops: "keeps_vhost (vs_ops srv)"
    and connected: "vs_connected srv s = Inr t \<Longrightarrow> same_vhost s t"
    and mmap_maps: "vs_mmap srv len fd m = Some (v, m') \<Longrightarrow> x \<in> piece v (unat len) \<Longrightarrow> m' x \<noteq> None"
    and mmap_keeps: "vs_mmap srv len fd m = Some (v, m') \<Longrightarrow> m x \<noteq> None \<Longrightarrow> m' x \<noteq> None"
begin

lemma kick_keeps:
  assumes run: "usfstl_vhost_user_virtq_kick srv i s = Inr t"
  shows "keeps_device s t"
proof (cases "has_feature (vs_input_queues srv) i")
  case True
  then obtain q where q: "virtq_at s i = Inr q" using run by (auto simp: usfstl_vhost_user_virtq_kick_def rbind_eq_Inr)
  let ?s = "set_virtq i (q\<lparr>vq_triggered := True\<rparr>) s" and ?job = "vs_irq_job srv"
  have s: "keeps_device s ?s" by (rule set_virtq_keeps [OF q]) simp
  have rest: "(if usfstl_job_scheduled ?job ?s then Inr ?s
      else if \<not> vs_scheduler srv then usfstl_vhost_user_job_callback srv ?s
      else rbind (vs_sync_from srv ?s) (\<lambda>s. rbind (usfstl_sched_current_time (vs_ops srv) s) (\<lambda>(x, s).
        usfstl_sched_add_job (vs_ops srv) ?job (set_job_start ?job (x + ucast (vs_interrupt_latency srv)) s)))) = Inr t"
    using run True q by (simp add: usfstl_vhost_user_virtq_kick_def Let_def)
  show ?thesis
  proof (cases "usfstl_job_scheduled ?job ?s")
    case False
    show ?thesis
    proof (cases "vs_scheduler srv")
      case True
      then obtain u x v where u: "vs_sync_from srv ?s = Inr u" "usfstl_sched_current_time (vs_ops srv) u = Inr (x, v)"
        "usfstl_sched_add_job (vs_ops srv) ?job (set_job_start ?job (x + ucast (vs_interrupt_latency srv)) v) = Inr t"
        using rest False by (auto simp: rbind_eq_Inr)
      have "same_vhost v (set_job_start ?job y v)" for y by (simp add: same_vhost_def set_job_start_def)
      then have "same_vhost ?s t"
        using sync_from [OF u(1)] current_time_same [OF vhost_ops u(2)] vhost_add_job_same [OF vhost_ops u(3)]
          same_vhost_trans by blast
      then show ?thesis using s same_keeps keeps_device_trans by blast
    next
      case no: False
      then have "usfstl_vhost_user_job_callback srv ?s = Inr t" using rest False by simp
      then show ?thesis using s job_callback_keeps keeps_device_trans by blast
    qed
  qed (use rest s in simp)
qed (use run in \<open>simp add: usfstl_vhost_user_virtq_kick_def\<close>)

text \<open>The mappings are cleared.\<close>

lemma clear_mappings_effect:
  assumes "rfold clear_mapping is s = Inr t"
  shows "length (vd_region_vaddr t) = length (vd_region_vaddr s) \<and> length (vd_region_fds t) = length (vd_region_fds s) \<and>
    (\<forall>i < length (vd_region_vaddr s). vd_region_vaddr t ! i = (if i \<in> set is then None else vd_region_vaddr s ! i)) \<and>
    vd_regions t = vd_regions s \<and> vd_virtqs t = vd_virtqs s \<and> vd_loop t = vd_loop s"
  using assms
proof (induction "is" arbitrary: s)
  case (Cons i "is")
  obtain u where u: "clear_mapping i s = Inr u" "rfold clear_mapping is u = Inr t"
    using Cons.prems by (auto simp: rbind_eq_Inr)
  then obtain x r where x: "nth_result (vd_region_vaddr s) i = Inr x" "nth_result (vd_regions s) i = Inr r"
    by (auto simp: clear_mapping_def rbind_eq_Inr)
  have i: "i < length (vd_region_vaddr s)" "x = vd_region_vaddr s ! i"
    using x(1) by (auto simp: nth_result_def split: if_splits)
  then have "x = None \<Longrightarrow> (vd_region_vaddr s)[i := None] = vd_region_vaddr s"
    by (simp add: list_update_same_conv)
  then have "vd_region_vaddr u = (vd_region_vaddr s)[i := None]" "vd_region_fds u = (vd_region_fds s)[i := - 1]"
    "vd_regions u = vd_regions s" "vd_virtqs u = vd_virtqs s" "vd_loop u = vd_loop s"
    using u(1) x by (auto simp: clear_mapping_def Let_def split: option.splits)
  then show ?case using Cons.IH [OF u(2)] by (auto simp: nth_list_update)
qed simp

lemma setup_mapping_step:
  assumes "setup_mapping srv k s = Inr t" and "mapped_upto k s"
  shows "mapped_upto (Suc k) t \<and> vd_virtqs t = vd_virtqs s \<and> vd_loop t = vd_loop s \<and> vd_n_regions t = vd_n_regions s"
proof -
  obtain r fd v m where m: "nth_result (vd_region_vaddr s) k = Inr None" "nth_result (vd_regions s) k = Inr r"
    "vs_mmap srv (region_size r + mmap_offset r) fd (vd_mem s) = Some (v, m)"
    "t = s\<lparr>vd_mem := m, vd_region_vaddr := (vd_region_vaddr s)[k := Some v]\<rparr>"
    using assms(1) by (auto simp: setup_mapping_def rbind_eq_Inr rassert_eq_Inr split: option.splits)
  have k: "k < 8" "vd_regions s ! k = r"
    using m(1,2) assms(2) by (auto simp: nth_result_def mapped_upto_def split: if_splits)
  have "m x \<noteq> None" if "vd_mem s x \<noteq> None" for x using mmap_keeps [OF m(3) that] .
  moreover have "m x \<noteq> None" if "x \<in> piece v (unat (region_size r + mmap_offset r))" for x using mmap_maps [OF m(3) that] .
  ultimately have "mapped_upto (Suc k) t"
    using assms(2) k unfolding mapped_upto_def m(4) by (auto simp: nth_list_update less_Suc_eq)
  then show ?thesis by (simp add: m(4))
qed

lemma setup_mappings_steps:
  "rfold (setup_mapping srv) [k..<n] s = Inr t \<Longrightarrow> mapped_upto k s \<Longrightarrow> k \<le> n \<Longrightarrow>
   mapped_upto n t \<and> vd_virtqs t = vd_virtqs s \<and> vd_loop t = vd_loop s \<and> vd_n_regions t = vd_n_regions s"
proof (induction "n - k" arbitrary: k s)
  case (Suc d)
  then have upt: "[k..<n] = k # [Suc k..<n]" by (simp add: upt_rec)
  then obtain u where u: "setup_mapping srv k s = Inr u" "rfold (setup_mapping srv) [Suc k..<n] u = Inr t"
    using Suc.prems(1) by (auto simp: rbind_eq_Inr)
  note st = setup_mapping_step [OF u(1) Suc.prems(2)]
  have "d = n - Suc k" "Suc k \<le> n" using Suc.hyps(2) by simp_all
  from Suc.hyps(1) [OF this(1) u(2) conjunct1 [OF st] this(2)] show ?case using st by simp
qed simp

lemma regions_at_length: "regions_at is msg = Inr rs \<Longrightarrow> length rs = length is"
  by (induction "is" arbitrary: rs) (auto simp: rbind_eq_Inr)

lemma get_fds_length:
  "usfstl_vhost_user_get_msg_fds input n xs f = Inr ys \<Longrightarrow> n \<le> length xs \<Longrightarrow> length ys = length xs"
  by (auto simp: usfstl_vhost_user_get_msg_fds_def rassert_eq_Inr split: option.splits)

lemma set_mem_table_inv:
  assumes run: "set_mem_table srv input msg s = Inr t" and inv: "vhost_inv srv s"
  shows "vhost_inv srv t"
proof -
  obtain n s1 rs fds where st: "n \<le> (8 :: u32)" "rfold clear_mapping [0..<8] s = Inr s1"
    "regions_at [0..<unat n] msg = Inr rs"
    "usfstl_vhost_user_get_msg_fds input 8 (vd_region_fds s1) id = Inr fds"
    "usfstl_vhost_user_setup_mappings srv
       (s1\<lparr>vd_regions := rs @ drop (length rs) (vd_regions s1), vd_n_regions := unat n, vd_region_fds := fds\<rparr>) = Inr t"
    using run by (auto simp: set_mem_table_def usfstl_vhost_user_clear_mappings_def rbind_eq_Inr rassert_eq_Inr Let_def)
  let ?s = "s1\<lparr>vd_regions := rs @ drop (length rs) (vd_regions s1), vd_n_regions := unat n, vd_region_fds := fds\<rparr>"
  have n: "unat n \<le> 8" using st(1) by (simp add: word_le_nat_alt)
  note c = clear_mappings_effect [OF st(2)]
  have l: "length rs = unat n" "length fds = 8"
    using regions_at_length [OF st(3)] get_fds_length [OF st(4)] c inv by (simp_all add: vhost_inv_def)
  have len: "length (vd_regions s1) = 8" "length (vd_region_vaddr s1) = 8" "\<forall>i < 8. vd_region_vaddr s1 ! i = None"
    using c inv by (auto simp: vhost_inv_def)
  then have "mapped_upto 0 ?s" using l n by (simp add: mapped_upto_def)
  moreover have "rfold (setup_mapping srv) [0..<unat n] ?s = Inr t"
    using st(5) by (simp add: usfstl_vhost_user_setup_mappings_def)
  ultimately have t: "mapped_upto (unat n) t" "vd_virtqs t = vd_virtqs s1" "vd_loop t = vd_loop s1" "vd_n_regions t = unat n"
    using setup_mappings_steps [of 0 "unat n" ?s t] by simp_all
  have q: "vd_virtqs t = vd_virtqs s" "vd_loop t = vd_loop s" using t(2,3) c by simp_all
  show ?thesis using t(1,4) n inv unfolding vhost_inv_def mapped_upto_def q by simp
qed

lemma update_kick_inv:
  assumes run: "usfstl_vhost_user_update_virtq_kick i fd s = Inr t" and inv: "vhost_inv srv s"
  shows "vhost_inv srv t"
proof -
  obtain q s1 where q: "virtq_at s i = Inr q"
    and s1: "(if vq_entry_fd q \<noteq> - 1
        then rbind (usfstl_loop_unregister (Virtq_entry i) (vd_loop s)) (\<lambda>l. Inr (s\<lparr>vd_loop := l\<rparr>))
        else Inr s) = Inr s1"
    and t: "t = (if fd \<noteq> - 1
        then (set_virtq i (q\<lparr>vq_entry_fd := fd\<rparr>) s1)\<lparr>vd_loop := Virtq_entry i # vd_loop s1\<rparr> else s1)"
    using run by (auto simp: usfstl_vhost_user_update_virtq_kick_def rbind_eq_Inr)
  have i: "i < length (vd_virtqs s)" "vd_virtqs s ! i = q"
    using q by (auto simp: virtq_at_def nth_result_def split: if_splits)
  have loop: "distinct (vd_loop s)" using inv by (simp add: vhost_inv_def)
  have "Virtq_entry i \<notin> set (vd_loop s1) \<and> (\<exists>l. s1 = s\<lparr>vd_loop := l\<rparr> \<and> set l \<subseteq> set (vd_loop s) \<and> distinct l)"
  proof (cases "vq_entry_fd q = - 1")
    case True
    then have "Virtq_entry i \<notin> set (vd_loop s)" using inv i by (auto simp: vhost_inv_def)
    moreover have "\<exists>l. s = s\<lparr>vd_loop := l\<rparr> \<and> set l \<subseteq> set (vd_loop s) \<and> distinct l"
      using loop by (intro exI [of _ "vd_loop s"]) simp
    moreover have "s1 = s" using s1 True by simp
    ultimately show ?thesis by simp
  next
    case False
    then have "s1 = s\<lparr>vd_loop := remove1 (Virtq_entry i) (vd_loop s)\<rparr>"
      using s1 by (auto simp: usfstl_loop_unregister_def split: if_splits)
    then show ?thesis using loop by (auto simp: set_remove1_eq distinct_remove1)
  qed
  then obtain l where l: "s1 = s\<lparr>vd_loop := l\<rparr>" "set l \<subseteq> set (vd_loop s)" "distinct l" "Virtq_entry i \<notin> set l"
    by auto
  show ?thesis
    using inv i l(2-4) unfolding t l(1) vhost_inv_def set_virtq_def
    by (auto simp: nth_list_update split: if_splits)
qed

lemma on_vring_inv:
  assumes run: "on_vring srv msg f s = Inr t" and inv: "vhost_inv srv s"
    and f: "\<And>i num q. virtq_at s i = Inr q \<Longrightarrow> f i num q = Inr t \<Longrightarrow> keeps_device s t"
  shows "vhost_inv srv t"
proof -
  obtain i num q where "virtq_at s i = Inr q" "f i num q = Inr t"
    using run by (auto simp: on_vring_def rbind_eq_Inr rassert_eq_Inr)
  then show ?thesis using f vhost_inv_keeps [OF inv] by blast
qed

lemma set_vring_addr_keeps:
  assumes "set_vring_addr srv msg s = Inr t"
  shows "keeps_device s t"
proof -
  obtain i q p where "virtq_at s i = Inr q" "t = set_virtq i p s" "vq_entry_fd p = vq_entry_fd q"
    using assms by (auto simp: set_vring_addr_def rbind_eq_Inr rassert_eq_Inr Let_def)
  then show ?thesis using set_virtq_keeps by blast
qed

lemma set_vring_call_keeps:
  assumes "set_vring_call srv input msg s = Inr t"
  shows "keeps_device s t"
proof -
  obtain i q p where "virtq_at s i = Inr q" "t = set_virtq i p s" "vq_entry_fd p = vq_entry_fd q"
    using assms by (auto simp: set_vring_call_def rbind_eq_Inr rassert_eq_Inr Let_def)
  then show ?thesis using set_virtq_keeps by blast
qed

lemma set_vring_kick_inv:
  assumes "set_vring_kick srv input msg s = Inr t" and "vhost_inv srv s"
  shows "vhost_inv srv t"
proof -
  obtain i fd where "usfstl_vhost_user_update_virtq_kick i fd s = Inr t"
    using assms(1) by (auto simp: set_vring_kick_def rbind_eq_Inr rassert_eq_Inr Let_def)
  then show ?thesis by (rule update_kick_inv [OF _ assms(2)])
qed

text \<open>A message with a reply changes nothing; the others are one of the operations.\<close>

lemma request_steps:
  assumes run: "handle_request srv input msg s = Inr (reply, t)"
  shows "t = s \<or> (\<exists>x. t = s\<lparr>vd_features := x\<rparr>) \<or> (\<exists>x. t = s\<lparr>vd_protocol_features := x\<rparr>) \<or>
    (\<exists>y. t = s\<lparr>vd_req_fd := y\<rparr>) \<or> set_mem_table srv input msg s = Inr t \<or>
    on_vring srv msg (\<lambda>i num q. Inr (set_virtq i (q\<lparr>vq_num := num\<rparr>) s)) s = Inr t \<or>
    on_vring srv msg (\<lambda>i num q. Inr (set_virtq i (q\<lparr>vq_enabled := (num \<noteq> 0)\<rparr>) s)) s = Inr t \<or>
    on_vring srv msg (\<lambda>i num q. rassert (num = 0) (usfstl_vhost_user_virtq_kick srv i s)) s = Inr t \<or>
    set_vring_addr srv msg s = Inr t \<or> set_vring_kick srv input msg s = Inr t \<or> set_vring_call srv input msg s = Inr t"
proof -
  have none: "no_reply m = Inr (reply, t) \<Longrightarrow> m = Inr t" for m
    by (auto simp: no_reply_def rbind_eq_Inr)
  have asserted: "rassert b m = Inr (reply, t) \<Longrightarrow> m = Inr (reply, t)" for b m
    by (simp add: rassert_eq_Inr)
  have same: "Inr (r, s) = (Inr (reply, t) :: ((nat \<times> u8 list list) option \<times> ('j, 'z) vhost_scheme) result) \<Longrightarrow> t = s" for r
    by simp
  have features: "rbind m (\<lambda>v. Inr (s\<lparr>vd_features := v\<rparr>)) = Inr t \<Longrightarrow> \<exists>x. t = s\<lparr>vd_features := x\<rparr>"
    "rbind m (\<lambda>v. Inr (s\<lparr>vd_protocol_features := v\<rparr>)) = Inr t \<Longrightarrow> \<exists>x. t = s\<lparr>vd_protocol_features := x\<rparr>" for m
    by (auto simp: rbind_eq_Inr)
  consider "vm_request msg \<in> {1, 3, 10, 15}" | "vm_request msg = 2" | "vm_request msg = 16" | "vm_request msg = 5"
    | "vm_request msg = 8" | "vm_request msg = 9" | "vm_request msg = 12" | "vm_request msg = 13" | "vm_request msg = 18"
    | "vm_request msg = 21" | "vm_request msg = 24" | "vm_request msg = 35"
    | "vm_request msg \<notin> {1, 2, 3, 5, 8, 9, 10, 12, 13, 15, 16, 18, 21, 24, 35}"
    by blast
  then show ?thesis
  proof cases
    case 1
    then have "t = s" using run by (auto simp: handle_request_def rassert_eq_Inr)
    then show ?thesis by simp
  next
    case 2
    then show ?thesis using run features(1) none asserted by (simp add: handle_request_def) blast
  next
    case 3
    then show ?thesis using run features(2) none asserted by (simp add: handle_request_def) blast
  next
    case 10
    then have "\<exists>y. t = s\<lparr>vd_req_fd := y\<rparr>"
      using run by (auto simp: handle_request_def rbind_eq_Inr rassert_eq_Inr)
    then show ?thesis by blast
  next
    case 11
    then have "t = s" using run by (auto simp: handle_request_def rbind_eq_Inr)
    then show ?thesis by simp
  next
    case 13
    then show ?thesis using run by (simp add: handle_request_def)
  qed (use run none in \<open>simp add: handle_request_def; blast\<close>)+
qed

lemma handle_request_inv:
  assumes run: "handle_request srv input msg s = Inr (reply, t)" and inv: "vhost_inv srv s"
  shows "vhost_inv srv t"
proof -
  have plain: "vhost_inv srv (s\<lparr>vd_features := x\<rparr>)" "vhost_inv srv (s\<lparr>vd_protocol_features := x\<rparr>)"
    "vhost_inv srv (s\<lparr>vd_req_fd := y\<rparr>)" for x y
    using inv by (simp_all add: vhost_inv_def)
  have num: "vhost_inv srv t" if "on_vring srv msg (\<lambda>i num q. Inr (set_virtq i (q\<lparr>vq_num := num\<rparr>) s)) s = Inr t" for t
    by (rule on_vring_inv [OF that inv], drule sum.inject(2) [THEN iffD1], erule subst, erule set_virtq_keeps) simp
  have enable: "vhost_inv srv t" if "on_vring srv msg (\<lambda>i num q. Inr (set_virtq i (q\<lparr>vq_enabled := (num \<noteq> 0)\<rparr>) s)) s = Inr t" for t
    by (rule on_vring_inv [OF that inv], drule sum.inject(2) [THEN iffD1], erule subst, erule set_virtq_keeps) simp
  have kick: "vhost_inv srv t" if "on_vring srv msg (\<lambda>i num q. rassert (num = 0) (usfstl_vhost_user_virtq_kick srv i s)) s = Inr t" for t
    by (rule on_vring_inv [OF that inv]) (auto simp: rassert_eq_Inr intro: kick_keeps)
  consider "t = s" | x where "t = s\<lparr>vd_features := x\<rparr>" | x where "t = s\<lparr>vd_protocol_features := x\<rparr>"
    | y where "t = s\<lparr>vd_req_fd := y\<rparr>" | "set_mem_table srv input msg s = Inr t"
    | "on_vring srv msg (\<lambda>i num q. Inr (set_virtq i (q\<lparr>vq_num := num\<rparr>) s)) s = Inr t"
    | "on_vring srv msg (\<lambda>i num q. Inr (set_virtq i (q\<lparr>vq_enabled := (num \<noteq> 0)\<rparr>) s)) s = Inr t"
    | "on_vring srv msg (\<lambda>i num q. rassert (num = 0) (usfstl_vhost_user_virtq_kick srv i s)) s = Inr t"
    | "set_vring_addr srv msg s = Inr t" | "set_vring_kick srv input msg s = Inr t" | "set_vring_call srv input msg s = Inr t"
    using request_steps [OF run] by blast
  then show ?thesis
    by cases (use inv plain in \<open>simp_all add: num enable kick set_mem_table_inv [OF _ inv] set_vring_kick_inv [OF _ inv]
      vhost_inv_keeps [OF inv set_vring_addr_keeps] vhost_inv_keeps [OF inv set_vring_call_keeps]\<close>)
qed

lemma handle_msg_inv:
  assumes run: "usfstl_vhost_user_handle_msg srv input s = Inr (False, t)" and inv: "vhost_inv srv s"
  shows "vhost_inv srv t"
proof -
  let ?free = "\<lambda>s. rbind (usfstl_vhost_user_dev_free srv s) (\<lambda>s. Inr (True, s))"
  have freed: "\<not> ?free u = Inr (False, t)" for u by (auto simp: rbind_eq_Inr)
  obtain r where r: "usfstl_vhost_user_read_msg 520 input = Inr r"
    using run by (auto simp: usfstl_vhost_user_handle_msg_def rbind_eq_Inr)
  then obtain msg where msg: "r = Some msg"
    using run freed [of s] by (cases r) (simp_all add: usfstl_vhost_user_handle_msg_def)
  obtain reply u where u: "handle_request srv input msg s = Inr (reply, u)"
    and rest: "(if reply = None \<and> vm_flags msg AND MSG_FLAGS_NEED_REPLY = 0 then Inr (False, u)
          else let (len, vs) = (case reply of None \<Rightarrow> (8, [le_bytes 8 (0 :: u64)]) | Some r \<Rightarrow> r);
                   flags = (vm_flags msg AND NOT MSG_FLAGS_NEED_REPLY) OR MSG_FLAGS_REPLY;
                   hdr = le_bytes 4 (vm_request msg) @ le_bytes 4 flags @ le_bytes 4 (word_of_nat len :: u32)
            in rbind (send_reply (vi_sent input) (12 + len) (cut_iov (12 + len) (hdr # vs))) (\<lambda>sent.
               case sent of
                 None \<Rightarrow> ?free u
               | Some bs \<Rightarrow> Inr (False, u\<lparr>vd_out := vd_out u @ [Reply bs]\<rparr>))) = Inr (False, t)"
    using run unfolding usfstl_vhost_user_handle_msg_def r msg Let_def
    by (auto simp: rassert_eq_Inr rbind_eq_Inr)
  have inv_u: "vhost_inv srv u" by (rule handle_request_inv [OF u inv])
  have sent: "vhost_inv srv t"
    if "rbind m (\<lambda>sent. case sent of None \<Rightarrow> ?free u
        | Some bs \<Rightarrow> Inr (False, u\<lparr>vd_out := vd_out u @ [Reply bs]\<rparr>)) = Inr (False, t)" (is "?run") for m
  proof -
    have run: ?run by (rule that)
    obtain x where x: "(case x of None \<Rightarrow> ?free u
        | Some bs \<Rightarrow> Inr (False, u\<lparr>vd_out := vd_out u @ [Reply bs]\<rparr>)) = Inr (False, t)"
      using run by (auto simp only: rbind_eq_Inr)
    then obtain bs where "x = Some bs" using freed [of u] by (cases x) simp_all
    with x have "u\<lparr>vd_out := vd_out u @ [Reply bs]\<rparr> = t" by simp
    then show ?thesis using inv_u by (auto simp: vhost_inv_def)
  qed
  show ?thesis
  proof (cases "reply = None \<and> vm_flags msg AND MSG_FLAGS_NEED_REPLY = 0")
    case True
    then show ?thesis using rest inv_u by simp
  next
    case False
    then show ?thesis using rest sent unfolding if_not_P [OF False] Let_def case_prod_beta by blast
  qed
qed

lemma connected_inv:
  assumes "usfstl_vhost_user_connected srv s = Inr t"
  shows "vhost_inv srv t"
proof -
  obtain u v where u: "vs_connected srv u = Inr v" "t = v\<lparr>vd_loop := [Dev_entry]\<rparr>"
    "vd_n_regions u = 0" "length (vd_regions u) = 8" "vd_region_fds u = replicate 8 (- 1)"
    "vd_region_vaddr u = replicate 8 None" "vd_virtqs u = replicate (vs_max_queues srv) new_virtq"
    using assms unfolding usfstl_vhost_user_connected_def Let_def rbind_eq_Inr by fastforce
  then show ?thesis using connected [OF u(1)] by (simp add: vhost_inv_def same_vhost_def)
qed

lemma device_run_inv: "device_run srv s \<Longrightarrow> vhost_inv srv s"
proof (induction rule: device_run.induct)
  case (kick s i t)
  then have "usfstl_vhost_user_virtq_kick srv i s = Inr t" by (simp add: usfstl_vhost_user_virtq_fdkick_def rassert_eq_Inr)
  then show ?case using kick.IH kick_keeps vhost_inv_keeps by blast
next
  case (config_changed s t)
  have "same_vhost s t"
    using config_changed.hyps(2) send_msg_same
    by (auto simp: usfstl_vhost_user_config_changed_def split: if_splits)
  then show ?case using config_changed.IH same_keeps vhost_inv_keeps by blast
qed (use connected_inv handle_msg_inv job_callback_keeps dev_notify_keeps vhost_inv_keeps in blast)+

text \<open>Addresses that translate can be accessed, unless the size of the region wraps around.\<close>

lemma translate_mapped:
  assumes run: "translate start a s = Inr v" and inv: "vhost_inv srv s"
    and fits: "\<forall>r \<in> set (vd_regions s). unat (region_size r) + unat (mmap_offset r) < 2 ^ 64 \<and>
      unat (start r) + unat (region_size r) < 2 ^ 64"
  shows "vd_mem s v \<noteq> None"
proof -
  let ?rs = "take (vd_n_regions s) (zip (vd_regions s) (vd_region_vaddr s))"
  obtain r w where f: "List.find (\<lambda>(r, v). a \<ge> start r \<and> a < start r + region_size r) ?rs = Some (r, Some w)"
    and v: "v = w + (a - start r + mmap_offset r)"
    using run by (auto simp: translate_def rget_eq_Inr rbind_eq_Inr split: option.splits)
  then obtain i where i: "i < length ?rs" "?rs ! i = (r, Some w)" "start r \<le> a" "a < start r + region_size r"
    by (auto simp: find_Some_iff)
  then have i8: "i < 8" "vd_regions s ! i = r" "vd_region_vaddr s ! i = Some w" "r \<in> set (vd_regions s)"
    using inv by (auto simp: vhost_inv_def)
  note fit = fits [rule_format, OF i8(4)]
  have sum: "unat (start r + region_size r) = unat (start r) + unat (region_size r)"
    "unat (region_size r + mmap_offset r) = unat (region_size r) + unat (mmap_offset r)"
    using fit by (simp_all add: unat_word_ariths)
  have "unat (a - start r) = unat a - unat (start r)" using i(3) by (simp add: unat_sub)
  then have d: "unat (a - start r) < unat (region_size r)"
    using i(3,4) sum(1) by (simp add: word_less_nat_alt word_le_nat_alt)
  then have "unat (a - start r + mmap_offset r) = unat (a - start r) + unat (mmap_offset r)"
    using fit by (simp add: unat_word_ariths)
  then have "v \<in> piece w (unat (region_size r + mmap_offset r))" using d by (simp add: piece_def v sum(2))
  then show ?thesis using inv i8(1-3) unfolding vhost_inv_def by blast
qed

end

end
