(* ===== verification/Clients.thy ===== *)
theory Clients
  imports Queueing
begin

text \<open>
  The clients of \<open>wmediumd/wmediumd.c\<close>: the kernel over netlink, vhost-user devices and API
  sockets; how they come, register and go. The state is the medium with what is written to the
  clients (\<open>outbox\<close>), the API clients whose socket is in the event loop (\<open>api_loop\<close>) and those
  whose peer is gone, so that a write fails (\<open>broken\<close>). \<open>clients\<close> and \<open>clients_to_free\<close> are the
  two lists a client can be linked into.
\<close>

section \<open>State\<close>

text \<open>What is sent: a received frame (\<open>HWSIM_CMD_FRAME\<close>) for the radio with the given hardware
  address, with the cookie for its sender only; the transmit status (\<open>HWSIM_CMD_TX_INFO_FRAME\<close>);
  and the messages of the API.\<close>

datatype out_msg =
    Cloned_frame mac "u8 list" u32 int "u64 option"
  | Tx_info mac u32 int "hwsim_tx_rate list" u64
  | Tx_start u64 u32
  | Response u32
  | Stations_list "(mac \<times> mac \<times> real \<times> real \<times> int) list"

record wm_io = wmediumd +
  outbox :: "(nat \<times> out_msg) list"
  api_loop :: "nat list"
  broken :: "nat list"

abbreviation (input) CTL_NOTIFY_TX_START :: u32 where "CTL_NOTIFY_TX_START \<equiv> 1"
abbreviation (input) CTL_RX_ALL_FRAMES :: u32 where "CTL_RX_ALL_FRAMES \<equiv> 2"

definition client_at :: "'z wmediumd_scheme \<Rightarrow> nat \<Rightarrow> client result" where
  "client_at s c = rget Use_after_free (cl_mem s c)"

definition set_client :: "nat \<Rightarrow> client \<Rightarrow> 'z wmediumd_scheme \<Rightarrow> 'z wmediumd_scheme" where
  "set_client c cl s = s\<lparr>cl_mem := (cl_mem s)(c \<mapsto> cl)\<rparr>"

definition emit :: "nat \<Rightarrow> out_msg \<Rightarrow> 'z wm_io_scheme \<Rightarrow> 'z wm_io_scheme" where
  "emit c m s = s\<lparr>outbox := outbox s @ [(c, m)]\<rparr>"

section \<open>Removing a client\<close>

text \<open>\<open>list_del(&frame->list)\<close>: the frame is unlinked from the queue it is in. If its station
  was freed, this writes to freed memory.\<close>

definition unlink_frame :: "nat \<Rightarrow> 'z wmediumd_scheme \<Rightarrow> 'z wmediumd_scheme result" where
  "unlink_frame f s =
     (if \<exists>p \<in> set (stations s). case sta_mem s p of None \<Rightarrow> False
         | Some st \<Rightarrow> \<exists>q \<in> set (st_queues st). f \<in> set (wq_frames q)
      then Inr (s\<lparr>sta_mem := (\<lambda>p. map_option (\<lambda>st. st\<lparr>st_queues :=
             map (\<lambda>q. q\<lparr>wq_frames := removeAll f (wq_frames q)\<rparr>) (st_queues st)\<rparr>) (sta_mem s p))\<rparr>)
      else Inl Use_after_free)"

definition free_frame :: "nat \<Rightarrow> 'z wmediumd_scheme \<Rightarrow> 'z wmediumd_scheme" where
  "free_frame f s = s\<lparr>frame_mem := (frame_mem s)(f := None)\<rparr>"

text \<open>One frame of the inner loop of \<open>wmediumd_remove_client\<close>, and one queue.\<close>

definition drop_frame :: "nat \<Rightarrow> nat \<Rightarrow> 'z wmediumd_scheme \<Rightarrow> 'z wmediumd_scheme result" where
  "drop_frame c f s =
     rbind (frame_at s f) (\<lambda>fr.
     if fr_src fr = Some c
     then rbind (unlink_frame f s) (\<lambda>s.
       Inr (free_frame f (usfstl_sched_del_job (Frame_job f) s)))
     else Inr s)"

definition drop_queue :: "nat \<Rightarrow> nat \<times> nat \<Rightarrow> 'z wmediumd_scheme \<Rightarrow> 'z wmediumd_scheme result" where
  "drop_queue c = (\<lambda>(p, ac) s.
     rbind (sta s p) (\<lambda>st.
     rbind (nth_result (st_queues st) ac) (\<lambda>q.
     rfold (drop_frame c) (wq_frames q) s)))"

definition detach_station :: "nat \<Rightarrow> nat \<Rightarrow> 'z wmediumd_scheme \<Rightarrow> 'z wmediumd_scheme result" where
  "detach_station c p s =
     rbind (sta s p) (\<lambda>st.
     Inr (if st_client st = Some c then set_sta p (st\<lparr>st_client := None\<rparr>) s else s))"

definition wmediumd_remove_client :: "nat \<Rightarrow> 'z wmediumd_scheme \<Rightarrow> 'z wmediumd_scheme result" where
  "wmediumd_remove_client c s =
     rbind (rfold (detach_station c) (stations s) s) (\<lambda>s.
     rbind (rfold (drop_queue c) (List.product (stations s) [0..<4]) s) (\<lambda>s.
     rbind (client_at s c) (\<lambda>cl.
     let s = s\<lparr>clients := removeAll c (clients s)\<rparr>;
         s = s\<lparr>clients_to_free := c # removeAll c (clients_to_free s)\<rparr>;
         s = (if cl_flags cl AND CTL_NOTIFY_TX_START \<noteq> 0
              then s\<lparr>need_start_notify := need_start_notify s - 1\<rparr> else s)
     in Inr (set_client c (cl\<lparr>cl_wait_for_ack := False\<rparr>) s))))"

text \<open>The \<open>disconnect\<close> labels: the socket leaves the event loop first. Unregistering an entry
  that is not registered follows the null pointers of its list node.\<close>

definition disconnect_client :: "nat \<Rightarrow> 'z wm_io_scheme \<Rightarrow> 'z wm_io_scheme result" where
  "disconnect_client c s =
     (if c \<in> set (api_loop s)
      then wmediumd_remove_client c (s\<lparr>api_loop := removeAll c (api_loop s)\<rparr>)
      else Inl Null_dereference)"

section \<open>New clients\<close>

definition wmediumd_vu_connected :: "'z wmediumd_scheme \<Rightarrow> nat \<times> 'z wmediumd_scheme" where
  "wmediumd_vu_connected s =
     (let c = next_ptr s;
          s = s\<lparr>next_ptr := c + 1\<rparr>;
          s = set_client c \<lparr>cl_type = CLIENT_VHOST_USER, cl_wait_for_ack = False, cl_flags = 0\<rparr> s
      in (c, s\<lparr>clients := c # clients s\<rparr>))"

definition wmediumd_vu_disconnected :: "nat \<Rightarrow> 'z wmediumd_scheme \<Rightarrow> 'z wmediumd_scheme result" where
  "wmediumd_vu_disconnected c s = wmediumd_remove_client c s"

definition wmediumd_api_connected :: "'z wm_io_scheme \<Rightarrow> nat \<times> 'z wm_io_scheme" where
  "wmediumd_api_connected s =
     (let c = next_ptr s;
          s = s\<lparr>next_ptr := c + 1\<rparr>;
          s = set_client c \<lparr>cl_type = CLIENT_API_SOCK, cl_wait_for_ack = False, cl_flags = 0\<rparr> s
      in (c, s\<lparr>api_loop := c # api_loop s\<rparr>))"

text \<open>The end of the main loop's body frees the removed clients.\<close>

definition free_removed_clients :: "'z wmediumd_scheme \<Rightarrow> 'z wmediumd_scheme" where
  "free_removed_clients s =
     (let s = s\<lparr>cl_mem := (\<lambda>c. if c \<in> set (clients_to_free s) then None else cl_mem s c)\<rparr>
      in s\<lparr>clients_to_free := []\<rparr>)"

section \<open>The effect of removing a client\<close>

text \<open>The state without the frames \<open>D\<close>: their memory, their places in the queues and their
  delivery jobs.\<close>

definition station_without :: "nat set \<Rightarrow> station \<Rightarrow> station" where
  "station_without D st = st\<lparr>st_queues :=
     map (\<lambda>q. q\<lparr>wq_frames := filter (\<lambda>f. f \<notin> D) (wq_frames q)\<rparr>) (st_queues st)\<rparr>"

definition without_frames :: "nat set \<Rightarrow> 'z wmediumd_scheme \<Rightarrow> 'z wmediumd_scheme" where
  "without_frames D s = s\<lparr>sta_mem := (\<lambda>p. map_option (station_without D) (sta_mem s p)),
     joblist := filter (\<lambda>j. j \<notin> Frame_job ` D) (joblist s),
     frame_mem := (\<lambda>f. if f \<in> D then None else frame_mem s f)\<rparr>"

lemma station_without_frames:
  "station_frames (station_without D st) = filter (\<lambda>f. f \<notin> D) (station_frames st)"
  by (simp add: station_frames_def station_without_def filter_concat o_def)

lemma station_without_simps [simp]:
  "length (st_queues (station_without D st)) = length (st_queues st)"
  "st_client (station_without D st) = st_client st"
  "st_index (station_without D st) = st_index st"
  "st_addr (station_without D st) = st_addr st"
  "st_addrs (station_without D st) = st_addrs st"
  "st_hwaddr (station_without D st) = st_hwaddr st"
  "i < length (st_queues st) \<Longrightarrow> wq_frames (st_queues (station_without D st) ! i) =
     filter (\<lambda>f. f \<notin> D) (wq_frames (st_queues st ! i))"
  by (simp_all add: station_without_def)

lemma queued_without: "queued (without_frames D s) = queued s - D"
proof -
  have "(\<exists>st. map_option (station_without D) m = Some st \<and> x \<in> set (station_frames st)) \<longleftrightarrow>
      (\<exists>st. m = Some st \<and> x \<in> set (station_frames st)) \<and> x \<notin> D" for x m
    by (cases m) (auto simp: station_without_frames)
  then show ?thesis by (auto simp: queued_def without_frames_def)
qed

lemma station_without_twice:
  "station_without E (station_without D st) = station_without (D \<union> E) st"
  by (auto simp: station_without_def intro!: arg_cong [where f = "\<lambda>p. wqueue.wq_frames_update p _"]
      filter_cong)

lemma without_frames_twice: "without_frames E (without_frames D s) = without_frames (D \<union> E) s"
proof -
  have m: "(\<lambda>p. map_option (station_without E) (map_option (station_without D) (sta_mem s p))) =
      (\<lambda>p. map_option (station_without (D \<union> E)) (sta_mem s p))"
    by (simp add: fun_eq_iff option.map_comp o_def station_without_twice)
  have f: "(\<lambda>f. if f \<in> E then None else if f \<in> D then None else frame_mem s f) =
      (\<lambda>f. if f \<in> D \<union> E then None else frame_mem s f)"
    by auto
  show ?thesis
    using m f by (simp add: without_frames_def image_Un cong: if_cong)
qed

lemma without_frames_empty: "without_frames {} s = s"
proof -
  have "station_without {} = (\<lambda>st. st)" by (rule ext) (simp add: station_without_def)
  then show ?thesis by (simp add: without_frames_def option.map_ident)
qed

lemma without_frames_inv:
  assumes inv: "medium_inv s" and start: "\<forall>f \<in> D. Start_job f \<notin> set (joblist s)"
  shows "medium_inv (without_frames D s)"
proof -
  let ?t = "without_frames D s"
  have si: "sched_inv 0 ?t" "not_past 0 ?t"
    using inv by (auto simp: medium_inv_def sched_inv_def jobs_ok_def not_past_def without_frames_def
        runnable_def sorted_wrt_filter)
  have qok: "queue_ok ?t (q\<lparr>wq_frames := filter (\<lambda>f. f \<notin> D) (wq_frames q)\<rparr>)" if "queue_ok s q" for q
    using that sorted_filter [of "\<lambda>f. unat (start_of s (Frame_job f))" "wq_frames q"]
    by (simp add: queue_ok_def without_frames_def)
  have so: "stations_ok ?t"
    unfolding stations_ok_def
  proof (intro conjI ballI impI)
    show "distinct (stations ?t)" using inv by (simp add: medium_inv_def stations_ok_def without_frames_def)
  next
    fix p assume p: "p \<in> set (stations ?t)"
    then have "p \<in> set (stations s)" "stations_ok s" using inv by (simp_all add: without_frames_def medium_inv_def)
    then obtain st where st: "sta_mem s p = Some st" "length (st_queues st) = 4"
      "distinct (station_frames st)" "\<forall>q \<in> set (st_queues st). queue_ok s q"
      using stations_okD by metis
    show "\<exists>st. sta_mem ?t p = Some st \<and> length (st_queues st) = 4 \<and> distinct (station_frames st) \<and>
        (\<forall>q \<in> set (st_queues st). queue_ok ?t q)"
      using st qok by (intro exI [of _ "station_without D st"])
        (auto simp: without_frames_def station_without_frames, auto simp: station_without_def without_frames_def)
  next
    fix p p' assume p: "p \<in> set (stations ?t)" "p' \<in> set (stations ?t)" "p \<noteq> p'"
    then have pp: "p \<in> set (stations s)" "p' \<in> set (stations s)" by (simp_all add: without_frames_def)
    have so: "stations_ok s" using inv by (simp add: medium_inv_def)
    obtain st where st: "sta_mem s p = Some st" using so pp(1) by (rule stations_okD)
    obtain st' where st': "sta_mem s p' = Some st'" using so pp(2) by (rule stations_okD)
    have "set (station_frames (the (sta_mem s p))) \<inter> set (station_frames (the (sta_mem s p'))) = {}"
      using so pp p(3) by (rule stations_ok_disjoint)
    with st st' show "set (station_frames (the (sta_mem ?t p))) \<inter> set (station_frames (the (sta_mem ?t p'))) = {}"
      by (auto simp: without_frames_def station_without_frames)
  qed
  have "\<forall>f. f \<in> queued ?t \<longleftrightarrow> Frame_job f \<in> set (joblist ?t)"
    using inv by (auto simp: queued_without medium_inv_def) (auto simp: without_frames_def)
  moreover have "\<forall>f. Start_job f \<in> set (joblist ?t) \<longrightarrow> f \<in> queued ?t"
    using inv start by (auto simp: queued_without medium_inv_def) (auto simp: without_frames_def)
  moreover have "\<forall>f \<in> queued ?t. frame_mem ?t f \<noteq> None"
    using inv by (auto simp: queued_without medium_inv_def) (auto simp: without_frames_def)
  moreover have "blocked_groups ?t = 0" "pending_jobs ?t = []"
    using inv by (simp_all add: medium_inv_def without_frames_def)
  ultimately show ?thesis using si so by (simp add: medium_inv_def)
qed

text \<open>The loops of \<open>wmediumd_remove_client\<close>.\<close>

definition frame_of :: "nat \<Rightarrow> 'z wmediumd_scheme \<Rightarrow> nat \<Rightarrow> bool" where
  "frame_of c s f \<longleftrightarrow> (\<exists>fr. frame_mem s f = Some fr \<and> fr_src fr = Some c)"

lemma del_frame_job:
  assumes "pending_jobs s = []" and "distinct (joblist s)"
  shows "usfstl_sched_del_job j s = s\<lparr>joblist := filter (\<lambda>x. x \<noteq> j) (joblist s)\<rparr>"
proof -
  have "remove1 j (joblist s) = filter (\<lambda>x. x \<noteq> j) (joblist s)"
    using assms(2) by (simp add: distinct_remove1_removeAll removeAll_filter_not_eq) (metis)
  moreover have "filter (\<lambda>x. x \<noteq> j) (joblist s) = joblist s" if "j \<notin> set (joblist s)"
    using that by (metis (mono_tags, lifting) filter_True)
  ultimately show ?thesis
    using assms by (auto simp: usfstl_sched_del_job_def usfstl_job_scheduled_def)
qed

lemma drop_frame_step:
  assumes "medium_inv s" and "f \<in> queued s"
  shows "drop_frame c f s = Inr (if frame_of c s f then without_frames {f} s else s)"
proof -
  obtain fr where fr: "frame_mem s f = Some fr" using assms unfolding medium_inv_def by blast
  show ?thesis
  proof (cases "fr_src fr = Some c")
    case True
    obtain p st where p: "p \<in> set (stations s)" "sta_mem s p = Some st" "f \<in> set (station_frames st)"
      using assms(2) by (auto simp: queued_def)
    then have ex: "\<exists>p \<in> set (stations s). case sta_mem s p of None \<Rightarrow> False
         | Some st \<Rightarrow> \<exists>q \<in> set (st_queues st). f \<in> set (wq_frames q)"
      by (intro bexI [of _ p]) (auto simp: station_frames_def)
    have w: "(\<lambda>st. st\<lparr>st_queues := map (\<lambda>q. q\<lparr>wq_frames := removeAll f (wq_frames q)\<rparr>) (st_queues st)\<rparr>) =
        station_without {f}"
      by (auto simp: fun_eq_iff station_without_def removeAll_filter_not_eq eq_commute)
    have "pending_jobs s = []" "distinct (joblist s)"
      using assms(1) by (auto simp: medium_inv_def sched_inv_def jobs_ok_def)
    then show ?thesis
      using True fr ex
      by (simp add: drop_frame_def frame_at_def frame_of_def unlink_frame_def w del_frame_job
          without_frames_def free_frame_def fun_upd_def cong: if_cong)
  next
    case False
    then show ?thesis using fr by (simp add: drop_frame_def frame_at_def frame_of_def)
  qed
qed

lemma frame_of_without: "frame_of c (without_frames D s) f \<longleftrightarrow> frame_of c s f \<and> f \<notin> D"
  by (auto simp: frame_of_def without_frames_def)

lemma drop_frames_fold:
  assumes inv: "medium_inv s" and ns: "\<forall>f. frame_of c s f \<longrightarrow> Start_job f \<notin> set (joblist s)"
    and D: "\<forall>f \<in> D. frame_of c s f"
    and fs: "set fs \<subseteq> queued s - D" "distinct fs"
  shows "rfold (drop_frame c) fs (without_frames D s) =
    Inr (without_frames (D \<union> {f \<in> set fs. frame_of c s f}) s)"
  using D fs
proof (induction fs arbitrary: D)
  case Nil
  then show ?case by simp
next
  case (Cons f fs)
  have iD: "medium_inv (without_frames D s)" using inv ns Cons.prems(1) by (intro without_frames_inv) auto
  have fD: "f \<in> queued (without_frames D s)" using Cons.prems(2) by (simp add: queued_without)
  have fd: "f \<notin> D" using Cons.prems(2) by simp
  show ?case
  proof (cases "frame_of c s f")
    case True
    then have "drop_frame c f (without_frames D s) = Inr (without_frames (D \<union> {f}) s)"
      using drop_frame_step [OF iD fD] fd by (simp add: frame_of_without without_frames_twice)
    moreover have "rfold (drop_frame c) fs (without_frames (D \<union> {f}) s) =
        Inr (without_frames ((D \<union> {f}) \<union> {f \<in> set fs. frame_of c s f}) s)"
      using Cons.prems True by (intro Cons.IH) auto
    moreover have "(D \<union> {f}) \<union> {f \<in> set fs. frame_of c s f} =
        D \<union> {x \<in> set (f # fs). frame_of c s x}"
      using True by auto
    ultimately show ?thesis by simp
  next
    case False
    then have "drop_frame c f (without_frames D s) = Inr (without_frames D s)"
      using drop_frame_step [OF iD fD] by (simp add: frame_of_without)
    moreover have "rfold (drop_frame c) fs (without_frames D s) =
        Inr (without_frames (D \<union> {f \<in> set fs. frame_of c s f}) s)"
      using Cons.prems by (intro Cons.IH) auto
    moreover have "{x \<in> set (f # fs). frame_of c s x} = {f \<in> set fs. frame_of c s f}"
      using False by auto
    ultimately show ?thesis by simp
  qed
qed

definition queue_frames :: "'z wmediumd_scheme \<Rightarrow> nat \<times> nat \<Rightarrow> nat list" where
  "queue_frames s = (\<lambda>(p, ac). wq_frames (st_queues (the (sta_mem s p)) ! ac))"

lemma drop_queues_fold:
  assumes inv: "medium_inv s" and ns: "\<forall>f. frame_of c s f \<longrightarrow> Start_job f \<notin> set (joblist s)"
    and D: "\<forall>f \<in> D. frame_of c s f"
    and ps: "set ps \<subseteq> set (stations s) \<times> {0..<4}"
  shows "rfold (drop_queue c) ps (without_frames D s) =
    Inr (without_frames (D \<union> {f. frame_of c s f \<and> (\<exists>x \<in> set ps. f \<in> set (queue_frames s x))}) s)"
  using D ps
proof (induction ps arbitrary: D)
  case Nil
  then show ?case by simp
next
  case (Cons x ps)
  obtain p ac where x: "x = (p, ac)" by (cases x)
  then have p: "p \<in> set (stations s)" "ac < 4" using Cons.prems(2) by auto
  have so: "stations_ok s" using inv by (simp add: medium_inv_def)
  obtain st where st: "sta_mem s p = Some st" "length (st_queues st) = 4" "distinct (station_frames st)"
    using so p(1) by (rule stations_okD)
  let ?fs = "filter (\<lambda>f. f \<notin> D) (wq_frames (st_queues st ! ac))"
  have qi: "st_queues st ! ac \<in> set (st_queues st)" using st(2) p(2) by simp
  then have sub: "set (wq_frames (st_queues st ! ac)) \<subseteq> set (station_frames st)"
    by (auto simp: station_frames_def)
  have "distinct (wq_frames (st_queues st ! ac))"
    using st(3) qi by (simp add: station_frames_def distinct_concat_iff) 
  moreover have "set ?fs \<subseteq> queued s - D" using sub p(1) st(1) by (auto simp: queued_def)
  ultimately have "rfold (drop_frame c) ?fs (without_frames D s) =
      Inr (without_frames (D \<union> {f \<in> set ?fs. frame_of c s f}) s)"
    using Cons.prems(1) by (intro drop_frames_fold [OF inv ns]) auto
  moreover have "D \<union> {f \<in> set ?fs. frame_of c s f} = D \<union> {f. frame_of c s f \<and> f \<in> set (queue_frames s x)}"
    using st(1) x by (auto simp: queue_frames_def)
  moreover have "sta (without_frames D s) p = Inr (station_without D st)"
    using st(1) by (simp add: sta_def without_frames_def)
  ultimately have step: "drop_queue c x (without_frames D s) =
      Inr (without_frames (D \<union> {f. frame_of c s f \<and> f \<in> set (queue_frames s x)}) s)"
    using x st(2) p by (simp add: drop_queue_def nth_result_def)
  have "rfold (drop_queue c) ps (without_frames (D \<union> {f. frame_of c s f \<and> f \<in> set (queue_frames s x)}) s) =
      Inr (without_frames ((D \<union> {f. frame_of c s f \<and> f \<in> set (queue_frames s x)}) \<union>
        {f. frame_of c s f \<and> (\<exists>x \<in> set ps. f \<in> set (queue_frames s x))}) s)"
    using Cons.prems by (intro Cons.IH) auto
  moreover have "(D \<union> {f. frame_of c s f \<and> f \<in> set (queue_frames s x)}) \<union>
        {f. frame_of c s f \<and> (\<exists>x \<in> set ps. f \<in> set (queue_frames s x))} =
      D \<union> {f. frame_of c s f \<and> (\<exists>y \<in> set (x # ps). f \<in> set (queue_frames s y))}"
    by auto
  ultimately show ?case using step by simp
qed

definition detach :: "nat \<Rightarrow> station \<Rightarrow> station" where
  "detach c st = (if st_client st = Some c then st\<lparr>st_client := None\<rparr> else st)"

definition detached :: "nat \<Rightarrow> 'z wmediumd_scheme \<Rightarrow> 'z wmediumd_scheme" where
  "detached c s = s\<lparr>sta_mem :=
     (\<lambda>p. if p \<in> set (stations s) then map_option (detach c) (sta_mem s p) else sta_mem s p)\<rparr>"

lemma detach_stations_fold:
  assumes "distinct ps" and "\<forall>p \<in> set ps. sta_mem s p \<noteq> None"
  shows "rfold (detach_station c) ps s = Inr (s\<lparr>sta_mem :=
     (\<lambda>p. if p \<in> set ps then map_option (detach c) (sta_mem s p) else sta_mem s p)\<rparr>)"
  using assms
proof (induction ps arbitrary: s)
  case Nil
  then show ?case by simp
next
  case (Cons p ps)
  obtain st where st: "sta_mem s p = Some st" using Cons.prems(2) by auto
  let ?s = "s\<lparr>sta_mem := (sta_mem s)(p \<mapsto> detach c st)\<rparr>"
  have "s\<lparr>sta_mem := sta_mem s\<rparr> = s" by simp
  moreover have "(sta_mem s)(p \<mapsto> st) = sta_mem s" using st by (simp add: fun_upd_idem)
  ultimately have "detach_station c p s = Inr ?s"
    using st by (simp add: detach_station_def sta_def set_sta_def detach_def)
  moreover have "rfold (detach_station c) ps ?s = Inr (?s\<lparr>sta_mem :=
     (\<lambda>q. if q \<in> set ps then map_option (detach c) (sta_mem ?s q) else sta_mem ?s q)\<rparr>)"
    using Cons.prems by (intro Cons.IH) auto
  moreover have "(\<lambda>q. if q \<in> set ps then map_option (detach c) (sta_mem ?s q) else sta_mem ?s q) =
      (\<lambda>q. if q \<in> set (p # ps) then map_option (detach c) (sta_mem s q) else sta_mem s q)"
    using Cons.prems(1) st by (auto simp: fun_eq_iff)
  ultimately show ?case by simp
qed

text \<open>Changing a station without touching its queues keeps the invariant.\<close>

lemma stations_map_inv:
  assumes inv: "medium_inv s" and g: "\<And>p st. st_queues (g p st) = st_queues st"
  defines "t \<equiv> s\<lparr>sta_mem := (\<lambda>p. map_option (g p) (sta_mem s p))\<rparr>"
  shows "queued t = queued s" and "medium_inv t"
proof -
  have sf: "station_frames (g p st) = station_frames st" for p st by (simp add: station_frames_def g)
  have fr: "(\<exists>st. map_option (g p) m = Some st \<and> x \<in> set (station_frames st)) \<longleftrightarrow>
      (\<exists>st. m = Some st \<and> x \<in> set (station_frames st))" for p x m
    by (cases m) (auto simp: sf)
  show q: "queued t = queued s" by (simp add: queued_def t_def fr del: map_option_eq_Some)
  have so: "stations_ok s" using inv by (simp add: medium_inv_def)
  have qo: "queue_ok t = queue_ok s" by (simp add: fun_eq_iff queue_ok_def t_def)
  have stn: "stations t = stations s" by (simp add: t_def)
  have "stations_ok t"
  proof (rule stations_okI)
    show "distinct (stations t)" using so by (simp add: stn stations_ok_def)
  next
    fix p assume "p \<in> set (stations t)"
    then obtain st where "sta_mem s p = Some st" "length (st_queues st) = 4" "distinct (station_frames st)"
      "\<forall>q \<in> set (st_queues st). queue_ok s q"
      using so stations_okD unfolding stn by metis
    then show "\<exists>st. sta_mem t p = Some st \<and> length (st_queues st) = 4 \<and> distinct (station_frames st) \<and>
        (\<forall>q \<in> set (st_queues st). queue_ok t q)"
      by (intro exI [of _ "g p st"]) (simp add: qo sf g, simp add: t_def)
  next
    fix p p' assume p: "p \<in> set (stations t)" "p' \<in> set (stations t)" "p \<noteq> p'"
    obtain st where st: "sta_mem s p = Some st" using so p(1) unfolding stn by (rule stations_okD)
    obtain st' where st': "sta_mem s p' = Some st'" using so p(2) unfolding stn by (rule stations_okD)
    show "set (station_frames (the (sta_mem t p))) \<inter> set (station_frames (the (sta_mem t p'))) = {}"
      using stations_ok_disjoint [OF so p [unfolded stn]] st st' by (simp add: t_def sf)
  qed
  moreover have "same_queue s t" by (simp add: same_queue_def t_def)
  then have "sched_inv 0 t" using same_queue_inv [of s t 0] inv by (simp add: medium_inv_def)
  moreover have same: "joblist t = joblist s" "pending_jobs t = pending_jobs s"
    "blocked_groups t = blocked_groups s" "frame_mem t = frame_mem s"
    by (simp_all add: t_def)
  moreover have "not_past 0 t = not_past 0 s" by (simp add: not_past_def t_def)
  ultimately show "medium_inv t"
    using inv unfolding medium_inv_def q same by blast
qed

lemma detached_map:
  "detached c s = s\<lparr>sta_mem :=
     (\<lambda>p. map_option (if p \<in> set (stations s) then detach c else (\<lambda>x. x)) (sta_mem s p))\<rparr>"
proof -
  have "(\<lambda>p. if p \<in> set (stations s) then map_option (detach c) (sta_mem s p) else sta_mem s p) =
      (\<lambda>p. map_option (if p \<in> set (stations s) then detach c else (\<lambda>x. x)) (sta_mem s p))"
    by (auto simp: option.map_ident)
  then show ?thesis by (simp add: detached_def)
qed

lemma detached_inv:
  assumes "medium_inv s"
  shows "queued (detached c s) = queued s" and "medium_inv (detached c s)"
proof -
  have g: "st_queues ((if p \<in> set (stations s) then detach c else (\<lambda>x. x)) st) = st_queues st" for p st
    by (simp add: detach_def)
  show "queued (detached c s) = queued s" "medium_inv (detached c s)"
    unfolding detached_map using stations_map_inv [OF assms, of "\<lambda>p. if p \<in> set (stations s) then detach c else (\<lambda>x. x)"] g
    by simp_all
qed

lemma remove_client_effect:
  assumes inv: "medium_inv s" and cl: "cl_mem s c = Some cl"
    and ns: "\<forall>f. frame_of c s f \<longrightarrow> Start_job f \<notin> set (joblist s)"
  defines "t \<equiv> without_frames {f \<in> queued s. frame_of c s f} (detached c s)"
  shows "wmediumd_remove_client c s = Inr (t\<lparr>clients := removeAll c (clients s),
      clients_to_free := c # removeAll c (clients_to_free s),
      need_start_notify := (if cl_flags cl AND CTL_NOTIFY_TX_START \<noteq> 0 then need_start_notify s - 1
        else need_start_notify s),
      cl_mem := (cl_mem s)(c \<mapsto> cl\<lparr>cl_wait_for_ack := False\<rparr>)\<rparr>)"
proof -
  have so: "stations_ok s" using inv by (simp add: medium_inv_def)
  have d: "rfold (detach_station c) (stations s) s = Inr (detached c s)"
    unfolding detached_def
    by (rule detach_stations_fold) (use so in \<open>auto simp: stations_ok_def\<close>)
  note di = detached_inv [OF inv, of c]
  have fo: "frame_of c (detached c s) = frame_of c s" by (simp add: fun_eq_iff frame_of_def detached_def)
  have st: "stations (detached c s) = stations s" "joblist (detached c s) = joblist s"
    by (simp_all add: detached_def)
  let ?ps = "List.product (stations s) [0..<4]"
  have "rfold (drop_queue c) ?ps (without_frames {} (detached c s)) =
      Inr (without_frames ({} \<union> {f. frame_of c (detached c s) f \<and>
        (\<exists>x \<in> set ?ps. f \<in> set (queue_frames (detached c s) x))}) (detached c s))"
    using ns by (intro drop_queues_fold di(2)) (auto simp: fo st)
  moreover have "(\<exists>x \<in> set ?ps. f \<in> set (queue_frames (detached c s) x)) \<longleftrightarrow> f \<in> queued s" for f
  proof -
    have ex: "(\<exists>ac \<in> {0..<4}. f \<in> set (queue_frames (detached c s) (p, ac))) \<longleftrightarrow>
        (\<exists>st. sta_mem s p = Some st \<and> f \<in> set (station_frames st))" if p: "p \<in> set (stations s)" for p
    proof -
      obtain st where s4: "sta_mem s p = Some st" "length (st_queues st) = 4"
        using so p by (rule stations_okD)
      have "sta_mem (detached c s) p = Some (detach c st)" using p s4 by (simp add: detached_def)
      then have "queue_frames (detached c s) (p, ac) = wq_frames (st_queues st ! ac)" for ac
        by (simp add: queue_frames_def detach_def)
      moreover have "f \<in> set (station_frames st) \<longleftrightarrow> (\<exists>ac \<in> {0..<4}. f \<in> set (wq_frames (st_queues st ! ac)))"
        using s4(2) by (fastforce simp: station_frames_def in_set_conv_nth)
      ultimately show ?thesis using s4(1) by simp
    qed
    have "(\<exists>x \<in> set ?ps. f \<in> set (queue_frames (detached c s) x)) \<longleftrightarrow>
        (\<exists>p \<in> set (stations s). \<exists>ac \<in> {0..<4}. f \<in> set (queue_frames (detached c s) (p, ac)))"
      by auto
    then show ?thesis using ex by (simp add: queued_def)
  qed
  ultimately have q: "rfold (drop_queue c) ?ps (detached c s) = Inr t"
    by (simp add: fo without_frames_empty t_def conj_commute)
  have same: "cl_mem t = cl_mem s" "clients t = clients s" "clients_to_free t = clients_to_free s"
    "need_start_notify t = need_start_notify s"
    by (simp_all add: t_def without_frames_def detached_def)
  show ?thesis
    unfolding wmediumd_remove_client_def d using q same cl
    by (simp add: st client_at_def set_client_def)
qed

text \<open>Claim C31: removing a client is safe and complete when none of its frames waits for its start
  notification: it succeeds and keeps the invariant of the medium; exactly the frames the
  client sent leave the queues, are freed and lose their delivery jobs, while all other jobs
  stay; no station belongs to the client any more; the client is on the list of clients to
  free only, is no longer waited for, and no longer counted if it asked for start
  notifications.\<close>

theorem remove_client_cleans:
  assumes "medium_inv s" and "cl_mem s c = Some cl"
    and "\<forall>f. frame_of c s f \<longrightarrow> Start_job f \<notin> set (joblist s)"
  shows "\<exists>s'. wmediumd_remove_client c s = Inr s' \<and> medium_inv s' \<and>
    queued s' = {f \<in> queued s. \<not> frame_of c s f} \<and>
    (\<forall>f \<in> queued s. frame_mem s' f = (if frame_of c s f then None else frame_mem s f)) \<and>
    set (joblist s') = set (joblist s) - Frame_job ` {f \<in> queued s. frame_of c s f} \<and>
    (\<forall>p \<in> set (stations s'). \<forall>st. sta_mem s' p = Some st \<longrightarrow> st_client st \<noteq> Some c) \<and>
    c \<notin> set (clients s') \<and> count_list (clients_to_free s') c = 1 \<and>
    cl_mem s' c = Some (cl\<lparr>cl_wait_for_ack := False\<rparr>) \<and>
    need_start_notify s' = need_start_notify s - (if cl_flags cl AND 1 \<noteq> 0 then 1 else 0)"
proof -
  let ?D = "{f \<in> queued s. frame_of c s f}"
  define t where "t = without_frames ?D (detached c s)"
  define s' where "s' = t\<lparr>clients := removeAll c (clients s),
      clients_to_free := c # removeAll c (clients_to_free s),
      need_start_notify := (if cl_flags cl AND CTL_NOTIFY_TX_START \<noteq> 0 then need_start_notify s - 1
        else need_start_notify s),
      cl_mem := (cl_mem s)(c \<mapsto> cl\<lparr>cl_wait_for_ack := False\<rparr>)\<rparr>"
  have r: "wmediumd_remove_client c s = Inr s'"
    using remove_client_effect [OF assms] unfolding s'_def t_def .
  note d = detached_inv [OF assms(1), of c]
  have jt: "joblist (detached c s) = joblist s" "frame_mem (detached c s) = frame_mem s"
    "stations (detached c s) = stations s" by (simp_all add: detached_def)
  have it: "medium_inv t" unfolding t_def
    by (rule without_frames_inv [OF d(2)]) (use assms(3) jt in auto)
  have qt: "queued t = {f \<in> queued s. \<not> frame_of c s f}"
    unfolding t_def queued_without d(1) by auto
  have fields: "joblist s' = joblist t" "job_of s' = job_of t" "stations s' = stations t"
    "sta_mem s' = sta_mem t" "frame_mem s' = frame_mem t" "pending_jobs s' = pending_jobs t"
    "blocked_groups s' = blocked_groups t" "current_time s' = current_time t"
    by (simp_all add: s'_def)
  have sq: "same_queue t s'" by (simp add: same_queue_def s'_def)
  have so: "queued s' = queued t" "stations_ok t \<Longrightarrow> stations_ok s'"
    using stations_ok_cong [OF fields(3,4)] fields(2) by simp_all
  have "sched_inv 0 s'" using same_queue_inv [OF sq] it unfolding medium_inv_def by blast
  moreover have "not_past 0 s' = not_past 0 t" by (simp add: not_past_def fields)
  ultimately have inv: "medium_inv s'"
    using it so unfolding medium_inv_def fields by blast
  have "st_client st \<noteq> Some c" if "p \<in> set (stations s')" "sta_mem s' p = Some st" for p st
  proof -
    have "st_client (detach c z) \<noteq> Some c" for z by (simp add: detach_def)
    then show ?thesis using that by (auto simp: fields t_def without_frames_def detached_def)
  qed
  moreover have "set (joblist s') = set (joblist s) - Frame_job ` ?D"
    by (auto simp: fields t_def without_frames_def jt)
  moreover have "\<forall>f \<in> queued s. frame_mem s' f = (if frame_of c s f then None else frame_mem s f)"
    by (simp add: fields t_def without_frames_def jt)
  ultimately show ?thesis using r inv so(1) qt
    by (intro exI [of _ s']) (auto simp: s'_def count_list_0_iff)
qed

subsection \<open>Examples\<close>

text \<open>Frame 8 is queued at station 0 for client 0.\<close>

definition example_queued :: wmediumd where
  "example_queued = example_medium\<lparr>
     job_of := (\<lambda>_. \<lparr>job_start = 1246, job_priority = 0, job_group = 0\<rparr>),
     joblist := [Frame_job 8],
     sta_mem := (\<lambda>p. if p = 0 then Some ((example_station 0 0)\<lparr>st_queues :=
         [wqueue_init 3 7, wqueue_init 7 15, (wqueue_init 15 1023)\<lparr>wq_frames := [8]\<rparr>, wqueue_init 15 1023]\<rparr>)
       else if p = 1 then Some (example_station 1 1) else None),
     frame_mem := (\<lambda>p. if p = 8 then Some ((example_frame [2, 0, 0, 0, 1, 0])\<lparr>fr_src := Some 0\<rparr>) else None)\<rparr>"

lemma example_queued_inv: "medium_inv example_queued"
  by (auto simp: medium_inv_def sched_inv_def jobs_ok_def not_past_def example_queued_def example_defs
      in_window_def stations_ok_def queued_def station_frames_def queue_ok_def ahead_def runnable_def
      group_blocked_def)

lemma remove_client_cleans_witness:
  "\<exists>s'. wmediumd_remove_client 0 example_queued = Inr s' \<and> medium_inv s' \<and> frame_mem s' 8 = None"
proof -
  have "cl_mem example_queued 0 = Some \<lparr>cl_type = CLIENT_NETLINK, cl_wait_for_ack = False, cl_flags = 0\<rparr>"
    "\<forall>f. frame_of 0 example_queued f \<longrightarrow> Start_job f \<notin> set (joblist example_queued)"
    "8 \<in> queued example_queued" "frame_of 0 example_queued 8"
    by (auto simp: example_queued_def example_defs queued_def station_frames_def frame_of_def)
  then show ?thesis using remove_client_cleans [OF example_queued_inv] by fastforce
qed

text \<open>The start notification of a removed frame stays scheduled although the frame is freed.\<close>

lemma remove_client_start_job_dangles:
  "rbind (wmediumd_remove_client 0 (example_queued\<lparr>joblist := [Start_job 8, Frame_job 8]\<rparr>))
     (\<lambda>s. Inr (joblist s, frame_mem s 8 = None)) = Inr ([Start_job 8], True)"
  by code_simp

end
