(* ===== verification/Netlink.thy ===== *)
theory Netlink
  imports Clients
begin

text \<open>
  The messages of the simulated radios (\<open>_process_messages\<close> of \<open>wmediumd/wmediumd.c\<close>): a frame to
  transmit, and addresses that a radio starts or stops to use. \<open>genlmsg_parse\<close> of the netlink
  library is a parameter: a \<open>nl_msg\<close> is the command and the attribute table that it fills in, an
  absent attribute being a null pointer in the table.
\<close>

section \<open>Attributes\<close>

datatype hwsim_attr = HWSIM_ATTR_ADDR_RECEIVER | HWSIM_ATTR_ADDR_TRANSMITTER | HWSIM_ATTR_FRAME |
  HWSIM_ATTR_FLAGS | HWSIM_ATTR_TX_INFO | HWSIM_ATTR_COOKIE | HWSIM_ATTR_FREQ

record nl_msg =
  nm_cmd :: u8
  nm_attrs :: "hwsim_attr \<Rightarrow> u8 list option"

abbreviation (input) HWSIM_CMD_FRAME :: u8 where "HWSIM_CMD_FRAME \<equiv> 2"
abbreviation (input) HWSIM_CMD_ADD_MAC_ADDR :: u8 where "HWSIM_CMD_ADD_MAC_ADDR \<equiv> 7"
abbreviation (input) HWSIM_CMD_DEL_MAC_ADDR :: u8 where "HWSIM_CMD_DEL_MAC_ADDR \<equiv> 8"

text \<open>\<open>nla_len\<close> and \<open>nla_data\<close> read the attribute they are given; \<open>nla_get_u32\<close>, \<open>nla_get_u64\<close> and
  the copy of an address read as many bytes as they need.\<close>

definition nla_data :: "nl_msg \<Rightarrow> hwsim_attr \<Rightarrow> u8 list result" where
  "nla_data m a = rget Null_dereference (nm_attrs m a)"

definition read_bytes :: "nat \<Rightarrow> u8 list \<Rightarrow> u8 list result" where
  "read_bytes n bs = (if n \<le> length bs then Inr (take n bs) else Inl Out_of_bounds)"

definition nla_get_u32 :: "nl_msg \<Rightarrow> hwsim_attr \<Rightarrow> u32 result" where
  "nla_get_u32 m a = rbind (nla_data m a) (\<lambda>bs. rbind (read_bytes 4 bs) (\<lambda>bs. Inr (word_of_nat (from_le bs))))"

definition nla_get_u64 :: "nl_msg \<Rightarrow> hwsim_attr \<Rightarrow> u64 result" where
  "nla_get_u64 m a = rbind (nla_data m a) (\<lambda>bs. rbind (read_bytes 8 bs) (\<lambda>bs. Inr (word_of_nat (from_le bs))))"

section \<open>A frame to transmit\<close>

text \<open>The copy of at most four rates into the zeroed frame.\<close>

definition copy_rates :: "u8 list \<Rightarrow> hwsim_tx_rate list" where
  "copy_rates bs =
     (let bs = take 8 bs @ replicate (8 - length bs) 0
      in map (\<lambda>i. \<lparr>tr_idx = bs ! (2 * i), tr_count = bs ! (2 * i + 1)\<rparr>) [0..<4])"

definition new_frame :: "u8 list \<Rightarrow> u32 \<Rightarrow> u64 \<Rightarrow> u32 \<Rightarrow> nat \<Rightarrow> u8 list \<Rightarrow> frame" where
  "new_frame data flags cookie freq sender tx_rates =
     \<lparr>fr_src = None, fr_cookie = cookie, fr_freq = freq, fr_flags = flags, fr_signal = 0,
      fr_duration = 0, fr_tx_rates_count = int (length tx_rates div 2), fr_sender = sender,
      fr_tx_rates = copy_rates tx_rates, fr_data = data\<rparr>"

text \<open>The station is searched by the hardware address, then by the transmitter address of the
  frame; in the second case it learns its hardware address.\<close>

definition find_sender ::
  "mac \<Rightarrow> mac \<Rightarrow> 'z wmediumd_scheme \<Rightarrow> (nat option \<times> 'z wmediumd_scheme) result" where
  "find_sender hwaddr src s =
     rbind (get_station_by_addr s hwaddr) (\<lambda>sender.
     case sender of
       Some p \<Rightarrow> Inr (Some p, s)
     | None \<Rightarrow>
         rbind (get_station_by_used_addr s src) (\<lambda>sender.
         case sender of
           None \<Rightarrow> Inr (None, s)
         | Some p \<Rightarrow>
             rbind (sta s p) (\<lambda>st. Inr (Some p, set_sta p (st\<lparr>st_hwaddr := hwaddr\<rparr>) s))))"

definition adopt_station :: "nat \<Rightarrow> nat \<Rightarrow> 'z wmediumd_scheme \<Rightarrow> 'z wmediumd_scheme result" where
  "adopt_station c p s =
     rbind (sta s p) (\<lambda>st.
     Inr (if st_client st = None then set_sta p (st\<lparr>st_client := Some c\<rparr>) s else s))"

definition process_frame ::
  "'z wmediumd_scheme sched_ops \<Rightarrow> (real \<Rightarrow> real) \<Rightarrow> nl_msg \<Rightarrow> nat \<Rightarrow> 'z wmediumd_scheme \<Rightarrow>
   'z wmediumd_scheme result" where
  "process_frame ops erfc m c s =
     rbind (nla_data m HWSIM_ATTR_ADDR_TRANSMITTER) (\<lambda>hwaddr.
     rbind (nla_data m HWSIM_ATTR_FRAME) (\<lambda>data.
     rbind (nla_get_u32 m HWSIM_ATTR_FLAGS) (\<lambda>flags.
     rbind (nla_data m HWSIM_ATTR_TX_INFO) (\<lambda>tx_rates.
     rbind (nla_get_u64 m HWSIM_ATTR_COOKIE) (\<lambda>cookie.
     rbind (if nm_attrs m HWSIM_ATTR_FREQ = None then Inr 2412 else nla_get_u32 m HWSIM_ATTR_FREQ) (\<lambda>freq.
     let src = take 6 (drop 10 data) in
     if length data < 6 + 6 + 4 then Inr s
     else rbind (read_bytes 6 hwaddr) (\<lambda>hwaddr.
       rbind (find_sender hwaddr src s) (\<lambda>(sender, s).
       case sender of
         None \<Rightarrow> Inr s
       | Some p \<Rightarrow>
           rbind (adopt_station c p s) (\<lambda>s.
           let f = next_ptr s;
               s = s\<lparr>next_ptr := f + 1\<rparr>;
               s = set_frame f (new_frame data flags cookie freq p tx_rates) s
           in queue_frame ops erfc p f s)))))))))"

section \<open>Addresses in use\<close>

definition add_mac_addr :: "mac \<Rightarrow> mac \<Rightarrow> 'z wmediumd_scheme \<Rightarrow> 'z wmediumd_scheme result" where
  "add_mac_addr hwaddr addr s =
     rbind (get_station_by_addr s hwaddr) (\<lambda>sender.
     case sender of
       None \<Rightarrow> Inr s
     | Some p \<Rightarrow>
         rbind (sta s p) (\<lambda>st.
         if addr \<in> set (st_addrs st) then Inr s
         else Inr (set_sta p (st\<lparr>st_addrs := st_addrs st @ [addr]\<rparr>) s)))"

text \<open>The last address takes the place of the removed one.\<close>

fun swap_remove :: "mac \<Rightarrow> mac list \<Rightarrow> mac list \<Rightarrow> mac list" where
  "swap_remove a before [] = before"
| "swap_remove a before (x # xs) =
     (if x = a then (if xs = [] then before else before @ last xs # butlast xs)
      else swap_remove a (before @ [x]) xs)"

definition del_mac_addr :: "mac \<Rightarrow> mac \<Rightarrow> 'z wmediumd_scheme \<Rightarrow> 'z wmediumd_scheme result" where
  "del_mac_addr hwaddr addr s =
     rbind (get_station_by_addr s hwaddr) (\<lambda>sender.
     case sender of
       None \<Rightarrow> Inr s
     | Some p \<Rightarrow>
         rbind (sta s p) (\<lambda>st.
         Inr (set_sta p (st\<lparr>st_addrs := swap_remove addr [] (st_addrs st)\<rparr>) s)))"

definition process_messages ::
  "'z wmediumd_scheme sched_ops \<Rightarrow> (real \<Rightarrow> real) \<Rightarrow> nl_msg \<Rightarrow> nat \<Rightarrow> 'z wmediumd_scheme \<Rightarrow>
   'z wmediumd_scheme result" where
  "process_messages ops erfc m c s =
     (let both = nm_attrs m HWSIM_ATTR_ADDR_TRANSMITTER \<noteq> None \<and> nm_attrs m HWSIM_ATTR_ADDR_RECEIVER \<noteq> None;
          addresses = (\<lambda>f.
            rbind (rbind (nla_data m HWSIM_ATTR_ADDR_TRANSMITTER) (read_bytes 6)) (\<lambda>hwaddr.
            rbind (rbind (nla_data m HWSIM_ATTR_ADDR_RECEIVER) (read_bytes 6)) (\<lambda>addr.
            f hwaddr addr s)))
      in if nm_cmd m = HWSIM_CMD_FRAME
         then if nm_attrs m HWSIM_ATTR_ADDR_TRANSMITTER = None then Inr s
              else process_frame ops erfc m c s
         else if nm_cmd m = HWSIM_CMD_ADD_MAC_ADDR
         then if both then addresses add_mac_addr else Inr s
         else if nm_cmd m = HWSIM_CMD_DEL_MAC_ADDR
         then if both then addresses del_mac_addr else Inr s
         else Inr s)"

section \<open>Stations found by address\<close>

lemma find_station_Some:
  "find_station P ps s = Inr (Some p) \<Longrightarrow> p \<in> set ps \<and> (\<exists>st. sta_mem s p = Some st \<and> P st)"
  by (induction ps) (auto simp: result_simps sta_def split: if_splits)

lemma find_station_None:
  "find_station P ps s = Inr None \<Longrightarrow> p \<in> set ps \<Longrightarrow> \<exists>st. sta_mem s p = Some st \<and> \<not> P st"
  by (induction ps) (auto simp: result_simps sta_def split: if_splits)



lemma set_sta_inv:
  assumes inv: "medium_inv s" and st: "sta_mem s p = Some st" "st_queues st' = st_queues st"
  shows "queued (set_sta p st' s) = queued s" and "medium_inv (set_sta p st' s)"
proof -
  let ?g = "\<lambda>q x. if q = p \<and> st_queues x = st_queues st' then st' else x"
  have "(sta_mem s)(p \<mapsto> st') = (\<lambda>q. map_option (?g q) (sta_mem s q))"
    using st by (auto simp: fun_eq_iff option.map_ident)
  then have eq: "set_sta p st' s = s\<lparr>sta_mem := (\<lambda>q. map_option (?g q) (sta_mem s q))\<rparr>"
    by (simp add: set_sta_def)
  have g: "st_queues (?g q x) = st_queues x" for q x by simp
  show "queued (set_sta p st' s) = queued s" "medium_inv (set_sta p st' s)"
    unfolding eq by (rule stations_map_inv [OF inv g])+
qed









section \<open>Properties\<close>








text \<open>A frame message is not checked for its attributes: without its data or flags a null
  pointer is dereferenced, and flags of less than four bytes are read behind their end.\<close>

lemma frame_message_attributes_unchecked:
  assumes "nm_cmd m = 2" and "nm_attrs m HWSIM_ATTR_ADDR_TRANSMITTER = Some hwaddr"
  shows "nm_attrs m HWSIM_ATTR_FRAME = None \<Longrightarrow> process_messages ops erfc m c s = Inl Null_dereference"
    and "nm_attrs m HWSIM_ATTR_FRAME = Some data \<Longrightarrow> nm_attrs m HWSIM_ATTR_FLAGS = None \<Longrightarrow>
      process_messages ops erfc m c s = Inl Null_dereference"
    and "nm_attrs m HWSIM_ATTR_FRAME = Some data \<Longrightarrow> nm_attrs m HWSIM_ATTR_FLAGS = Some flags \<Longrightarrow>
      length flags < 4 \<Longrightarrow> process_messages ops erfc m c s = Inl Out_of_bounds"
  using assms by (simp_all add: process_messages_def process_frame_def nla_data_def nla_get_u32_def read_bytes_def)

section \<open>Adding and removing addresses\<close>

lemma swap_remove_set:
  assumes "distinct (before @ xs)"
  shows "distinct (swap_remove a before xs) \<and>
    set (swap_remove a before xs) = set before \<union> (set xs - {a}) \<and>
    length (swap_remove a before xs) = length before + length xs - (if a \<in> set xs then 1 else 0)"
  using assms
proof (induction a before xs rule: swap_remove.induct)
  case (2 a before x xs)
  show ?case
  proof (cases "x = a")
    case True
    show ?thesis
    proof (cases xs rule: rev_cases)
      case (snoc ys y)
      then show ?thesis using True 2(2) by auto
    qed (use True 2(2) in auto)
  next
    case False
    then show ?thesis using 2 by auto
  qed
qed simp

lemma swap_remove_absent: "a \<notin> set xs \<Longrightarrow> swap_remove a before xs = before @ xs"
  by (induction a before xs rule: swap_remove.induct) auto

lemma find_station_set_sta:
  assumes "sta_mem s p = Some st" and "P st' = P st"
  shows "find_station P ps (set_sta p st' s) = find_station P ps s"
  using assms by (induction ps) (auto simp: sta_def set_sta_def cong: if_cong)

text \<open>Library: the addresses of a station are a set. A message that adds or removes an address
  of the radio with a known hardware address succeeds and changes nothing but the addresses of
  that station, which stay distinct: after adding, the address is one of them, after removing
  it is not, and all others are as before. The same message again changes nothing. The queues
  and jobs of the medium are untouched.\<close>

theorem mac_addresses_form_a_set:
  assumes inv: "medium_inv s" and p: "get_station_by_addr s hwaddr = Inr (Some p)"
    and st: "sta_mem s p = Some st" "distinct (st_addrs st)"
    and m: "nm_cmd m = 7 \<or> nm_cmd m = 8" "nm_attrs m HWSIM_ATTR_ADDR_TRANSMITTER = Some hwaddr"
      "nm_attrs m HWSIM_ATTR_ADDR_RECEIVER = Some addr" "length hwaddr = 6" "length addr = 6"
  shows "\<exists>s' st'. process_messages ops erfc m c s = Inr s' \<and> medium_inv s' \<and> queued s' = queued s \<and>
    s' = s\<lparr>sta_mem := (sta_mem s)(p \<mapsto> st')\<rparr> \<and> st' = st\<lparr>st_addrs := st_addrs st'\<rparr> \<and>
    distinct (st_addrs st') \<and>
    set (st_addrs st') = (if nm_cmd m = 7 then insert addr (set (st_addrs st)) else set (st_addrs st) - {addr}) \<and>
    process_messages ops erfc m c s' = Inr s'"
proof -
  define change where "change = (\<lambda>as. if nm_cmd m = 7 then (if addr \<in> set as then as else as @ [addr])
    else swap_remove addr [] as)"
  define as where "as = change (st_addrs st)"
  let ?st = "st\<lparr>st_addrs := as\<rparr>"
  let ?s = "set_sta p ?st s"
  have same: "set_sta q x t = t" if "sta_mem t q = Some x" for q x and t :: "'a wmediumd_scheme"
    using that by (simp add: set_sta_def fun_upd_idem)
  have step: "process_messages ops erfc m c t = Inr (set_sta p (x\<lparr>st_addrs := change (st_addrs x)\<rparr>) t)"
    if "get_station_by_addr t hwaddr = Inr (Some p)" "sta_mem t p = Some x" for t :: "'a wmediumd_scheme" and x
    using that m same [OF that(2)]
    by (auto simp: process_messages_def nla_data_def read_bytes_def add_mac_addr_def del_mac_addr_def
        sta_def change_def)
  note d = swap_remove_set [of "[]" "st_addrs st" addr]
  have new: "distinct as" "set as = (if nm_cmd m = 7 then insert addr (set (st_addrs st)) else set (st_addrs st) - {addr})"
    using st(2) d by (auto simp: as_def change_def)
  have again: "change as = as"
    using new(2) swap_remove_absent [of addr as "[]"] by (auto simp: change_def)
  have at: "sta_mem ?s p = Some ?st" by (simp add: set_sta_def)
  have "get_station_by_addr ?s hwaddr = find_station (\<lambda>st. st_addr st = hwaddr) (stations s) ?s"
    by (simp add: get_station_by_addr_def set_sta_def)
  also have "\<dots> = find_station (\<lambda>st. st_addr st = hwaddr) (stations s) s"
    by (rule find_station_set_sta [OF st(1)]) simp
  finally have "get_station_by_addr ?s hwaddr = Inr (Some p)" using p by (simp add: get_station_by_addr_def)
  from step [OF this at] have "process_messages ops erfc m c ?s = Inr ?s"
    using again same [OF at] by simp
  moreover have "process_messages ops erfc m c s = Inr ?s" using step [OF p st(1)] by (simp add: as_def)
  moreover have "queued ?s = queued s" "medium_inv ?s" by (rule set_sta_inv [OF inv st(1)]; simp)+
  moreover have "?s = s\<lparr>sta_mem := (sta_mem s)(p \<mapsto> ?st)\<rparr>" by (simp add: set_sta_def)
  ultimately show ?thesis
    using new by (intro exI [of _ ?s] exI [of _ ?st]) simp
qed

lemma mac_addresses_form_a_set_witness:
  "\<exists>s' st'. process_messages USFSTL_SCHEDULER_ops (\<lambda>_. 0)
       \<lparr>nm_cmd = 7, nm_attrs = (\<lambda>a. if a = HWSIM_ATTR_ADDR_TRANSMITTER then Some [2, 0, 0, 0, 1, 0]
          else Some [9, 9, 9, 9, 9, 9])\<rparr> 0 example_medium = Inr s' \<and>
     sta_mem s' 1 = Some st' \<and> set (st_addrs st') = {[9, 9, 9, 9, 9, 9]}"
proof -
  let ?m = "\<lparr>nm_cmd = 7, nm_attrs = (\<lambda>a. if a = HWSIM_ATTR_ADDR_TRANSMITTER then Some [2, 0, 0, 0, 1, 0]
          else Some [9, 9, 9, 9, 9, 9])\<rparr>"
  have h: "get_station_by_addr example_medium [2, 0, 0, 0, 1, 0] = Inr (Some 1)"
    "sta_mem example_medium 1 = Some (example_station 1 1)" "st_addrs (example_station 1 1) = []"
    by (simp_all add: get_station_by_addr_def example_defs sta_def)
  have d: "distinct (st_addrs (example_station 1 1))" unfolding h(3) by simp
  obtain s' st' where "process_messages USFSTL_SCHEDULER_ops (\<lambda>_. 0) ?m 0 example_medium = Inr s'"
    "s' = example_medium\<lparr>sta_mem := (sta_mem example_medium)(1 \<mapsto> st')\<rparr>"
    "set (st_addrs st') = (if nm_cmd ?m = 7 then insert [9, 9, 9, 9, 9, 9] (set (st_addrs (example_station 1 1)))
       else set (st_addrs (example_station 1 1)) - {[9, 9, 9, 9, 9, 9]})"
    using mac_addresses_form_a_set [OF example_inv h(1,2) d, where m = ?m and addr = "[9, 9, 9, 9, 9, 9]"
        and ops = USFSTL_SCHEDULER_ops and erfc = "\<lambda>_. 0" and c = 0] by auto
  then show ?thesis using h(3) by simp
qed

end
