(* ===== verification/Api_Server.thy ===== *)
theory Api_Server
  imports Netlink Config_Links
begin

text \<open>
  The control socket of \<open>wmediumd/wmediumd.c\<close> (\<open>wmediumd_api_handler\<close> with the messages of
  \<open>wmediumd/api.h\<close>). What a client wrote to its socket is an argument: the header, if one could
  be read, and the data behind it. A write to a client whose peer is gone fails.
\<close>

section \<open>The environment\<close>

text \<open>What the handlers use of the rest of the program and of its libraries: the external part
  of the scheduler, the error function, the synchronisation with the time controller if there
  is one (\<open>ctx->ctrl\<close>), the configuration library, the file system, and the parser of
  netlink messages (\<open>None\<close> if \<open>nlmsg_ok\<close> fails).\<close>

record 's wm_env =
  wm_ops :: "'s sched_ops"
  wm_erfc :: "real \<Rightarrow> real"
  wm_sync_to :: "'s \<Rightarrow> 's result"
  wm_sync_from :: "'s \<Rightarrow> 's result"
  wm_config_read :: "string \<Rightarrow> config option"
  wm_scanf_f :: "string \<Rightarrow> (real option \<times> string) option"
  wm_per_content :: "string \<Rightarrow> string option"
  wm_can_open :: "string \<Rightarrow> bool"
  wm_nlmsg :: "u8 list \<Rightarrow> nl_msg option"

abbreviation (input) WMEDIUMD_MSG_INVALID :: u32 where "WMEDIUMD_MSG_INVALID \<equiv> 0"
abbreviation (input) WMEDIUMD_MSG_ACK :: u32 where "WMEDIUMD_MSG_ACK \<equiv> 1"
abbreviation (input) WMEDIUMD_MSG_REGISTER :: u32 where "WMEDIUMD_MSG_REGISTER \<equiv> 2"
abbreviation (input) WMEDIUMD_MSG_UNREGISTER :: u32 where "WMEDIUMD_MSG_UNREGISTER \<equiv> 3"
abbreviation (input) WMEDIUMD_MSG_NETLINK :: u32 where "WMEDIUMD_MSG_NETLINK \<equiv> 4"
abbreviation (input) WMEDIUMD_MSG_SET_CONTROL :: u32 where "WMEDIUMD_MSG_SET_CONTROL \<equiv> 5"
abbreviation (input) WMEDIUMD_MSG_GET_STATIONS :: u32 where "WMEDIUMD_MSG_GET_STATIONS \<equiv> 7"
abbreviation (input) WMEDIUMD_MSG_SET_SNR :: u32 where "WMEDIUMD_MSG_SET_SNR \<equiv> 8"
abbreviation (input) WMEDIUMD_MSG_RELOAD_CONFIG :: u32 where "WMEDIUMD_MSG_RELOAD_CONFIG \<equiv> 9"
abbreviation (input) WMEDIUMD_MSG_RELOAD_CURRENT_CONFIG :: u32 where
  "WMEDIUMD_MSG_RELOAD_CURRENT_CONFIG \<equiv> 10"
abbreviation (input) WMEDIUMD_MSG_START_PCAP :: u32 where "WMEDIUMD_MSG_START_PCAP \<equiv> 11"
abbreviation (input) WMEDIUMD_MSG_STOP_PCAP :: u32 where "WMEDIUMD_MSG_STOP_PCAP \<equiv> 12"

record api_input =
  ai_hdr :: "(u32 \<times> u32) option"
  ai_data :: "u8 list"

section \<open>The messages\<close>

text \<open>\<open>list_empty(&client->list)\<close> fails for a client in either list.\<close>

definition client_linked :: "nat \<Rightarrow> 'z wmediumd_scheme \<Rightarrow> bool" where
  "client_linked c s \<longleftrightarrow> c \<in> set (clients s) \<or> c \<in> set (clients_to_free s)"

definition process_register :: "nat \<Rightarrow> 'z wmediumd_scheme \<Rightarrow> u32 \<times> 'z wmediumd_scheme" where
  "process_register c s =
     (if client_linked c s then (WMEDIUMD_MSG_INVALID, s)
      else (WMEDIUMD_MSG_ACK, s\<lparr>clients := c # clients s\<rparr>))"

definition process_unregister :: "nat \<Rightarrow> 'z wmediumd_scheme \<Rightarrow> u32 \<times> 'z wmediumd_scheme" where
  "process_unregister c s =
     (if \<not> client_linked c s then (WMEDIUMD_MSG_INVALID, s)
      else (WMEDIUMD_MSG_ACK, s\<lparr>clients := removeAll c (clients s),
              clients_to_free := removeAll c (clients_to_free s)\<rparr>))"

definition process_api_netlink ::
  "'z wmediumd_scheme wm_env \<Rightarrow> nat \<Rightarrow> u8 list \<Rightarrow> 'z wmediumd_scheme \<Rightarrow>
   (u32 \<times> 'z wmediumd_scheme) result" where
  "process_api_netlink env c data s =
     rbind (wm_sync_from env s) (\<lambda>s.
     case wm_nlmsg env data of
       None \<Rightarrow> Inr (WMEDIUMD_MSG_INVALID, s)
     | Some m \<Rightarrow>
         rbind (process_messages (wm_ops env) (wm_erfc env) m c s) (\<lambda>s.
         Inr (WMEDIUMD_MSG_ACK, s)))"

text \<open>A shorter control message leaves the remaining bytes of the flags zero.\<close>

definition process_set_control :: "nat \<Rightarrow> u8 list \<Rightarrow> 'z wmediumd_scheme \<Rightarrow> 'z wmediumd_scheme result" where
  "process_set_control c data s =
     rbind (client_at s c) (\<lambda>cl.
     let flags = word_of_nat (from_le (take 4 data));
         s = (if cl_flags cl AND CTL_NOTIFY_TX_START \<noteq> 0
              then s\<lparr>need_start_notify := need_start_notify s - 1\<rparr> else s);
         s = (if flags AND CTL_NOTIFY_TX_START \<noteq> 0
              then s\<lparr>need_start_notify := need_start_notify s + 1\<rparr> else s)
     in Inr (set_client c (cl\<lparr>cl_flags := flags\<rparr>) s))"

definition station_info :: "station \<Rightarrow> mac \<times> mac \<times> real \<times> real \<times> int" where
  "station_info st = (st_addr st, st_hwaddr st, st_x st, st_y st, st_tx_power st)"

fun process_get_stations_message ::
  "nat list \<Rightarrow> 'z wmediumd_scheme \<Rightarrow> (mac \<times> mac \<times> real \<times> real \<times> int) list result" where
  "process_get_stations_message [] s = Inr []"
| "process_get_stations_message (p # ps) s =
     rbind (sta s p) (\<lambda>st.
     rbind (process_get_stations_message ps s) (\<lambda>infos.
     Inr (if st_client st \<noteq> None then station_info st # infos else infos)))"

text \<open>The signal is an unsigned byte; the data is not checked for its length.\<close>

definition process_set_snr_message :: "u8 list \<Rightarrow> 'z wmediumd_scheme \<Rightarrow> 'z wmediumd_scheme coded" where
  "process_set_snr_message data s =
     rbind (read_bytes 6 data) (\<lambda>mac1.
     rbind (get_station_by_addr s mac1) (\<lambda>node1.
     rbind (read_bytes 6 (drop 6 data)) (\<lambda>mac2.
     rbind (get_station_by_addr s mac2) (\<lambda>node2.
     case (node1, node2) of
       (Some p, Some q) \<Rightarrow>
         rbind (sta s p) (\<lambda>a. rbind (sta s q) (\<lambda>b.
         rbind (byte_at data 12) (\<lambda>snr.
         rbind (poke (snr_matrix s) (num_stas s * st_index b + st_index a) (int (unat snr))) (\<lambda>m.
         rbind (poke m (num_stas s * st_index a + st_index b) (int (unat snr))) (\<lambda>m.
         Inr (0, s\<lparr>snr_matrix := m\<rparr>))))))
     | _ \<Rightarrow> Inr (- 1, s)))))"

text \<open>A C string in the data; nothing guarantees that it ends there.\<close>

fun c_string :: "u8 list \<Rightarrow> string result" where
  "c_string [] = Inl Out_of_bounds"
| "c_string (b # bs) = (if b = 0 then Inr [] else rbind (c_string bs) (\<lambda>cs. Inr (char_of (unat b) # cs)))"

definition reload :: "'z wmediumd_scheme wm_env \<Rightarrow> string \<Rightarrow> 'z wmediumd_scheme \<Rightarrow> 'z wmediumd_scheme coded" where
  "reload env path s =
     rbind (validate_config (wm_ops env) (wm_config_read env) (wm_scanf_f env) (wm_per_content env) path s)
       (\<lambda>(ok, s).
     if ok
     then rbind (clear_config s) (\<lambda>s.
          rbind (load_config (wm_ops env) (wm_config_read env) (wm_scanf_f env) (wm_per_content env)
                   Move_job path None s) (\<lambda>(_, s).
          Inr (0, s)))
     else Inr (- 1, s))"

definition process_reload_config_message ::
  "'z wmediumd_scheme wm_env \<Rightarrow> u8 list \<Rightarrow> 'z wmediumd_scheme \<Rightarrow> 'z wmediumd_scheme coded" where
  "process_reload_config_message env data s = rbind (c_string data) (\<lambda>path. reload env path s)"

definition process_reload_current_config_message ::
  "'z wmediumd_scheme wm_env \<Rightarrow> 'z wmediumd_scheme \<Rightarrow> 'z wmediumd_scheme coded" where
  "process_reload_current_config_message env s =
     rbind (rget Null_dereference (config_path s)) (\<lambda>path. reload env path s)"

definition process_start_pcap ::
  "'z wmediumd_scheme wm_env \<Rightarrow> u8 list \<Rightarrow> 'z wmediumd_scheme \<Rightarrow> 'z wmediumd_scheme result" where
  "process_start_pcap env data s =
     rbind (c_string data) (\<lambda>path.
     rbind (init_pcapng True (wm_can_open env path) (pcap_file s)) (\<lambda>file.
     Inr (s\<lparr>pcap_file := file\<rparr>)))"

text \<open>The result has the messages of the response, none after an acknowledgement.\<close>

definition ack_unless :: "'s coded \<Rightarrow> (out_msg list \<times> 's) result" where
  "ack_unless m = rbind m (\<lambda>(r, s).
     Inr ([Response (if r < 0 then WMEDIUMD_MSG_INVALID else WMEDIUMD_MSG_ACK)], s))"

definition api_message ::
  "'z wmediumd_scheme wm_env \<Rightarrow> nat \<Rightarrow> u32 \<Rightarrow> u8 list \<Rightarrow> 'z wmediumd_scheme \<Rightarrow>
   (out_msg list \<times> 'z wmediumd_scheme) result" where
  "api_message env c type data s =
     (let respond = (\<lambda>(r, s). Inr ([Response r], s)); done = (\<lambda>s. Inr ([Response WMEDIUMD_MSG_ACK], s)) in
      if type = WMEDIUMD_MSG_REGISTER then respond (process_register c s)
      else if type = WMEDIUMD_MSG_UNREGISTER then respond (process_unregister c s)
      else if type = WMEDIUMD_MSG_NETLINK then rbind (process_api_netlink env c data s) respond
      else if type = WMEDIUMD_MSG_SET_CONTROL then rbind (process_set_control c data s) done
      else if type = WMEDIUMD_MSG_GET_STATIONS
      then rbind (process_get_stations_message (stations s) s) (\<lambda>infos. Inr ([Stations_list infos], s))
      else if type = WMEDIUMD_MSG_SET_SNR then ack_unless (process_set_snr_message data s)
      else if type = WMEDIUMD_MSG_RELOAD_CONFIG then ack_unless (process_reload_config_message env data s)
      else if type = WMEDIUMD_MSG_RELOAD_CURRENT_CONFIG
      then ack_unless (process_reload_current_config_message env s)
      else if type = WMEDIUMD_MSG_START_PCAP then rbind (process_start_pcap env data s) done
      else if type = WMEDIUMD_MSG_STOP_PCAP then done (s\<lparr>pcap_file := close_pcapng (pcap_file s)\<rparr>)
      else if type = WMEDIUMD_MSG_ACK
      then rbind (client_at s c) (\<lambda>cl.
           rassert (cl_wait_for_ack cl)
          (rassert (data = [])
             (Inr ([], set_client c (cl\<lparr>cl_wait_for_ack := False\<rparr>) s))))
      else Inr ([Response WMEDIUMD_MSG_INVALID], s))"

definition wmediumd_api_handler ::
  "'z wm_io_scheme wm_env \<Rightarrow> nat \<Rightarrow> api_input \<Rightarrow> 'z wm_io_scheme \<Rightarrow> 'z wm_io_scheme result" where
  "wmediumd_api_handler env c input s =
     (case ai_hdr input of
        None \<Rightarrow> disconnect_client c s
      | Some (type, data_len) \<Rightarrow>
          if data_len > 1024 * 1024 \<or> length (ai_data input) \<noteq> unat data_len then disconnect_client c s
          else rbind (api_message env c type (ai_data input) s) (\<lambda>(ms, s).
            if ms \<noteq> [] \<and> c \<in> set (broken s) then disconnect_client c s
            else Inr (fold (emit c) ms s)))"

section \<open>The clients and their count\<close>

text \<open>The clients that asked for start notifications and are not yet removed.\<close>

definition watchers :: "'z wmediumd_scheme \<Rightarrow> nat set" where
  "watchers s = {c. \<exists>cl. cl_mem s c = Some cl \<and> cl_flags cl AND CTL_NOTIFY_TX_START \<noteq> 0 \<and>
     c \<notin> set (clients_to_free s)}"

text \<open>The lists of clients hold allocated clients and are disjoint, exactly the sockets of API
  clients that are not removed are in the event loop as far as the client is registered, only
  API clients have flags, and the clients that asked for start notifications are counted.\<close>

definition clients_inv :: "'z wm_io_scheme \<Rightarrow> bool" where
  "clients_inv s \<longleftrightarrow> distinct (clients s) \<and> distinct (api_loop s) \<and>
     (\<forall>c \<in> set (clients s). \<exists>cl. cl_mem s c = Some cl \<and> c \<notin> set (clients_to_free s) \<and>
        (cl_type cl = CLIENT_API_SOCK \<longrightarrow> c \<in> set (api_loop s))) \<and>
     (\<forall>c \<in> set (api_loop s). \<exists>cl. cl_mem s c = Some cl \<and> cl_type cl = CLIENT_API_SOCK \<and>
        c \<notin> set (clients_to_free s)) \<and>
     (\<forall>c \<in> set (clients_to_free s). cl_mem s c \<noteq> None) \<and>
     (\<forall>c cl. cl_mem s c = Some cl \<longrightarrow> cl_flags cl \<noteq> 0 \<longrightarrow> cl_type cl = CLIENT_API_SOCK) \<and>
     (\<forall>c. next_ptr s \<le> c \<longrightarrow> cl_mem s c = None) \<and>
     finite (watchers s) \<and> need_start_notify s = of_nat (card (watchers s))"

lemma clients_invD:
  assumes "clients_inv s"
  shows "distinct (clients s)" and "distinct (api_loop s)"
    and "c \<in> set (clients s) \<Longrightarrow> \<exists>cl. cl_mem s c = Some cl \<and> c \<notin> set (clients_to_free s) \<and>
        (cl_type cl = CLIENT_API_SOCK \<longrightarrow> c \<in> set (api_loop s))"
    and "c \<in> set (api_loop s) \<Longrightarrow> \<exists>cl. cl_mem s c = Some cl \<and> cl_type cl = CLIENT_API_SOCK \<and>
        c \<notin> set (clients_to_free s)"
    and "c \<in> set (clients_to_free s) \<Longrightarrow> cl_mem s c \<noteq> None"
    and "cl_mem s c = Some cl \<Longrightarrow> cl_flags cl \<noteq> 0 \<Longrightarrow> cl_type cl = CLIENT_API_SOCK"
    and "next_ptr s \<le> c \<Longrightarrow> cl_mem s c = None"
    and "finite (watchers s)" and "need_start_notify s = of_nat (card (watchers s))"
  using assms unfolding clients_inv_def by blast+

text \<open>What the operations on frames and stations leave alone.\<close>

definition same_clients :: "'z wmediumd_scheme \<Rightarrow> 'z wmediumd_scheme \<Rightarrow> bool" where
  "same_clients s t \<longleftrightarrow> clients t = clients s \<and> clients_to_free t = clients_to_free s \<and>
     cl_mem t = cl_mem s \<and> need_start_notify t = need_start_notify s \<and> next_ptr t = next_ptr s \<and>
     nl_client t = nl_client s \<and> blocked_groups t = blocked_groups s \<and> wmediumd.more t = wmediumd.more s"

lemma same_clients_refl [simp]: "same_clients s s"
  by (simp add: same_clients_def)

lemma same_clients_trans: "same_clients s t \<Longrightarrow> same_clients t u \<Longrightarrow> same_clients s u"
  by (simp add: same_clients_def)

lemma same_clients_fold:
  assumes "rfold f xs s = Inr t" and "\<And>x u v. f x u = Inr v \<Longrightarrow> same_clients u v"
  shows "same_clients s t"
  using assms(1) by (rule rfold_invariant [where I = "same_clients s"])
    (use assms(2) same_clients_trans in \<open>simp, blast\<close>)

lemma detach_station_same: "detach_station c p s = Inr t \<Longrightarrow> same_clients s t"
  by (auto simp: detach_station_def result_simps set_sta_def same_clients_def split: if_splits)

lemma del_job_same: "same_clients s (usfstl_sched_del_job j s)"
  by (simp add: usfstl_sched_del_job_def same_clients_def)

lemma drop_frame_same: "drop_frame c f s = Inr t \<Longrightarrow> same_clients s t"
  by (auto simp: drop_frame_def result_simps unlink_frame_def free_frame_def same_clients_def
      usfstl_sched_del_job_def split: if_splits)

lemma drop_queue_same: "drop_queue c x s = Inr t \<Longrightarrow> same_clients s t"
  by (cases x) (auto simp: drop_queue_def result_simps intro: same_clients_fold drop_frame_same)

text \<open>The effect of removing a client on the clients, whatever the state of the medium.\<close>

lemma remove_client_clients:
  assumes "wmediumd_remove_client c s = Inr t"
  shows "\<exists>cl. cl_mem s c = Some cl \<and> cl_mem t = (cl_mem s)(c \<mapsto> cl\<lparr>cl_wait_for_ack := False\<rparr>) \<and>
    clients t = removeAll c (clients s) \<and> clients_to_free t = c # removeAll c (clients_to_free s) \<and>
    need_start_notify t = (if cl_flags cl AND CTL_NOTIFY_TX_START \<noteq> 0 then need_start_notify s - 1
      else need_start_notify s) \<and> next_ptr t = next_ptr s \<and> wmediumd.more t = wmediumd.more s"
proof -
  obtain s1 s2 where s1: "rfold (detach_station c) (stations s) s = Inr s1"
    "rfold (drop_queue c) (List.product (stations s1) [0..<4]) s1 = Inr s2"
    and fin: "rbind (client_at s2 c) (\<lambda>cl.
     let s = s2\<lparr>clients := removeAll c (clients s2)\<rparr>;
         s = s\<lparr>clients_to_free := c # removeAll c (clients_to_free s)\<rparr>;
         s = (if cl_flags cl AND CTL_NOTIFY_TX_START \<noteq> 0
              then s\<lparr>need_start_notify := need_start_notify s - 1\<rparr> else s)
     in Inr (set_client c (cl\<lparr>cl_wait_for_ack := False\<rparr>) s)) = Inr t"
    using assms unfolding wmediumd_remove_client_def rbind_eq_Inr by blast
  have "same_clients s s2"
    using same_clients_fold [OF s1(1) detach_station_same] same_clients_fold [OF s1(2) drop_queue_same]
    by (rule same_clients_trans)
  then show ?thesis
    using fin by (auto simp: same_clients_def client_at_def result_simps set_client_def Let_def)
qed

text \<open>The external part of the scheduler leaves the clients alone.\<close>

definition keeps_clients :: "'z wmediumd_scheme sched_ops \<Rightarrow> bool" where
  "keeps_clients ops \<longleftrightarrow>
     (\<forall>f t s s'. external_request ops = Some f \<longrightarrow> f t s = Inr s' \<longrightarrow> same_clients s s') \<and>
     (\<forall>f s s'. next_time_changed ops = Some f \<longrightarrow> f s = Inr s' \<longrightarrow> same_clients s s')"

lemma external_request_same:
  assumes "keeps_clients ops" and "usfstl_sched_external_request ops x u = Inr (b, v)"
  shows "same_clients u v"
proof -
  have request: "same_clients u v" if "external_request ops = Some f"
    "f x (u\<lparr>prev_external_sync := x, prev_external_sync_set := True\<rparr>) = Inr v" for f
  proof -
    have "same_clients (u\<lparr>prev_external_sync := x, prev_external_sync_set := True\<rparr>) v"
      using that assms(1) by (simp add: keeps_clients_def)
    then show ?thesis by (simp add: same_clients_def)
  qed
  show ?thesis using assms(2) request
    by (auto simp: usfstl_sched_external_request_def result_simps split: option.splits if_splits)
qed

lemma add_job_same:
  assumes k: "keeps_clients ops" and run: "usfstl_sched_add_job ops j s = Inr t"
  shows "same_clients s t"
proof (cases "group_blocked (group_of s j) (blocked_groups s) \<and> Some j \<noteq> allowed_job s")
  case True
  then have "t = (set_job_start j 0 s)\<lparr>pending_jobs := pending_jobs (set_job_start j 0 s) @ [j]\<rparr>"
    using run by (auto simp: usfstl_sched_add_job_def result_simps Let_def)
  then show ?thesis by (simp add: same_clients_def set_job_start_def)
next
  case False
  let ?s = "s\<lparr>joblist := insert_first (runs_after s j) j (joblist s)\<rparr>"
  obtain b s1 where s1: "usfstl_sched_external_request ops (start_of s j) ?s = Inr (b, s1)"
    "call_opt (next_time_changed ops) s1 = Inr t"
    using run unfolding usfstl_sched_add_job_def rassert_eq_Inr if_not_P [OF False] Let_def
    by (auto simp: result_simps)
  have "same_clients s ?s" by (simp add: same_clients_def)
  moreover have "same_clients ?s s1" by (rule external_request_same [OF k s1(1)])
  moreover have "same_clients s1 t"
    using s1(2) k by (auto simp: call_opt_def keeps_clients_def split: option.splits)
  ultimately show ?thesis using same_clients_trans by blast
qed

lemma queue_frame_same:
  assumes k: "keeps_clients ops" and run: "queue_frame ops erfc p f s = Inr t"
  shows "same_clients s t"
proof -
  obtain fr' target time x pcap s1 ac where sch: "queue_schedule ops f (target + word_of_int time) time
      (set_frame f fr' (s\<lparr>rng := x, pcap_file := pcap\<rparr>)) = Inr s1"
    and app: "append_frame p ac f s1 = Inr t"
    using queue_frame_steps [OF run] by blast
  let ?s = "set_frame f fr' (s\<lparr>rng := x, pcap_file := pcap\<rparr>)"
  obtain s2 where s2: "(if need_start_notify ?s \<noteq> 0
        then usfstl_sched_add_job ops (Start_job f) (set_job_start (Start_job f) (target + word_of_int time - word_of_int time) ?s)
        else Inr ?s) = Inr s2"
    "usfstl_sched_add_job ops (Frame_job f) (set_job_start (Frame_job f) (target + word_of_int time) s2) = Inr s1"
    using sch unfolding queue_schedule_def rbind_eq_Inr by blast
  have start: "same_clients u (set_job_start j y u)" for u :: "'a wmediumd_scheme" and j y
    by (simp add: same_clients_def set_job_start_def)
  have "same_clients s ?s" by (simp add: same_clients_def set_frame_def)
  moreover have "same_clients ?s s2"
  proof (cases "need_start_notify ?s \<noteq> 0")
    case True
    show ?thesis using s2(1) unfolding if_P [OF True] by (rule same_clients_trans [OF start add_job_same [OF k]])
  qed (use s2(1) in simp)
  moreover have "same_clients s2 s1" by (rule same_clients_trans [OF start add_job_same [OF k s2(2)]])
  moreover have "same_clients s1 t"
    using app by (auto simp: append_frame_def result_simps set_sta_def same_clients_def)
  ultimately show ?thesis using same_clients_trans by blast
qed

text \<open>A message of a radio only makes the next object number larger.\<close>

lemma process_messages_same:
  assumes k: "keeps_clients ops" and run: "process_messages ops erfc m c s = Inr t"
  shows "\<exists>n \<ge> next_ptr s. same_clients (s\<lparr>next_ptr := n\<rparr>) t"
proof -
  have sta: "same_clients u (set_sta p st u)" for u :: "'a wmediumd_scheme" and p st
    by (simp add: same_clients_def set_sta_def)
  have find: "same_clients u v" if "find_sender hw src u = Inr (r, v)" for hw src r and u v :: "'a wmediumd_scheme"
    using that sta by (auto simp: find_sender_def result_simps split: option.splits)
  have adopt: "same_clients u v" if "adopt_station c p u = Inr v" for p and u v :: "'a wmediumd_scheme"
    using that sta by (auto simp: adopt_station_def result_simps)
  have addrs: "same_clients u v" if "add_mac_addr hw a u = Inr v \<or> del_mac_addr hw a u = Inr v"
    for hw a and u v :: "'a wmediumd_scheme"
    using that sta by (auto simp: add_mac_addr_def del_mac_addr_def result_simps split: option.splits if_splits)
  have keep: ?thesis if "same_clients s t"
    using that by (intro exI [of _ "next_ptr s"]) simp
  consider (frame) "process_frame ops erfc m c s = Inr t" | (other) "same_clients s t"
    using run addrs unfolding process_messages_def Let_def
    by (auto simp: result_simps split: if_splits)
  then show ?thesis
  proof cases
    case frame
    then have "t = s \<or> (\<exists>hw src r s1 data fl ck fq rates. find_sender hw src s = Inr (r, s1) \<and>
       (case r of None \<Rightarrow> Inr s1
        | Some p \<Rightarrow> rbind (adopt_station c p s1) (\<lambda>s. queue_frame ops erfc p (next_ptr s)
            (set_frame (next_ptr s) (new_frame data fl ck fq p rates) (s\<lparr>next_ptr := next_ptr s + 1\<rparr>)))) = Inr t)"
      unfolding process_frame_def Let_def by (auto simp: rbind_eq_Inr split: if_splits)
    then consider (no) "t = s" | (found) hw src r s1 data fl ck fq rates where
      "find_sender hw src s = Inr (r, s1)"
      "(case r of None \<Rightarrow> Inr s1
        | Some p \<Rightarrow> rbind (adopt_station c p s1) (\<lambda>s. queue_frame ops erfc p (next_ptr s)
            (set_frame (next_ptr s) (new_frame data fl ck fq p rates) (s\<lparr>next_ptr := next_ptr s + 1\<rparr>)))) = Inr t"
      by blast
    then show ?thesis
    proof cases
      case found
      note s1 = find [OF found(1)]
      show ?thesis
      proof (cases r)
        case None
        then show ?thesis using found(2) s1 keep by simp
      next
        case (Some p)
        then obtain s2 where s2: "adopt_station c p s1 = Inr s2"
          "queue_frame ops erfc p (next_ptr s2) (set_frame (next_ptr s2) (new_frame data fl ck fq p rates)
             (s2\<lparr>next_ptr := next_ptr s2 + 1\<rparr>)) = Inr t"
          using found(2) by (auto simp: rbind_eq_Inr)
        have "same_clients s s2" using s1 adopt [OF s2(1)] by (rule same_clients_trans)
        moreover note queue_frame_same [OF k s2(2)]
        ultimately show ?thesis
          by (intro exI [of _ "next_ptr s + 1"]) (simp add: same_clients_def set_frame_def)
      qed
    qed (use keep in simp)
  qed (rule keep)
qed

lemma same_io: "wmediumd.more t = wmediumd.more s \<Longrightarrow>
    api_loop t = api_loop s \<and> outbox t = outbox s \<and> broken t = broken s"
  by (cases s, cases t) simp

lemma same_io_more: "wmediumd.more t = wmediumd.more s \<Longrightarrow> wm_io.more t = wm_io.more s"
  by (cases s, cases t) simp

lemma clients_inv_same:
  assumes "clients_inv s" and "same_clients (s\<lparr>next_ptr := n\<rparr>) t" and "next_ptr s \<le> n"
  shows "clients_inv t" and "api_loop t = api_loop s" and "broken t = broken s" and "outbox t = outbox s"
proof -
  have e: "clients t = clients s" "clients_to_free t = clients_to_free s" "cl_mem t = cl_mem s"
    "need_start_notify t = need_start_notify s" "next_ptr t = n"
    using assms(2) by (simp_all add: same_clients_def)
  have "wmediumd.more t = wmediumd.more s" using assms(2) by (simp add: same_clients_def)
  from same_io [OF this] show io: "api_loop t = api_loop s" "broken t = broken s" "outbox t = outbox s" by simp_all
  have w: "watchers t = watchers s" by (simp add: watchers_def e)
  have "\<forall>c. next_ptr t \<le> c \<longrightarrow> cl_mem t c = None"
    using assms(1,3) unfolding clients_inv_def e by (meson le_trans)
  then show "clients_inv t"
    using assms(1) unfolding clients_inv_def e(1-4) io w by blast
qed

text \<open>Counting with a wrapping counter.\<close>

lemma count_update:
  assumes "finite W" and "W' = (if b then insert c (W - {c}) else W - {c})"
  shows "finite W'" and "(of_nat (card W) :: u32) - of_bool (c \<in> W) + of_bool b = of_nat (card W')"
proof -
  show "finite W'" using assms by (auto split: if_splits)
  have "of_nat (card W) - of_bool (c \<in> W) = (of_nat (card (W - {c})) :: u32)"
  proof (cases "c \<in> W")
    case True
    then have "card W = Suc (card (W - {c}))" using assms(1) by (metis card_Suc_Diff1)
    then show ?thesis using True by simp
  qed simp
  moreover have "card W' = card (W - {c}) + of_bool b"
    using assms by (simp add: card.insert_remove)
  ultimately show "(of_nat (card W) :: u32) - of_bool (c \<in> W) + of_bool b = of_nat (card W')" by simp
qed

text \<open>Changing the flags of a client that is not removed, with the counter following.\<close>

lemma clients_inv_flags:
  assumes inv: "clients_inv s" and c: "c \<in> set (api_loop s)" "cl_mem s c = Some cl"
    and cl': "cl_type cl' = cl_type cl"
    and n: "n = need_start_notify s - of_bool (cl_flags cl AND CTL_NOTIFY_TX_START \<noteq> 0)
      + of_bool (cl_flags cl' AND CTL_NOTIFY_TX_START \<noteq> 0)"
  shows "clients_inv (set_client c cl' (s\<lparr>need_start_notify := n\<rparr>))"
proof -
  let ?t = "set_client c cl' (s\<lparr>need_start_notify := n\<rparr>)"
  have api: "cl_type cl = CLIENT_API_SOCK" "c \<notin> set (clients_to_free s)"
    using clients_invD(4) [OF inv c(1)] c(2) by auto
  have t: "clients ?t = clients s" "clients_to_free ?t = clients_to_free s" "api_loop ?t = api_loop s"
    "cl_mem ?t = (cl_mem s)(c \<mapsto> cl')" "need_start_notify ?t = n" "next_ptr ?t = next_ptr s"
    by (simp_all add: set_client_def)
  have w: "watchers ?t = (if cl_flags cl' AND CTL_NOTIFY_TX_START \<noteq> 0 then insert c (watchers s - {c}) else watchers s - {c})"
    using api(2) by (auto simp: watchers_def t)
  have cw: "c \<in> watchers s \<longleftrightarrow> cl_flags cl AND CTL_NOTIFY_TX_START \<noteq> 0"
    using c(2) api(2) by (simp add: watchers_def)
  have "n = need_start_notify s - of_bool (c \<in> watchers s) + of_bool (cl_flags cl' AND CTL_NOTIFY_TX_START \<noteq> 0)"
    using n cw by simp
  also have "\<dots> = of_nat (card (watchers ?t))"
    using count_update(2) [OF clients_invD(8) [OF inv] w] clients_invD(9) [OF inv] by simp
  finally have count: "finite (watchers ?t)" "need_start_notify ?t = of_nat (card (watchers ?t))"
    using count_update(1) [OF clients_invD(8) [OF inv] w] by (simp_all add: t)
  have "c < next_ptr s" using clients_invD(7) [OF inv, of c] c(2) by (cases "c < next_ptr s") auto
  then have "\<forall>d. next_ptr ?t \<le> d \<longrightarrow> cl_mem ?t d = None" using clients_invD(7) [OF inv] by (auto simp: t)
  moreover have "\<exists>x. cl_mem ?t d = Some x \<and> d \<notin> set (clients_to_free ?t) \<and>
      (cl_type x = CLIENT_API_SOCK \<longrightarrow> d \<in> set (api_loop ?t))" if "d \<in> set (clients ?t)" for d
    using clients_invD(3) [OF inv, of d] that c api by (cases "d = c") (auto simp: t)
  moreover have "\<exists>x. cl_mem ?t d = Some x \<and> cl_type x = CLIENT_API_SOCK \<and> d \<notin> set (clients_to_free ?t)"
    if "d \<in> set (api_loop ?t)" for d
    using clients_invD(4) [OF inv, of d] that cl' api by (cases "d = c") (auto simp: t)
  moreover have "\<forall>d \<in> set (clients_to_free ?t). cl_mem ?t d \<noteq> None"
    using clients_invD(5) [OF inv] by (auto simp: t)
  moreover have "\<forall>d x. cl_mem ?t d = Some x \<longrightarrow> cl_flags x \<noteq> 0 \<longrightarrow> cl_type x = CLIENT_API_SOCK"
    using clients_invD(6) [OF inv] api(1) cl' by (auto simp: t)
  moreover have "distinct (clients ?t)" "distinct (api_loop ?t)"
    using clients_invD(1,2) [OF inv] by (simp_all add: t)
  ultimately show ?thesis using count unfolding clients_inv_def by blast
qed

text \<open>Removing a client.\<close>

lemma clients_inv_remove:
  assumes inv: "clients_inv s" and c: "cl_mem s c = Some cl" "c \<notin> set (clients_to_free s)"
    and t: "cl_mem t = (cl_mem s)(c \<mapsto> cl\<lparr>cl_wait_for_ack := False\<rparr>)"
      "clients t = removeAll c (clients s)" "clients_to_free t = c # removeAll c (clients_to_free s)"
      "need_start_notify t = (if cl_flags cl AND CTL_NOTIFY_TX_START \<noteq> 0 then need_start_notify s - 1
        else need_start_notify s)"
      "next_ptr t = next_ptr s" "api_loop t = removeAll c (api_loop s)"
  shows "clients_inv t"
proof -
  have w: "watchers t = (if False then insert c (watchers s - {c}) else watchers s - {c})"
    by (auto simp: watchers_def t)
  have cw: "c \<in> watchers s \<longleftrightarrow> cl_flags cl AND CTL_NOTIFY_TX_START \<noteq> 0" using c by (simp add: watchers_def)
  have "need_start_notify t = need_start_notify s - of_bool (c \<in> watchers s) + of_bool False"
    by (simp add: t(4) cw)
  then have count: "finite (watchers t)" "need_start_notify t = of_nat (card (watchers t))"
    using count_update [OF clients_invD(8) [OF inv] w] clients_invD(9) [OF inv] by simp_all
  have "c < next_ptr s" using clients_invD(7) [OF inv, of c] c(1) by (cases "c < next_ptr s") auto
  then have "\<forall>d. next_ptr t \<le> d \<longrightarrow> cl_mem t d = None" using clients_invD(7) [OF inv] by (auto simp: t)
  moreover have "\<exists>x. cl_mem t d = Some x \<and> d \<notin> set (clients_to_free t) \<and>
      (cl_type x = CLIENT_API_SOCK \<longrightarrow> d \<in> set (api_loop t))" if "d \<in> set (clients t)" for d
    using clients_invD(3) [OF inv, of d] that by (auto simp: t)
  moreover have "\<exists>x. cl_mem t d = Some x \<and> cl_type x = CLIENT_API_SOCK \<and> d \<notin> set (clients_to_free t)"
    if "d \<in> set (api_loop t)" for d
    using clients_invD(4) [OF inv, of d] that by (auto simp: t)
  moreover have "\<forall>d \<in> set (clients_to_free t). cl_mem t d \<noteq> None"
    using clients_invD(5) [OF inv] by (auto simp: t)
  moreover have "\<forall>d x. cl_mem t d = Some x \<longrightarrow> cl_flags x \<noteq> 0 \<longrightarrow> cl_type x = CLIENT_API_SOCK"
    using clients_invD(6) [OF inv] c(1) by (auto simp: t)
  moreover have "distinct (clients t)" "distinct (api_loop t)"
    using clients_invD(1,2) [OF inv] by (simp_all add: t(2,6) distinct_removeAll)
  ultimately show ?thesis using count unfolding clients_inv_def by blast
qed

lemma disconnect_inv:
  assumes inv: "clients_inv s" and c: "c \<in> set (api_loop s)" and run: "disconnect_client c s = Inr t"
  shows "clients_inv t" and "api_loop t = removeAll c (api_loop s)" and "c \<in> set (clients_to_free t)"
    and "broken t = broken s" and "clients t = removeAll c (clients s)" and "wm_io.more t = wm_io.more s"
    and "d \<noteq> c \<Longrightarrow> cl_mem t d = cl_mem s d"
proof -
  let ?s = "s\<lparr>api_loop := removeAll c (api_loop s)\<rparr>"
  have r: "wmediumd_remove_client c ?s = Inr t" using run c by (simp add: disconnect_client_def)
  obtain cl where cl: "cl_mem s c = Some cl" "cl_type cl = CLIENT_API_SOCK" "c \<notin> set (clients_to_free s)"
    using clients_invD(4) [OF inv c] by blast
  have t: "cl_mem t = (cl_mem s)(c \<mapsto> cl\<lparr>cl_wait_for_ack := False\<rparr>)"
      "clients t = removeAll c (clients s)" "clients_to_free t = c # removeAll c (clients_to_free s)"
      "need_start_notify t = (if cl_flags cl AND CTL_NOTIFY_TX_START \<noteq> 0 then need_start_notify s - 1
        else need_start_notify s)"
      "next_ptr t = next_ptr s" "wmediumd.more t = wmediumd.more ?s"
    using remove_client_clients [OF r] cl(1) by auto
  from same_io [OF t(6)] have io: "api_loop t = removeAll c (api_loop s)" "broken t = broken s" by simp_all
  show "clients_inv t" by (rule clients_inv_remove [OF inv cl(1,3) t(1-5) io(1)])
  show "api_loop t = removeAll c (api_loop s)" "broken t = broken s" by (fact io)+
  show "c \<in> set (clients_to_free t)" "clients t = removeAll c (clients s)" using t by simp_all
  show "wm_io.more t = wm_io.more s" using same_io_more [OF t(6)] by simp
  show "d \<noteq> c \<Longrightarrow> cl_mem t d = cl_mem s d" by (simp add: t(1))
qed

lemma set_snr_matrix:
  assumes "process_set_snr_message data s = Inr (r, t)"
  shows "\<exists>m. t = s\<lparr>snr_matrix := m\<rparr>"
proof -
  obtain mac1 mac2 node1 node2 where
    run: "(case (node1, node2) of
       (Some p, Some q) \<Rightarrow>
         rbind (sta s p) (\<lambda>a. rbind (sta s q) (\<lambda>b.
         rbind (byte_at data 12) (\<lambda>snr.
         rbind (poke (snr_matrix s) (num_stas s * st_index b + st_index a) (int (unat snr))) (\<lambda>m.
         rbind (poke m (num_stas s * st_index a + st_index b) (int (unat snr))) (\<lambda>m.
         Inr (0, s\<lparr>snr_matrix := m\<rparr>))))))
     | _ \<Rightarrow> Inr (- 1, s)) = Inr (r, t)"
    using assms unfolding process_set_snr_message_def rbind_eq_Inr by blast
  show ?thesis
  proof (cases "node1 = None \<or> node2 = None")
    case True
    then have "t = s" using run by (cases node1; cases node2) simp_all
    then show ?thesis by (intro exI [of _ "snr_matrix s"]) simp
  next
    case False
    then obtain p q where "node1 = Some p" "node2 = Some q" by auto
    then obtain m where "Inr (0, s\<lparr>snr_matrix := m\<rparr>) = (Inr (r, t) :: (int \<times> 'a wmediumd_scheme) result)"
      using run by (simp only: prod.case option.case rbind_eq_Inr) blast
    then have "t = s\<lparr>snr_matrix := m\<rparr>" by simp
    then show ?thesis by blast
  qed
qed

section \<open>The handler\<close>

section \<open>A reload leaves the clients alone\<close>

text \<open>Loading allocates stations, so the next object number grows.\<close>

definition grows :: "'z wmediumd_scheme \<Rightarrow> 'z wmediumd_scheme \<Rightarrow> bool" where
  "grows s t \<longleftrightarrow> clients t = clients s \<and> clients_to_free t = clients_to_free s \<and> cl_mem t = cl_mem s \<and>
     need_start_notify t = need_start_notify s \<and> nl_client t = nl_client s \<and> blocked_groups t = blocked_groups s \<and>
     wmediumd.more t = wmediumd.more s \<and> next_ptr s \<le> next_ptr t"

lemma grows_refl [simp]: "grows s s"
  by (simp add: grows_def)

lemma grows_trans: "grows s t \<Longrightarrow> grows t u \<Longrightarrow> grows s u"
  by (auto simp: grows_def)

lemma same_grows: "same_clients s t \<Longrightarrow> grows s t"
  by (simp add: grows_def same_clients_def)

lemma grows_same: "grows s t \<Longrightarrow> same_clients (s\<lparr>next_ptr := next_ptr t\<rparr>) t"
  by (simp add: grows_def same_clients_def)

lemma grows_set_sta [simp]: "grows s (set_sta p st s)"
  by (simp add: grows_def set_sta_def)

text \<open>What loads the configuration leaves the jobs and the switch of the interference alone, apart
  from the start of the movement.\<close>

definition loads :: "'z wmediumd_scheme \<Rightarrow> 'z wmediumd_scheme \<Rightarrow> bool" where
  "loads s t \<longleftrightarrow> grows s t \<and> joblist t = joblist s \<and> intf t = intf s"

lemma loads_refl [simp]: "loads s s"
  by (simp add: loads_def)

lemma loads_trans: "loads s t \<Longrightarrow> loads t u \<Longrightarrow> loads s u"
  by (auto simp: loads_def intro: grows_trans)

lemma loads_set_sta [simp]: "loads s (set_sta p st s)"
  by (simp add: loads_def grows_def set_sta_def)

lemma loads_fold:
  assumes "rfold f xs s = Inr t" and "\<And>x u v. f x u = Inr v \<Longrightarrow> loads u v"
  shows "loads s t"
  using assms(1) by (rule rfold_invariant [where I = "loads s"]) (use assms(2) loads_trans in \<open>simp, blast\<close>)

lemma proceed_Inr:
  "proceed m f = Inr (r, t) \<longleftrightarrow> (\<exists>k u. m = Inr (k, u) \<and> (if k \<noteq> 0 then (r, t) = (k, u) else f u = Inr (r, t)))"
  by (auto simp: proceed_def rbind_eq_Inr)

lemma loads_proceed:
  assumes "proceed m f = Inr (r, t)" and "\<And>k u. m = Inr (k, u) \<Longrightarrow> loads s u"
    and "\<And>u k v. f u = Inr (k, v) \<Longrightarrow> loads u v"
  shows "loads s t"
proof -
  obtain k u where u: "m = Inr (k, u)" "if k \<noteq> 0 then (r, t) = (k, u) else f u = Inr (r, t)"
    using assms(1) by (auto simp: proceed_Inr)
  have "loads u t" using u(2) assms(3) by (cases "k = 0") auto
  then show ?thesis using assms(2) [OF u(1)] loads_trans by blast
qed

lemma loads_each:
  "each f xs s = Inr (r, t) \<Longrightarrow> (\<And>x u k v. f x u = Inr (k, v) \<Longrightarrow> loads (g u) (g v)) \<Longrightarrow> loads (g s) (g t)"
proof (induction xs arbitrary: s)
  case (Cons x xs)
  then obtain k u where u: "f x s = Inr (k, u)" "if k \<noteq> 0 then (r, t) = (k, u) else each f xs u = Inr (r, t)"
    by (auto simp: proceed_Inr)
  have "loads (g u) (g t)" using u(2) Cons.IH Cons.prems(2) by (cases "k = 0") auto
  then show ?case using Cons.prems(2) [OF u(1)] loads_trans by blast
qed simp

lemmas each_loads = loads_each [where g = id, unfolded id_apply]

lemma load_stations_loads: "load_stations ids s = Inr t \<Longrightarrow> loads s t"
proof -
  assume "load_stations ids s = Inr t"
  then obtain u where u: "rfold load_station (zip [0..<length ids] ids) (s\<lparr>sta_array := Some []\<rparr>) = Inr u"
    "t = u\<lparr>num_stas := length ids\<rparr>" by (auto simp: load_stations_def rbind_eq_Inr)
  have "loads (s\<lparr>sta_array := Some []\<rparr>) u"
    by (rule loads_fold [OF u(1)]) (auto simp: load_station_def rbind_eq_Inr Let_def loads_def grows_def split: prod.splits)
  then show ?thesis by (simp add: u(2) loads_def grows_def)
qed

lemma recalc_loads: "recalc_path_loss s = Inr t \<Longrightarrow> loads s t"
  unfolding recalc_path_loss_def
  by (erule loads_fold) (auto simp: recalc_pair_def rbind_eq_Inr loads_def grows_def split: if_splits prod.splits)

lemma place_station_loads:
  assumes run: "place_station positions directions tx_powers p s = Inr (r, t)"
  shows "loads s t"
proof -
  obtain st position where p: "sta s p = Inr st" "nth_result positions (st_index st) = Inr position"
    using run by (auto simp: place_station_def rbind_eq_Inr)
  show ?thesis
  proof (cases "set_length position = 2")
    case False
    then show ?thesis using run p by (simp add: place_station_def)
  next
    case True
    from run p True show ?thesis
      unfolding place_station_def
      by (simp add: Let_def) (erule loads_proceed, auto simp: rbind_eq_Inr split: option.splits if_splits)
  qed
qed

lemma schedule_move_grows:
  assumes k: "keeps_clients ops" and run: "schedule_move ops mv cf s = Inr (r, t)"
  shows "grows s t"
proof (cases "cfg_directions cf")
  case (Some d)
  show ?thesis
  proof (cases "length d = num_stas s")
    case True
    then have "usfstl_sched_add_job ops mv (set_job_start mv (3 * 1000000) s) = Inr t"
      using run Some by (auto simp: schedule_move_def rbind_eq_Inr)
    from add_job_same [OF k this] show ?thesis by (simp add: grows_def same_clients_def set_job_start_def)
  qed (use run Some in \<open>simp add: schedule_move_def\<close>)
qed (use run in \<open>simp add: schedule_move_def\<close>)

lemma parse_path_loss_moves:
  assumes run: "parse_path_loss ops mv cf s = Inr (r, t)"
  shows "r \<noteq> 0 \<and> t = s \<or>
    (\<exists>k u. schedule_move ops mv cf s = Inr (k, u) \<and> loads u t \<and> (r = 0 \<longrightarrow> k = 0))"
proof (cases "cfg_positions cf")
  case (Some positions)
  show ?thesis
  proof (cases "length positions = num_stas s")
    case True
    have place: "loads u v"
      if "proceed (each (place_station positions (cfg_directions cf) tx_powers) xs (u\<lparr>calc_path_loss_fn := Some m\<rparr>))
        (\<lambda>s. rbind (recalc_path_loss s) (\<lambda>s. Inr (0, s))) = Inr (k, v)" for tx_powers xs m u k v
    proof -
      have "loads (u\<lparr>calc_path_loss_fn := Some m\<rparr>) v"
        by (rule loads_proceed [OF that], erule each_loads, erule place_station_loads)
          (auto simp: rbind_eq_Inr dest: recalc_loads)
      then show ?thesis by (simp add: loads_def grows_def)
    qed
    obtain k u where u: "schedule_move ops mv cf s = Inr (k, u)"
      and rest: "if k \<noteq> 0 then (r, t) = (k, u) else (case cfg_tx_powers cf of
          None \<Rightarrow> Inr (- EINVAL, u)
        | Some tx_powers \<Rightarrow>
            if set_length tx_powers \<noteq> num_stas u then Inr (- EINVAL, u)
            else case parse_model cf of
              None \<Rightarrow> Inr (- EINVAL, u)
            | Some m \<Rightarrow>
                let s = u\<lparr>calc_path_loss_fn := Some m\<rparr> in
                proceed (each (place_station positions (cfg_directions cf) tx_powers) (stations s) s)
                  (\<lambda>s. rbind (recalc_path_loss s) (\<lambda>s. Inr (0, s)))) = Inr (r, t)"
      using run True Some unfolding parse_path_loss_def by (auto simp: proceed_Inr)
    have "loads u t"
    proof (cases "k = 0")
      case True
      then show ?thesis using rest by (auto simp: Let_def place split: option.splits if_splits)
    qed (use rest in simp)
    moreover have "k = 0" if "r = 0" using rest that by (cases "k = 0") auto
    ultimately show ?thesis using u by blast
  qed (use run Some in \<open>simp add: parse_path_loss_def\<close>)
qed (use run in \<open>simp add: parse_path_loss_def\<close>)

lemma parse_path_loss_grows:
  assumes k: "keeps_clients ops" and run: "parse_path_loss ops mv cf s = Inr (r, t)"
  shows "grows s t"
  using parse_path_loss_moves [OF run] schedule_move_grows [OF k] grows_trans unfolding loads_def
  by (metis grows_refl)

lemma load_model_grows:
  assumes k: "keeps_clients ops" and run: "load_model ops mv cf s = Inr (r, x, t)"
  shows "grows s t"
proof -
  have "t = s \<or> (\<exists>r. parse_path_loss ops mv cf s = Inr (r, t))"
    using run by (auto simp: load_model_def rbind_eq_Inr split: option.splits if_splits)
  then show ?thesis using parse_path_loss_grows [OF k] by auto
qed

lemma mirror_pair_loads:
  assumes run: "mirror_pair link_map x u = Inr v"
  shows "loads u v"
proof -
  have link: "loads u v" if "mirror_link i j u = Inr v" for i j
  proof -
    note l = that
    obtain m where rest: "(if error_prob_matrix (u\<lparr>snr_matrix := m\<rparr>) = Null then Inr (u\<lparr>snr_matrix := m\<rparr>)
      else rbind (peek (error_prob_matrix (u\<lparr>snr_matrix := m\<rparr>)) (num_stas (u\<lparr>snr_matrix := m\<rparr>) * i + j)) (\<lambda>x.
          rbind (poke (error_prob_matrix (u\<lparr>snr_matrix := m\<rparr>)) (num_stas (u\<lparr>snr_matrix := m\<rparr>) * j + i) x) (\<lambda>k.
          Inr (u\<lparr>snr_matrix := m, error_prob_matrix := k\<rparr>)))) = Inr v"
      using l unfolding mirror_link_def rbind_eq_Inr Let_def by blast
    show ?thesis
    proof (cases "error_prob_matrix (u\<lparr>snr_matrix := m\<rparr>) = Null")
      case True
      have "u\<lparr>snr_matrix := m\<rparr> = v" using rest unfolding if_P [OF True] by simp
      then show ?thesis by (auto simp: loads_def grows_def)
    next
      case False
      obtain k where "u\<lparr>snr_matrix := m, error_prob_matrix := k\<rparr> = v"
        using rest unfolding if_not_P [OF False] rbind_eq_Inr by blast
      then show ?thesis by (auto simp: loads_def grows_def)
    qed
  qed
  obtain i j where "x = (i, j)" by (cases x)
  then have "u = v \<or> mirror_link i j u = Inr v"
    using run by (auto simp: mirror_pair_def rbind_eq_Inr split: if_split_asm)
  then show ?thesis using link by auto
qed

lemma load_links_loads:
  assumes run: "load_links links error_probs d s = Inr (r, t)"
  shows "loads s t"
proof -
  let ?pairs = "List.product [0..<num_stas s] [0..<num_stas s]"
  obtain k u lm where u: "each read_link (case links of None \<Rightarrow> [] | Some l \<Rightarrow> l) (s, replicate (num_stas s * num_stas s) False)
      = Inr (k, u, lm)" "(if k \<noteq> 0 then Inr (k, u)
      else rbind (if error_probs = None then Inr u else rfold (default_error_prob d) ?pairs u) (\<lambda>s.
        rbind (each read_error_prob (case error_probs of None \<Rightarrow> [] | Some l \<Rightarrow> l) (s, lm))
          (\<lambda>(r, s, link_map).
        if r \<noteq> 0 then Inr (r, s)
        else rbind (rfold (mirror_pair link_map) ?pairs s) (\<lambda>s. Inr (0, s))))) = Inr (r, t)"
    using run by (auto simp: load_links_def rbind_eq_Inr Let_def)
  have "loads (fst (s, replicate (num_stas s * num_stas s) False)) (fst (u, lm))"
    by (rule loads_each [OF u(1)]) (auto simp: read_link_def rbind_eq_Inr Let_def loads_def grows_def split: if_splits)
  then have su: "loads s u" by simp
  show ?thesis
  proof (cases "k = 0")
    case True
    then obtain v k2 w lm2 where v: "(if error_probs = None then Inr u else rfold (default_error_prob d) ?pairs u) = Inr v"
      "each read_error_prob (case error_probs of None \<Rightarrow> [] | Some l \<Rightarrow> l) (v, lm) = Inr (k2, w, lm2)"
      "(if k2 \<noteq> 0 then Inr (k2, w) else rbind (rfold (mirror_pair lm2) ?pairs w) (\<lambda>s. Inr (0, s))) = Inr (r, t)"
      using u(2) by (auto simp: rbind_eq_Inr)
    have "loads u v"
    proof (cases "error_probs = None")
      case False
      have "rfold (default_error_prob d) ?pairs u = Inr v" using v(1) unfolding if_not_P [OF False] .
      then show ?thesis
        by (rule loads_fold) (auto simp: default_error_prob_def rbind_eq_Inr loads_def grows_def split: if_splits prod.splits)
    qed (use v(1) in simp)
    moreover have "loads (fst (v, lm)) (fst (w, lm2))"
      by (rule loads_each [OF v(2)]) (auto simp: read_error_prob_def rbind_eq_Inr Let_def loads_def grows_def split: if_splits)
    then have "loads v w" by simp
    moreover have "loads w t"
    proof (cases "k2 = 0")
      case True
      then have "rfold (mirror_pair lm2) ?pairs w = Inr t" using v(3) by (auto simp: rbind_eq_Inr)
      then show ?thesis
        by (rule loads_fold) (erule mirror_pair_loads)
    qed (use v(3) in simp)
    ultimately show ?thesis using su loads_trans by blast
  qed (use u(2) su in simp)
qed

lemma load_stations_grows: "load_stations ids s = Inr t \<Longrightarrow> grows s t"
  using load_stations_loads [of ids s t] by (simp add: loads_def)

lemma load_links_grows: "load_links links error_probs d s = Inr (r, t) \<Longrightarrow> grows s t"
  using load_links_loads [of links error_probs d s r t] by (simp add: loads_def)

lemma load_fail_grows: "load_fail s = Inr (r, t) \<Longrightarrow> grows s t"
  by (auto simp: load_fail_def rbind_eq_Inr Let_def grows_def)

lemma load_config_grows:
  assumes k: "keeps_clients ops" and run: "load_config ops config_read scanf_f per_content mv path per_file s = Inr (r, t)"
  shows "grows s t"
proof -
  let ?s = "s\<lparr>config_path := Some path\<rparr>"
  have s: "grows s ?s" by (simp add: grows_def)
  show ?thesis
  proof (cases "config_read path")
    case (Some cf)
    show ?thesis
    proof (cases "cfg_ids cf")
      case ids: (Some ids)
      let ?f = "\<lambda>u. (load_fading cf (load_interference cf u))\<lparr>snr_matrix := Block (replicate (length ids * length ids) SNR_DEFAULT)\<rparr>"
      obtain u k1 links probs v where u: "load_stations ids ?s = Inr u"
        "load_model ops mv cf (?f u) = Inr (k1, (links, probs), v)"
        "(if k1 \<noteq> 0 \<or> per_file \<noteq> None \<and> probs \<noteq> None then load_fail v
          else rbind (load_per scanf_f per_content per_file v) (\<lambda>(r, s).
            if r \<noteq> 0 then load_fail s
            else rbind (load_error_probs cf probs s) (\<lambda>(r, d, s).
              if r \<noteq> 0 then load_fail s
              else rbind (load_links links probs d s) (\<lambda>(r, s).
                if r \<noteq> 0 then load_fail s else Inr (0, s))))) = Inr (r, t)"
        using run Some ids by (auto simp: load_config_def rbind_eq_Inr Let_def)
      have "grows ?s u" by (rule load_stations_grows [OF u(1)])
      moreover have "grows u (?f u)"
        by (auto simp: grows_def load_fading_def load_interference_def split: option.splits)
      moreover have "grows (?f u) v" by (rule load_model_grows [OF k u(2)])
      ultimately have v: "grows s v" using s grows_trans by blast
      have per: "grows x y" if "load_per scanf_f per_content per_file x = Inr (i, y)" for x y i
        using that by (auto simp: load_per_def rbind_eq_Inr Let_def grows_def split: option.splits if_splits)
      have prob: "grows x y" if "load_error_probs cf probs x = Inr (i, d, y)" for x y i d
        using that by (auto simp: load_error_probs_def Let_def grows_def split: option.splits if_splits)
      show ?thesis
      proof (cases "k1 \<noteq> 0 \<or> per_file \<noteq> None \<and> probs \<noteq> None")
        case True
        have "load_fail v = Inr (r, t)" using u(3) unfolding if_P [OF True] .
        then show ?thesis using load_fail_grows grows_trans [OF v] by blast
      next
        case False
        then obtain k2 w where w: "load_per scanf_f per_content per_file v = Inr (k2, w)"
          "(if k2 \<noteq> 0 then load_fail w
            else rbind (load_error_probs cf probs w) (\<lambda>(r, d, s).
              if r \<noteq> 0 then load_fail s
              else rbind (load_links links probs d s) (\<lambda>(r, s).
                if r \<noteq> 0 then load_fail s else Inr (0, s)))) = Inr (r, t)"
          using u(3) unfolding if_not_P [OF False] by (auto simp: rbind_eq_Inr)
        have vw: "grows s w" by (rule grows_trans [OF v per [OF w(1)]])
        show ?thesis
        proof (cases "k2 = 0")
          case True
          then obtain k3 d x where x: "load_error_probs cf probs w = Inr (k3, d, x)"
            "(if k3 \<noteq> 0 then load_fail x else rbind (load_links links probs d x) (\<lambda>(r, s).
                if r \<noteq> 0 then load_fail s else Inr (0, s))) = Inr (r, t)"
            using w(2) by (auto simp: rbind_eq_Inr)
          have wx: "grows s x" by (rule grows_trans [OF vw prob [OF x(1)]])
          show ?thesis
          proof (cases "k3 = 0")
            case True
            then obtain k4 y where y: "load_links links probs d x = Inr (k4, y)"
              "(if k4 \<noteq> 0 then load_fail y else Inr (0, y)) = Inr (r, t)"
              using x(2) by (auto simp: rbind_eq_Inr)
            have "grows s y" by (rule grows_trans [OF wx load_links_grows [OF y(1)]])
            moreover have "grows y t" using y(2) load_fail_grows by (cases "k4 = 0") auto
            ultimately show ?thesis by (rule grows_trans)
          next
            case False
            then have "load_fail x = Inr (r, t)" using x(2) by simp
            then show ?thesis using load_fail_grows grows_trans [OF wx] by blast
          qed
        next
          case False
          then have "load_fail w = Inr (r, t)" using w(2) by simp
          then show ?thesis using load_fail_grows grows_trans [OF vw] by blast
        qed
      qed
    next
      case None
      then show ?thesis using run Some by (auto simp: load_config_def grows_def)
    qed
  next
    case None
    then show ?thesis using run by (auto simp: load_config_def grows_def)
  qed
qed

lemma clear_config_grows: "clear_config s = Inr t \<Longrightarrow> grows s t"
  by (auto simp: clear_config_def rbind_eq_Inr Let_def grows_def)

lemma validate_config_grows:
  assumes k: "keeps_clients ops" and run: "validate_config ops config_read scanf_f per_content path s = Inr (ok, t)"
  shows "grows s t"
proof -
  obtain r u v where u: "load_config ops config_read scanf_f per_content Stack_move_job path None (zero_context s) = Inr (r, u)"
    "clear_config u = Inr v" "t = with_context_of s v"
    using run by (auto simp: validate_config_def rbind_eq_Inr)
  have "wmediumd.more v = wmediumd.more (zero_context s)" "blocked_groups v = blocked_groups (zero_context s)"
    using load_config_grows [OF k u(1)] clear_config_grows [OF u(2)] by (simp_all add: grows_def)
  then have "wmediumd.more v = wmediumd.more s" "blocked_groups v = blocked_groups s" by (simp_all add: zero_context_def)
  then show ?thesis by (simp add: grows_def u(3) with_context_of_def)
qed

lemma reload_grows:
  assumes k: "keeps_clients (wm_ops env)" and run: "reload env path s = Inr (r, t)"
  shows "grows s t"
proof -
  obtain ok u where u: "validate_config (wm_ops env) (wm_config_read env) (wm_scanf_f env) (wm_per_content env) path s = Inr (ok, u)"
    using run by (auto simp: reload_def rbind_eq_Inr)
  have "grows u t"
  proof (cases ok)
    case True
    then obtain v k2 where "clear_config u = Inr v"
      "load_config (wm_ops env) (wm_config_read env) (wm_scanf_f env) (wm_per_content env) Move_job path None v = Inr (k2, t)"
      using run u by (auto simp: reload_def rbind_eq_Inr)
    then show ?thesis using clear_config_grows load_config_grows [OF k] grows_trans by blast
  qed (use run u in \<open>simp add: reload_def\<close>)
  then show ?thesis using validate_config_grows [OF k u] grows_trans by blast
qed

text \<open>The contract of the environment: neither the external part of the scheduler nor the
  synchronisation with the time controller changes the clients.\<close>

locale wm_environment =
  fixes env :: "'z wm_io_scheme wm_env"
  assumes ops: "keeps_clients (wm_ops env)"
    and sync_from: "wm_sync_from env s = Inr t \<Longrightarrow> same_clients s t"
    and sync_to: "wm_sync_to env s = Inr t \<Longrightarrow> same_clients s t"
begin

lemma netlink_inv:
  assumes inv: "clients_inv s" and run: "process_messages (wm_ops env) (wm_erfc env) m c s = Inr t"
  shows "clients_inv t" and "api_loop t = api_loop s" and "broken t = broken s" and "clients t = clients s"
    and "wm_io.more t = wm_io.more s" and "cl_mem t = cl_mem s"
proof -
  obtain n where n: "next_ptr s \<le> n" "same_clients (s\<lparr>next_ptr := n\<rparr>) t"
    using process_messages_same [OF ops run] by blast
  show "clients t = clients s" "wm_io.more t = wm_io.more s" "cl_mem t = cl_mem s"
    using n(2) same_io_more [of t "s\<lparr>next_ptr := n\<rparr>"] by (simp_all add: same_clients_def)
  from clients_inv_same [OF inv n(2,1)] show "clients_inv t" "api_loop t = api_loop s" "broken t = broken s"
    by simp_all
qed

lemma same_inv:
  assumes "clients_inv s" and "same_clients s t"
  shows "clients_inv t" and "api_loop t = api_loop s" and "broken t = broken s"
  using clients_inv_same [OF assms(1), of "next_ptr s" t] assms(2) by simp_all

lemma message_inv:
  assumes inv: "clients_inv s" and c: "c \<in> set (api_loop s)"
    and run: "api_message env c type data s = Inr (ms, t)"
  shows "clients_inv t \<and> api_loop t = api_loop s \<and> broken t = broken s \<and>
    length (clients t) \<le> Suc (length (clients s)) \<and> wm_io.more t = wm_io.more s \<and>
    (\<forall>d. d \<noteq> c \<longrightarrow> cl_mem t d = cl_mem s d)"
proof -
  obtain cl where cl: "cl_mem s c = Some cl" "cl_type cl = CLIENT_API_SOCK" "c \<notin> set (clients_to_free s)"
    using clients_invD(4) [OF inv c] by blast
  have stay: ?thesis if "same_clients s t" using same_inv [OF inv that] that same_io_more [of t s]
    by (simp add: same_clients_def)
  have linked: ?thesis if "t = s\<lparr>clients := xs\<rparr>" "distinct xs" "set xs \<subseteq> insert c (set (clients s))"
    "length xs \<le> Suc (length (clients s))" for xs
  proof -
    have w: "watchers t = watchers s" by (simp add: watchers_def that(1))
    have "\<exists>x. cl_mem s d = Some x \<and> d \<notin> set (clients_to_free s) \<and>
        (cl_type x = CLIENT_API_SOCK \<longrightarrow> d \<in> set (api_loop s))" if "d \<in> set xs" for d
      using clients_invD(3) [OF inv, of d] that \<open>set xs \<subseteq> _\<close> cl c by auto
    then have "clients_inv t"
      using inv \<open>distinct xs\<close> unfolding clients_inv_def w by (simp add: that(1))
    then show ?thesis using that(4) by (simp add: that(1))
  qed
  consider "type = 2" | "type = 3" | "type = 4" | "type = 5" | "type = 1"
    | (reload) "type = 9 \<or> type = 10" | (other) "type \<notin> {1, 2, 3, 4, 5, 9, 10}" by blast
  then show ?thesis
  proof cases
    case 1
    then have "t = s \<or> (t = s\<lparr>clients := c # clients s\<rparr> \<and> c \<notin> set (clients s))"
      using run by (auto simp: api_message_def process_register_def client_linked_def split: if_splits)
    then show ?thesis using linked [of "c # clients s"] stay clients_invD(1) [OF inv] by auto
  next
    case 2
    have "removeAll c (clients_to_free s) = clients_to_free s" using cl(3) by simp
    then have "t = s \<or> t = s\<lparr>clients := removeAll c (clients s)\<rparr>"
      using run 2 by (auto simp: api_message_def process_unregister_def split: if_splits)
    then show ?thesis
      using linked [of "removeAll c (clients s)"] stay clients_invD(1) [OF inv]
        le_SucI [OF length_removeAll_less_eq [of c "clients s"]] by (auto simp: distinct_removeAll)
  next
    case 3
    then obtain u where u: "wm_sync_from env s = Inr u"
      "t = u \<or> (\<exists>m. process_messages (wm_ops env) (wm_erfc env) m c u = Inr t)"
      using run by (auto simp: api_message_def process_api_netlink_def result_simps split: option.splits)
    note iu = same_inv [OF inv sync_from [OF u(1)]]
    have "wm_io.more u = wm_io.more s" "clients u = clients s" "cl_mem u = cl_mem s"
      using sync_from [OF u(1)] same_io_more [of u s] by (simp_all add: same_clients_def)
    then show ?thesis using u(2) iu netlink_inv [OF iu(1)] by auto
  next
    case 4
    then have t: "process_set_control c data s = Inr t" using run by (auto simp: api_message_def result_simps)
    define n where "n = need_start_notify s - of_bool (cl_flags cl AND CTL_NOTIFY_TX_START \<noteq> 0)
      + of_bool (word_of_nat (from_le (take 4 data)) AND CTL_NOTIFY_TX_START \<noteq> 0)"
    have "t = set_client c (cl\<lparr>cl_flags := word_of_nat (from_le (take 4 data))\<rparr>) (s\<lparr>need_start_notify := n\<rparr>)"
    proof -
      have id: "s\<lparr>need_start_notify := need_start_notify s\<rparr> = s" by simp
      show ?thesis
        using t cl(1) id
        by (cases "cl_flags cl AND CTL_NOTIFY_TX_START \<noteq> 0";
            cases "word_of_nat (from_le (take 4 data)) AND CTL_NOTIFY_TX_START \<noteq> (0 :: u32)")
          (simp_all add: process_set_control_def client_at_def Let_def n_def)
    qed
    then show ?thesis
      using clients_inv_flags [OF inv c cl(1), of "cl\<lparr>cl_flags := word_of_nat (from_le (take 4 data))\<rparr>" n]
      by (simp add: n_def) (simp add: set_client_def)
  next
    case 5
    then have "t = set_client c (cl\<lparr>cl_wait_for_ack := False\<rparr>) s"
      using run cl(1) by (auto simp: api_message_def client_at_def result_simps)
    then have t: "t = set_client c (cl\<lparr>cl_wait_for_ack := False\<rparr>) (s\<lparr>need_start_notify := need_start_notify s\<rparr>)"
      by simp
    show ?thesis
      unfolding t by (intro conjI clients_inv_flags [OF inv c cl(1)]) (simp_all, simp_all add: set_client_def)
  next
    case reload
    then obtain r path where "reload env path s = Inr (r, t)"
      using run by (auto simp: api_message_def ack_unless_def process_reload_config_message_def
          process_reload_current_config_message_def rbind_eq_Inr)
    then have g: "grows s t" by (rule reload_grows [OF ops])
    then have "next_ptr s \<le> next_ptr t" by (simp add: grows_def)
    then show ?thesis
      using clients_inv_same [OF inv grows_same [OF g]] same_io_more [of t s] g by (simp add: grows_def)
  next
    case other
    then have "same_clients s t"
      using run by (auto simp: api_message_def result_simps ack_unless_def
          process_start_pcap_def same_clients_def dest!: set_snr_matrix split: if_splits)
    then show ?thesis by (rule stay)
  qed
qed

lemma handler_inv:
  assumes inv: "clients_inv s" and c: "c \<in> set (api_loop s)"
    and run: "wmediumd_api_handler env c input s = Inr t"
  shows "clients_inv t \<and> (api_loop t = api_loop s \<or> api_loop t = removeAll c (api_loop s) \<and> c \<in> set (clients_to_free t))
    \<and> broken t = broken s \<and> length (clients t) \<le> Suc (length (clients s)) \<and> wm_io.more t = wm_io.more s \<and>
    (\<forall>d. d \<noteq> c \<longrightarrow> cl_mem t d = cl_mem s d)"
proof (cases "ai_hdr input")
  case None
  then have "disconnect_client c s = Inr t" using run by (simp add: wmediumd_api_handler_def)
  from disconnect_inv [OF inv c this] le_SucI [OF length_removeAll_less_eq [of c "clients s"]] show ?thesis by simp
next
  case (Some h)
  then obtain type n where h: "ai_hdr input = Some (type, n)" by (cases h) simp
  show ?thesis
  proof (cases "n > 1024 * 1024 \<or> length (ai_data input) \<noteq> unat n")
    case True
    then have "disconnect_client c s = Inr t" using run h by (simp add: wmediumd_api_handler_def)
    from disconnect_inv [OF inv c this] le_SucI [OF length_removeAll_less_eq [of c "clients s"]] show ?thesis by simp
  next
    case False
    then obtain ms u where u: "api_message env c type (ai_data input) s = Inr (ms, u)"
      "(if ms \<noteq> [] \<and> c \<in> set (broken u) then disconnect_client c u else Inr (fold (emit c) ms u)) = Inr t"
      using run h by (auto simp: wmediumd_api_handler_def result_simps)
    note iu = message_inv [OF inv c u(1)]
    show ?thesis
    proof (cases "ms \<noteq> [] \<and> c \<in> set (broken u)")
      case True
      then have "disconnect_client c u = Inr t" using u(2) by simp
      from disconnect_inv [OF _ _ this] iu c le_trans [OF length_removeAll_less_eq [of c "clients u"]] show ?thesis by simp
    next
      case False
      then have t: "t = fold (emit c) ms u" using u(2) by auto
      have "clients_inv (fold (emit c) ms v) \<and> api_loop (fold (emit c) ms v) = api_loop v \<and>
          broken (fold (emit c) ms v) = broken v \<and> clients (fold (emit c) ms v) = clients v \<and>
          wm_io.more (fold (emit c) ms v) = wm_io.more v \<and> cl_mem (fold (emit c) ms v) = cl_mem v" if "clients_inv v" for v
        using that
      proof (induction ms arbitrary: v)
        case (Cons m ms)
        have "clients_inv (emit c m v)"
          using Cons.prems unfolding clients_inv_def watchers_def by (simp add: emit_def)
        from Cons.IH [OF this] show ?case by (simp add: emit_def)
      qed simp
      from this [OF conjunct1 [OF iu]] iu show ?thesis unfolding t by simp
    qed
  qed
qed

end

text \<open>The program without a time controller, under the wall clock: arming its timer changes nothing
  of the state, and when it expires is up to the environment.\<close>

definition timer_ops :: "'s sched_ops" where
  "timer_ops = USFSTL_SCHEDULER_ops\<lparr>external_request := Some (\<lambda>_. Inr)\<rparr>"

definition standalone_env ::
  "(real \<Rightarrow> real) \<Rightarrow> (string \<Rightarrow> config option) \<Rightarrow> (string \<Rightarrow> (real option \<times> string) option) \<Rightarrow>
   (string \<Rightarrow> string option) \<Rightarrow> (string \<Rightarrow> bool) \<Rightarrow> (u8 list \<Rightarrow> nl_msg option) \<Rightarrow> 's wm_env" where
  "standalone_env erfc config_read scanf_f per_content can_open nlmsg =
     \<lparr>wm_ops = timer_ops, wm_erfc = erfc, wm_sync_to = Inr, wm_sync_from = Inr,
      wm_config_read = config_read, wm_scanf_f = scanf_f, wm_per_content = per_content,
      wm_can_open = can_open, wm_nlmsg = nlmsg\<rparr>"

interpretation standalone: wm_environment "standalone_env erfc config_read scanf_f per_content can_open nlmsg"
  for erfc config_read scanf_f per_content can_open nlmsg
  by unfold_locales (auto simp: standalone_env_def keeps_clients_def timer_ops_def USFSTL_SCHEDULER_ops_def)

section \<open>Properties\<close>

text \<open>Claim C19: the handler of the control socket keeps the clients consistent, whatever a client
  sends, reloads of the configuration included: the lists hold allocated clients only, a
  registered API client has its socket in the event loop, and the counter of the clients that
  want start notifications counts exactly those that are not removed, also when the client
  registers, unregisters or changes its flags, sends garbage, closes its socket or does not
  read the response. At most the socket of the client itself leaves the event loop, and then
  the client waits to be freed.\<close>

theorem api_handler_keeps_clients:
  assumes "clients_inv s" and "c \<in> set (api_loop s)"
    and "wmediumd_api_handler (standalone_env erfc config_read scanf_f per_content can_open nlmsg) c input s = Inr t"
  shows "clients_inv t \<and> need_start_notify t = of_nat (card (watchers t)) \<and>
    (api_loop t = api_loop s \<or> api_loop t = removeAll c (api_loop s) \<and> c \<in> set (clients_to_free t))"
  using standalone.handler_inv [OF assms] clients_invD(9) by blast

text \<open>An API client in the event loop, not yet registered.\<close>

definition example_io :: wm_io where
  "example_io = wmediumd.extend (example_medium\<lparr>need_start_notify := 0, cl_mem := (\<lambda>p.
       if p = 0 then Some \<lparr>cl_type = CLIENT_NETLINK, cl_wait_for_ack = False, cl_flags = 0\<rparr>
       else if p = 5 then Some \<lparr>cl_type = CLIENT_API_SOCK, cl_wait_for_ack = False, cl_flags = 0\<rparr> else None)\<rparr>)
     \<lparr>outbox = [], api_loop = [5], broken = []\<rparr>"

lemma example_io_inv: "clients_inv example_io"
proof -
  have "watchers example_io = {}" by (auto simp: watchers_def example_io_def wmediumd.defs split: if_splits)
  then show ?thesis
    by (auto simp: clients_inv_def example_io_def wmediumd.defs example_medium_def split: if_splits)
qed

lemma api_handler_keeps_clients_witness:
  "\<exists>t. wmediumd_api_handler (standalone_env (\<lambda>_. 0) (\<lambda>_. None) (\<lambda>_. None) (\<lambda>_. None) (\<lambda>_. True) (\<lambda>_. None)) 5
       \<lparr>ai_hdr = Some (5, 1), ai_data = [1]\<rparr> example_io = Inr t \<and> clients_inv t \<and>
     need_start_notify t = 1 \<and> outbox t = [(5, Response 1)] \<and> card (watchers t) = 1"
proof -
  let ?env = "standalone_env (\<lambda>_. 0) (\<lambda>_. None) (\<lambda>_. None) (\<lambda>_. None) (\<lambda>_. True) (\<lambda>_. None)"
  let ?in = "\<lparr>ai_hdr = Some (5, 1), ai_data = [1]\<rparr> :: api_input"
  obtain t where t: "wmediumd_api_handler ?env 5 ?in example_io = Inr t" "need_start_notify t = 1"
    "outbox t = [(5, Response 1)]"
    "cl_mem t = (cl_mem example_io)(5 \<mapsto> \<lparr>cl_type = CLIENT_API_SOCK, cl_wait_for_ack = False, cl_flags = 1\<rparr>)"
    "clients_to_free t = []"
    by (simp add: wmediumd_api_handler_def api_message_def process_set_control_def client_at_def example_io_def
        wmediumd.defs example_medium_def set_client_def emit_def)
  have "watchers t = {5}"
    by (auto simp: watchers_def t(4,5) example_io_def wmediumd.defs split: if_splits)
  moreover have "5 \<in> set (api_loop example_io)" by (simp add: example_io_def wmediumd.defs)
  ultimately show ?thesis
    using api_handler_keeps_clients [OF example_io_inv _ t(1)] t by auto
qed

text \<open>Library: setting the signal of a link through the API, for two known stations. It takes
  effect in both directions, with the byte read as an unsigned number, so that no signal below
  0 can be set; every other link keeps its signal.\<close>

theorem set_snr_both_directions:
  assumes ab: "get_station_by_addr s (take 6 data) = Inr (Some p)" "sta_mem s p = Some a"
      "get_station_by_addr s (take 6 (drop 6 data)) = Inr (Some q)" "sta_mem s q = Some b"
    and mat: "snr_matrix s = Block mat" "length mat = num_stas s * num_stas s" "get_link_snr_fn s = Snr_from_matrix"
    and idx: "st_index a < num_stas s" "st_index b < num_stas s" "length data \<ge> 13"
  shows "\<exists>t. process_set_snr_message data s = Inr (0, t) \<and>
    get_link_snr t p q = Inr (int (unat (data ! 12))) \<and> get_link_snr t q p = Inr (int (unat (data ! 12))) \<and>
    (\<forall>u v x y. sta_mem s u = Some x \<longrightarrow> sta_mem s v = Some y \<longrightarrow> st_index x < num_stas s \<longrightarrow>
       st_index y < num_stas s \<longrightarrow> {st_index x, st_index y} \<noteq> {st_index a, st_index b} \<longrightarrow>
       get_link_snr t u v = get_link_snr s u v)"
proof -
  let ?n = "num_stas s" and ?v = "int (unat (data ! 12))"
  let ?m = "(mat[?n * st_index b + st_index a := ?v])[?n * st_index a + st_index b := ?v]"
  let ?t = "s\<lparr>snr_matrix := Block ?m\<rparr>"
  have rb: "read_bytes 6 data = Inr (take 6 data)" "read_bytes 6 (drop 6 data) = Inr (take 6 (drop 6 data))"
    "byte_at data 12 = Inr (data ! 12)"
    using idx(3) by (simp_all add: read_bytes_def byte_at_def)
  have run: "process_set_snr_message data s = Inr (0, ?t)"
    using ab mat(1,2) idx rb index_less [OF idx(1,2)] index_less [OF idx(2,1)]
    by (simp add: process_set_snr_message_def sta_def poke_def upd_result_def)
  have link: "get_link_snr ?t u v = Inr (if {st_index x, st_index y} = {st_index a, st_index b}
      then ?v else mat ! (?n * st_index x + st_index y))"
    if "sta_mem s u = Some x" "sta_mem s v = Some y" "st_index x < ?n" "st_index y < ?n" for u v x y
  proof -
    have "?m ! (?n * st_index x + st_index y) = (if {st_index x, st_index y} = {st_index a, st_index b}
        then ?v else mat ! (?n * st_index x + st_index y))"
    proof -
      have "?m ! (?n * st_index x + st_index y) =
          (if st_index x = st_index a \<and> st_index y = st_index b then ?v
           else if st_index x = st_index b \<and> st_index y = st_index a then ?v
           else mat ! (?n * st_index x + st_index y))"
        using nth_update_index [OF idx(1,2) that(3,4), of "mat[?n * st_index b + st_index a := ?v]" ?v]
          nth_update_index [OF idx(2,1) that(3,4) mat(2), of ?v] mat(2) by (simp only: length_list_update)
      then show ?thesis unfolding doubleton_eq_iff by argo
    qed
    then show ?thesis
      using that mat(2,3) index_less [OF that(3,4)]
      by (simp add: get_link_snr_def sta_def nth_result_def mult.commute [of "st_index x"])
  qed
  have old: "get_link_snr s u v = Inr (mat ! (?n * st_index x + st_index y))"
    if "sta_mem s u = Some x" "sta_mem s v = Some y" "st_index x < ?n" "st_index y < ?n" for u v x y
    using that mat index_less [OF that(3,4)] by (simp add: get_link_snr_def sta_def nth_result_def mult.commute [of "st_index x"])
  have "get_link_snr ?t p q = Inr ?v" using link [OF ab(2,4) idx(1,2)] by simp
  moreover have "get_link_snr ?t q p = Inr ?v"
    using link [OF ab(4,2) idx(2,1)] unfolding if_P [OF insert_commute [of "st_index b" "st_index a" "{}"]] .
  moreover have "get_link_snr ?t u v = get_link_snr s u v"
    if "sta_mem s u = Some x" "sta_mem s v = Some y" "st_index x < ?n" "st_index y < ?n"
      "{st_index x, st_index y} \<noteq> {st_index a, st_index b}" for u v x y
    using link [OF that(1-4)] old [OF that(1-4)] unfolding if_not_P [OF that(5)] by simp
  ultimately show ?thesis using run by blast
qed

lemma set_snr_both_directions_witness:
  "\<exists>t. process_set_snr_message [2, 0, 0, 0, 0, 0, 2, 0, 0, 0, 1, 0, 251] example_medium = Inr (0, t) \<and>
     get_link_snr t 0 1 = Inr 251 \<and> get_link_snr t 1 0 = Inr 251"
proof -
  let ?d = "[2, 0, 0, 0, 0, 0, 2, 0, 0, 0, 1, 0, 251] :: u8 list"
  have h: "get_station_by_addr example_medium (take 6 ?d) = Inr (Some 0)"
    "sta_mem example_medium 0 = Some (example_station 0 0)"
    "get_station_by_addr example_medium (take 6 (drop 6 ?d)) = Inr (Some 1)"
    "sta_mem example_medium 1 = Some (example_station 1 1)"
    "snr_matrix example_medium = Block [0, 20, 20, 0]"
    "length [0, 20, 20, 0 :: int] = num_stas example_medium * num_stas example_medium"
    "get_link_snr_fn example_medium = Snr_from_matrix"
    "st_index (example_station 0 0) < num_stas example_medium"
    "st_index (example_station 1 1) < num_stas example_medium" "13 \<le> length ?d"
    by (simp_all add: get_station_by_addr_def example_defs sta_def)
  have v: "int (unat (?d ! 12)) = 251" by simp
  show ?thesis using set_snr_both_directions [OF h] unfolding v by blast
qed

text \<open>The list of stations is that of those with a client.\<close>

lemma get_stations_lists_clients:
  "process_get_stations_message ps s = Inr infos \<Longrightarrow>
   infos = map (\<lambda>p. station_info (the (sta_mem s p))) (filter (\<lambda>p. st_client (the (sta_mem s p)) \<noteq> None) ps)"
  by (induction ps arbitrary: infos) (auto simp: result_simps sta_def)

text \<open>Reloading frees the stations with the frames queued in them but leaves their delivery jobs
  scheduled: if anything was queued, the medium is broken.\<close>

lemma clear_config_strands_frames:
  assumes "medium_inv s" and "queued s \<noteq> {}" and "clear_config s = Inr t"
  shows "queued t = {} \<and> joblist t = joblist s \<and> \<not> medium_inv t"
proof -
  have t: "stations t = []" "joblist t = joblist s"
    using assms(3) by (auto simp: clear_config_def result_simps Let_def)
  then have "queued t = {}" by (simp add: queued_def)
  moreover obtain f where "Frame_job f \<in> set (joblist s)" using assms(1,2) unfolding medium_inv_def by blast
  ultimately show ?thesis using t by (auto simp: medium_inv_def)
qed

text \<open>A control message that is too short is read behind its end.\<close>

lemma short_messages_read_behind_end:
  "api_message env c 8 [] s = Inl Out_of_bounds" "api_message env c 9 [] s = Inl Out_of_bounds"
  "api_message env c 11 [] s = Inl Out_of_bounds"
  by (simp_all add: api_message_def ack_unless_def process_set_snr_message_def read_bytes_def
      process_reload_config_message_def process_start_pcap_def)

end
