(* ===== verification/Delivery.thy ===== *)
theory Delivery
  imports Api_Server
begin

text \<open>
  The jobs of \<open>wmediumd/wmediumd.c\<close>: the start notification and the delivery of a frame, with the
  messages they send and the wait for the acknowledgement of an API client, during which the
  event loop handles whatever arrives. What arrives is a list of events in the state, consumed
  in order; a wait that finds no more events is \<open>Starved\<close>. Here too is the main loop.
\<close>

section \<open>Events\<close>

text \<open>A message (or the end) of an API client, a new API client, a message of the kernel, a
  buffer of a vhost-user device, a new device, the end of a device, the end of the timer of the
  wall clock.\<close>

datatype wm_event = Api_event nat api_input | Api_connect | Netlink_event nl_msg |
  Vu_event nat "u8 list" | Vu_connect | Vu_disconnect nat | Timer_event

record wm_main = wm_io +
  events :: "wm_event list"

definition wmediumd_vu_handle ::
  "'z wmediumd_scheme wm_env \<Rightarrow> nat \<Rightarrow> u8 list \<Rightarrow> 'z wmediumd_scheme \<Rightarrow> 'z wmediumd_scheme result" where
  "wmediumd_vu_handle env c buf s =
     (case wm_nlmsg env (take 4096 buf) of
        None \<Rightarrow> Inr s
      | Some m \<Rightarrow> process_messages (wm_ops env) (wm_erfc env) m c s)"

definition vu_device :: "nat \<Rightarrow> 'z wmediumd_scheme \<Rightarrow> bool" where
  "vu_device c s \<longleftrightarrow> c \<in> set (clients s) \<and>
     (case cl_mem s c of None \<Rightarrow> False | Some cl \<Rightarrow> cl_type cl = CLIENT_VHOST_USER)"

text \<open>An event of a socket that left the event loop is not seen any more; the timer is in the loop
  only while the scheduler waits for it.\<close>

definition handle_event :: "'z wm_io_scheme wm_env \<Rightarrow> wm_event \<Rightarrow> 'z wm_io_scheme \<Rightarrow> 'z wm_io_scheme result" where
  "handle_event env e s =
     (case e of
        Api_event c input \<Rightarrow> if c \<in> set (api_loop s) then wmediumd_api_handler env c input s else Inr s
      | Api_connect \<Rightarrow> Inr (snd (wmediumd_api_connected s))
      | Netlink_event m \<Rightarrow> process_messages (wm_ops env) (wm_erfc env) m (nl_client s) s
      | Vu_event c buf \<Rightarrow> if vu_device c s then wmediumd_vu_handle env c buf s else Inr s
      | Vu_connect \<Rightarrow> Inr (snd (wmediumd_vu_connected s))
      | Vu_disconnect c \<Rightarrow> if vu_device c s then wmediumd_vu_disconnected c s else Inr s
      | Timer_event \<Rightarrow> Inr s)"

section \<open>Sending to a client\<close>

text \<open>\<open>while (client->wait_for_ack) usfstl_loop_wait_and_handle()\<close>\<close>

fun wait_loop ::
  "'z wm_main_scheme wm_env \<Rightarrow> nat \<Rightarrow> wm_event list \<Rightarrow> 'z wm_main_scheme \<Rightarrow> 'z wm_main_scheme result" where
  "wait_loop env c evs s =
     rbind (client_at s c) (\<lambda>cl.
     if \<not> cl_wait_for_ack cl then Inr (s\<lparr>events := evs\<rparr>)
     else case evs of
            [] \<Rightarrow> Inl Starved
          | e # evs \<Rightarrow> rbind (handle_event env e s) (wait_loop env c evs))"

definition wmediumd_wait_for_client_ack ::
  "'z wm_main_scheme wm_env \<Rightarrow> nat \<Rightarrow> 'z wm_main_scheme \<Rightarrow> 'z wm_main_scheme result" where
  "wmediumd_wait_for_client_ack env c s =
     rbind (client_at s c) (\<lambda>cl.
     wait_loop env c (events s) (set_client c (cl\<lparr>cl_wait_for_ack := True\<rparr>) s))"

text \<open>The device of a vhost-user client is freed when the client is removed.\<close>

definition wmediumd_send_to_client ::
  "'z wm_main_scheme wm_env \<Rightarrow> nat \<Rightarrow> out_msg \<Rightarrow> 'z wm_main_scheme \<Rightarrow> 'z wm_main_scheme result" where
  "wmediumd_send_to_client env c m s =
     rbind (client_at s c) (\<lambda>cl.
     case cl_type cl of
       CLIENT_NETLINK \<Rightarrow> Inr (emit c m s)
     | CLIENT_VHOST_USER \<Rightarrow>
         if c \<in> set (clients_to_free s) then Inl Use_after_free else Inr (emit c m s)
     | CLIENT_API_SOCK \<Rightarrow>
         if c \<in> set (broken s) then disconnect_client c s
         else wmediumd_wait_for_client_ack env c (emit c m s))"

section \<open>The loop over the clients\<close>

text \<open>\<open>list_for_each_entry_safe\<close>: the next client is read before the current one is treated. If it
  leaves the list meanwhile, the loop follows its links out of the list.\<close>

definition next_client :: "nat \<Rightarrow> 'z wmediumd_scheme \<Rightarrow> nat option" where
  "next_client c s = (case tl (dropWhile (\<lambda>d. d \<noteq> c) (clients s)) of [] \<Rightarrow> None | d # _ \<Rightarrow> Some d)"

fun clients_from ::
  "nat \<Rightarrow> (nat \<Rightarrow> 'z wmediumd_scheme \<Rightarrow> 'z wmediumd_scheme result) \<Rightarrow> nat \<Rightarrow> 'z wmediumd_scheme \<Rightarrow>
   'z wmediumd_scheme result" where
  "clients_from 0 body c s = Inl Out_of_fuel"
| "clients_from (Suc fuel) body c s =
     (let tmp = next_client c s in
      rbind (body c s) (\<lambda>s.
      case tmp of
        None \<Rightarrow> Inr s
      | Some d \<Rightarrow> if d \<in> set (clients s) then clients_from fuel body d s else Inl Wild_pointer))"

text \<open>A client that registers again while the loop waits is visited again, so that there may be a
  pass over the list for every event.\<close>

definition for_each_client ::
  "(nat \<Rightarrow> 'z wm_main_scheme \<Rightarrow> 'z wm_main_scheme result) \<Rightarrow> 'z wm_main_scheme \<Rightarrow> 'z wm_main_scheme result"
  where
  "for_each_client body s =
     (case clients s of
        [] \<Rightarrow> Inr s
      | c # _ \<Rightarrow> clients_from ((length (events s) + 1) * (length (clients s) + length (events s) + 1)) body c s)"

section \<open>The start of a frame\<close>

definition notify_client ::
  "'z wm_main_scheme wm_env \<Rightarrow> nat \<Rightarrow> u32 \<Rightarrow> nat \<Rightarrow> 'z wm_main_scheme \<Rightarrow> 'z wm_main_scheme result" where
  "notify_client env f freq c s =
     rbind (client_at s c) (\<lambda>cl.
     if cl_flags cl AND CTL_NOTIFY_TX_START = 0 then Inr s
     else rbind (frame_at s f) (\<lambda>fr.
       let cookie = (if fr_src fr = Some c then fr_cookie fr else 0) in
       rassert (cl_type cl = CLIENT_API_SOCK)
         (if c \<in> set (broken s) then disconnect_client c s
          else wmediumd_wait_for_client_ack env c (emit c (Tx_start cookie freq) s))))"

definition wmediumd_notify_frame_start ::
  "'z wm_main_scheme wm_env \<Rightarrow> nat \<Rightarrow> 'z wm_main_scheme \<Rightarrow> 'z wm_main_scheme result" where
  "wmediumd_notify_frame_start env f s =
     rbind (frame_at s f) (\<lambda>fr.
     rbind (wm_sync_to env s) (\<lambda>s.
     for_each_client (notify_client env f (fr_freq fr)) s))"

section \<open>The delivery of a frame\<close>

definition send_tx_info_frame_nl ::
  "'z wm_main_scheme wm_env \<Rightarrow> nat \<Rightarrow> 'z wm_main_scheme \<Rightarrow> 'z wm_main_scheme result" where
  "send_tx_info_frame_nl env f s =
     rbind (frame_at s f) (\<lambda>fr.
     rbind (sta s (fr_sender fr)) (\<lambda>sender.
     if fr_tx_rates_count fr > int (length (fr_tx_rates fr)) then Inl Out_of_bounds
     else let m = Tx_info (st_hwaddr sender) (fr_flags fr) (fr_signal fr)
                    (take (nat (fr_tx_rates_count fr)) (fr_tx_rates fr)) (fr_cookie fr)
       in rbind (wm_sync_to env s) (\<lambda>s.
          rbind (rget Null_dereference (fr_src fr)) (\<lambda>c.
          wmediumd_send_to_client env c m s))))"

definition clone_to_client ::
  "'z wm_main_scheme wm_env \<Rightarrow> nat option \<Rightarrow> nat \<Rightarrow> (u64 option \<Rightarrow> out_msg) \<Rightarrow> u64 \<Rightarrow> nat \<Rightarrow>
   'z wm_main_scheme \<Rightarrow> 'z wm_main_scheme result" where
  "clone_to_client env src dst msg cookie c s =
     rbind (client_at s c) (\<lambda>cl.
     if cl_flags cl AND CTL_RX_ALL_FRAMES \<noteq> 0
     then wmediumd_send_to_client env c (msg (if src = Some c then Some cookie else None)) s
     else rbind (sta s dst) (\<lambda>st.
       if st_client st = None \<or> st_client st = Some c
       then wmediumd_send_to_client env c (msg None) s
       else Inr s))"

definition send_cloned_frame_msg ::
  "'z wm_main_scheme wm_env \<Rightarrow> nat option \<Rightarrow> nat \<Rightarrow> u8 list \<Rightarrow> int \<Rightarrow> u32 \<Rightarrow> u64 \<Rightarrow>
   'z wm_main_scheme \<Rightarrow> 'z wm_main_scheme result" where
  "send_cloned_frame_msg env src dst data signal freq cookie s =
     rbind (sta s dst) (\<lambda>st.
     rbind (wm_sync_to env s) (\<lambda>s.
     for_each_client (clone_to_client env src dst (Cloned_frame (st_hwaddr st) data freq signal) cookie) s))"

text \<open>A multicast frame at one station; the result says whether it is received, and with which
  signal. The last step draws the random number.\<close>

definition draw_multicast ::
  "(real \<Rightarrow> real) \<Rightarrow> frame \<Rightarrow> nat \<Rightarrow> int \<Rightarrow> int \<Rightarrow> 'z wmediumd_scheme \<Rightarrow>
   (int option \<times> 'z wmediumd_scheme) result" where
  "draw_multicast erfc fr p snr signal s =
     rbind (rate_at (fr_tx_rates fr) 0) (\<lambda>r.
     rbind (get_error_prob erfc s (of_int snr) (word_of_int (sint (tr_idx r))) (fr_freq fr)
              (int (length (fr_data fr))) (fr_sender fr) (Some p)) (\<lambda>error_prob.
     let (d, x) = drand48 (rng s)
     in Inr (if d \<le> error_prob then None else Some signal, s\<lparr>rng := x\<rparr>)))"

definition receive_multicast ::
  "(real \<Rightarrow> real) \<Rightarrow> frame \<Rightarrow> nat \<Rightarrow> 'z wmediumd_scheme \<Rightarrow> (int option \<times> 'z wmediumd_scheme) result" where
  "receive_multicast erfc fr p s =
     rbind (get_link_snr s (fr_sender fr) p) (\<lambda>snr.
     let (fading, s) = get_fading_signal s; snr = snr + fading; signal = snr + NOISE_LEVEL in
     if signal < CCA_THRESHOLD then Inr (None, s)
     else rbind (sta s (fr_sender fr)) (\<lambda>sender.
       rbind (sta s p) (\<lambda>st.
       rbind (set_interference_duration (st_index sender) (fr_duration fr) signal s) (\<lambda>(interferes, s).
       if interferes then Inr (None, s)
       else rbind (get_signal_offset_by_interference (st_index sender) (st_index st) s) (\<lambda>(offset, s).
         draw_multicast erfc fr p (snr - offset) signal s)))))"

text \<open>One station of the loop: \<open>send\<close> is the call of \<open>send_cloned_frame_msg\<close>. At its end the loop
  reads the link of the station.\<close>

definition deliver_at ::
  "'z wm_main_scheme wm_env \<Rightarrow> frame \<Rightarrow> nat \<Rightarrow> 'z wm_main_scheme \<Rightarrow> 'z wm_main_scheme result" where
  "deliver_at env fr p s =
     rbind (sta s p) (\<lambda>st.
     rbind (sta s (fr_sender fr)) (\<lambda>sender.
     let send = send_cloned_frame_msg env (st_client sender) p (fr_data fr) in
     rbind (if st_addr sender = st_addr st then Inr s
       else rbind (is_multicast_ether_addr (addr1 fr)) (\<lambda>multicast.
         if multicast
         then rbind (receive_multicast (wm_erfc env) fr p s) (\<lambda>(signal, s).
           case signal of
             None \<Rightarrow> Inr s
           | Some signal \<Rightarrow> send signal (fr_freq fr) (fr_cookie fr) s)
         else if station_has_addr st (addr1 fr)
         then rbind (set_interference_duration (st_index sender) (fr_duration fr) (fr_signal fr) s)
           (\<lambda>(interferes, s).
             if interferes then Inr s else send (fr_signal fr) (fr_freq fr) (fr_cookie fr) s)
         else Inr s)) (\<lambda>s.
     rbind (sta s p) (\<lambda>_. Inr s))))"

definition wmediumd_deliver_frame ::
  "'z wm_main_scheme wm_env \<Rightarrow> nat \<Rightarrow> 'z wm_main_scheme \<Rightarrow> 'z wm_main_scheme result" where
  "wmediumd_deliver_frame env f s =
     rbind (frame_at s f) (\<lambda>fr.
     rbind (unlink_frame f s) (\<lambda>s.
     rbind (if fr_flags fr AND HWSIM_TX_STAT_ACK \<noteq> 0
        then rfold (deliver_at env fr) (stations s) s
        else rbind (sta s (fr_sender fr)) (\<lambda>sender.
             rbind (set_interference_duration (st_index sender) (fr_duration fr) (fr_signal fr) s)
               (\<lambda>(_, s). Inr s))) (\<lambda>s.
     rbind (send_tx_info_frame_nl env f s) (\<lambda>s.
     Inr (free_frame f s)))))"

section \<open>The main loop\<close>

text \<open>The callback of a job; that of a context on a stack that is gone is not there.\<close>

definition run_job ::
  "'z wm_main_scheme wm_env \<Rightarrow> job_ref \<Rightarrow> 'z wm_main_scheme \<Rightarrow> 'z wm_main_scheme result" where
  "run_job env j s =
     (case j of
        Frame_job f \<Rightarrow> wmediumd_deliver_frame env f s
      | Start_job f \<Rightarrow> wmediumd_notify_frame_start env f s
      | Intf_job \<Rightarrow> wmediumd_intf_update (wm_ops env) s
      | Move_job \<Rightarrow> move_stations_to_direction (wm_ops env) Move_job s
      | Stack_move_job \<Rightarrow> Inl Use_after_free)"

text \<open>\<open>usfstl_sched_wallclock_wait\<close>: events are handled until the timer ends; then it is the
  requested time.\<close>

fun clock_wait ::
  "'z wm_main_scheme wm_env \<Rightarrow> wm_event list \<Rightarrow> 'z wm_main_scheme \<Rightarrow> 'z wm_main_scheme result" where
  "clock_wait env [] s = Inl Starved"
| "clock_wait env (e # evs) s =
     (if e = Timer_event then usfstl_sched_set_time (wm_ops env) (prev_external_sync s) (s\<lparr>events := evs\<rparr>)
      else rbind (handle_event env e s) (clock_wait env evs))"

definition wait_ops :: "'z wm_main_scheme wm_env \<Rightarrow> 'z wm_main_scheme sched_ops" where
  "wait_ops env = (wm_ops env)\<lparr>external_wait := Some (\<lambda>s. clock_wait env (events s) s)\<rparr>"

text \<open>One turn of the loop without a time controller: \<open>usfstl_sched_wallclock_wait_and_handle\<close>, the
  next job if there is one, and the removed clients. The clock gives the ticks since its start,
  and none before the first request started it.\<close>

definition main_step ::
  "('z wm_main_scheme \<Rightarrow> u64 option) \<Rightarrow> nat \<Rightarrow> 'z wm_main_scheme wm_env \<Rightarrow> 'z wm_main_scheme \<Rightarrow>
   'z wm_main_scheme result" where
  "main_step clock fuel env s =
     rbind (if usfstl_sched_next_pending s \<noteq> None then Inr s
       else case events s of
         [] \<Rightarrow> Inl Starved
       | e # evs \<Rightarrow>
           rbind (case clock s of None \<Rightarrow> Inr s | Some t \<Rightarrow> usfstl_sched_set_time (wm_ops env) t s) (\<lambda>s.
           handle_event env e (s\<lparr>events := evs\<rparr>))) (\<lambda>s.
     rbind (if usfstl_sched_next_pending s \<noteq> None
       then rbind (usfstl_sched_next fuel (wait_ops env) (run_job env) s) (\<lambda>(_, s). Inr s)
       else Inr s) (\<lambda>s.
     Inr (free_removed_clients s)))"

section \<open>The clients while the loop waits\<close>

text \<open>A new client.\<close>

lemma new_client_inv:
  assumes inv: "clients_inv s" and cl: "cl_flags cl = 0"
    and c: "c = next_ptr s" and t: "next_ptr t = c + 1" "cl_mem t = (cl_mem s)(c \<mapsto> cl)"
      "clients_to_free t = clients_to_free s" "need_start_notify t = need_start_notify s"
      "(cl_type cl = CLIENT_API_SOCK \<and> clients t = clients s \<and> api_loop t = c # api_loop s) \<or>
       (cl_type cl \<noteq> CLIENT_API_SOCK \<and> clients t = c # clients s \<and> api_loop t = api_loop s)"
  shows "clients_inv t"
proof -
  have fresh: "c \<notin> set (clients s)" "c \<notin> set (api_loop s)" "c \<notin> set (clients_to_free s)" "cl_mem s c = None"
    using clients_invD(3,4,5,7) [OF inv, of c] c by auto
  have w: "watchers t = watchers s"
    using fresh(4) cl by (auto simp: watchers_def t)
  have "\<exists>x. cl_mem t d = Some x \<and> d \<notin> set (clients_to_free t) \<and>
      (cl_type x = CLIENT_API_SOCK \<longrightarrow> d \<in> set (api_loop t))" if "d \<in> set (clients t)" for d
    using clients_invD(3) [OF inv, of d] that fresh t(5) by (cases "d = c") (auto simp: t(2,3))
  moreover have "\<exists>x. cl_mem t d = Some x \<and> cl_type x = CLIENT_API_SOCK \<and> d \<notin> set (clients_to_free t)"
    if "d \<in> set (api_loop t)" for d
    using clients_invD(4) [OF inv, of d] that fresh t(5) by (cases "d = c") (auto simp: t(2,3))
  moreover have "\<forall>d \<in> set (clients_to_free t). cl_mem t d \<noteq> None"
    using clients_invD(5) [OF inv] by (auto simp: t(2,3))
  moreover have "\<forall>d x. cl_mem t d = Some x \<longrightarrow> cl_flags x \<noteq> 0 \<longrightarrow> cl_type x = CLIENT_API_SOCK"
    using clients_invD(6) [OF inv] cl by (auto simp: t(2))
  moreover have "\<forall>d. next_ptr t \<le> d \<longrightarrow> cl_mem t d = None"
    using clients_invD(7) [OF inv] c by (auto simp: t(1,2))
  moreover have "distinct (clients t)" "distinct (api_loop t)"
    using clients_invD(1,2) [OF inv] fresh t(5) by auto
  moreover have "finite (watchers t)" "need_start_notify t = of_nat (card (watchers t))"
    using clients_invD(8,9) [OF inv] by (simp_all add: w t(4))
  ultimately show ?thesis unfolding clients_inv_def by blast
qed

context wm_environment
begin

text \<open>Every event keeps the clients consistent and adds at most one client to the list.\<close>

lemma event_inv:
  assumes inv: "clients_inv s" and run: "handle_event env e s = Inr t"
  shows "clients_inv t \<and> broken t = broken s \<and> length (clients t) \<le> Suc (length (clients s)) \<and>
    wm_io.more t = wm_io.more s \<and>
    (\<forall>c cl. c \<notin> set (api_loop s) \<longrightarrow> cl_mem s c = Some cl \<longrightarrow> cl_type cl = CLIENT_API_SOCK \<longrightarrow>
       cl_mem t c = Some cl \<and> c \<notin> set (api_loop t))"
proof (cases e)
  case (Api_event c input)
  show ?thesis
  proof (cases "c \<in> set (api_loop s)")
    case True
    have "wmediumd_api_handler env c input s = Inr t" using run Api_event True by (simp add: handle_event_def)
    note h = handler_inv [OF inv True this]
    have "cl_mem t d = Some x \<and> d \<notin> set (api_loop t)"
      if "d \<notin> set (api_loop s)" "cl_mem s d = Some x" for d x
    proof -
      have "d \<noteq> c" using that(1) True by auto
      moreover have "set (api_loop t) \<subseteq> set (api_loop s)" using h by auto
      ultimately show ?thesis using h that by auto
    qed
    then show ?thesis using h by simp
  qed (use run Api_event inv in \<open>simp add: handle_event_def\<close>)
next
  case Api_connect
  then have t: "t = (set_client (next_ptr s) \<lparr>cl_type = CLIENT_API_SOCK, cl_wait_for_ack = False, cl_flags = 0\<rparr>
      (s\<lparr>next_ptr := next_ptr s + 1\<rparr>))\<lparr>api_loop := next_ptr s # api_loop s\<rparr>"
    using run by (simp add: handle_event_def wmediumd_api_connected_def Let_def set_client_def)
  have "clients_inv t"
    by (rule new_client_inv [OF inv _ refl, where cl = "\<lparr>cl_type = CLIENT_API_SOCK, cl_wait_for_ack = False, cl_flags = 0\<rparr>"])
      (simp_all add: t set_client_def)
  then show ?thesis using clients_invD(7) [OF inv, of "next_ptr s"] by (auto simp: t set_client_def)
next
  case (Netlink_event m)
  then have "process_messages (wm_ops env) (wm_erfc env) m (nl_client s) s = Inr t" using run by (simp add: handle_event_def)
  from netlink_inv [OF inv this] show ?thesis by simp
next
  case (Vu_event c buf)
  then consider "t = s" | m where "process_messages (wm_ops env) (wm_erfc env) m c s = Inr t"
    using run by (cases "vu_device c s"; cases "wm_nlmsg env (take 4096 buf)")
      (simp_all add: handle_event_def wmediumd_vu_handle_def)
  then show ?thesis
  proof cases
    case 2
    from netlink_inv [OF inv this] show ?thesis by simp
  qed (use inv in simp)
next
  case Vu_connect
  then have t: "t = (set_client (next_ptr s) \<lparr>cl_type = CLIENT_VHOST_USER, cl_wait_for_ack = False, cl_flags = 0\<rparr>
      (s\<lparr>next_ptr := next_ptr s + 1\<rparr>))\<lparr>clients := next_ptr s # clients s\<rparr>"
    using run by (simp add: handle_event_def wmediumd_vu_connected_def Let_def set_client_def)
  have "clients_inv t"
    by (rule new_client_inv [OF inv _ refl, where cl = "\<lparr>cl_type = CLIENT_VHOST_USER, cl_wait_for_ack = False, cl_flags = 0\<rparr>"])
      (simp_all add: t set_client_def)
  then show ?thesis using clients_invD(7) [OF inv, of "next_ptr s"] by (auto simp: t set_client_def)
next
  case (Vu_disconnect c)
  show ?thesis
  proof (cases "vu_device c s")
    case True
    then have r: "wmediumd_remove_client c s = Inr t"
      using run Vu_disconnect by (simp add: handle_event_def wmediumd_vu_disconnected_def)
    obtain cl where cl: "cl_mem s c = Some cl" "cl_type cl = CLIENT_VHOST_USER" "c \<in> set (clients s)"
      using True by (auto simp: vu_device_def split: option.splits)
    have nc: "c \<notin> set (api_loop s)" "c \<notin> set (clients_to_free s)"
      using clients_invD(3,4) [OF inv, of c] cl by auto
    have t: "cl_mem t = (cl_mem s)(c \<mapsto> cl\<lparr>cl_wait_for_ack := False\<rparr>)"
        "clients t = removeAll c (clients s)" "clients_to_free t = c # removeAll c (clients_to_free s)"
        "need_start_notify t = (if cl_flags cl AND CTL_NOTIFY_TX_START \<noteq> 0 then need_start_notify s - 1
          else need_start_notify s)"
        "next_ptr t = next_ptr s" "wmediumd.more t = wmediumd.more s"
      using remove_client_clients [OF r] cl(1) by auto
    from same_io [OF t(6)] nc(1) have io: "api_loop t = removeAll c (api_loop s)" "broken t = broken s" by simp_all
    have "clients_inv t" by (rule clients_inv_remove [OF inv cl(1) nc(2) t(1-5) io(1)])
    moreover have "cl_mem t d = Some x \<and> d \<notin> set (api_loop t)"
      if "d \<notin> set (api_loop s)" "cl_mem s d = Some x" "cl_type x = CLIENT_API_SOCK" for d x
      using that cl by (auto simp: t(1) io(1))
    ultimately show ?thesis using t(2) io(2) same_io_more [OF t(6)] le_SucI [OF length_removeAll_less_eq [of c "clients s"]]
      by simp
  qed (use run Vu_disconnect inv in \<open>simp add: handle_event_def\<close>)
next
  case Timer_event
  then show ?thesis using run inv by (simp add: handle_event_def)
qed

end

section \<open>Waiting for an acknowledgement\<close>

definition waits :: "nat \<Rightarrow> 'z wmediumd_scheme \<Rightarrow> bool" where
  "waits c s \<longleftrightarrow> (\<exists>cl. cl_mem s c = Some cl \<and> cl_wait_for_ack cl)"

definition handle_events ::
  "'z wm_io_scheme wm_env \<Rightarrow> wm_event list \<Rightarrow> 'z wm_io_scheme \<Rightarrow> 'z wm_io_scheme result" where
  "handle_events env = rfold (handle_event env)"

lemma wait_loop_step:
  "wait_loop env c evs s =
     (case cl_mem s c of
        None \<Rightarrow> Inl Use_after_free
      | Some cl \<Rightarrow>
          if \<not> cl_wait_for_ack cl then Inr (s\<lparr>events := evs\<rparr>)
          else case evs of
                 [] \<Rightarrow> Inl Starved
               | e # evs \<Rightarrow> rbind (handle_event env e s) (wait_loop env c evs))"
  by (subst wait_loop.simps) (simp add: client_at_def split: option.split)

declare wait_loop.simps [simp del]

lemma wait_loop_Inr:
  "wait_loop env c evs s = Inr t \<longleftrightarrow>
     (cl_mem s c \<noteq> None \<and> \<not> waits c s \<and> t = s\<lparr>events := evs\<rparr>) \<or>
     (waits c s \<and> (\<exists>e es u. evs = e # es \<and> handle_event env e s = Inr u \<and> wait_loop env c es u = Inr t))"
  by (subst wait_loop_step) (auto simp: waits_def result_simps split: option.split list.split)

text \<open>The wait handles the shortest prefix of the events after which it need not wait.\<close>

lemma wait_loop_prefix:
  "wait_loop env c evs s = Inr t \<longleftrightarrow>
     (\<exists>es rest u. evs = es @ rest \<and> handle_events env es s = Inr u \<and> cl_mem u c \<noteq> None \<and> \<not> waits c u \<and>
        t = u\<lparr>events := rest\<rparr> \<and>
        (\<forall>k < length es. \<exists>v. handle_events env (take k es) s = Inr v \<and> waits c v))"
  (is "?L evs s \<longleftrightarrow> ?R evs s")
proof (induction evs arbitrary: s)
  case Nil
  then show ?case by (simp add: wait_loop_Inr [of _ _ "[]"] handle_events_def)
next
  case (Cons e evs)
  show ?case
  proof
    assume l: "?L (e # evs) s"
    show "?R (e # evs) s"
    proof (cases "waits c s")
      case False
      then have "cl_mem s c \<noteq> None" "t = s\<lparr>events := e # evs\<rparr>" using l by (auto simp: wait_loop_Inr [of _ _ "e # evs"])
      then show ?thesis using False by (intro exI [of _ "[]"] exI [of _ "e # evs"] exI [of _ s]) (simp add: handle_events_def)
    next
      case True
      then obtain u where u: "handle_event env e s = Inr u" "?L evs u" using l by (auto simp: wait_loop_Inr [of _ _ "e # evs"])
      then obtain es rest v where r: "evs = es @ rest" "handle_events env es u = Inr v" "cl_mem v c \<noteq> None"
        "\<not> waits c v" "t = v\<lparr>events := rest\<rparr>"
        "\<forall>k < length es. \<exists>v. handle_events env (take k es) u = Inr v \<and> waits c v"
        using Cons.IH by blast
      have "\<exists>v. handle_events env (take k (e # es)) s = Inr v \<and> waits c v" if "k < length (e # es)" for k
        using that True u(1) r(6) by (cases k) (auto simp: handle_events_def)
      moreover have "handle_events env (e # es) s = Inr v" using u(1) r(2) by (simp add: handle_events_def)
      ultimately show ?thesis using r(1,3-5) by (intro exI [of _ "e # es"] exI [of _ rest] exI [of _ v]) simp
    qed
  next
    assume "?R (e # evs) s"
    then obtain es rest v where r: "e # evs = es @ rest" "handle_events env es s = Inr v" "cl_mem v c \<noteq> None"
      "\<not> waits c v" "t = v\<lparr>events := rest\<rparr>"
      "\<forall>k < length es. \<exists>v. handle_events env (take k es) s = Inr v \<and> waits c v"
      by blast
    show "?L (e # evs) s"
    proof (cases es)
      case Nil
      then have "rest = e # evs" "s = v" using r(1,2) by (simp_all add: handle_events_def)
      then show ?thesis using r(3-5) by (simp add: wait_loop_Inr [of _ _ "e # evs"])
    next
      case (Cons d es')
      then have d: "d = e" "evs = es' @ rest" using r(1) by auto
      obtain u where u: "handle_event env e s = Inr u" "handle_events env es' u = Inr v"
        using r(2) Cons d(1) by (auto simp: handle_events_def result_simps)
      have "waits c s" using r(6) Cons by (auto simp: handle_events_def)
      moreover have "\<exists>v. handle_events env (take k es') u = Inr v \<and> waits c v" if "k < length es'" for k
        using r(6) [rule_format, of "Suc k"] that Cons d(1) u(1) by (simp add: handle_events_def)
      then have "?L evs u" using Cons.IH d(2) u(2) r(3-5) by blast
      ultimately show ?thesis using u(1) by (auto simp: wait_loop_Inr [of _ _ "e # evs"])
    qed
  qed
qed

lemma clients_inv_events [simp]: "clients_inv (s\<lparr>events := x\<rparr>) = clients_inv s"
  by (simp add: clients_inv_def watchers_def)

locale wm_loop = wm_environment env for env :: "'z wm_main_scheme wm_env" +
  assumes advanced: "time_advanced (wm_ops env) = Some f \<Longrightarrow> f d s = Inr t \<Longrightarrow> same_clients s t"
begin

text \<open>A wait keeps the clients consistent and consumes some of the events; every event adds at
  most one client.\<close>

lemma wait_inv:
  assumes "wait_loop env c evs s = Inr t" and "clients_inv s"
  shows "clients_inv t \<and> broken t = broken s \<and> (\<exists>k \<le> length evs. events t = drop k evs \<and>
    length (clients t) \<le> length (clients s) + k \<and> (waits c s \<longrightarrow> 0 < k))"
  using assms
proof (induction evs arbitrary: s)
  case Nil
  then show ?case by (auto simp: wait_loop_Inr [of _ _ "[]"])
next
  case (Cons e evs)
  show ?case
  proof (cases "waits c s")
    case False
    then have "t = s\<lparr>events := e # evs\<rparr>" using Cons.prems(1) by (simp add: wait_loop_Inr [of _ _ "e # evs"])
    then show ?thesis using Cons.prems(2) False by (intro conjI exI [of _ 0]) simp_all
  next
    case True
    then obtain u where u: "handle_event env e s = Inr u" "wait_loop env c evs u = Inr t"
      using Cons.prems(1) by (auto simp: wait_loop_Inr [of _ _ "e # evs"])
    note iu = event_inv [OF Cons.prems(2) u(1)]
    from Cons.IH [OF u(2) conjunct1 [OF iu]] obtain k where
      "clients_inv t" "broken t = broken u" "k \<le> length evs" "events t = drop k evs"
      "length (clients t) \<le> length (clients u) + k"
      by blast
    then show ?thesis using iu by (intro conjI exI [of _ "Suc k"]) simp_all
  qed
qed

text \<open>Waiting for a client whose socket left the event loop never ends.\<close>

lemma wait_removed:
  assumes "clients_inv s" and "c \<notin> set (api_loop s)" and "cl_mem s c = Some cl"
    and "cl_type cl = CLIENT_API_SOCK" and "cl_wait_for_ack cl"
  shows "wait_loop env c evs s \<noteq> Inr t"
  using assms
proof (induction evs arbitrary: s)
  case Nil
  then show ?case by (simp add: wait_loop_Inr [of _ _ "[]"] waits_def)
next
  case (Cons e evs)
  have w: "waits c s" using Cons.prems(3,5) by (simp add: waits_def)
  have "wait_loop env c evs u \<noteq> Inr t" if "handle_event env e s = Inr u" for u
  proof -
    have "clients_inv u" "cl_mem u c = Some cl" "c \<notin> set (api_loop u)"
      using event_inv [OF Cons.prems(1) that] Cons.prems(2-4) by blast+
    then show ?thesis using Cons.IH Cons.prems(4,5) by blast
  qed
  then show ?case using w by (auto simp: wait_loop_Inr [of _ _ "e # evs"])
qed

lemma wait_for_ack_inv:
  assumes run: "wmediumd_wait_for_client_ack env c s = Inr t" and inv: "clients_inv s"
    and api: "cl_mem s c = Some cl" "cl_type cl = CLIENT_API_SOCK"
  shows "c \<in> set (api_loop s) \<and> clients_inv t \<and> broken t = broken s \<and>
    (\<exists>k \<le> length (events s). events t = drop k (events s) \<and> length (clients t) \<le> length (clients s) + k \<and> 0 < k)"
proof -
  let ?cl = "cl\<lparr>cl_wait_for_ack := True\<rparr>"
  let ?s = "set_client c ?cl s"
  have r: "wait_loop env c (events s) ?s = Inr t"
    using run api by (simp add: wmediumd_wait_for_client_ack_def client_at_def)
  have s: "?s = set_client c ?cl (s\<lparr>need_start_notify := need_start_notify s\<rparr>)" by simp
  have loop: "c \<in> set (api_loop s)"
  proof (rule ccontr)
    assume c: "c \<notin> set (api_loop s)"
    have inv': "clients_inv ?s"
    proof -
      have w: "watchers ?s = watchers s" using api by (auto simp: watchers_def set_client_def)
      have "c < next_ptr s" using clients_invD(7) [OF inv, of c] api(1) by (cases "c < next_ptr s") auto
      then show ?thesis
        using inv api unfolding clients_inv_def w by (auto simp: set_client_def)
    qed
    have "wait_loop env c (events s) ?s \<noteq> Inr t"
      by (rule wait_removed [OF inv', where cl = ?cl]) (use c api in \<open>simp_all add: set_client_def\<close>)
    then show False using r by simp
  qed
  have inv': "clients_inv ?s" unfolding s
    by (rule clients_inv_flags [OF inv loop api(1)]) simp_all
  have "waits c ?s" by (simp add: waits_def set_client_def)
  then show ?thesis using wait_inv [OF r inv'] loop by (auto simp: set_client_def)
qed

end

section \<open>The loop over the clients ends\<close>

text \<open>What the treatment of one client does to the clients and the events.\<close>

definition body_step :: "nat \<Rightarrow> 'z wm_main_scheme \<Rightarrow> 'z wm_main_scheme \<Rightarrow> bool" where
  "body_step c s t \<longleftrightarrow> clients_inv t \<and> broken t = broken s \<and>
     (\<exists>k \<le> length (events s). events t = drop k (events s) \<and> length (clients t) \<le> length (clients s) + k \<and>
        (k = 0 \<longrightarrow> clients t = clients s \<or> clients t = removeAll c (clients s)))"

definition good_body :: "(nat \<Rightarrow> 'z wm_main_scheme \<Rightarrow> 'z wm_main_scheme result) \<Rightarrow> bool" where
  "good_body body \<longleftrightarrow> (\<forall>c s t. clients_inv s \<longrightarrow> body c s = Inr t \<longrightarrow> body_step c s t)"

lemma good_bodyD:
  "good_body body \<Longrightarrow> clients_inv s \<Longrightarrow> body c s = Inr t \<Longrightarrow> body_step c s t"
  by (simp add: good_body_def)

lemma body_step_events:
  assumes "body_step c s t"
  shows "clients_inv t" and "length (clients t) + length (events t) \<le> length (clients s) + length (events s)"
    and "broken t = broken s" and "\<exists>k \<le> length (events s). events t = drop k (events s)"
proof -
  obtain k where k: "clients_inv t" "broken t = broken s" "k \<le> length (events s)" "events t = drop k (events s)"
    "length (clients t) \<le> length (clients s) + k"
    using assms by (auto simp: body_step_def)
  show "clients_inv t" "broken t = broken s" "\<exists>k \<le> length (events s). events t = drop k (events s)"
    using k by auto
  show "length (clients t) + length (events t) \<le> length (clients s) + length (events s)"
    using k by simp
qed









text \<open>The loop keeps the clients consistent.\<close>

lemma clients_from_inv:
  assumes body: "good_body body" and run: "clients_from fuel body c s = Inr t"
    and inv: "clients_inv s"
  shows "clients_inv t \<and> broken t = broken s"
  using run inv
proof (induction fuel arbitrary: c s)
  case (Suc fuel)
  obtain u where u: "body c s = Inr u"
    "(case next_client c s of None \<Rightarrow> Inr u
      | Some d \<Rightarrow> if d \<in> set (clients u) then clients_from fuel body d u else Inl Wild_pointer) = Inr t"
    using Suc.prems(1) by (auto simp: result_simps Let_def)
  note e = body_step_events [OF good_bodyD [where body = body, OF body Suc.prems(2) u(1)]]
  show ?case
  proof (cases "next_client c s")
    case None
    then show ?thesis using u(2) e by simp
  next
    case (Some d)
    then have "clients_from fuel body d u = Inr t" using u(2) by (simp split: if_splits)
    from Suc.IH [OF this e(1)] show ?thesis using e(3) by simp
  qed
qed simp

lemma for_each_client_inv:
  assumes "good_body body" and "for_each_client body s = Inr t"
    and "clients_inv s"
  shows "clients_inv t \<and> broken t = broken s"
proof (cases "clients s")
  case Nil
  then show ?thesis using assms by (simp add: for_each_client_def)
next
  case (Cons c cs)
  show ?thesis
    by (rule clients_from_inv [OF assms(1) _ assms(3)])
      (use assms(2) Cons in \<open>simp add: for_each_client_def del: clients_from.simps\<close>)
qed

section \<open>Every operation keeps the clients consistent\<close>

lemma main_inv_same: "clients_inv s \<Longrightarrow> same_clients s t \<Longrightarrow> clients_inv t"
  using clients_inv_same(1) [of s "next_ptr s" t] by (simp add: same_clients_def)

lemma main_inv_step: "clients_inv s \<Longrightarrow> body_step c s t \<Longrightarrow> clients_inv t"
  by (rule body_step_events(1))

lemma clients_inv_emit [simp]: "clients_inv (emit c m s) = clients_inv s"
  by (simp add: clients_inv_def watchers_def emit_def)

lemma emit_simps [simp]:
  "clients (emit c m s) = clients s" "cl_mem (emit c m s) = cl_mem s" "broken (emit c m s) = broken s"
  "api_loop (emit c m s) = api_loop s" "clients_to_free (emit c m s) = clients_to_free s"
  "events (emit c m (u :: 'z wm_main_scheme)) = events u"
  by (simp_all add: emit_def)

lemma body_step_stay:
  "clients_inv t \<Longrightarrow> broken t = broken s \<Longrightarrow> events t = events s \<Longrightarrow>
   clients t = clients s \<or> clients t = removeAll c (clients s) \<Longrightarrow> body_step c s t"
  using length_removeAll_less_eq [of c "clients s"]
  unfolding body_step_def by (intro conjI exI [of _ 0]) auto

lemma disconnect_step:
  assumes "clients_inv s" and "disconnect_client c s = Inr t"
  shows "body_step c s t"
proof -
  have c: "c \<in> set (api_loop s)" using assms(2) by (simp add: disconnect_client_def split: if_splits)
  note d = disconnect_inv [OF assms(1) c assms(2)]
  have "events t = events s" using d(6) by (cases s, cases t) simp
  then show ?thesis using d by (intro body_step_stay) simp_all
qed

lemma interference_same: "set_interference_duration i d sig s = Inr (b, t) \<Longrightarrow> same_clients s t"
  by (auto simp: set_interference_duration_def result_simps same_clients_def split: option.splits if_splits)

lemma multicast_same:
  fixes s t :: "'a wmediumd_scheme"
  assumes "receive_multicast e fr p s = Inr (r, t)"
  shows "same_clients s t"
proof -
  have rng: "same_clients u (u\<lparr>rng := x\<rparr>)" for u :: "'a wmediumd_scheme" and x by (simp add: same_clients_def)
  have fade: "same_clients u (snd (get_fading_signal u))" for u :: "'a wmediumd_scheme"
    by (simp add: get_fading_signal_def same_clients_def case_prod_beta Let_def split: fading_fn.split)
  have off: "same_clients u v" if "get_signal_offset_by_interference i j u = Inr (x, v)" for i j x and u v :: "'a wmediumd_scheme"
    using that by (auto simp: get_signal_offset_by_interference_def result_simps same_clients_def Let_def split: option.splits)
  have draw: "same_clients u v" if "draw_multicast e fr p i k u = Inr (x, v)" for i k x and u v :: "'a wmediumd_scheme"
    using that rng by (auto simp: draw_multicast_def result_simps case_prod_beta)
  obtain fading s1 where g: "get_fading_signal s = (fading, s1)" by (cases "get_fading_signal s")
  have g1: "same_clients s s1" using fade [of s] g by simp
  obtain snr where snr: "get_link_snr s (fr_sender fr) p = Inr snr"
    using assms unfolding receive_multicast_def rbind_eq_Inr by blast
  have k: "(if snr + fading + NOISE_LEVEL < CCA_THRESHOLD then Inr (None, s1)
     else rbind (sta s1 (fr_sender fr)) (\<lambda>sender.
       rbind (sta s1 p) (\<lambda>st.
       rbind (set_interference_duration (st_index sender) (fr_duration fr) (snr + fading + NOISE_LEVEL) s1) (\<lambda>(interferes, s).
       if interferes then Inr (None, s)
       else rbind (get_signal_offset_by_interference (st_index sender) (st_index st) s) (\<lambda>(offset, s).
         draw_multicast e fr p (snr + fading - offset) (snr + fading + NOISE_LEVEL) s))))) = Inr (r, t)"
    using assms unfolding receive_multicast_def snr g Let_def by (simp only: rbind.simps prod.case)
  show ?thesis
  proof (cases "snr + fading + NOISE_LEVEL < CCA_THRESHOLD")
    case True
    then show ?thesis using k g1 by simp
  next
    case False
    show ?thesis
      using k unfolding if_not_P [OF False]
      using same_clients_trans [OF g1 interference_same] same_clients_trans [OF same_clients_trans [OF g1 interference_same] off]
        same_clients_trans [OF same_clients_trans [OF same_clients_trans [OF g1 interference_same] off] draw]
      by (auto simp: result_simps split: if_splits)
  qed
qed

context wm_loop
begin

lemma wait_step:
  assumes run: "wmediumd_wait_for_client_ack env c s = Inr t" and inv: "clients_inv s"
    and api: "cl_mem s c = Some cl" "cl_type cl = CLIENT_API_SOCK"
  shows "body_step d s t"
  using wait_for_ack_inv [OF run inv api] unfolding body_step_def by auto

lemma send_step:
  assumes run: "wmediumd_send_to_client env c m s = Inr t" and inv: "clients_inv s"
  shows "body_step c s t"
proof -
  obtain cl where cl: "cl_mem s c = Some cl"
    using run by (auto simp: wmediumd_send_to_client_def client_at_def result_simps)
  have stay: "body_step c s (emit c m s)" using inv by (intro body_step_stay) simp_all
  show ?thesis
  proof (cases "cl_type cl = CLIENT_API_SOCK")
    case False
    then have "t = emit c m s"
      using run cl by (cases "cl_type cl") (auto simp: wmediumd_send_to_client_def client_at_def split: if_splits)
    then show ?thesis using stay by simp
  next
    case api: True
    show ?thesis
    proof (cases "c \<in> set (broken s)")
      case True
      then have "disconnect_client c s = Inr t" using run cl api by (simp add: wmediumd_send_to_client_def client_at_def)
      then show ?thesis by (rule disconnect_step [OF inv])
    next
      case False
      then have "wmediumd_wait_for_client_ack env c (emit c m s) = Inr t"
        using run cl api by (simp add: wmediumd_send_to_client_def client_at_def)
      from wait_step [OF this, where d = c] show ?thesis
        using inv cl api by (simp add: body_step_def)
    qed
  qed
qed

lemma clone_body: "good_body (clone_to_client env src dst msg cookie)"
  unfolding good_body_def
proof (intro allI impI)
  fix c s t
  assume inv: "clients_inv s"
    and run: "clone_to_client env src dst msg cookie c s = Inr t"
  then consider m where "wmediumd_send_to_client env c m s = Inr t" | "t = s"
    by (auto simp: clone_to_client_def result_simps split: if_splits)
  then show "body_step c s t"
  proof cases
    case 1
    then show ?thesis using send_step inv by blast
  next
    case 2
    then show ?thesis using inv by (intro body_step_stay) simp_all
  qed
qed

lemma notify_body: "good_body (notify_client env f freq)"
  unfolding good_body_def
proof (intro allI impI)
  fix c s t
  assume inv: "clients_inv s"
    and run: "notify_client env f freq c s = Inr t"
  obtain cl where cl: "cl_mem s c = Some cl" using run by (auto simp: notify_client_def client_at_def result_simps)
  show "body_step c s t"
  proof (cases "cl_flags cl AND CTL_NOTIFY_TX_START = 0")
    case True
    then show ?thesis using run cl inv by (intro body_step_stay) (simp_all add: notify_client_def client_at_def)
  next
    case False
    then obtain m where m: "cl_type cl = CLIENT_API_SOCK"
      "(if c \<in> set (broken s) then disconnect_client c s
        else wmediumd_wait_for_client_ack env c (emit c m s)) = Inr t"
      using run cl by (auto simp: notify_client_def client_at_def result_simps Let_def)
    show ?thesis
    proof (cases "c \<in> set (broken s)")
      case True
      then show ?thesis using m(2) disconnect_step inv by simp
    next
      case False
      then have "wmediumd_wait_for_client_ack env c (emit c m s) = Inr t" using m(2) by simp
      from wait_step [OF this, where d = c] show ?thesis using inv cl m(1) by (simp add: body_step_def)
    qed
  qed
qed

lemma send_loop_inv: "wmediumd_send_to_client env c m s = Inr t \<Longrightarrow> clients_inv s \<Longrightarrow> clients_inv t"
  using send_step [of c m s t] main_inv_step [of s c t] by simp

lemma each_loop_inv: "good_body body \<Longrightarrow> for_each_client body s = Inr t \<Longrightarrow> clients_inv s \<Longrightarrow> clients_inv t"
  using for_each_client_inv [of body s t] by simp

lemma notify_start_inv:
  assumes "wmediumd_notify_frame_start env f s = Inr t" and "clients_inv s"
  shows "clients_inv t"
  using assms each_loop_inv [OF notify_body] main_inv_same [OF assms(2) sync_to]
  by (auto simp: wmediumd_notify_frame_start_def result_simps)

lemma cloned_inv:
  assumes "send_cloned_frame_msg env src dst data signal freq cookie s = Inr t" and "clients_inv s"
  shows "clients_inv t"
  using assms each_loop_inv [OF clone_body] main_inv_same [OF assms(2) sync_to]
  by (auto simp: send_cloned_frame_msg_def result_simps)

lemma tx_info_inv:
  assumes "send_tx_info_frame_nl env f s = Inr t" and "clients_inv s"
  shows "clients_inv t"
  using assms send_loop_inv main_inv_same [OF assms(2) sync_to]
  by (auto simp: send_tx_info_frame_nl_def result_simps Let_def split: if_splits)

lemma deliver_at_inv:
  assumes run: "deliver_at env fr p s = Inr t" and inv: "clients_inv s"
  shows "clients_inv t"
proof -
  obtain st sender where "sta s p = Inr st" "sta s (fr_sender fr) = Inr sender"
    and step: "(if st_addr sender = st_addr st then Inr s
       else rbind (is_multicast_ether_addr (addr1 fr)) (\<lambda>multicast.
         if multicast
         then rbind (receive_multicast (wm_erfc env) fr p s) (\<lambda>(signal, s).
           case signal of
             None \<Rightarrow> Inr s
           | Some signal \<Rightarrow> send_cloned_frame_msg env (st_client sender) p (fr_data fr) signal (fr_freq fr) (fr_cookie fr) s)
         else if station_has_addr st (addr1 fr)
         then rbind (set_interference_duration (st_index sender) (fr_duration fr) (fr_signal fr) s)
           (\<lambda>(interferes, s).
             if interferes then Inr s
             else send_cloned_frame_msg env (st_client sender) p (fr_data fr) (fr_signal fr) (fr_freq fr) (fr_cookie fr) s)
         else Inr s)) = Inr t"
    using run unfolding deliver_at_def Let_def by (auto simp: rbind_eq_Inr)
  show ?thesis
  proof (cases "st_addr sender = st_addr st")
    case False
    then obtain multicast where multicast: "is_multicast_ether_addr (addr1 fr) = Inr multicast"
      using step by (auto simp: rbind_eq_Inr)
    note step = step [unfolded if_not_P [OF False] multicast rbind.simps]
    show ?thesis
    proof (cases multicast)
      case True
      then obtain signal u where u: "receive_multicast (wm_erfc env) fr p s = Inr (signal, u)"
        and rest: "(case signal of None \<Rightarrow> Inr u
          | Some x \<Rightarrow> send_cloned_frame_msg env (st_client sender) p (fr_data fr) x (fr_freq fr) (fr_cookie fr) u) = Inr t"
        using step by (auto simp: rbind_eq_Inr)
      have "clients_inv u" by (rule main_inv_same [OF inv multicast_same [OF u]])
      then show ?thesis using rest cloned_inv by (cases signal) auto
    next
      case uni: False
      show ?thesis
      proof (cases "station_has_addr st (addr1 fr)")
        case True
        then obtain b u where u: "set_interference_duration (st_index sender) (fr_duration fr) (fr_signal fr) s = Inr (b, u)"
          and rest: "(if b then Inr u
            else send_cloned_frame_msg env (st_client sender) p (fr_data fr) (fr_signal fr) (fr_freq fr) (fr_cookie fr) u) = Inr t"
          using step uni by (auto simp: rbind_eq_Inr)
        have "clients_inv u" by (rule main_inv_same [OF inv interference_same [OF u]])
        then show ?thesis using rest cloned_inv by (cases b) auto
      qed (use step uni inv in simp)
    qed
  qed (use step inv in simp)
qed

lemma deliver_inv:
  assumes run: "wmediumd_deliver_frame env f s = Inr t" and inv: "clients_inv s"
  shows "clients_inv t"
proof -
  obtain fr s1 s2 s3 where st: "unlink_frame f s = Inr s1"
    "(if fr_flags fr AND HWSIM_TX_STAT_ACK \<noteq> 0
        then rfold (deliver_at env fr) (stations s1) s1
        else rbind (sta s1 (fr_sender fr)) (\<lambda>sender.
             rbind (set_interference_duration (st_index sender) (fr_duration fr) (fr_signal fr) s1)
               (\<lambda>(_, s). Inr s))) = Inr s2"
    "send_tx_info_frame_nl env f s2 = Inr s3" "t = free_frame f s3"
    using run unfolding wmediumd_deliver_frame_def rbind_eq_Inr by blast
  have "same_clients s s1" using st(1) by (auto simp: unlink_frame_def same_clients_def split: if_splits)
  then have i1: "clients_inv s1" by (rule main_inv_same [OF inv])
  have i2: "clients_inv s2"
  proof (cases "fr_flags fr AND HWSIM_TX_STAT_ACK \<noteq> 0")
    case True
    show ?thesis
      by (rule rfold_invariant [where I = clients_inv, OF st(2) [unfolded if_P [OF True]] i1]) (rule deliver_at_inv)
  next
    case False
    obtain b and sender :: station
      where "set_interference_duration (st_index sender) (fr_duration fr) (fr_signal fr) s1 = Inr (b, s2)"
      using st(2) unfolding if_not_P [OF False] by (auto simp: rbind_eq_Inr)
    then show ?thesis by (rule main_inv_same [OF i1 interference_same])
  qed
  have "same_clients s3 t" using st(4) by (simp add: free_frame_def same_clients_def)
  then show ?thesis by (rule main_inv_same [OF tx_info_inv [OF st(3) i2]])
qed

lemma move_inv:
  assumes "move_stations_to_direction (wm_ops env) j s = Inr t" and "clients_inv s"
  shows "clients_inv t"
proof -
  have m: "same_clients u v" if "move_station p u = Inr v" for p and u v :: "'z wm_main_scheme"
    using that by (auto simp: move_station_def result_simps set_sta_def same_clients_def)
  have r: "same_clients u v" if "recalc_pair x u = Inr v" for x and u v :: "'z wm_main_scheme"
    using that by (cases x) (auto simp: recalc_pair_def result_simps same_clients_def split: if_splits)
  obtain s1 s2 where "rfold move_station (stations s) s = Inr s1"
    "rfold recalc_pair (List.product [0..<num_stas s1] [0..<num_stas s1]) s1 = Inr s2"
    and add: "usfstl_sched_add_job (wm_ops env) j (set_job_start j (start_of s2 j + 3 * 1000000) s2) = Inr t"
    using assms(1) unfolding move_stations_to_direction_def recalc_path_loss_def rbind_eq_Inr by blast
  then have "same_clients s s1" "same_clients s1 s2" using same_clients_fold m r by blast+
  moreover have "same_clients s2 (set_job_start j (start_of s2 j + 3 * 1000000) s2)"
    by (simp add: same_clients_def set_job_start_def)
  moreover note add_job_same [OF ops add]
  ultimately have "same_clients s t" using same_clients_trans by blast
  then show ?thesis by (rule main_inv_same [OF assms(2)])
qed

lemma intf_inv:
  assumes "wmediumd_intf_update (wm_ops env) s = Inr t" and "clients_inv s"
  shows "clients_inv t"
proof -
  obtain x where add: "usfstl_sched_add_job (wm_ops env) Intf_job
      (set_job_start Intf_job (start_of (s\<lparr>intf := x\<rparr>) Intf_job + 10000) (s\<lparr>intf := x\<rparr>)) = Inr t"
    using assms(1) unfolding wmediumd_intf_update_def rbind_eq_Inr Let_def by blast
  have "same_clients s (set_job_start Intf_job (start_of (s\<lparr>intf := x\<rparr>) Intf_job + 10000) (s\<lparr>intf := x\<rparr>))"
    by (simp add: same_clients_def set_job_start_def)
  from main_inv_same [OF assms(2) same_clients_trans [OF this add_job_same [OF ops add]]] show ?thesis .
qed

lemma run_job_inv: "run_job env j s = Inr t \<Longrightarrow> clients_inv s \<Longrightarrow> clients_inv t"
  using deliver_inv notify_start_inv move_inv intf_inv
  by (cases j) (auto simp: run_job_def)

end

text \<open>Freeing the removed clients at the end of a turn.\<close>

lemma free_clients_inv:
  fixes s :: "'z wm_main_scheme"
  assumes "clients_inv s"
  shows "clients_inv (free_removed_clients s)"
proof -
  let ?t = "free_removed_clients s"
  have inv: "clients_inv s" using assms .
  have t: "clients ?t = clients s" "api_loop ?t = api_loop s" "clients_to_free ?t = []" "next_ptr ?t = next_ptr s"
    "need_start_notify ?t = need_start_notify s" "events ?t = events s"
    "cl_mem ?t = (\<lambda>c. if c \<in> set (clients_to_free s) then None else cl_mem s c)"
    by (simp_all add: free_removed_clients_def)
  have w: "watchers ?t = watchers s" by (auto simp: watchers_def t)
  have "\<exists>x. cl_mem ?t d = Some x \<and> d \<notin> set (clients_to_free ?t) \<and>
      (cl_type x = CLIENT_API_SOCK \<longrightarrow> d \<in> set (api_loop ?t))" if "d \<in> set (clients ?t)" for d
    using clients_invD(3) [OF inv, of d] that by (auto simp: t)
  moreover have "\<exists>x. cl_mem ?t d = Some x \<and> cl_type x = CLIENT_API_SOCK \<and> d \<notin> set (clients_to_free ?t)"
    if "d \<in> set (api_loop ?t)" for d
    using clients_invD(4) [OF inv, of d] that by (auto simp: t)
  moreover have "\<forall>d x. cl_mem ?t d = Some x \<longrightarrow> cl_flags x \<noteq> 0 \<longrightarrow> cl_type x = CLIENT_API_SOCK"
    "\<forall>d. next_ptr ?t \<le> d \<longrightarrow> cl_mem ?t d = None" "\<forall>d \<in> set (clients_to_free ?t). cl_mem ?t d \<noteq> None"
    using clients_invD(6,7) [OF inv] by (auto simp: t)
  moreover have "distinct (clients ?t)" "distinct (api_loop ?t)" "finite (watchers ?t)"
    "need_start_notify ?t = of_nat (card (watchers ?t))"
    using clients_invD(1,2,8,9) [OF inv] by (simp_all add: t(1,2,5) w)
  ultimately show ?thesis unfolding clients_inv_def by blast
qed

text \<open>The scheduler with the wall clock.\<close>

context wm_loop
begin

lemma set_time_inv:
  assumes "usfstl_sched_set_time_internal (wm_ops env) x s = Inr t \<or> usfstl_sched_set_time (wm_ops env) x s = Inr t"
    and "clients_inv s"
  shows "clients_inv t"
proof -
  have "same_clients s t" if r: "usfstl_sched_set_time_internal (wm_ops env) x s = Inr t"
  proof (cases "current_time s = x")
    case True
    then show ?thesis using r by (simp add: usfstl_sched_set_time_internal_def same_clients_def)
  next
    case False
    have "same_clients s (s\<lparr>current_time := x\<rparr>)" by (simp add: same_clients_def)
    moreover have "same_clients (s\<lparr>current_time := x\<rparr>) t"
      using r False advanced
      by (cases "time_advanced (wm_ops env)")
        (auto simp: usfstl_sched_set_time_internal_def call_opt_def result_simps Let_def same_clients_def)
    ultimately show ?thesis by (rule same_clients_trans)
  qed
  then have "same_clients s t" using assms(1) by (auto simp: usfstl_sched_set_time_def result_simps)
  then show ?thesis by (rule main_inv_same [OF assms(2)])
qed

lemma set_time_wait_ops: "usfstl_sched_set_time_internal (wait_ops env) = usfstl_sched_set_time_internal (wm_ops env)"
  by (intro ext) (simp add: usfstl_sched_set_time_internal_def wait_ops_def)

lemma clock_wait_inv:
  assumes "clock_wait env evs s = Inr t" and "clients_inv s"
  shows "clients_inv t"
  using assms
proof (induction evs arbitrary: s)
  case (Cons e evs)
  show ?case
  proof (cases "e = Timer_event")
    case True
    then have "usfstl_sched_set_time (wm_ops env) (prev_external_sync s) (s\<lparr>events := evs\<rparr>) = Inr t"
      using Cons.prems(1) by simp
    then show ?thesis by (rule set_time_inv [OF disjI2]) (use Cons.prems(2) in simp)
  next
    case False
    then obtain u where u: "handle_event env e s = Inr u" "clock_wait env evs u = Inr t"
      using Cons.prems(1) by (auto simp: result_simps)
    show ?thesis by (rule Cons.IH [OF u(2) conjunct1 [OF event_inv [OF Cons.prems(2) u(1)]]])
  qed
qed simp

lemma external_wait_inv:
  assumes "usfstl_sched_external_wait (wait_ops env) s = Inr t" and "clients_inv s"
  shows "clients_inv t"
proof -
  let ?s = "s\<lparr>prev_external_sync_set := False, sched_waiting := True\<rparr>"
  have "same_clients s ?s" by (simp add: same_clients_def)
  then have s: "clients_inv ?s" by (rule main_inv_same [OF assms(2)])
  obtain u where u: "clock_wait env (events ?s) ?s = Inr u" "t = u\<lparr>sched_waiting := False\<rparr>"
    using assms(1) by (auto simp: usfstl_sched_external_wait_def wait_ops_def result_simps Let_def)
  have "same_clients u t" using u(2) by (simp add: same_clients_def)
  then show ?thesis by (rule main_inv_same [OF clock_wait_inv [OF u(1) s]])
qed

lemma sched_forward_inv:
  assumes "usfstl_sched_forward (wait_ops env) x s = Inr t" and "clients_inv s"
  shows "clients_inv t"
proof -
  have k: "keeps_clients (wait_ops env)" using ops by (simp add: keeps_clients_def wait_ops_def)
  obtain b u where u: "usfstl_sched_external_request (wait_ops env) x s = Inr (b, u)"
    "(if b then usfstl_sched_external_wait (wait_ops env) u else usfstl_sched_set_time_internal (wait_ops env) x u) = Inr t"
    using assms(1) by (auto simp: usfstl_sched_forward_def result_simps)
  have "clients_inv u" by (rule main_inv_same [OF assms(2) external_request_same [OF k u(1)]])
  then show ?thesis using u(2) external_wait_inv set_time_inv [OF disjI1] unfolding set_time_wait_ops
    by (cases b) auto
qed

lemma sched_next_loop_inv:
  assumes "usfstl_sched_next fuel (wait_ops env) (run_job env) s = Inr (j, t)" and "clients_inv s"
  shows "clients_inv t"
  using assms
proof (induction fuel arbitrary: s)
  case (Suc fuel)
  show ?case
  proof (cases "usfstl_sched_next_pending s")
    case None
    then obtain u where "usfstl_sched_external_wait (wait_ops env) s = Inr u"
      "usfstl_sched_next fuel (wait_ops env) (run_job env) u = Inr (j, t)"
      using Suc.prems(1) by (auto simp: result_simps split: if_splits)
    then show ?thesis using Suc.IH external_wait_inv Suc.prems(2) by blast
  next
    case (Some job)
    obtain u where u: "(if time_gt (start_of s job) (current_time s)
        then usfstl_sched_forward (wait_ops env) (start_of s job) s else Inr s) = Inr u"
      "(if usfstl_sched_next_pending u \<noteq> Some job
        then usfstl_sched_next fuel (wait_ops env) (run_job env) u
        else let s = usfstl_sched_del_job job u in rbind (run_job env job s) (\<lambda>s. Inr (job, s))) = Inr (j, t)"
      using Suc.prems(1) Some by (auto simp: rbind_eq_Inr)
    have iu: "clients_inv u" using u(1) sched_forward_inv Suc.prems(2) by (auto split: if_splits)
    show ?thesis
    proof (cases "usfstl_sched_next_pending u = Some job")
      case False
      then show ?thesis using u(2) iu Suc.IH by simp
    next
      case True
      then have "run_job env job (usfstl_sched_del_job job u) = Inr t" using u(2) by (auto simp: rbind_eq_Inr Let_def)
      then show ?thesis using run_job_inv main_inv_same [OF iu del_job_same] by blast
    qed
  qed
qed simp

text \<open>A whole turn.\<close>

lemma main_step_inv:
  assumes "main_step clock fuel env s = Inr t" and "clients_inv s"
  shows "clients_inv t"
proof -
  obtain s1 s2 where r: "(if usfstl_sched_next_pending s \<noteq> None then Inr s
       else case events s of
         [] \<Rightarrow> Inl Starved
       | e # evs \<Rightarrow>
           rbind (case clock s of None \<Rightarrow> Inr s | Some t \<Rightarrow> usfstl_sched_set_time (wm_ops env) t s) (\<lambda>s.
           handle_event env e (s\<lparr>events := evs\<rparr>))) = Inr s1"
    "(if usfstl_sched_next_pending s1 \<noteq> None
       then rbind (usfstl_sched_next fuel (wait_ops env) (run_job env) s1) (\<lambda>(_, s). Inr s) else Inr s1) = Inr s2"
    and t: "t = free_removed_clients s2"
    using assms(1) unfolding main_step_def by (simp only: rbind_eq_Inr sum.inject) blast
  have i1: "clients_inv s1"
  proof (cases "usfstl_sched_next_pending s = None")
    case True
    then obtain e evs where ev: "events s = e # evs" using r(1) by (cases "events s") simp_all
    then obtain u where u: "(case clock s of None \<Rightarrow> Inr s | Some t \<Rightarrow> usfstl_sched_set_time (wm_ops env) t s) = Inr u"
      "handle_event env e (u\<lparr>events := evs\<rparr>) = Inr s1"
      using r(1) True by (auto simp: rbind_eq_Inr)
    have iu: "clients_inv u" using u(1) set_time_inv assms(2) by (cases "clock s") auto
    have "clients_inv (u\<lparr>events := evs\<rparr>)" using iu by simp
    then show ?thesis using event_inv u(2) by blast
  qed (use r(1) assms(2) in simp)
  have "clients_inv s2"
  proof (cases "usfstl_sched_next_pending s1 = None")
    case False
    then obtain j where "usfstl_sched_next fuel (wait_ops env) (run_job env) s1 = Inr (j, s2)"
      using r(2) by (auto simp: rbind_eq_Inr)
    then show ?thesis by (rule sched_next_loop_inv [OF _ i1])
  qed (use r(2) i1 in simp)
  then show ?thesis using free_clients_inv t by simp
qed

end

interpretation main_loop: wm_loop "standalone_env erfc config_read scanf_f per_content can_open nlmsg"
  for erfc config_read scanf_f per_content can_open nlmsg
  by unfold_locales (simp add: standalone_env_def timer_ops_def USFSTL_SCHEDULER_ops_def)

section \<open>Delivery to clients that need no acknowledgement\<close>

lemma send_plain:
  assumes "cl_mem s c = Some cl" and "cl_type cl \<noteq> CLIENT_API_SOCK" and "c \<notin> set (clients_to_free s)"
  shows "wmediumd_send_to_client env c m s = Inr (emit c m s)"
  using assms by (cases "cl_type cl") (simp_all add: wmediumd_send_to_client_def client_at_def)

text \<open>A treatment that only sends messages, to every client in turn.\<close>

lemma clients_from_emits:
  assumes "distinct (clients s)" and "clients s = pre @ c # post" and "length post < fuel"
    and body: "\<And>d x. d \<in> set (clients s) \<Longrightarrow> body d (s\<lparr>outbox := x\<rparr>) = Inr (s\<lparr>outbox := x @ m d\<rparr>)"
  shows "clients_from fuel body c (s\<lparr>outbox := x\<rparr>) = Inr (s\<lparr>outbox := x @ concat (map m (c # post))\<rparr>)"
  using assms(2,3)
proof (induction fuel arbitrary: pre c post x)
  case (Suc fuel)
  have c: "c \<notin> set pre" using assms(1) Suc.prems(1) by simp
  have d: "dropWhile (\<lambda>d. d \<noteq> c) (clients s) = c # post"
    unfolding Suc.prems(1) using c by (subst dropWhile_append2) auto
  have b: "body c (s\<lparr>outbox := x\<rparr>) = Inr (s\<lparr>outbox := x @ m c\<rparr>)" by (rule body) (simp add: Suc.prems(1))
  show ?case
  proof (cases post)
    case Nil
    then show ?thesis by (simp add: b next_client_def d)
  next
    case (Cons e rest)
    have "clients_from fuel body e (s\<lparr>outbox := x @ m c\<rparr>) =
        Inr (s\<lparr>outbox := (x @ m c) @ concat (map m (e # rest))\<rparr>)"
      by (rule Suc.IH [of "pre @ [c]"]) (use Suc.prems Cons in simp_all)
    moreover have "e \<in> set (clients s)" using Suc.prems(1) Cons by simp
    ultimately show ?thesis using Cons by (simp add: b next_client_def d)
  qed
qed simp

lemma for_each_client_emits:
  assumes "distinct (clients s)"
    and "\<And>d x. d \<in> set (clients s) \<Longrightarrow> body d (s\<lparr>outbox := x\<rparr>) = Inr (s\<lparr>outbox := x @ m d\<rparr>)"
  shows "for_each_client body (s\<lparr>outbox := x\<rparr>) = Inr (s\<lparr>outbox := x @ concat (map m (clients s))\<rparr>)"
proof (cases "clients s")
  case Nil
  then show ?thesis by (simp add: for_each_client_def)
next
  case (Cons c cs)
  let ?f = "(length (events s) + 1) * (length (clients s) + length (events s) + 1)"
  have "clients_from ?f body c (s\<lparr>outbox := x\<rparr>) = Inr (s\<lparr>outbox := x @ concat (map m (c # cs))\<rparr>)"
    by (rule clients_from_emits [OF assms(1), of "[]"]) (use Cons assms(2) in simp_all)
  then show ?thesis using Cons by (simp add: for_each_client_def del: clients_from.simps)
qed

text \<open>No client needs an acknowledgement or wants more than the frames of its stations.\<close>

definition plain_clients :: "'z wmediumd_scheme \<Rightarrow> bool" where
  "plain_clients s \<longleftrightarrow> distinct (clients s) \<and> (\<forall>c \<in> set (clients s). \<exists>cl. cl_mem s c = Some cl \<and>
     cl_type cl \<noteq> CLIENT_API_SOCK \<and> cl_flags cl = 0 \<and> c \<notin> set (clients_to_free s))"

text \<open>The copies of a frame for a station: one for its client, or for all clients if it has none.\<close>

definition copies :: "frame \<Rightarrow> station \<Rightarrow> 'z wmediumd_scheme \<Rightarrow> (nat \<times> out_msg) list" where
  "copies fr st s = [(c, Cloned_frame (st_hwaddr st) (fr_data fr) (fr_freq fr) (fr_signal fr) None).
     c \<leftarrow> clients s, st_client st = None \<or> st_client st = Some c]"

lemma send_cloned_plain:
  assumes "plain_clients s" and "sta_mem s p = Some st" and "wm_sync_to env = Inr"
  shows "send_cloned_frame_msg env src p (fr_data fr) (fr_signal fr) (fr_freq fr) cookie (s\<lparr>outbox := x\<rparr>) =
    Inr (s\<lparr>outbox := x @ copies fr st s\<rparr>)"
proof -
  let ?m = "\<lambda>c. if st_client st = None \<or> st_client st = Some c
      then [(c, Cloned_frame (st_hwaddr st) (fr_data fr) (fr_freq fr) (fr_signal fr) None)] else []"
  let ?body = "clone_to_client env src p (Cloned_frame (st_hwaddr st) (fr_data fr) (fr_freq fr) (fr_signal fr)) cookie"
  have "?body d (s\<lparr>outbox := y\<rparr>) = Inr (s\<lparr>outbox := y @ ?m d\<rparr>)" if d: "d \<in> set (clients s)" for d y
  proof -
    obtain cl where "cl_mem s d = Some cl" "cl_type cl \<noteq> CLIENT_API_SOCK" "cl_flags cl = 0" "d \<notin> set (clients_to_free s)"
      using assms(1) d by (auto simp: plain_clients_def)
    then show ?thesis using assms(2)
      by (simp add: clone_to_client_def client_at_def sta_def send_plain [where cl = cl] emit_def)
  qed
  from for_each_client_emits [where m = ?m, OF _ this]
  have "for_each_client ?body (s\<lparr>outbox := x\<rparr>) = Inr (s\<lparr>outbox := x @ concat (map ?m (clients s))\<rparr>)"
    using assms(1) by (simp add: plain_clients_def)
  then show ?thesis using assms(2,3) by (simp add: send_cloned_frame_msg_def sta_def copies_def)
qed

lemma deliver_at_unicast:
  assumes "plain_clients s" and "sta_mem s p = Some st" and "sta_mem s (fr_sender fr) = Some sender"
    and "wm_sync_to env = Inr" and "is_multicast_ether_addr (addr1 fr) = Inr False" and "intf s = None"
  shows "deliver_at env fr p (s\<lparr>outbox := x\<rparr>) = Inr (s\<lparr>outbox := x @
    (if st_addr st \<noteq> st_addr sender \<and> station_has_addr st (addr1 fr) then copies fr st s else [])\<rparr>)"
  using assms send_cloned_plain [OF assms(1,2,4)]
  by (simp add: deliver_at_def sta_def Let_def set_interference_duration_def)

lemma deliver_stations_unicast:
  assumes "plain_clients s" and "\<forall>p \<in> set ps. sta_mem s p \<noteq> None" and "sta_mem s (fr_sender fr) = Some sender"
    and "wm_sync_to env = Inr" and "is_multicast_ether_addr (addr1 fr) = Inr False" and "intf s = None"
  shows "rfold (deliver_at env fr) ps (s\<lparr>outbox := x\<rparr>) = Inr (s\<lparr>outbox := x @
    concat [copies fr st s. st \<leftarrow> map (the \<circ> sta_mem s) ps,
      st_addr st \<noteq> st_addr sender \<and> station_has_addr st (addr1 fr)]\<rparr>)"
  using assms(2)
proof (induction ps arbitrary: x)
  case (Cons p ps)
  then obtain st where "sta_mem s p = Some st" by auto
  from deliver_at_unicast [OF assms(1) this assms(3-6)] this show ?case using Cons by simp
qed simp

section \<open>Properties\<close>

text \<open>Claim C6: without clients of the control socket and without the interference model, the
  delivery of a unicast frame sends a copy to every station that has its receiver address, the
  sender apart, if it was acknowledged: to the client of the station, or to all clients if it has
  none. Then the status of the transmission goes to the client the frame came from; the frame
  leaves its queue and is freed, and nothing else changes.\<close>

theorem unicast_frame_delivered:
  assumes frame: "frame_mem s f = Some fr" "unlink_frame f s = Inr u"
    and uni: "is_multicast_ether_addr (addr1 fr) = Inr False"
    and stas: "sta_mem s (fr_sender fr) = Some sender" "\<forall>p \<in> set (stations s). sta_mem s p \<noteq> None"
    and plain: "plain_clients s" "intf s = None"
    and src: "fr_src fr = Some c" "cl_mem s c = Some cl" "cl_type cl \<noteq> CLIENT_API_SOCK" "c \<notin> set (clients_to_free s)"
    and rates: "fr_tx_rates_count fr \<le> int (length (fr_tx_rates fr))"
  shows "wmediumd_deliver_frame (standalone_env erfc config_read scanf_f per_content can_open nlmsg) f s =
    Inr (free_frame f (u\<lparr>outbox := outbox s @
      (if fr_flags fr AND HWSIM_TX_STAT_ACK \<noteq> 0
       then concat [copies fr st s. st \<leftarrow> map (the \<circ> sta_mem s) (stations s),
              st_addr st \<noteq> st_addr sender \<and> station_has_addr st (addr1 fr)]
       else []) @
      [(c, Tx_info (st_hwaddr sender) (fr_flags fr) (fr_signal fr)
             (take (nat (fr_tx_rates_count fr)) (fr_tx_rates fr)) (fr_cookie fr))]\<rparr>))"
proof -
  let ?env = "standalone_env erfc config_read scanf_f per_content can_open nlmsg"
  let ?g = "\<lambda>st. st\<lparr>st_queues := map (\<lambda>q. q\<lparr>wq_frames := removeAll f (wq_frames q)\<rparr>) (st_queues st)\<rparr>"
  let ?msgs = "\<lambda>v. concat [copies fr st v. st \<leftarrow> map (the \<circ> sta_mem v) (stations v),
      st_addr st \<noteq> st_addr sender \<and> station_has_addr st (addr1 fr)]"
  let ?out = "if fr_flags fr AND HWSIM_TX_STAT_ACK \<noteq> 0 then outbox s @ ?msgs s else outbox s"
  have u: "sta_mem u = (\<lambda>p. map_option ?g (sta_mem s p))" "clients u = clients s" "cl_mem u = cl_mem s"
    "clients_to_free u = clients_to_free s" "intf u = intf s" "outbox u = outbox s" "frame_mem u = frame_mem s"
    "stations u = stations s"
    using frame(2) by (auto simp: unlink_frame_def split: if_splits)
  have pu: "plain_clients u" using plain(1) by (simp add: plain_clients_def u)
  have stas_u: "\<forall>p \<in> set (stations u). sta_mem u p \<noteq> None" "sta_mem u (fr_sender fr) = Some (?g sender)"
    "intf u = None" using stas plain(2) by (simp_all add: u)
  have one: "the (sta_mem u p) = ?g (the (sta_mem s p))" if "p \<in> set (stations s)" for p
    using stas(2) that by (auto simp: u)
  have msgs: "concat [copies fr st u. st \<leftarrow> map (the \<circ> sta_mem u) (stations u),
      st_addr st \<noteq> st_addr (?g sender) \<and> station_has_addr st (addr1 fr)] = ?msgs s"
    unfolding u(8) by (rule arg_cong [of _ _ concat])
      (auto simp: one copies_def station_has_addr_def u(2) intro!: arg_cong [of _ _ concat])
  have env: "wm_sync_to ?env = Inr" by (simp add: standalone_env_def)
  have "rfold (deliver_at ?env fr) (stations u) (u\<lparr>outbox := outbox u\<rparr>) = Inr (u\<lparr>outbox := outbox u @ ?msgs s\<rparr>)"
    using deliver_stations_unicast [OF pu stas_u(1,2) env uni stas_u(3)] unfolding msgs .
  then have deliver: "(if fr_flags fr AND HWSIM_TX_STAT_ACK \<noteq> 0
        then rfold (deliver_at ?env fr) (stations u) u
        else rbind (sta u (fr_sender fr)) (\<lambda>sender.
             rbind (set_interference_duration (st_index sender) (fr_duration fr) (fr_signal fr) u)
               (\<lambda>(_, s). Inr s))) = Inr (u\<lparr>outbox := ?out\<rparr>)"
    using stas_u(2,3) by (simp add: u(6) [symmetric] sta_def set_interference_duration_def)
  have "send_tx_info_frame_nl ?env f (u\<lparr>outbox := ?out\<rparr>) =
    Inr (emit c (Tx_info (st_hwaddr sender) (fr_flags fr) (fr_signal fr)
             (take (nat (fr_tx_rates_count fr)) (fr_tx_rates fr)) (fr_cookie fr)) (u\<lparr>outbox := ?out\<rparr>))"
    using frame(1) stas(1) rates src
    by (simp add: send_tx_info_frame_nl_def frame_at_def sta_def u env send_plain [where cl = cl])
  then show ?thesis
    using frame deliver by (simp add: wmediumd_deliver_frame_def frame_at_def emit_def)
qed

text \<open>The example with the acknowledged frame in the queue of its sender.\<close>

definition example_main :: "wm_event list \<Rightarrow> wm_main" where
  "example_main evs = wm_io.extend (example_io\<lparr>
     sta_mem := (\<lambda>p. if p = 0 then Some ((example_station 0 0)\<lparr>st_queues :=
           [wqueue_init 3 7, wqueue_init 7 15, (wqueue_init 15 1023)\<lparr>wq_frames := [8]\<rparr>, wqueue_init 15 1023]\<rparr>)
         else if p = 1 then Some (example_station 1 1) else None),
     frame_mem := [8 \<mapsto> example_sent\<lparr>fr_src := Some 0\<rparr>]\<rparr>) \<lparr>events = evs\<rparr>"

lemmas example_main_defs = example_main_def example_io_def wm_io.defs wmediumd.defs example_defs example_sent_def

lemma unicast_frame_delivered_witness:
  "\<exists>t. wmediumd_deliver_frame (standalone_env (\<lambda>_. 0) (\<lambda>_. None) (\<lambda>_. None) (\<lambda>_. None) (\<lambda>_. True) (\<lambda>_. None)) 8
       (example_main []) = Inr t \<and> frame_mem t 8 = None \<and> map fst (outbox t) = [0, 0]"
proof -
  let ?s = "example_main []" and ?fr = "example_sent\<lparr>fr_src := Some 0\<rparr>"
  obtain u where u: "unlink_frame 8 ?s = Inr u"
    by (simp add: unlink_frame_def example_main_defs)
  have fr: "frame_mem ?s 8 = Some ?fr" by (simp add: example_main_def example_io_def wm_io.defs)
  have uni: "is_multicast_ether_addr (addr1 ?fr) = Inr False"
    by (simp add: is_multicast_ether_addr_def addr1_def byte_at_def nth_result_def example_main_defs)
  obtain sender where sender: "sta_mem ?s (fr_sender ?fr) = Some sender" "st_addr sender = [2, 0, 0, 0, 0, 0]"
    by (simp add: example_main_defs)
  have stas: "\<forall>p \<in> set (stations ?s). sta_mem ?s p \<noteq> None" by (simp add: example_main_defs)
  have rest: "plain_clients ?s" "intf ?s = None" "fr_src ?fr = Some 0"
    "cl_mem ?s 0 = Some \<lparr>cl_type = CLIENT_NETLINK, cl_wait_for_ack = False, cl_flags = 0\<rparr>"
    "0 \<notin> set (clients_to_free ?s)" "fr_tx_rates_count ?fr \<le> int (length (fr_tx_rates ?fr))"
    by (simp_all add: plain_clients_def example_main_defs)
  note e = unicast_frame_delivered [OF fr u uni sender(1) stas rest(1-4) _ rest(5,6), simplified,
      of "\<lambda>_. 0" "\<lambda>_. None" "\<lambda>_. None" "\<lambda>_. None" "\<lambda>_. True" "\<lambda>_. None"]
  have s: "stations ?s = [0, Suc 0]" "clients ?s = [0]" "outbox ?s = []" "fr_flags example_sent = 4" "addr1 ?fr = [2, 0, 0, 0, 1, 0]"
    "addr1 (?fr\<lparr>fr_src := Some 0\<rparr>) = addr1 ?fr"
    "st_addr (the (sta_mem ?s 0)) = [2, 0, 0, 0, 0, 0]" "st_addr (the (sta_mem ?s (Suc 0))) = [2, 0, 0, 0, 1, 0]"
    "st_client (the (sta_mem ?s (Suc 0))) = Some 0"
    by (simp_all add: example_main_defs addr1_def)
  show ?thesis unfolding e
    by (simp add: free_frame_def copies_def sender(2) station_has_addr_def s)
qed

text \<open>Claim C9: the wait for the acknowledgement of a client handles the events in their order and
  returns after the shortest prefix of them after which the client is not waited for: its
  acknowledgement or its removal. It returns exactly if there is such a prefix.\<close>

theorem wait_handles_shortest_prefix:
  assumes "cl_mem s c = Some cl"
  shows "wmediumd_wait_for_client_ack env c s = Inr t \<longleftrightarrow>
    (\<exists>es rest u. events s = es @ rest \<and>
       handle_events env es (set_client c (cl\<lparr>cl_wait_for_ack := True\<rparr>) s) = Inr u \<and>
       cl_mem u c \<noteq> None \<and> \<not> waits c u \<and> t = u\<lparr>events := rest\<rparr> \<and>
       (\<forall>k < length es. \<exists>v. handle_events env (take k es) (set_client c (cl\<lparr>cl_wait_for_ack := True\<rparr>) s) = Inr v \<and>
          waits c v))"
  using assms by (simp add: wmediumd_wait_for_client_ack_def client_at_def wait_loop_prefix)

text \<open>The registered API client of the example and what it sends.\<close>

definition example_waiting :: wm_main where
  "example_waiting = (example_main [Api_event 5 \<lparr>ai_hdr = Some (99, 0), ai_data = []\<rparr>,
       Api_event 5 \<lparr>ai_hdr = Some (1, 0), ai_data = []\<rparr>, Api_connect])\<lparr>clients := [5, 0]\<rparr>"

lemma example_waiting_simps:
  "cl_mem example_waiting 5 = Some \<lparr>cl_type = CLIENT_API_SOCK, cl_wait_for_ack = False, cl_flags = 0\<rparr>"
  "api_loop example_waiting = [5]" "broken example_waiting = []" "outbox example_waiting = []"
  "events example_waiting = [Api_event 5 \<lparr>ai_hdr = Some (99, 0), ai_data = []\<rparr>,
       Api_event 5 \<lparr>ai_hdr = Some (1, 0), ai_data = []\<rparr>, Api_connect]"
  by (simp_all add: example_waiting_def example_main_def example_io_def wm_io.defs wmediumd.defs)

lemma example_waiting_inv: "clients_inv example_waiting"
proof -
  have "watchers example_waiting = {}"
    by (auto simp: watchers_def example_waiting_def example_main_def example_io_def wm_io.defs wmediumd.defs split: if_splits)
  then show ?thesis
    by (auto simp: clients_inv_def example_waiting_def example_main_defs split: if_splits)
qed

text \<open>The first message is answered as invalid, the second is the acknowledgement.\<close>

lemma wait_handles_shortest_prefix_witness:
  "\<exists>t. wmediumd_wait_for_client_ack (standalone_env (\<lambda>_. 0) (\<lambda>_. None) (\<lambda>_. None) (\<lambda>_. None) (\<lambda>_. True) (\<lambda>_. None))
       5 example_waiting = Inr t \<and> events t = [Api_connect] \<and> outbox t = [(5, Response 0)]"
proof -
  let ?env = "standalone_env (\<lambda>_. 0) (\<lambda>_. None) (\<lambda>_. None) (\<lambda>_. None) (\<lambda>_. True) (\<lambda>_. None) :: wm_main wm_env"
  let ?cl = "\<lparr>cl_type = CLIENT_API_SOCK, cl_wait_for_ack = False, cl_flags = 0\<rparr>"
  let ?s = "set_client 5 (?cl\<lparr>cl_wait_for_ack := True\<rparr>) example_waiting"
  let ?e = "Api_event 5 \<lparr>ai_hdr = Some (99, 0), ai_data = []\<rparr>" and ?f = "Api_event 5 \<lparr>ai_hdr = Some (1, 0), ai_data = []\<rparr>"
  let ?v = "emit 5 (Response 0) ?s" and ?u = "set_client 5 ?cl (emit 5 (Response 0) ?s)"
  have e: "handle_event ?env ?e ?s = Inr ?v"
    by (simp add: handle_event_def wmediumd_api_handler_def api_message_def example_waiting_simps set_client_def emit_def)
  have f: "handle_event ?env ?f ?v = Inr ?u"
    by (simp add: handle_event_def wmediumd_api_handler_def api_message_def client_at_def example_waiting_simps
        set_client_def emit_def)
  have w: "waits 5 ?s" "waits 5 ?v" "\<not> waits 5 ?u" "cl_mem ?u 5 \<noteq> None"
    by (simp_all add: waits_def set_client_def emit_def)
  have p: "\<exists>v. handle_events ?env (take k [?e, ?f]) ?s = Inr v \<and> waits 5 v" if "k < length [?e, ?f]" for k
    using that w(1,2) e by (cases k) (auto simp: handle_events_def less_Suc_eq)
  have "wmediumd_wait_for_client_ack ?env 5 example_waiting = Inr (?u\<lparr>events := [Api_connect]\<rparr>)"
    unfolding wait_handles_shortest_prefix [where cl = ?cl, OF example_waiting_simps(1)]
    by (intro exI [of _ "[?e, ?f]"] exI [of _ "[Api_connect]"] exI [of _ ?u] conjI allI impI p)
      (use e f w in \<open>simp_all add: example_waiting_simps handle_events_def\<close>)
  then show ?thesis by (simp add: set_client_def emit_def example_waiting_simps)
qed

text \<open>Claim C10: sending to an API client whose socket has left the event loop never returns,
  whatever events arrive. A client that closed its socket or broke the protocol is in this state
  until the end of the turn, and so is the source of a frame that is already unlinked.\<close>

theorem wait_on_removed_client_never_returns:
  assumes "clients_inv s" and "cl_mem s c = Some cl" and "cl_type cl = CLIENT_API_SOCK"
    and "c \<notin> set (api_loop s)"
  shows "wmediumd_send_to_client (standalone_env erfc config_read scanf_f per_content can_open nlmsg) c m s \<noteq> Inr t"
proof
  let ?env = "standalone_env erfc config_read scanf_f per_content can_open nlmsg"
  assume r: "wmediumd_send_to_client ?env c m s = Inr t"
  show False
  proof (cases "c \<in> set (broken s)")
    case True
    then show False using r assms(2-4)
      by (simp add: wmediumd_send_to_client_def client_at_def disconnect_client_def)
  next
    case False
    then have "wmediumd_wait_for_client_ack ?env c (emit c m s) = Inr t"
      using r assms(2,3) by (simp add: wmediumd_send_to_client_def client_at_def)
    from main_loop.wait_for_ack_inv [OF this, of cl] show False using assms by simp
  qed
qed

text \<open>The client of the example has closed its socket.\<close>

lemma wait_on_removed_client_never_returns_witness:
  "\<exists>s :: wm_main. disconnect_client 5 example_waiting = Inr s \<and>
     (\<forall>t. wmediumd_send_to_client (standalone_env (\<lambda>_. 0) (\<lambda>_. None) (\<lambda>_. None) (\<lambda>_. None) (\<lambda>_. True) (\<lambda>_. None))
       5 (Tx_start 0 2412) s \<noteq> Inr t)"
proof -
  have c: "5 \<in> set (api_loop example_waiting)" by (simp add: example_waiting_simps)
  obtain s where s: "disconnect_client 5 example_waiting = Inr s" "events s = events example_waiting"
    "cl_mem s 5 = Some \<lparr>cl_type = CLIENT_API_SOCK, cl_wait_for_ack = False, cl_flags = 0\<rparr>"
    by (simp add: disconnect_client_def wmediumd_remove_client_def detach_station_def drop_queue_def drop_frame_def
        sta_def frame_at_def client_at_def nth_result_def set_client_def upt_rec example_waiting_def example_main_defs)
  note d = disconnect_inv [OF example_waiting_inv c s(1)]
  have "5 \<notin> set (api_loop s)" using d(2) by simp
  then show ?thesis
    using wait_on_removed_client_never_returns [OF d(1) s(3)] s(1) by auto
qed



text \<open>Claim C8: a turn of the main loop under the wall clock, with all the sending, waiting and
  handling of events in it, configuration reloads included, keeps the clients consistent and leaves
  no removed client behind.\<close>

theorem main_step_keeps_clients:
  assumes "clients_inv s" and "main_step clock fuel (standalone_env erfc config_read scanf_f per_content can_open nlmsg) s = Inr t"
  shows "clients_inv t \<and> clients_to_free t = []"
proof -
  have "clients_inv t" using main_loop.main_step_inv [OF assms(2) assms(1)] .
  moreover have "clients_to_free t = []"
    using assms(2) by (auto simp: main_step_def result_simps free_removed_clients_def)
  ultimately show ?thesis by simp
qed

text \<open>A turn of the example: no job is scheduled, so the first event is handled.\<close>

lemma main_step_keeps_clients_witness:
  "\<exists>t. main_step (\<lambda>_. None) 10 (standalone_env (\<lambda>_. 0) (\<lambda>_. None) (\<lambda>_. None) (\<lambda>_. None) (\<lambda>_. True) (\<lambda>_. None))
     example_waiting = Inr t \<and> outbox t = [(5, Response 0)] \<and> length (events t) = 2 \<and> clients_inv t"
proof -
  let ?env = "standalone_env (\<lambda>_. 0) (\<lambda>_. None) (\<lambda>_. None) (\<lambda>_. None) (\<lambda>_. True) (\<lambda>_. None) :: wm_main wm_env"
  have "joblist example_waiting = []"
    by (simp add: example_waiting_def example_main_defs)
  then obtain t where t: "main_step (\<lambda>_. None) 10 ?env example_waiting = Inr t" "outbox t = [(5, Response 0)]" "length (events t) = 2"
    by (simp add: main_step_def usfstl_sched_next_pending_def handle_event_def wmediumd_api_handler_def api_message_def
        example_waiting_simps emit_def free_removed_clients_def Let_def)
  then show ?thesis using main_step_keeps_clients [OF example_waiting_inv t(1)] by blast
qed

end
