(* ===== verification/Vhost_Wmediumd.thy ===== *)
theory Vhost_Wmediumd
  imports Vhost_Device Delivery
begin

text \<open>
  The vhost-user server of the medium (\<open>vusrv\<close> and \<open>wmediumd_vu_ops\<close> of
  \<open>wmediumd/wmediumd.c\<close>): what its callbacks do with the buffers of a device, the laws of the
  server, and the properties of the queues and of the devices that follow from them. Without a time
  controller the server has no scheduler, so the interrupt job of a device is in none and each
  kick handles the queues at once.
\<close>

section \<open>The server\<close>

text \<open>A device and the medium it belongs to; \<open>dev_client\<close> is \<open>dev->data\<close>.\<close>

record 'w wm_device = "unit vhost" +
  dev_client :: "nat option"
  wm :: 'w

definition vu_connected :: "'z wm_main_scheme wm_device \<Rightarrow> 'z wm_main_scheme wm_device result" where
  "vu_connected s =
     (let (c, w) = wmediumd_vu_connected (wm s) in Inr (s\<lparr>dev_client := Some c, wm := w\<rparr>))"

definition vu_handle ::
  "'z wm_main_scheme wm_env \<Rightarrow> vhost_buf \<Rightarrow> nat \<Rightarrow> 'z wm_main_scheme wm_device \<Rightarrow> 'z wm_main_scheme wm_device result" where
  "vu_handle env buf vring s =
     rbind (iov_read 4096 (vb_out buf) (vd_mem s)) (\<lambda>data.
     rbind (rget Null_dereference (dev_client s)) (\<lambda>c.
     rbind (wmediumd_vu_handle env c data (wm s)) (\<lambda>w.
     Inr (s\<lparr>wm := w\<rparr>))))"

definition vu_disconnected :: "'z wm_main_scheme wm_device \<Rightarrow> 'z wm_main_scheme wm_device result" where
  "vu_disconnected s =
     rbind (rget Null_dereference (dev_client s)) (\<lambda>c.
     rbind (wmediumd_vu_disconnected c (wm s)) (\<lambda>w.
     Inr (s\<lparr>dev_client := None, wm := w\<rparr>)))"

text \<open>\<open>mmap\<close> maps \<open>len\<close> bytes of the file, at a place the operating system chooses.\<close>

definition mmap_shared ::
  "(memory \<Rightarrow> u64 \<Rightarrow> u64) \<Rightarrow> (int \<Rightarrow> nat \<Rightarrow> u8) \<Rightarrow> u64 \<Rightarrow> int \<Rightarrow> memory \<Rightarrow> (u64 \<times> memory) option" where
  "mmap_shared place bytes len fd m =
     (if fd < 0 \<or> len = 0 then None
      else let v = place m len
        in Some (v, \<lambda>x. if unat (x - v) < unat len then Some (bytes fd (unat (x - v))) else m x))"

text \<open>\<open>ack\<close> says whether the guest answers a message that asks for it. Other events that the loop of
  \<open>usfstl_vhost_user_send_msg\<close> might handle before that answer are not in this model; it only waits if the guest
  has negotiated in-band calls with replies.\<close>

definition wm_server ::
  "'z wm_main_scheme wm_env \<Rightarrow> bool \<Rightarrow> (memory \<Rightarrow> u64 \<Rightarrow> u64) \<Rightarrow> (int \<Rightarrow> nat \<Rightarrow> u8) \<Rightarrow>
   (unit, 'z wm_main_scheme wm_device) vhost_server" where
  "wm_server env ack place bytes =
     \<lparr>vs_ops = USFSTL_SCHEDULER_ops, vs_irq_job = (), vs_scheduler = False, vs_sync_to = Inr, vs_sync_from = Inr,
      vs_wait_reply = (\<lambda>s. rassert ack (Inr s)), vs_connected = vu_connected, vs_handle = vu_handle env,
      vs_disconnected = vu_disconnected, vs_guest = (\<lambda>m. m), vs_mmap = mmap_shared place bytes,
      vs_interrupt_latency = 0, vs_max_queues = 2, vs_input_queues = 1, vs_features = push_bit 32 1,
      vs_protocol_features = push_bit 14 1, vs_config = []\<rparr>"

text \<open>A message for a device of the medium, in the format of netlink.\<close>

definition vu_send ::
  "(unit, 'z wm_main_scheme wm_device) vhost_server \<Rightarrow> (out_msg \<Rightarrow> u8 list) \<Rightarrow> out_msg \<Rightarrow>
   'z wm_main_scheme wm_device \<Rightarrow> 'z wm_main_scheme wm_device result" where
  "vu_send srv nlmsg m s = usfstl_vhost_user_dev_notify srv 1 (nlmsg m) s"

lemma wm_server_sel [simp]:
  "vs_ops (wm_server env ack place bytes) = USFSTL_SCHEDULER_ops"
  "vs_scheduler (wm_server env ack place bytes) = False"
  "vs_sync_to (wm_server env ack place bytes) = Inr" "vs_sync_from (wm_server env ack place bytes) = Inr"
  "vs_handle (wm_server env ack place bytes) = vu_handle env"
  "vs_guest (wm_server env ack place bytes) = (\<lambda>m. m)" "vs_max_queues (wm_server env ack place bytes) = 2"
  "vs_input_queues (wm_server env ack place bytes) = 1"
  by (simp_all add: wm_server_def)

section \<open>The laws of the server\<close>

interpretation vu: vhost_device "wm_server env ack place bytes"
  for env :: "'z wm_main_scheme wm_env" and ack place bytes
proof
  fix b i and s t :: "'z wm_main_scheme wm_device" and v m m' len fd x
  show "same_vhost s t" if "vs_handle (wm_server env ack place bytes) b i s = Inr t"
    using that by (auto simp: vu_handle_def rbind_eq_Inr same_vhost_def)
  show "same_vhost s t" if "vs_wait_reply (wm_server env ack place bytes) s = Inr t"
    using that by (simp add: wm_server_def rassert_eq_Inr)
  show "same_vhost s t" if "vs_connected (wm_server env ack place bytes) s = Inr t"
    using that by (auto simp: wm_server_def vu_connected_def same_vhost_def case_prod_beta Let_def)
  show "m' x \<noteq> None" if "vs_mmap (wm_server env ack place bytes) len fd m = Some (v, m')" "x \<in> piece v (unat len)"
    using that by (auto simp: wm_server_def mmap_shared_def piece_def Let_def split: if_splits)
  show "m' x \<noteq> None" if "vs_mmap (wm_server env ack place bytes) len fd m = Some (v, m')" "m x \<noteq> None"
    using that by (auto simp: wm_server_def mmap_shared_def Let_def split: if_splits)
  show "keeps_vhost (vs_ops (wm_server env ack place bytes))"
    by (simp add: keeps_vhost_def USFSTL_SCHEDULER_ops_def)
qed simp_all

section \<open>A queue is handled\<close>

lemma rfold_one: "rfold f [x] = f x"
proof
  show "rfold f [x] s = f x s" for s by (cases "f x s") simp_all
qed


section \<open>The messages of the guest\<close>

text \<open>The ring entry of index \<open>l\<close> names the head \<open>d\<close> of a descriptor chain with the message \<open>b\<close>.\<close>

definition announced ::
  "(u64 \<Rightarrow> u64 result) \<Rightarrow> u64 \<Rightarrow> u64 \<Rightarrow> u32 \<Rightarrow> memory \<Rightarrow> u16 \<Rightarrow> u16 \<times> u8 list \<Rightarrow> bool" where
  "announced to_va avail desc num m l = (\<lambda>(d, b).
     \<exists>ds. load16 (avail + 4 + 2 * ucast (ucast l mod num)) m = Inr d \<and> ucast d < num \<and>
        desc_chain desc m d ds \<and> length ds \<le> 2 ^ 16 \<and> (\<forall>x \<in> set ds. \<exists>v. to_va (fst x) = Inr v) \<and>
        iov_read 4096 (parts (projr \<circ> to_va) (filter (\<lambda>d. \<not> device_writes d) ds)) m = Inr b)"

text \<open>Queue \<open>i\<close> can be used: its parts and the descriptor for calling the guest out of band are set, its indices are \<open>l\<close>, \<open>a\<close> and
  \<open>u\<close>, the ring for used buffers can be written and does not cover the available index.\<close>

definition queue_ready ::
  "nat \<Rightarrow> virtq \<Rightarrow> u64 \<Rightarrow> u64 \<Rightarrow> u64 \<Rightarrow> u16 \<Rightarrow> u16 \<Rightarrow> ('j, 'z) vhost_scheme \<Rightarrow> bool" where
  "queue_ready i q avail used desc a u s \<longleftrightarrow>
     virtq_at s i = Inr q \<and> vq_avail q = Some avail \<and> vq_used q = Some used \<and> vq_desc q = Some desc \<and>
     vq_num q \<noteq> 0 \<and> vq_call_fd q \<ge> 0 \<and>
     load16 (avail + 2) (outside (piece (used + 2) (2 + 8 * unat (vq_num q))) (vd_mem s)) = Inr a \<and>
     load16 (used + 2) (vd_mem s) = Inr u \<and>
     (\<forall>x \<in> piece (used + 2) (2 + 8 * unat (vq_num q)). vd_mem s x \<noteq> None)"

abbreviation (input) used_area :: "virtq \<Rightarrow> u64 \<Rightarrow> u64 set" where
  "used_area q used \<equiv> piece (used + 2) (2 + 8 * unat (vq_num q))"

text \<open>The entry of the used ring for index \<open>u\<close>, and what it tells the guest: the buffer with the
  descriptor \<open>d\<close> is given back, with \<open>n\<close> bytes written to it.\<close>

definition used_entry :: "virtq \<Rightarrow> u64 \<Rightarrow> u16 \<Rightarrow> u64" where
  "used_entry q used u = used + 4 + 8 * ucast (ucast u mod vq_num q)"

definition given_back :: "virtq \<Rightarrow> u64 \<Rightarrow> u16 \<Rightarrow> memory \<Rightarrow> u16 \<Rightarrow> nat \<Rightarrow> bool" where
  "given_back q used u m d n \<longleftrightarrow> load32 (used_entry q used u) m = Inr (ucast d) \<and>
     load32 (used_entry q used u + 4) m = Inr (word_of_nat n)"

lemma used_entry_piece:
  assumes "vq_num q \<noteq> 0"
  shows "piece (used_entry q used u) 4 \<subseteq> piece (used_entry q used u) 8"
    and "piece (used_entry q used u + 4) 4 \<subseteq> piece (used_entry q used u) 8"
    and "piece (used_entry q used u) 8 \<subseteq> used_area q used"
    and "piece (used + 2) 2 \<inter> piece (used_entry q used u) 8 = {}"
    and "piece (used_entry q used u) 4 \<inter> piece (used_entry q used u + 4) 4 = {}"
proof -
  obtain k where k: "used_entry q used u = used + 2 + word_of_nat k" "2 \<le> k" "k + 8 \<le> 2 + 8 * unat (vq_num q)"
    using used_elem [OF assms, of used u] unfolding used_entry_def by blast
  have big: "2 + 8 * unat (vq_num q) < 2 ^ 64" using unsigned_less [of "vq_num q", where 'a = nat] by simp
  show "piece (used_entry q used u) 4 \<subseteq> piece (used_entry q used u) 8" by (rule piece_mono) simp
  show "piece (used_entry q used u + 4) 4 \<subseteq> piece (used_entry q used u) 8"
    using piece_within [of 4 4 8 "used_entry q used u"] by simp
  show "piece (used_entry q used u) 8 \<subseteq> used_area q used"
    unfolding k(1) by (rule piece_within) (use k(3) big in simp_all)
  show "piece (used + 2) 2 \<inter> piece (used_entry q used u) 8 = {}"
  proof -
    have "unat (x - (used + 2)) \<ge> 2" if "x \<in> piece (used_entry q used u) 8" for x
      using piece_offset [of x "used + 2" k 8] that k big by simp
    then show ?thesis unfolding disjoint_iff by (metis mem_Collect_eq not_le piece_def)
  qed
  show "piece (used_entry q used u) 4 \<inter> piece (used_entry q used u + 4) 4 = {}"
  proof -
    have "unat (x - used_entry q used u) \<ge> 4" if "x \<in> piece (used_entry q used u + 4) 4" for x
      using piece_offset [of x "used_entry q used u" 4 4] that by simp
    then show ?thesis unfolding disjoint_iff by (metis mem_Collect_eq not_le piece_def)
  qed
qed

lemma used_entry_apart:
  assumes "vq_num q \<noteq> 0" and "ucast u mod vq_num q \<noteq> ucast v mod vq_num q"
  shows "piece (used_entry q used u) 8 \<inter> piece (used_entry q used v) 8 = {}"
proof -
  let ?i = "\<lambda>u. unat (ucast u mod vq_num q)"
  have e: "used_entry q used u = (used + 4) + word_of_nat (8 * ?i u)" for u by (simp add: used_entry_def)
  have le: "8 * ?i u + 8 < 2 ^ 64" for u using unsigned_less [of "ucast u mod vq_num q", where 'a = nat] by simp
  have off: "unat (x - (used + 4)) div 8 = ?i u" if "x \<in> piece (used_entry q used u) 8" for x u
  proof -
    have "unat (x - (used + 4)) = 8 * ?i u + unat (x - used_entry q used u)"
      using that unfolding e by (rule piece_offset) (use le [of u] in simp)
    moreover have "unat (x - used_entry q used u) < 8" using that by (simp add: piece_def)
    ultimately show ?thesis by simp
  qed
  have "?i u \<noteq> ?i v" using assms(2) by (simp add: word_unat_eq_iff)
  then show ?thesis unfolding disjoint_iff using off by metis
qed

lemma given_back_cong:
  assumes "vq_num q \<noteq> 0" and "\<And>x. x \<in> piece (used_entry q used u) 8 \<Longrightarrow> m' x = m x"
  shows "given_back q used u m' d n = given_back q used u m d n"
proof -
  note p = used_entry_piece(1,2) [OF assms(1), of used u]
  have "load 4 (used_entry q used u) m' = load 4 (used_entry q used u) m"
    by (rule load_cong) (use assms(2) p(1) in auto)
  moreover have "load 4 (used_entry q used u + 4) m' = load 4 (used_entry q used u + 4) m"
    by (rule load_cong) (use assms(2) p(2) in auto)
  ultimately show ?thesis by (simp add: given_back_def load32_def)
qed

text \<open>Giving a buffer back to a queue that can be used.\<close>

lemma send_ready:
  assumes ready: "queue_ready i q avail used desc a u s" and sync: "vs_sync_to srv s = Inr s"
  shows "\<exists>m. usfstl_vhost_user_send_virtq_buf srv b i s = Inr (s\<lparr>vd_mem := m, vd_out := vd_out s @ [Call i]\<rparr>) \<and>
    (\<forall>x. x \<notin> piece (used + 2) 2 \<longrightarrow> x \<notin> piece (used_entry q used u) 8 \<longrightarrow> m x = vd_mem s x) \<and>
    (\<forall>x. m x = None \<longleftrightarrow> vd_mem s x = None) \<and>
    load16 (used + 2) m = Inr (u + 1) \<and> given_back q used u m (vb_idx b) (vb_written b)"
proof -
  note q = ready [unfolded queue_ready_def]
  let ?elem = "used_entry q used u"
  have "vq_num q \<noteq> 0" using q by blast
  note p = used_entry_piece [OF this, of used u]
  have area: "piece ?elem 4 \<subseteq> used_area q used" "piece (?elem + 4) 4 \<subseteq> used_area q used"
    "piece (used + 2) 2 \<subseteq> used_area q used"
    using p piece_mono [of 2 "2 + 8 * unat (vq_num q)" "used + 2"] by auto
  have "\<forall>x \<in> piece ?elem (length (le_bytes 4 (ucast (vb_idx b) :: u32))). vd_mem s x \<noteq> None" using q area by auto
  from store_ok [OF this] obtain m1 where m1: "store (le_bytes 4 (ucast (vb_idx b) :: u32)) ?elem (vd_mem s) = Inr m1" by auto
  note n1 = store_mapped [OF m1]
  have "\<forall>x \<in> piece (?elem + 4) (length (le_bytes 4 (word_of_nat (vb_written b) :: u32))). m1 x \<noteq> None" using q area n1 by auto
  from store_ok [OF this] obtain m2 where m2: "store (le_bytes 4 (word_of_nat (vb_written b) :: u32)) (?elem + 4) m1 = Inr m2" by auto
  note n2 = store_mapped [OF m2]
  have "\<forall>x \<in> piece (used + 2) (length (le_bytes 2 (u + 1))). m2 x \<noteq> None" using q area n1 n2 by auto
  from store_ok [OF this] obtain m3 where m3: "store (le_bytes 2 (u + 1)) (used + 2) m2 = Inr m3" by auto
  have "usfstl_vhost_user_send_virtq_buf srv b i s = Inr (s\<lparr>vd_mem := m3, vd_out := vd_out s @ [Call i]\<rparr>)"
    using q m1 [unfolded used_entry_def] m2 [unfolded used_entry_def] m3 [unfolded add.commute [of u 1]]
    by (simp add: usfstl_vhost_user_send_virtq_buf_def sync store32_def store16_def Let_def rassert_def)
  moreover have "m3 x = vd_mem s x" if "x \<notin> piece (used + 2) 2" "x \<notin> piece ?elem 8" for x
    using that p m1 m2 m3 by (auto simp: store_eq_Inr)
  moreover have "m3 x = None \<longleftrightarrow> vd_mem s x = None" for x using store_mapped [OF m3] n1 n2 by simp
  moreover have "load16 (used + 2) m3 = Inr (u + 1)" using m3 by (intro load16_store16) (simp add: store16_def)
  moreover have "given_back q used u m3 (vb_idx b) (vb_written b)"
  proof -
    have "load32 ?elem m1 = Inr (ucast (vb_idx b))" using m1 by (intro load32_store32) (simp add: store32_def)
    moreover have "load32 ?elem m2 = load32 ?elem m1" by (rule load_apart(2) [OF m2]) (use p(5) in auto)
    moreover have "load32 ?elem m3 = load32 ?elem m2" by (rule load_apart(2) [OF m3]) (use p in auto)
    moreover have "load32 (?elem + 4) m2 = Inr (word_of_nat (vb_written b))"
      using m2 by (intro load32_store32) (simp add: store32_def)
    moreover have "load32 (?elem + 4) m3 = load32 (?elem + 4) m2" by (rule load_apart(2) [OF m3]) (use p in auto)
    ultimately show ?thesis by (simp add: given_back_def)
  qed
  ultimately show ?thesis by blast
qed

text \<open>One round: the next announced buffer is taken, given to the handler, and given back.\<close>

lemma round_ready:
  fixes s :: "'z wm_main_scheme wm_device"
  assumes ready: "queue_ready i q avail used desc a u s" and l: "a \<noteq> vq_last_avail_idx q"
    and ann: "announced (\<lambda>x. usfstl_vhost_phys_to_va x s) avail desc (vq_num q)
      (outside (used_area q used) (vd_mem s)) (vq_last_avail_idx q) (d, b)"
    and c: "dev_client s = Some c" and fixed: "fst fixed \<le> 5" "snd fixed \<le> 5"
  shows "\<exists>fixed'. fst fixed' \<le> 5 \<and> snd fixed' \<le> 5 \<and>
    (case wmediumd_vu_handle env c b (wm s) of
      Inl e \<Rightarrow> handle_buffers (Suc f) (wm_server env ack place bytes) i fixed s = Inl e
    | Inr w \<Rightarrow> \<exists>m. handle_buffers (Suc f) (wm_server env ack place bytes) i fixed s =
          handle_buffers f (wm_server env ack place bytes) i fixed'
            ((set_virtq i (q\<lparr>vq_last_avail_idx := vq_last_avail_idx q + 1\<rparr>) s)
              \<lparr>wm := w, vd_mem := m, vd_out := vd_out s @ [Call i]\<rparr>) \<and>
        (\<forall>x. x \<notin> piece (used + 2) 2 \<longrightarrow> x \<notin> piece (used_entry q used u) 8 \<longrightarrow> m x = vd_mem s x) \<and>
        (\<forall>x. m x = None \<longleftrightarrow> vd_mem s x = None) \<and>
        load16 (used + 2) m = Inr (u + 1) \<and> given_back q used u m d 0)"
proof -
  let ?srv = "wm_server env ack place bytes" and ?to_va = "\<lambda>x. usfstl_vhost_phys_to_va x s"
  let ?q = "q\<lparr>vq_last_avail_idx := vq_last_avail_idx q + 1\<rparr>"
  let ?s = "set_virtq i ?q s"
  note r = ready [unfolded queue_ready_def] and le = outside_le [of "used_area q used" "vd_mem s"]
  have q: "virtq_at s i = Inr q" "vq_avail q = Some avail" "vq_desc q = Some desc" "vq_num q \<noteq> 0"
    and idx: "load16 (avail + 2) (vd_mem s) = Inr a" using r load_int_mono(1) [OF _ le] by auto
  obtain ds where d: "load16 (avail + 4 + 2 * ucast (ucast (vq_last_avail_idx q) mod vq_num q))
        (outside (used_area q used) (vd_mem s)) = Inr d" "ucast d < vq_num q"
      "desc_chain desc (outside (used_area q used) (vd_mem s)) d ds" "length ds \<le> 2 ^ 16"
      "\<forall>x \<in> set ds. \<exists>v. ?to_va (fst x) = Inr v"
      "iov_read 4096 (parts (projr \<circ> ?to_va) (filter (\<lambda>d. \<not> device_writes d) ds)) (outside (used_area q used) (vd_mem s)) = Inr b"
    using ann unfolding announced_def prod.case by blast
  have va: "\<forall>x \<in> set ds. ?to_va (fst x) = Inr ((projr \<circ> ?to_va) (fst x))" using d(5) by fastforce
  let ?alloc = "length (filter device_writes ds) > fst fixed \<or> length (filter (\<lambda>d. \<not> device_writes d) ds) > snd fixed"
  let ?b = "\<lparr>vb_in = parts (projr \<circ> ?to_va) (filter device_writes ds),
    vb_out = parts (projr \<circ> ?to_va) (filter (\<lambda>d. \<not> device_writes d) ds), vb_written = 0, vb_idx = d, vb_allocated = ?alloc\<rparr>"
  let ?fixed = "if ?alloc then fixed else (length (vb_in ?b), length (vb_out ?b))"
  have get: "usfstl_vhost_user_get_virtq_buf ?srv i fixed s = Inr (Some ?b, ?s)"
    by (rule get_virtq_buf_chain_state [OF q idx l load_int_mono(1) [OF d(1) le] d(2) desc_chain_mono [OF d(3) le] d(4) va _ fixed])
      simp
  have read: "iov_read 4096 (vb_out ?b) (vd_mem ?s) = Inr b"
    using iov_read_mono [OF d(6) le] by (simp add: set_virtq_def)
  have f5: "fst ?fixed \<le> 5 \<and> snd ?fixed \<le> 5" using fixed by (auto simp: parts_def)
  show ?thesis
  proof (cases "wmediumd_vu_handle env c b (wm s)")
    case (Inl e)
    then have "vu_handle env ?b i ?s = Inl e" using read c by (simp add: vu_handle_def set_virtq_def)
    then have "handle_buffers (Suc f) ?srv i fixed s = Inl e" by (simp add: get)
    then show ?thesis using Inl fixed by auto
  next
    case (Inr w)
    then have h: "vu_handle env ?b i ?s = Inr (?s\<lparr>wm := w\<rparr>)" using read c by (simp add: vu_handle_def set_virtq_def)
    have "queue_ready i ?q avail used desc a u (?s\<lparr>wm := w\<rparr>)"
      using r virtq_at_set [OF q(1), of ?q] by (auto simp: queue_ready_def set_virtq_def virtq_at_def)
    from send_ready [OF this, of ?srv ?b] obtain m where
      m: "usfstl_vhost_user_send_virtq_buf ?srv ?b i (?s\<lparr>wm := w\<rparr>) =
          Inr (?s\<lparr>wm := w, vd_mem := m, vd_out := vd_out s @ [Call i]\<rparr>)"
      "\<forall>x. x \<notin> piece (used + 2) 2 \<longrightarrow> x \<notin> piece (used_entry q used u) 8 \<longrightarrow> m x = vd_mem s x"
      "\<forall>x. m x = None \<longleftrightarrow> vd_mem s x = None"
      "load16 (used + 2) m = Inr (u + 1)" "given_back q used u m d 0"
      by (auto simp: set_virtq_def used_entry_def given_back_def)
    have "handle_buffers (Suc f) ?srv i fixed s =
        handle_buffers f ?srv i ?fixed (?s\<lparr>wm := w, vd_mem := m, vd_out := vd_out s @ [Call i]\<rparr>)"
      by (simp add: get h m(1))
    then show ?thesis using Inr m(2-5) f5 unfolding Inr sum.case by blast
  qed
qed

text \<open>All rounds. What is known of the device when the queue is empty and the buffers \<open>ds\<close> are
  given back: the guest was called once for each, and the used ring has an entry for each, unless
  a later one has taken its place (which needs more buffers than entries). Nothing else was
  written.\<close>

definition drained ::
  "nat \<Rightarrow> virtq \<Rightarrow> u64 \<Rightarrow> u16 \<Rightarrow> u16 \<Rightarrow> u16 list \<Rightarrow> ('j, 'z) vhost_scheme \<Rightarrow> ('j, 'z) vhost_scheme \<Rightarrow> bool" where
  "drained i q used a u ds s t \<longleftrightarrow>
     vd_virtqs t = (vd_virtqs s)[i := q\<lparr>vq_last_avail_idx := a\<rparr>] \<and>
     vd_out t = vd_out s @ replicate (length ds) (Call i) \<and>
     load16 (used + 2) (vd_mem t) = Inr (u + word_of_nat (length ds)) \<and>
     (\<forall>j < length ds.
        (\<forall>k < length ds. j < k \<longrightarrow>
           ucast (u + word_of_nat k) mod vq_num q \<noteq> ucast (u + word_of_nat j) mod vq_num q) \<longrightarrow>
        given_back q used (u + word_of_nat j) (vd_mem t) (ds ! j) 0) \<and>
     (\<forall>x. x \<notin> piece (used + 2) 2 \<longrightarrow>
        (\<forall>j < length ds. x \<notin> piece (used_entry q used (u + word_of_nat j)) 8) \<longrightarrow> vd_mem t x = vd_mem s x)"

lemma drained_cons:
  assumes rest: "drained i (q\<lparr>vq_last_avail_idx := l\<rparr>) used a (u + 1) ds s1 t" and num: "vq_num q \<noteq> 0"
    and s1: "vd_virtqs s1 = (vd_virtqs s)[i := q\<lparr>vq_last_avail_idx := l\<rparr>]" "vd_out s1 = vd_out s @ [Call i]"
    and m: "\<And>x. x \<notin> piece (used + 2) 2 \<Longrightarrow> x \<notin> piece (used_entry q used u) 8 \<Longrightarrow> vd_mem s1 x = vd_mem s x"
    and d: "given_back q used u (vd_mem s1) d 0"
  shows "drained i q used a u (d # ds) s t"
proof -
  have e [simp]: "used_entry (q\<lparr>vq_last_avail_idx := l\<rparr>) used v = used_entry q used v"
    "given_back (q\<lparr>vq_last_avail_idx := l\<rparr>) used v = given_back q used v" for v
    by (simp_all add: used_entry_def given_back_def fun_eq_iff)
  note r = rest [unfolded drained_def e, simplified]
  have idx: "u + word_of_nat (Suc k) = u + 1 + word_of_nat k" for k by simp
  have same: "vd_mem t x = vd_mem s1 x"
    if "x \<notin> piece (used + 2) 2" "\<forall>k < length ds. x \<notin> piece (used_entry q used (u + word_of_nat (Suc k))) 8" for x
    using r that unfolding idx by blast
  have first: "given_back q used u (vd_mem t) d 0"
    if apart: "\<forall>k < length (d # ds). 0 < k \<longrightarrow> ucast (u + word_of_nat k) mod vq_num q \<noteq> ucast u mod vq_num q"
  proof -
    have "vd_mem t x = vd_mem s1 x" if x: "x \<in> piece (used_entry q used u) 8" for x
    proof (rule same)
      show "x \<notin> piece (used + 2) 2" using used_entry_piece(4) [OF num, of used u] x by blast
      show "\<forall>k < length ds. x \<notin> piece (used_entry q used (u + word_of_nat (Suc k))) 8"
        using used_entry_apart [OF num] apart x by (metis Suc_less_eq disjoint_iff length_Cons zero_less_Suc)
    qed
    then show ?thesis using given_back_cong [OF num] d by blast
  qed
  show ?thesis
    unfolding drained_def
  proof (intro conjI allI impI)
    show "vd_virtqs t = (vd_virtqs s)[i := q\<lparr>vq_last_avail_idx := a\<rparr>]"
      using r by (simp add: s1(1))
    show "vd_out t = vd_out s @ replicate (length (d # ds)) (Call i)"
      using r by (simp add: s1(2))
    show "load16 (used + 2) (vd_mem t) = Inr (u + word_of_nat (length (d # ds)))"
      using r by (simp add: add.assoc)
    show "vd_mem t x = vd_mem s x"
      if "x \<notin> piece (used + 2) 2" "\<forall>j < length (d # ds). x \<notin> piece (used_entry q used (u + word_of_nat j)) 8" for x
    proof -
      have "x \<notin> piece (used_entry q used u) 8" using that(2) [rule_format, of 0] by simp
      moreover have "x \<notin> piece (used_entry q used (u + word_of_nat (Suc k))) 8" if "k < length ds" for k
        using \<open>\<forall>j < length (d # ds). _ j\<close> [rule_format, of "Suc k"] that by simp
      ultimately show ?thesis using same [OF that(1)] m [OF that(1)] by simp
    qed
    show "given_back q used (u + word_of_nat j) (vd_mem t) ((d # ds) ! j) 0"
      if j: "j < length (d # ds)" and apart: "\<forall>k < length (d # ds). j < k \<longrightarrow>
        ucast (u + word_of_nat k) mod vq_num q \<noteq> ucast (u + word_of_nat j) mod vq_num q" for j
    proof (cases j)
      case 0
      then show ?thesis using first apart by simp
    next
      case (Suc i)
      then have "\<forall>k < length ds. i < k \<longrightarrow> ucast (u + 1 + word_of_nat k) mod vq_num q \<noteq>
          ucast (u + 1 + word_of_nat i) mod vq_num q"
        using apart [rule_format, of "Suc _", unfolded Suc idx] by simp
      then show ?thesis using r j unfolding Suc idx by simp
    qed
  qed
qed

text \<open>The number of entries of a ring is a power of two; then every buffer has its entry, as long as
  there are not more buffers than entries.\<close>

lemma drained_entries:
  assumes "drained i q used a u ds s t" and "vq_num q = word_of_nat n" and "n dvd 2 ^ 16"
    and "length ds \<le> n" and j: "j < length ds"
  shows "given_back q used (u + word_of_nat j) (vd_mem t) (ds ! j) 0"
proof -
  have "n \<noteq> 0" using assms(4) j by auto
  have "n \<le> 2 ^ 16" using assms(3) by (rule dvd_imp_le) simp
  then have num: "unat (vq_num q) = n" using assms(2) by (simp add: unsigned_of_nat take_bit_nat_eq_self)
  have val: "unat (ucast (u + word_of_nat k) mod vq_num q) = (unat u + k) mod n" for k
  proof -
    have "unat (u + word_of_nat k) = (unat u + k) mod 2 ^ 16"
      by (simp add: unat_word_ariths unsigned_of_nat take_bit_eq_mod mod_simps)
    moreover have "unat (ucast (u + word_of_nat k) :: u32) = unat (u + word_of_nat k)" by (rule unat_ucast_up) simp
    ultimately show ?thesis using assms(3) by (simp add: unat_mod_distrib num mod_mod_cancel)
  qed
  have "ucast (u + word_of_nat k) mod vq_num q \<noteq> ucast (u + word_of_nat j) mod vq_num q"
    if k: "k < length ds" "j < k" for k
  proof
    assume "ucast (u + word_of_nat k) mod vq_num q = ucast (u + word_of_nat j) mod vq_num q"
    then have "(unat u + k) mod n = (unat u + j) mod n" using val by metis
    then have "n dvd (unat u + k) - (unat u + j)" using k by (intro mod_eq_dvd_iff_nat [THEN iffD1]) auto
    then have "n dvd k - j" by simp
    then have "n \<le> k - j" using k(2) by (intro dvd_imp_le) simp_all
    then show False using k assms(4) by simp
  qed
  then show ?thesis using assms(1) j unfolding drained_def by blast
qed

lemma handle_announced:
  fixes s :: "'z wm_main_scheme wm_device"
  assumes "queue_ready i q avail used desc a u s" and "length bs = unat (a - vq_last_avail_idx q)" and "length bs < f"
    and "\<forall>j < length bs. announced (\<lambda>x. usfstl_vhost_phys_to_va x s) avail desc (vq_num q)
      (outside (used_area q used) (vd_mem s)) (vq_last_avail_idx q + word_of_nat j) (bs ! j)"
    and "dev_client s = Some c" and "fst fixed \<le> 5" and "snd fixed \<le> 5"
  shows "case rfold (wmediumd_vu_handle env c) (map snd bs) (wm s) of
      Inl e \<Rightarrow> handle_buffers f (wm_server env ack place bytes) i fixed s = Inl e
    | Inr w \<Rightarrow> \<exists>t. handle_buffers f (wm_server env ack place bytes) i fixed s = Inr t \<and> wm t = w \<and>
        drained i q used a u (map fst bs) s t"
  using assms
proof (induction bs arbitrary: s q u f fixed)
  case Nil
  obtain f' where f: "f = Suc f'" using Nil.prems(3) by (cases f) simp_all
  have q: "virtq_at s i = Inr q" "vq_avail q = Some avail" "load16 (avail + 2) (vd_mem s) = Inr a"
    "load16 (used + 2) (vd_mem s) = Inr u"
    using Nil.prems(1) load_int_mono(1) [OF _ outside_le] unfolding queue_ready_def by blast+
  have "unat (a - vq_last_avail_idx q) = 0" using Nil.prems(2) by simp
  then have l: "vq_last_avail_idx q = a" by (simp add: unat_eq_0)
  have "handle_buffers f (wm_server env ack place bytes) i fixed s = Inr s"
    using q l by (simp add: f usfstl_vhost_user_get_virtq_buf_def)
  moreover have "vd_virtqs s = (vd_virtqs s)[i := q\<lparr>vq_last_avail_idx := a\<rparr>]"
    using q(1) by (auto simp: l [symmetric] virtq_at_def nth_result_def split: if_splits)
  ultimately show ?case using q(4) by (simp add: drained_def)
next
  case (Cons p bs)
  obtain d b where p: "p = (d, b)" by (cases p)
  let ?srv = "wm_server env ack place bytes"
  let ?l = "vq_last_avail_idx q"
  let ?q = "q\<lparr>vq_last_avail_idx := ?l + 1\<rparr>"
  obtain f' where f: "f = Suc f'" "length bs < f'" using Cons.prems(3) by (cases f) simp_all
  have al: "a \<noteq> ?l" using Cons.prems(2) by auto
  have num: "vq_num q \<noteq> 0" using Cons.prems(1) unfolding queue_ready_def by blast
  have "unat ((a - ?l) - 1) = unat (a - ?l) - 1" using al by (intro unat_minus_one) simp
  then have len: "length bs = unat (a - (?l + 1))" using Cons.prems(2) by (simp add: diff_diff_eq)
  have "announced (\<lambda>x. usfstl_vhost_phys_to_va x s) avail desc (vq_num q) (outside (used_area q used) (vd_mem s)) ?l (d, b)"
    using Cons.prems(4) [rule_format, of 0] by (simp add: p)
  from round_ready [OF Cons.prems(1) al this Cons.prems(5-7), where env = env and f = f' and ack = ack and place = place and bytes = bytes]
  obtain fixed' where fixed': "fst fixed' \<le> 5" "snd fixed' \<le> 5" and
    step: "case wmediumd_vu_handle env c b (wm s) of
      Inl e \<Rightarrow> handle_buffers (Suc f') ?srv i fixed s = Inl e
    | Inr w \<Rightarrow> \<exists>m. handle_buffers (Suc f') ?srv i fixed s =
          handle_buffers f' ?srv i fixed' ((set_virtq i ?q s)\<lparr>wm := w, vd_mem := m, vd_out := vd_out s @ [Call i]\<rparr>) \<and>
        (\<forall>x. x \<notin> piece (used + 2) 2 \<longrightarrow> x \<notin> piece (used_entry q used u) 8 \<longrightarrow> m x = vd_mem s x) \<and>
        (\<forall>x. m x = None \<longleftrightarrow> vd_mem s x = None) \<and>
        load16 (used + 2) m = Inr (u + 1) \<and> given_back q used u m d 0"
    by blast
  show ?case
  proof (cases "wmediumd_vu_handle env c b (wm s)")
    case (Inl e)
    then show ?thesis using step by (simp add: f(1) p)
  next
    case (Inr w)
    then obtain m where m: "handle_buffers (Suc f') ?srv i fixed s =
          handle_buffers f' ?srv i fixed' ((set_virtq i ?q s)\<lparr>wm := w, vd_mem := m, vd_out := vd_out s @ [Call i]\<rparr>)"
        "\<And>x. x \<notin> piece (used + 2) 2 \<Longrightarrow> x \<notin> piece (used_entry q used u) 8 \<Longrightarrow> m x = vd_mem s x"
        "\<And>x. m x = None \<longleftrightarrow> vd_mem s x = None" "load16 (used + 2) m = Inr (u + 1)" "given_back q used u m d 0"
      using step by auto
    let ?s = "(set_virtq i ?q s)\<lparr>wm := w, vd_mem := m, vd_out := vd_out s @ [Call i]\<rparr>"
    have "piece (used + 2) 2 \<subseteq> used_area q used" by (rule piece_mono) simp
    then have out: "outside (used_area q used) m = outside (used_area q used) (vd_mem s)"
      using used_entry_piece(3) [OF num, of used u] by (intro outside_same m(2)) auto
    have ready: "queue_ready i ?q avail used desc a (u + 1) ?s"
      using Cons.prems(1) virtq_at_set [of s i q ?q] m(3,4) out
      by (auto simp: queue_ready_def set_virtq_def virtq_at_def)
    have va: "(\<lambda>x. usfstl_vhost_phys_to_va x ?s) = (\<lambda>x. usfstl_vhost_phys_to_va x s)"
      by (simp add: usfstl_vhost_phys_to_va_def translate_def set_virtq_def)
    have ann: "\<forall>j < length bs. announced (\<lambda>x. usfstl_vhost_phys_to_va x ?s) avail desc (vq_num ?q)
      (outside (used_area ?q used) (vd_mem ?s)) (vq_last_avail_idx ?q + word_of_nat j) (bs ! j)"
    proof (intro allI impI)
      fix j assume "j < length bs"
      then show "announced (\<lambda>x. usfstl_vhost_phys_to_va x ?s) avail desc (vq_num ?q)
          (outside (used_area ?q used) (vd_mem ?s)) (vq_last_avail_idx ?q + word_of_nat j) (bs ! j)"
        using Cons.prems(4) [rule_format, of "Suc j"] unfolding va by (simp add: out [simplified] add.assoc)
    qed
    have IH: "case rfold (wmediumd_vu_handle env c) (map snd bs) w of
        Inl e \<Rightarrow> handle_buffers f' ?srv i fixed' ?s = Inl e
      | Inr w' \<Rightarrow> \<exists>t. handle_buffers f' ?srv i fixed' ?s = Inr t \<and> wm t = w' \<and>
          drained i ?q used a (u + 1) (map fst bs) ?s t"
      using Cons.IH [OF ready _ f(2) ann _ fixed'] len Cons.prems(5) by (simp add: set_virtq_def)
    have drained: "drained i q used a u (map fst (p # bs)) s t" if "drained i ?q used a (u + 1) (map fst bs) ?s t" for t
      unfolding p list.map fst_conv
      by (rule drained_cons [OF that num]) (use m(2,5) in \<open>simp_all add: set_virtq_def\<close>)
    show ?thesis
      using IH drained unfolding f(1) m(1)
      by (cases "rfold (wmediumd_vu_handle env c) (map snd bs) w") (auto simp: Inr p)
  qed
qed

text \<open>Claim C13: a kick of the transmit queue hands the announced messages of the guest to the medium, each
  once, in the order of the ring, and gives their buffers back: the medium is as if
  \<open>wmediumd_vu_handle\<close> had been called with the first 4096 bytes of each chain. The queue is then
  empty, the used index has advanced by the number of messages, and the entries of the used ring
  hold the heads of the chains in this order, with no byte written (where a later buffer has
  not taken the place of an earlier one; \<open>drained_entries\<close> shows that this needs more buffers than entries). The guest
  was called once for each buffer, and nothing but the used index and these entries was written.
  If the medium fails on a message, so does the kick. The guest is called out of band (\<open>queue_ready\<close>
  asks for the call descriptor), and it does not place its announcements inside the used ring.\<close>

theorem kick_hands_over:
  fixes s :: "'z wm_main_scheme wm_device"
  assumes ready: "queue_ready 0 q avail used desc a u s" and len: "length bs = unat (a - vq_last_avail_idx q)"
    and msgs: "\<forall>j < length bs. announced (\<lambda>x. usfstl_vhost_phys_to_va x s) avail desc (vq_num q)
      (outside (used_area q used) (vd_mem s)) (vq_last_avail_idx q + word_of_nat j) (bs ! j)"
    and c: "dev_client s = Some c" and rx: "virtq_at s 1 = Inr p" "\<not> vq_triggered p"
    and job: "\<not> usfstl_job_scheduled () s"
  shows "case rfold (wmediumd_vu_handle env c) (map snd bs) (wm s) of
      Inl e \<Rightarrow> usfstl_vhost_user_virtq_fdkick (wm_server env ack place bytes) 0 s = Inl e
    | Inr w \<Rightarrow> \<exists>t. usfstl_vhost_user_virtq_fdkick (wm_server env ack place bytes) 0 s = Inr t \<and> wm t = w \<and>
        drained 0 (q\<lparr>vq_triggered := False\<rparr>) used a u (map fst bs) s t"
proof -
  let ?srv = "wm_server env ack place bytes"
  let ?q = "q\<lparr>vq_triggered := False\<rparr>"
  let ?s = "set_virtq 0 ?q s"
  have q: "virtq_at s 0 = Inr q" using ready by (simp add: queue_ready_def)
  have kick: "usfstl_vhost_user_virtq_fdkick ?srv 0 s = rbind (usfstl_vhost_user_handle_queue ?srv 0 ?s) (run_triggered ?srv 1)"
    using q virtq_at_set [OF q, of "q\<lparr>vq_triggered := True\<rparr>"] job
    by (simp add: rfold_one usfstl_vhost_user_virtq_fdkick_def usfstl_vhost_user_virtq_kick_def has_feature_def
        usfstl_vhost_user_job_callback_def run_triggered_def [abs_def] upt_rec set_virtq_def usfstl_job_scheduled_def)
  have va: "(\<lambda>x. usfstl_vhost_phys_to_va x ?s) = (\<lambda>x. usfstl_vhost_phys_to_va x s)" by simp
  have ready': "queue_ready 0 ?q avail used desc a u ?s"
    using ready virtq_at_set [OF q, of ?q] by (simp add: queue_ready_def set_virtq_def)
  have n: "length bs < 2 ^ 16" using unsigned_less [of "a - vq_last_avail_idx q", where 'a = nat] len by simp
  have h: "case rfold (wmediumd_vu_handle env c) (map snd bs) (wm s) of
      Inl e \<Rightarrow> usfstl_vhost_user_handle_queue ?srv 0 ?s = Inl e
    | Inr w \<Rightarrow> \<exists>t. usfstl_vhost_user_handle_queue ?srv 0 ?s = Inr t \<and> wm t = w \<and> drained 0 ?q used a u (map fst bs) ?s t"
    using handle_announced [OF ready' _ n, of c "(5, 5)" env ack place bytes] len msgs c
    unfolding usfstl_vhost_user_handle_queue_def va by (simp add: set_virtq_def)
  have idle: "run_triggered ?srv 1 t = Inr t \<and> drained 0 ?q used a u (map fst bs) s t"
    if "drained 0 ?q used a u (map fst bs) ?s t" for t
  proof -
    have "virtq_at t 1 = Inr p" using that rx(1) by (simp add: drained_def set_virtq_def virtq_at_def nth_result_def split: if_splits)
    then show ?thesis using that rx(2) by (simp add: run_triggered_def drained_def set_virtq_def)
  qed
  show ?thesis
    using h idle unfolding kick by (cases "rfold (wmediumd_vu_handle env c) (map snd bs) (wm s)") auto
qed

text \<open>The device of the example is that of a client.\<close>

definition example_device :: "wm_main wm_device" where
  "example_device = example_vhost (wm_device.fields (Some 0) (example_main []))"

abbreviation (input) example_wm_server :: "(unit, wm_main wm_device) vhost_server" where
  "example_wm_server \<equiv> wm_server (standalone_env (\<lambda>_. 0) (\<lambda>_. None) (\<lambda>_. None) (\<lambda>_. None) (\<lambda>_. True) (\<lambda>_. None))
     True (\<lambda>_ _. 16384) (\<lambda>_ _. 0)"

lemma example_device_sel:
  "virtq_at example_device 0 = Inr example_queue" "virtq_at example_device 1 = Inr example_rx_queue"
  "vd_mem example_device = example_memory" "dev_client example_device = Some 0" "wm example_device = example_main []"
  "joblist example_device = []" "pending_jobs example_device = []" "vd_out example_device = []"
  by (simp_all add: example_device_def example_virtq) (simp_all add: example_vhost_def wm_device.defs virtq_at_def nth_result_def)

lemma example_ready: "queue_ready 0 example_queue 4096 4160 4224 1 0 example_device"
proof -
  have area: "used_area example_queue 4160 = piece 4162 34" by (simp add: example_queue_def)
  have "\<forall>x \<in> piece 4162 34. example_memory x \<noteq> None"
    by (simp add: piece_set upt_rec) (simp add: example_memory_def)
  then show ?thesis
    using example_outside(1) example_loads(6) unfolding queue_ready_def area
    by (simp add: example_device_sel) (simp add: example_queue_def)
qed



lemma kick_hands_over_witness:
  "\<exists>t. usfstl_vhost_user_virtq_fdkick example_wm_server 0 example_device = Inr t \<and>
     wm t = example_main [] \<and> vd_out t = [Call 0] \<and> load16 4162 (vd_mem t) = Inr 1 \<and>
     load32 4164 (vd_mem t) = Inr 0 \<and> load32 4168 (vd_mem t) = Inr 0"
proof -
  have l: "vq_last_avail_idx example_queue = 0" "vq_num example_queue = 4" by (simp_all add: example_queue_def)
  have ann: "announced (\<lambda>x. usfstl_vhost_phys_to_va x example_device) 4096 4224 4
      (outside (piece 4162 34) example_memory) 0 (0, [7, 8, 9])"
    using example_chain(1) example_chain(3) [of "wm_device.fields (Some 0) (example_main [])"] example_outside(2,6)
    unfolding announced_def prod.case
    by (intro exI [of _ "[(256, 3, 0)]"])
      (simp add: parts_def device_writes_def example_device_def del: desc_chain.simps)
  have len: "length [(0 :: u16, [7, 8, 9 :: u8])] = unat (1 - vq_last_avail_idx example_queue)" by (simp add: l)
  have msgs: "\<forall>j < length [(0, [7, 8, 9])]. announced (\<lambda>x. usfstl_vhost_phys_to_va x example_device) 4096 4224 (vq_num example_queue)
      (outside (used_area example_queue 4160) (vd_mem example_device)) (vq_last_avail_idx example_queue + word_of_nat j)
      ([(0, [7, 8, 9])] ! j)"
    using ann by (simp add: l example_device_sel)
  have rx: "\<not> vq_triggered example_rx_queue" and job: "\<not> usfstl_job_scheduled () example_device"
    by (simp_all add: example_rx_queue_def usfstl_job_scheduled_def example_device_sel)
  show ?thesis
    using kick_hands_over [OF example_ready len msgs example_device_sel(4,2) rx job,
        where env = "standalone_env (\<lambda>_. 0) (\<lambda>_. None) (\<lambda>_. None) (\<lambda>_. None) (\<lambda>_. True) (\<lambda>_. None)"
          and ack = True and place = "\<lambda>_ _. 16384" and bytes = "\<lambda>_ _. 0"]
    by (auto simp: wmediumd_vu_handle_def standalone_env_def example_device_sel drained_def
        given_back_def used_entry_def l)
qed

section \<open>A message for the guest\<close>

lemma ready_ring:
  assumes "queue_ready i q avail used desc a u s"
  shows "ring_state i avail used (vq_num q) a (vq_last_avail_idx q) u s" and "rings_apart avail used (vq_num q)"
proof -
  note r = assms [unfolded queue_ready_def]
  show "ring_state i avail used (vq_num q) a (vq_last_avail_idx q) u s"
    using r load_int_mono(1) [OF _ outside_le] unfolding ring_state_def by blast
  obtain bs where "load 2 (avail + 2) (outside (used_area q used) (vd_mem s)) = Inr bs"
    using r by (auto simp: load16_def rbind_eq_Inr)
  then have "avail + 2 + word_of_nat i \<notin> used_area q used" if "i < 2" for i
    using that unfolding load_eq_Inr outside_def by (metis option.distinct(1))
  then show "rings_apart avail used (vq_num q)" unfolding rings_apart_def using piece_set [of 2 "avail + 2"] by auto
qed

text \<open>Claim C14: a message for a device whose receive queue is enabled and has a buffer for it is put
  into the memory of that buffer, as far as it goes, and the buffer is given to the guest with the
  length of the message; the guest is called, the medium is not changed, and the next message
  takes the next buffer.\<close>

theorem vu_send_delivers:
  fixes s :: "'z wm_main_scheme wm_device"
  assumes ready: "queue_ready 1 q avail used desc a u s" "vq_enabled q" "a \<noteq> vq_last_avail_idx q"
    and ring: "load16 (avail + 4 + 2 * ucast (ucast (vq_last_avail_idx q) mod vq_num q)) (vd_mem s) = Inr d" "ucast d < vq_num q"
    and chain: "desc_chain desc (vd_mem s) d ds" "length ds \<le> 2 ^ 16" "\<forall>x \<in> set ds. device_writes x"
    and va: "\<forall>x \<in> set ds. usfstl_vhost_phys_to_va (fst x) s = Inr (va (fst x))"
    and mem: "\<forall>x \<in> pieces (parts va ds). vd_mem s x \<noteq> None" "disjoint_pieces (parts va ds)"
      "pieces (parts va ds) \<inter> piece (avail + 2) 2 = {}" "pieces (parts va ds) \<inter> used_area q used = {}"
  shows "\<exists>t. vu_send (wm_server env ack place bytes) nlmsg m s = Inr t \<and> wm t = wm s \<and> vd_out t = vd_out s @ [Call 1] \<and>
    iov_read (min (length (nlmsg m)) (iov_len (parts va ds))) (parts va ds) (vd_mem t) =
      Inr (take (iov_len (parts va ds)) (nlmsg m)) \<and>
    ring_state 1 avail used (vq_num q) a (vq_last_avail_idx q + 1) (u + 1) t \<and>
    load32 (used + 4 + 8 * ucast (ucast u mod vq_num q)) (vd_mem t) = Inr (ucast d) \<and>
    load32 (used + 4 + 8 * ucast (ucast u mod vq_num q) + 4) (vd_mem t) = Inr (word_of_nat (length (nlmsg m)))"
proof -
  let ?srv = "wm_server env ack place bytes" and ?sg = "parts va ds" and ?data = "nlmsg m"
  let ?q = "q\<lparr>vq_last_avail_idx := vq_last_avail_idx q + 1\<rparr>"
  let ?s = "set_virtq 1 ?q s"
  note r = ready(1) [unfolded queue_ready_def] and rr = ready_ring [OF ready(1)]
  have q: "virtq_at s 1 = Inr q" "vq_avail q = Some avail" "vq_desc q = Some desc" "vq_num q \<noteq> 0"
    and idx: "load16 (avail + 2) (vd_mem s) = Inr a" using r load_int_mono(1) [OF _ outside_le] by blast+
  have all: "filter device_writes ds = ds" "filter (\<lambda>d. \<not> device_writes d) ds = []" using chain(3) by (simp_all add: filter_id_conv filter_empty_conv)
  have "vs_guest ?srv (vd_mem s) = vd_mem s" by simp
  from get_virtq_buf_chain [OF q idx ready(3) ring chain(1,2) va this, of "(5, 5)"] obtain alloc where
    get: "usfstl_vhost_user_get_virtq_buf ?srv 1 (5, 5) s =
      Inr (Some \<lparr>vb_in = ?sg, vb_out = [], vb_written = 0, vb_idx = d, vb_allocated = alloc\<rparr>, ?s)"
    unfolding all by (auto simp: parts_def)
  let ?b = "\<lparr>vb_in = ?sg, vb_out = [], vb_written = 0, vb_idx = d, vb_allocated = alloc\<rparr>"
  have ne: "?sg \<noteq> []" using chain(1) by (cases ds) (auto simp: parts_def)
  from iov_fill_read [OF mem(1,2), of ?data] obtain m' where
    fill: "iov_fill ?sg ?data (vd_mem s) = Inr (min (length ?data) (iov_len ?sg), m')" by blast
  have m': "m' x = vd_mem s x" if "x \<notin> pieces ?sg" for x by (rule iov_fill_frame [OF fill that])
  have idx': "load16 (avail + 2) (outside (used_area q used) m') = load16 (avail + 2) (outside (used_area q used) (vd_mem s))"
    "load16 (used + 2) m' = load16 (used + 2) (vd_mem s)"
  proof -
    have "piece (used + 2) 2 \<subseteq> used_area q used" by (rule piece_mono) simp
    then have "load 2 (used + 2) m' = load 2 (used + 2) (vd_mem s)" using mem(4) m' by (intro load_cong) auto
    moreover have "load 2 (avail + 2) (outside (used_area q used) m') = load 2 (avail + 2) (outside (used_area q used) (vd_mem s))"
      using mem(3) m' by (intro load_cong) (auto simp: outside_def)
    ultimately show "load16 (avail + 2) (outside (used_area q used) m') = load16 (avail + 2) (outside (used_area q used) (vd_mem s))"
      "load16 (used + 2) m' = load16 (used + 2) (vd_mem s)" by (simp_all add: load16_def)
  qed
  have "m' x = vd_mem s x" if "x \<in> used_area q used" for x using m' mem(4) that by blast
  then have "queue_ready 1 ?q avail used desc a u (?s\<lparr>vd_mem := m'\<rparr>)"
    using r idx' virtq_at_set [OF q(1), of ?q] by (auto simp: queue_ready_def set_virtq_def virtq_at_def)
  from send_ready [OF this, of ?srv "?b\<lparr>vb_written := length ?data\<rparr>"] obtain m2 where
    send: "usfstl_vhost_user_send_virtq_buf ?srv (?b\<lparr>vb_written := length ?data\<rparr>) 1 (?s\<lparr>vd_mem := m'\<rparr>) =
      Inr (?s\<lparr>vd_mem := m2, vd_out := vd_out s @ [Call 1]\<rparr>)"
    by (auto simp: set_virtq_def)
  let ?t = "?s\<lparr>vd_mem := m2, vd_out := vd_out s @ [Call 1]\<rparr>"
  have run: "usfstl_vhost_user_dev_notify ?srv 1 ?data s = Inr ?t"
    using q(1) ready(2) get fill send ne by (simp add: usfstl_vhost_user_dev_notify_def)
  have sel: "wm ?t = wm s" "vd_out ?t = vd_out s @ [Call 1]" by (simp_all add: set_virtq_def)
  show ?thesis
    unfolding vu_send_def run
    using vu.dev_notify_delivers [OF run q(1) ready(2) rr get, unfolded vhost_buf.simps, OF mem] sel by blast
qed

lemma example_rx_loads:
  "load16 4610 (outside (piece 4674 34) example_memory) = Inr 1" "load16 4612 example_memory = Inr 0"
  "load64 4736 example_memory = Inr 1024" "load32 4744 example_memory = Inr 4"
  "desc_link 4736 0 example_memory = Inr (2, 0)" "load16 4674 example_memory = Inr 0"
  by (simp_all add: load16_def load32_def load64_def desc_link_def load_def upt_rec example_memory_def outside_def piece_def)

lemma example_rx_ready: "queue_ready 1 example_rx_queue 4608 4672 4736 1 0 example_device"
proof -
  have area: "used_area example_rx_queue 4672 = piece 4674 34" by (simp add: example_rx_queue_def)
  have "\<forall>x \<in> piece 4674 34. example_memory x \<noteq> None"
    by (simp add: piece_set upt_rec) (simp add: example_memory_def)
  then show ?thesis
    using example_rx_loads(1,6) example_device_sel(2) unfolding queue_ready_def area
    by (simp add: example_device_sel) (simp add: example_rx_queue_def)
qed

lemma vu_send_delivers_witness:
  "\<exists>t. vu_send example_wm_server (\<lambda>_. [1, 2, 3]) (Response 1) example_device = Inr t \<and> vd_out t = [Call 1] \<and>
     iov_read 3 [(5120, 4)] (vd_mem t) = Inr [1, 2, 3]"
proof -
  have q: "vq_enabled example_rx_queue" "1 \<noteq> vq_last_avail_idx example_rx_queue" "vq_num example_rx_queue = 4"
    "vq_last_avail_idx example_rx_queue = 0"
    by (simp_all add: example_rx_queue_def)
  have ring: "load16 (4608 + 4 + 2 * ucast (ucast (vq_last_avail_idx example_rx_queue) mod vq_num example_rx_queue))
      (vd_mem example_device) = Inr 0" "ucast (0 :: u16) < vq_num example_rx_queue"
    and chain: "desc_chain 4736 (vd_mem example_device) 0 [(1024, 4, 2)]"
    using example_rx_loads by (simp_all add: q example_device_sel)
  have writes: "\<forall>x \<in> set [(1024 :: u64, 4 :: u32, 2 :: u16)]. device_writes x" by (simp add: device_writes_def)
  have r: "replicate 8 r = r # replicate 7 r" for r :: vhost_region by (simp add: eval_nat_numeral)
  have va: "\<forall>x \<in> set [(1024 :: u64, 4 :: u32, 2 :: u16)]. usfstl_vhost_phys_to_va (fst x) example_device = Inr (fst x + 4096)"
    by (simp add: usfstl_vhost_phys_to_va_def translate_def example_device_def example_vhost_def r)
  have sg: "parts (\<lambda>x. x + 4096) [(1024, 4, 2)] = [(5120, 4)]" by (simp add: parts_def)
  have mem: "\<forall>x \<in> pieces [(5120, 4)]. vd_mem example_device x \<noteq> None" "disjoint_pieces [(5120, 4)]"
    "pieces [(5120, 4)] \<inter> piece (4608 + 2) 2 = {}" "pieces [(5120, 4)] \<inter> used_area example_rx_queue 4672 = {}"
    by (simp_all add: piece_set upt_rec example_device_sel q(3)) (simp add: example_memory_def)
  have n: "min (length [1, 2, 3 :: u8]) (iov_len [(5120, 4)]) = 3" "take (iov_len [(5120, 4)]) [1, 2, 3 :: u8] = [1, 2, 3]"
    by simp_all
  have len: "length [(1024 :: u64, 4 :: u32, 2 :: u16)] \<le> 2 ^ 16" by simp
  from vu_send_delivers [OF example_rx_ready q(1,2) ring chain len writes va, unfolded sg, OF mem, of
      "standalone_env (\<lambda>_. 0) (\<lambda>_. None) (\<lambda>_. None) (\<lambda>_. None) (\<lambda>_. True) (\<lambda>_. None)" True "\<lambda>_ _. 16384" "\<lambda>_ _. 0"
      "\<lambda>_. [1, 2, 3]" "Response 1"]
  show ?thesis unfolding n example_device_sel(8) append.simps by blast
qed

section \<open>The life of a device\<close>

text \<open>Claim C15: from its connection on, whatever messages, kicks and notifications follow, a device keeps
  its shape: arrays of their lengths, exactly the announced regions mapped and all their memory
  accessible, each entry once in the event loop, and every queue in the loop with a descriptor.\<close>

theorem device_keeps_shape:
  assumes "device_run (wm_server env ack place bytes) s"
  shows "vhost_inv (wm_server env ack place bytes) s"
  using assms by (rule vu.device_run_inv)

text \<open>Claim C16: a guest address that the device can translate, by physical or by user address, is one that
  the program can access, unless a region wraps around the address space.\<close>

theorem translated_address_mapped:
  assumes "device_run (wm_server env ack place bytes) s"
    and "usfstl_vhost_phys_to_va a s = Inr v \<or> usfstl_vhost_user_to_va a s = Inr v"
    and "\<forall>r \<in> set (vd_regions s). unat (region_size r) + unat (mmap_offset r) < 2 ^ 64 \<and>
      unat (guest_phys_addr r) + unat (region_size r) < 2 ^ 64 \<and> unat (user_addr r) + unat (region_size r) < 2 ^ 64"
  shows "vd_mem s v \<noteq> None"
  using assms(2)
proof
  assume "usfstl_vhost_phys_to_va a s = Inr v"
  from vu.translate_mapped [OF this [unfolded usfstl_vhost_phys_to_va_def] vu.device_run_inv [OF assms(1)]]
  show ?thesis using assms(3) by blast
next
  assume "usfstl_vhost_user_to_va a s = Inr v"
  from vu.translate_mapped [OF this [unfolded usfstl_vhost_user_to_va_def] vu.device_run_inv [OF assms(1)]]
  show ?thesis using assms(3) by blast
qed

text \<open>A device whose guest announced one region.\<close>

definition example_table :: vhost_input where
  "example_table = \<lparr>vi_hdr = Some (le_bytes 4 (5 :: u32) @ le_bytes 4 (1 :: u32) @ le_bytes 4 (40 :: u32)),
     vi_data = Some (le_bytes 8 (1 :: u64) @ le_bytes 8 (0 :: u64) @ le_bytes 8 (4096 :: u64) @ le_bytes 8 (0 :: u64) @
       le_bytes 8 (0 :: u64)), vi_fds = Some [9], vi_sent = []\<rparr>"

definition example_payload :: "u8 list" where
  "example_payload = [1, 0, 0, 0, 0, 0, 0, 0, 0, 0, 0, 0, 0, 0, 0, 0, 0, 16, 0, 0, 0, 0, 0, 0,
     0, 0, 0, 0, 0, 0, 0, 0, 0, 0, 0, 0, 0, 0, 0, 0]"

lemma example_table_read:
  "usfstl_vhost_user_read_msg 520 example_table = Inr (Some \<lparr>vm_request = 5, vm_flags = 1,
     vm_payload = example_payload\<rparr>)"
  by code_simp

lemma example_region:
  "regions_at [0] \<lparr>vm_request = 5, vm_flags = 1,
     vm_payload = example_payload\<rparr> = Inr [\<lparr>guest_phys_addr = 0, region_size = 4096, user_addr = 0, mmap_offset = 0\<rparr>]"
  by code_simp

lemma example_connected:
  "\<exists>s. usfstl_vhost_user_connected example_wm_server example_device = Inr s \<and> vd_n_regions s = 0 \<and>
    vd_regions s = replicate 8 \<lparr>guest_phys_addr = 0, region_size = 0, user_addr = 0, mmap_offset = 0\<rparr> \<and>
    vd_region_fds s = replicate 8 (- 1) \<and> vd_region_vaddr s = replicate 8 None"
  by (simp add: usfstl_vhost_user_connected_def wm_server_def vu_connected_def wmediumd_vu_connected_def Let_def)

lemma clear_unmapped:
  "\<forall>i \<in> set is. i < 8 \<Longrightarrow> vd_region_vaddr s = replicate 8 None \<Longrightarrow> vd_region_fds s = replicate 8 (- 1) \<Longrightarrow>
   length (vd_regions s) = 8 \<Longrightarrow> rfold clear_mapping is s = Inr s"
proof (induction "is")
  case (Cons i "is")
  then have "(vd_region_fds s)[i := - 1] = vd_region_fds s" by (simp add: list_update_same_conv)
  then have "clear_mapping i s = Inr s" using Cons.prems by (simp add: clear_mapping_def nth_result_def Let_def)
  then show ?case using Cons by simp
qed simp

lemma example_table_handled:
  "\<exists>s t. usfstl_vhost_user_connected example_wm_server example_device = Inr s \<and>
     usfstl_vhost_user_handle_msg example_wm_server example_table s = Inr (False, t) \<and>
     usfstl_vhost_phys_to_va 256 t = Inr 16640 \<and>
     (\<forall>r \<in> set (vd_regions t). unat (region_size r) + unat (mmap_offset r) < 2 ^ 64 \<and>
      unat (guest_phys_addr r) + unat (region_size r) < 2 ^ 64 \<and> unat (user_addr r) + unat (region_size r) < 2 ^ 64)"
proof -
  let ?r = "\<lparr>guest_phys_addr = 0, region_size = 4096, user_addr = 0, mmap_offset = 0\<rparr> :: vhost_region"
  let ?z = "\<lparr>guest_phys_addr = 0, region_size = 0, user_addr = 0, mmap_offset = 0\<rparr> :: vhost_region"
  let ?msg = "\<lparr>vm_request = 5, vm_flags = 1, vm_payload = example_payload\<rparr>"
  obtain s :: "wm_main wm_device" where s: "usfstl_vhost_user_connected example_wm_server example_device = Inr s" "vd_n_regions s = 0"
    "vd_regions s = replicate 8 ?z" "vd_region_fds s = replicate 8 (- 1)" "vd_region_vaddr s = replicate 8 None"
    using example_connected by blast
  have r8: "replicate 8 x = x # replicate 7 x" for x :: 'x by (simp add: eval_nat_numeral)
  have clear: "usfstl_vhost_user_clear_mappings s = Inr s"
    unfolding usfstl_vhost_user_clear_mappings_def by (rule clear_unmapped) (use s in simp_all)
  have n: "payload32 0 ?msg = Inr 1" "length example_payload \<le> 264" by (simp_all add: payload32_def example_payload_def bytes32_def)
  let ?s = "s\<lparr>vd_regions := ?r # replicate 7 ?z, vd_n_regions := 1, vd_region_fds := 9 # replicate 7 (- 1)\<rparr>"
  obtain m where m: "vs_mmap example_wm_server 4096 9 (vd_mem s) = Some (16384, m)"
    by (simp add: wm_server_def mmap_shared_def)
  let ?t = "?s\<lparr>vd_mem := m, vd_region_vaddr := Some 16384 # replicate 7 None\<rparr>"
  have "usfstl_vhost_user_setup_mappings example_wm_server ?s = Inr ?t"
    using m s by (simp add: usfstl_vhost_user_setup_mappings_def upt_rec setup_mapping_def nth_result_def r8)
  then have "set_mem_table example_wm_server example_table ?msg s = Inr ?t"
    using n clear example_region s
    by (simp add: set_mem_table_def upt_rec usfstl_vhost_user_get_msg_fds_def example_table_def r8)
  then have "usfstl_vhost_user_handle_msg example_wm_server example_table s = Inr (False, ?t)"
    by (simp add: usfstl_vhost_user_handle_msg_def example_table_read handle_request_def no_reply_def)
  moreover have "usfstl_vhost_phys_to_va 256 ?t = Inr 16640"
    by (simp add: usfstl_vhost_phys_to_va_def translate_def)
  moreover have "set (vd_regions ?t) = {?r, ?z}" by simp
  then have "\<forall>r \<in> set (vd_regions ?t). unat (region_size r) + unat (mmap_offset r) < 2 ^ 64 \<and>
      unat (guest_phys_addr r) + unat (region_size r) < 2 ^ 64 \<and> unat (user_addr r) + unat (region_size r) < 2 ^ 64"
    by simp
  ultimately show ?thesis using s(1) by blast
qed

lemma device_keeps_shape_witness:
  "\<exists>s t. usfstl_vhost_user_connected example_wm_server example_device = Inr s \<and>
     usfstl_vhost_user_handle_msg example_wm_server example_table s = Inr (False, t) \<and> vhost_inv example_wm_server t"
  using example_table_handled device_run.message [OF device_run.connect] device_keeps_shape by blast

lemma translated_address_mapped_witness:
  "\<exists>s t. usfstl_vhost_user_connected example_wm_server example_device = Inr s \<and>
     usfstl_vhost_user_handle_msg example_wm_server example_table s = Inr (False, t) \<and> vd_mem t 16640 \<noteq> None"
proof -
  obtain s t :: "wm_main wm_device" where t: "usfstl_vhost_user_connected example_wm_server example_device = Inr s"
    "usfstl_vhost_user_handle_msg example_wm_server example_table s = Inr (False, t)"
    "usfstl_vhost_phys_to_va 256 t = Inr 16640"
    "\<forall>r \<in> set (vd_regions t). unat (region_size r) + unat (mmap_offset r) < 2 ^ 64 \<and>
      unat (guest_phys_addr r) + unat (region_size r) < 2 ^ 64 \<and> unat (user_addr r) + unat (region_size r) < 2 ^ 64"
    using example_table_handled by blast
  have "vd_mem t 16640 \<noteq> None"
    by (rule translated_address_mapped [OF device_run.message [OF device_run.connect [OF t(1)] t(2)] disjI1 [OF t(3)] t(4)])
  then show ?thesis using t(1,2) by blast
qed

end
