(* ===== verification/Gen_Config.thy ===== *)
theory Gen_Config
  imports Config
begin

text \<open>
  The generator of configurations (\<open>util/wmediumd_gen_config.c\<close>): the check of an address, the
  numbers of the options, the addresses of the virtual devices, and the program from its options to
  the configuration that it writes. The options as \<open>getopt\<close> delivers them are an input.
\<close>

section \<open>Addresses\<close>

definition isupper :: "char \<Rightarrow> bool" where
  "isupper c \<longleftrightarrow> (let n = (of_char c :: nat) in 65 \<le> n \<and> n \<le> 90)"

definition valid_mac_addr :: "string \<Rightarrow> bool" where
  "valid_mac_addr mac_addr \<longleftrightarrow>
     (if length mac_addr \<noteq> 17 then False
      else if mac_addr ! 2 \<noteq> CHR '':'' \<or> mac_addr ! 5 \<noteq> CHR '':'' \<or> mac_addr ! 8 \<noteq> CHR '':'' \<or>
        mac_addr ! 11 \<noteq> CHR '':'' \<or> mac_addr ! 14 \<noteq> CHR '':'' then False
      else list_all (\<lambda>i.
        if (int i - 2) mod 3 = 0 then True
        else let n = (of_char (mac_addr ! i) :: nat);
                 c = (if isupper (mac_addr ! i) then n + 32 else n)
          in \<not> ((c < 48 \<or> c > 57) \<and> (c < 97 \<or> c > 102))) [0..<17])"

text \<open>The third and fourth byte count the instances, the next two the radios.\<close>

definition cuttlefish_mac :: "int \<Rightarrow> nat \<Rightarrow> nat \<Rightarrow> mac" where
  "cuttlefish_mac mac_prefix instance_num radio_num =
     (let instance_mac_prefix = (word_of_int (mac_prefix + int instance_num) :: u32) in
      [2, ucast (drop_bit 8 instance_mac_prefix AND 0xff), ucast (instance_mac_prefix AND 0xff),
       word_of_nat (radio_num div 256) AND 0xff, word_of_nat radio_num, 0])"

definition add_cuttlefish_mac_addresses :: "string list \<Rightarrow> int \<Rightarrow> int \<Rightarrow> int \<Rightarrow> string list" where
  "add_cuttlefish_mac_addresses ids mac_prefix instance_count radios =
     ids @ concat (map (\<lambda>instance_num.
       map (\<lambda>radio_num. format_mac (cuttlefish_mac mac_prefix instance_num radio_num)) [0..<nat radios])
       [0..<nat instance_count])"

section \<open>Numbers\<close>

fun base_digits :: "int \<Rightarrow> int \<Rightarrow> string \<Rightarrow> int \<times> string" where
  "base_digits base acc [] = (acc, [])"
| "base_digits base acc (c # s) =
     (case hex_value c of
        None \<Rightarrow> (acc, c # s)
      | Some d \<Rightarrow> if d < base then base_digits base (base * acc + d) s else (acc, c # s))"

definition starts_digit :: "int \<Rightarrow> string \<Rightarrow> bool" where
  "starts_digit base s \<longleftrightarrow> (case s of [] \<Rightarrow> False
     | c # _ \<Rightarrow> (case hex_value c of None \<Rightarrow> False | Some d \<Rightarrow> d < base))"

text \<open>\<open>strtol\<close> in the bases 10 and 16: the value, which saturates, and the rest of the string, which
  is all of it if there is no number.\<close>

definition strtol :: "int \<Rightarrow> string \<Rightarrow> int \<times> string" where
  "strtol base str =
     (let s = dropWhile isspace str;
          neg = (s \<noteq> [] \<and> hd s = CHR ''-'');
          s = (if s \<noteq> [] \<and> (hd s = CHR ''-'' \<or> hd s = CHR ''+'') then tl s else s);
          s = (if base = 16 \<and> (take 2 s = ''0x'' \<or> take 2 s = ''0X'') \<and> starts_digit base (drop 2 s) then drop 2 s else s)
      in if starts_digit base s
         then let (v, r) = base_digits base 0 s
           in (if neg then max (- (2 ^ 63)) (- v) else min (2 ^ 63 - 1) v, r)
         else (0, str))"

text \<open>The result is stored in an \<open>int\<close>, which is never \<open>LONG_MAX\<close>.\<close>

definition long_to_int :: "int \<Rightarrow> int" where
  "long_to_int v = sint (word_of_int v :: 32 word)"

definition parse_count_option :: "string \<Rightarrow> int" where
  "parse_count_option value =
     (let (v, rest) = strtol 10 value; result = long_to_int v
      in if length rest = length value \<or> result \<le> 0 then - 1 else result)"

definition parse_prefix_option :: "string \<Rightarrow> int" where
  "parse_prefix_option value =
     (let hex = (length value \<ge> 2 \<and> value ! 0 = CHR ''0'' \<and> value ! 1 = CHR ''x'');
          (v, rest) = (if hex then strtol 16 (drop 2 value) else strtol 10 value);
          result = long_to_int v
      in if length rest = length value \<or> result < 0 then - 1
         else if result > 0xffff then - 1 else result)"

section \<open>The program\<close>

record gen_state =
  gs_ids :: "string list"
  gs_out_path :: "string option"
  gs_instance_count :: int
  gs_radio_count :: int
  gs_mac_prefix :: int

text \<open>\<open>Inl\<close> is the exit code of \<open>print_help\<close>.\<close>

definition gen_option :: "char \<Rightarrow> string \<Rightarrow> gen_state \<Rightarrow> int + gen_state" where
  "gen_option opt optarg g =
     (if opt = CHR '':'' then Inl (- 1)
      else if opt = CHR ''h'' then Inl 0
      else if opt = CHR ''n'' then
        if gs_instance_count g \<noteq> - 1 then Inl (- 1)
        else let c = parse_count_option optarg
          in if c < 0 then Inl (- 1) else Inr (g\<lparr>gs_instance_count := c\<rparr>)
      else if opt = CHR ''p'' then
        if gs_mac_prefix g \<noteq> - 1 then Inl (- 1)
        else let p = parse_prefix_option optarg
          in if p < 0 then Inl (- 1) else Inr (g\<lparr>gs_mac_prefix := p\<rparr>)
      else if opt = CHR ''r'' then
        if gs_radio_count g \<noteq> - 1 then Inl (- 1)
        else let c = parse_count_option optarg
          in if c < 0 then Inl (- 1) else Inr (g\<lparr>gs_radio_count := c\<rparr>)
      else if opt = CHR ''m'' then
        if \<not> valid_mac_addr optarg then Inl (- 1) else Inr (g\<lparr>gs_ids := gs_ids g @ [optarg]\<rparr>)
      else if opt = CHR ''o'' then
        if gs_out_path g \<noteq> None then Inl (- 1) else Inr (g\<lparr>gs_out_path := Some optarg\<rparr>)
      else if opt = CHR ''?'' then Inl (- 1)
      else Inr g)"

fun gen_options :: "(char \<times> string) list \<Rightarrow> gen_state \<Rightarrow> int + gen_state" where
  "gen_options [] g = Inr g"
| "gen_options ((opt, optarg) # opts) g =
     (case gen_option opt optarg g of Inl code \<Rightarrow> Inl code | Inr g \<Rightarrow> gen_options opts g)"

text \<open>Where the configuration is written, its \<open>count\<close> and its \<open>ids\<close>.\<close>

definition gen_main :: "(string \<Rightarrow> bool) \<Rightarrow> (char \<times> string) list \<Rightarrow> int + (string option \<times> nat \<times> string list)" where
  "gen_main can_open opts =
     (case gen_options opts \<lparr>gs_ids = [''02:00:00:00:00:00''], gs_out_path = None, gs_instance_count = - 1,
             gs_radio_count = - 1, gs_mac_prefix = - 1\<rparr> of
        Inl code \<Rightarrow> Inl code
      | Inr g \<Rightarrow>
          let radio_count = (if gs_radio_count g = - 1 then 2 else gs_radio_count g);
              instance_count = (if gs_instance_count g = - 1 then 16 else gs_instance_count g);
              mac_prefix = (if gs_mac_prefix g = - 1 then 5554 else gs_mac_prefix g);
              ids = add_cuttlefish_mac_addresses (gs_ids g) mac_prefix instance_count radio_count
          in case gs_out_path g of
               Some path \<Rightarrow> if can_open path then Inr (Some path, length ids, ids) else Inl (- 1)
             | None \<Rightarrow> Inr (None, length ids, ids))"

section \<open>Valid addresses can be read\<close>

lemma hex_value_iff:
  "hex_value c \<noteq> None \<longleftrightarrow> (let n = (of_char c :: nat); m = (if isupper c then n + 32 else n)
     in \<not> ((m < 48 \<or> m > 57) \<and> (m < 97 \<or> m > 102)))"
  by (auto simp: hex_value_def isupper_def Let_def)

lemma hex_char_first:
  assumes "hex_value c \<noteq> None"
  shows "\<not> isspace c" and "c \<noteq> CHR ''-''" and "c \<noteq> CHR ''+''" and "c \<noteq> CHR ''x''" and "c \<noteq> CHR ''X''"
  using assms by (auto simp: hex_value_def isspace_def Let_def split: if_splits)

lemma scan_hex_pair:
  assumes "hex_value x \<noteq> None" and "hex_value y \<noteq> None" and "r = [] \<or> hd r = CHR '':''"
  shows "\<exists>v. scan_hex (x # y # r) = Some (v, r)"
proof -
  note x = hex_char_first [OF assms(1)] and y = hex_char_first [OF assms(2)]
  obtain i j where ij: "hex_value x = Some i" "hex_value y = Some j" using assms by auto
  have "hex_digits k r = (k, r)" for k
    using assms(3) by (cases r) (simp_all add: hex_value_colon)
  then show ?thesis using x y ij by (simp add: scan_hex_def starts_hex_def Let_def)
qed

lemma valid_mac_addr_list:
  "valid_mac_addr [a, b, p, c, d, q, e, f, r, g, h, u, i, j, w, k, l] \<longleftrightarrow>
     p = CHR '':'' \<and> q = CHR '':'' \<and> r = CHR '':'' \<and> u = CHR '':'' \<and> w = CHR '':'' \<and>
     list_all (\<lambda>x. hex_value x \<noteq> None) [a, b, c, d, e, f, g, h, i, j, k, l]"
proof -
  have upt: "[0..<17] = [0, 1, 2, 3, 4, 5, 6, 7, 8, 9, 10, 11, 12, 13, 14, 15, 16 :: nat]" by (simp add: upt_rec)
  show ?thesis unfolding valid_mac_addr_def hex_value_iff [symmetric] upt by simp blast
qed

lemma valid_mac_addr_chars:
  assumes "valid_mac_addr s"
  obtains a b c d e f g h i j k l where
    "s = [a, b, CHR '':'', c, d, CHR '':'', e, f, CHR '':'', g, h, CHR '':'', i, j, CHR '':'', k, l]"
    "list_all (\<lambda>x. hex_value x \<noteq> None) [a, b, c, d, e, f, g, h, i, j, k, l]"
proof -
  have "length s = 17" using assms by (simp add: valid_mac_addr_def split: if_splits)
  then obtain a b p c d q e f r g h u i j w k l where s: "s = [a, b, p, c, d, q, e, f, r, g, h, u, i, j, w, k, l]"
    by (auto simp: eval_nat_numeral length_Suc_conv)
  show thesis using assms that [of a b c d e f g h i j k l] unfolding s valid_mac_addr_list by blast
qed

lemma valid_mac_addr_read:
  assumes "valid_mac_addr s"
  shows "\<exists>m. string_to_mac_address s = Inr m \<and> length m = 6"
proof -
  have step: "\<exists>v. scan_bytes (Suc (Suc n)) (x # y # CHR '':'' # r) = v # scan_bytes (Suc n) r"
    if "hex_value x \<noteq> None" "hex_value y \<noteq> None" for x y r n
    using scan_hex_pair [OF that, of "CHR '':'' # r"] by auto
  have last: "\<exists>v. scan_bytes (Suc 0) [x, y] = [v]" if "hex_value x \<noteq> None" "hex_value y \<noteq> None" for x y
    using scan_hex_pair [OF that, of "[]"] by auto
  obtain a b c d e f g h i j k l where s: "s = [a, b, CHR '':'', c, d, CHR '':'', e, f, CHR '':'', g, h, CHR '':'', i, j, CHR '':'', k, l]"
    and x: "list_all (\<lambda>x. hex_value x \<noteq> None) [a, b, c, d, e, f, g, h, i, j, k, l]"
    using assms by (rule valid_mac_addr_chars)
  from x have hex: "hex_value a \<noteq> None" "hex_value b \<noteq> None" "hex_value c \<noteq> None" "hex_value d \<noteq> None"
    "hex_value e \<noteq> None" "hex_value f \<noteq> None" "hex_value g \<noteq> None" "hex_value h \<noteq> None"
    "hex_value i \<noteq> None" "hex_value j \<noteq> None" "hex_value k \<noteq> None" "hex_value l \<noteq> None"
    by simp_all
  have six: "(6 :: nat) = Suc (Suc (Suc (Suc (Suc (Suc 0)))))" by simp
  have "length (scan_bytes 6 s) = 6"
    unfolding six s
    using step [OF hex(1,2)] step [OF hex(3,4)] step [OF hex(5,6)] step [OF hex(7,8)] step [OF hex(9,10)] last [OF hex(11,12)]
    by (metis length_Cons list.size(3))
  then show ?thesis by (simp add: string_to_mac_address_def)
qed

section \<open>The generated addresses\<close>

lemma format_mac_valid:
  assumes "length m = 6"
  shows "valid_mac_addr (format_mac m)"
proof -
  obtain a b c d e f where m: "m = [a, b, c, d, e, f]"
    using assms by (auto simp: eval_nat_numeral length_Suc_conv)
  have h: "hex_value (hex_char (unat x div 16)) \<noteq> None" "hex_value (hex_char (unat x mod 16)) \<noteq> None" for x :: u8
  proof -
    have "unat x < 2 ^ LENGTH(8)" by (rule unsigned_less)
    then show "hex_value (hex_char (unat x div 16)) \<noteq> None" "hex_value (hex_char (unat x mod 16)) \<noteq> None"
      by (simp_all add: hex_char_props)
  qed
  show ?thesis using h by (simp add: m format_byte_def valid_mac_addr_list)
qed

lemma cuttlefish_mac_length [simp]: "length (cuttlefish_mac p i r) = 6"
  by (simp add: cuttlefish_mac_def Let_def)

lemma gen_options_valid:
  "gen_options opts g = Inr h \<Longrightarrow> \<forall>a \<in> set (gs_ids g). valid_mac_addr a \<Longrightarrow> \<forall>a \<in> set (gs_ids h). valid_mac_addr a"
proof (induction opts arbitrary: g)
  case (Cons x opts)
  obtain opt optarg where x: "x = (opt, optarg)" by (cases x)
  obtain k where k: "gen_option opt optarg g = Inr k" "gen_options opts k = Inr h"
    using Cons.prems(1) by (auto simp: x split: sum.splits)
  have "\<forall>a \<in> set (gs_ids k). valid_mac_addr a"
    using k(1) Cons.prems(2) by (auto simp: gen_option_def Let_def split: if_splits)
  then show ?case by (rule Cons.IH [OF k(2)])
qed simp

text \<open>Claim C38: whatever options it is called with, if the generator writes a configuration then its count
  is the number of its addresses, and each of them is one that \<open>string_to_mac_address\<close> of the
  simulator reads completely.\<close>

theorem generated_config_loads:
  assumes "gen_main can_open opts = Inr (out, n, ids)"
  shows "n = length ids \<and> (\<forall>a \<in> set ids. valid_mac_addr a \<and> (\<exists>m. string_to_mac_address a = Inr m \<and> length m = 6))"
proof -
  let ?g = "\<lparr>gs_ids = [''02:00:00:00:00:00''], gs_out_path = None, gs_instance_count = - 1,
      gs_radio_count = - 1, gs_mac_prefix = - 1\<rparr>"
  obtain h where h: "gen_options opts ?g = Inr h"
    using assms by (auto simp: gen_main_def split: sum.splits)
  have "valid_mac_addr ''02:00:00:00:00:00''" by code_simp
  then have v: "\<forall>a \<in> set (gs_ids h). valid_mac_addr a" by (intro gen_options_valid [OF h]) simp
  obtain p c r where ids: "ids = add_cuttlefish_mac_addresses (gs_ids h) p c r" and n: "n = length ids"
    using assms h by (auto simp: gen_main_def Let_def split: option.splits if_split_asm)
  have "\<forall>a \<in> set ids. valid_mac_addr a"
    unfolding ids add_cuttlefish_mac_addresses_def using v by (auto simp: format_mac_valid)
  then show ?thesis using n valid_mac_addr_read by blast
qed

lemma generated_config_loads_witness:
  "\<exists>ids. gen_main (\<lambda>_. True) [(CHR ''n'', ''1''), (CHR ''r'', ''1''), (CHR ''m'', ''02:15:B2:00:00:00'')] = Inr (None, 3, ids) \<and>
     string_to_mac_address (ids ! 1) \<noteq> Inl Uninitialized"
proof -
  let ?ids = "[''02:00:00:00:00:00'', ''02:15:B2:00:00:00'', ''02:15:b2:00:00:00'']"
  have g: "gen_main (\<lambda>_. True) [(CHR ''n'', ''1''), (CHR ''r'', ''1''), (CHR ''m'', ''02:15:B2:00:00:00'')] = Inr (None, 3, ?ids)"
    by code_simp
  from generated_config_loads [OF this] have "string_to_mac_address (?ids ! 1) \<noteq> Inl Uninitialized" by auto
  then show ?thesis using g by blast
qed

section \<open>No address is generated twice\<close>

lemma prefix_bytes:
  assumes "0 \<le> k" and "k < 65536"
  shows "256 * int (unat (ucast (drop_bit 8 (word_of_int k :: u32) AND 0xff) :: u8)) +
    int (unat (ucast ((word_of_int k :: u32) AND 0xff) :: u8)) = k"
proof -
  have u: "uint (word_of_int k :: u32) = k" using assms by (simp add: uint_word_of_int)
  have low: "(w AND 0xff :: u32) = take_bit 8 w" for w by (simp add: take_bit_eq_mask mask_eq_exp_minus_1)
  have "uint (ucast (drop_bit 8 (word_of_int k :: u32) AND 0xff) :: u8) = k div 256"
    using assms unfolding low
    by (simp add: unsigned_ucast_eq unsigned_take_bit_eq take_bit_eq_mod uint_div_distrib uint_mod_distrib drop_bit_eq_div u)
  moreover have "uint (ucast ((word_of_int k :: u32) AND 0xff) :: u8) = k mod 256"
    using assms unfolding low
    by (simp add: unsigned_ucast_eq unsigned_take_bit_eq take_bit_eq_mod uint_mod_distrib u)
  ultimately show ?thesis by simp
qed

lemma radio_bytes:
  assumes "k < 65536"
  shows "256 * unat (word_of_nat (k div 256) AND 0xff :: u8) + unat (word_of_nat k :: u8) = k"
proof -
  have ff: "(0xff :: u8) = - 1" by simp
  have "unat (word_of_nat (k div 256) :: u8) = k div 256" "unat (word_of_nat k :: u8) = k mod 256"
    using assms by (simp_all add: unsigned_of_nat take_bit_eq_mod)
  then show ?thesis unfolding ff by simp
qed

lemma cuttlefish_mac_inj:
  assumes "cuttlefish_mac p i r = cuttlefish_mac p j q" and "0 \<le> p"
    and "p + int i < 65536" and "p + int j < 65536" and "r < 65536" and "q < 65536"
  shows "i = j \<and> r = q"
proof -
  let ?w = "\<lambda>i. word_of_int (p + int i) :: u32"
  have eq: "(ucast (drop_bit 8 (?w i) AND 0xff) :: u8) = ucast (drop_bit 8 (?w j) AND 0xff)"
    "(ucast (?w i AND 0xff) :: u8) = ucast (?w j AND 0xff)"
    "(word_of_nat (r div 256) AND 0xff :: u8) = word_of_nat (q div 256) AND 0xff" "(word_of_nat r :: u8) = word_of_nat q"
    using assms(1) unfolding cuttlefish_mac_def Let_def list.inject by blast+
  have "p + int i = p + int j"
    using prefix_bytes [of "p + int i"] prefix_bytes [of "p + int j"] assms(2-4) unfolding eq(1,2) by linarith
  moreover have "r = q"
    using radio_bytes [OF assms(5)] radio_bytes [OF assms(6)] unfolding eq(3,4) by linarith
  ultimately show ?thesis by simp
qed

lemma mac_address_roundtrip_bytes: "length m = 6 \<Longrightarrow> scan_bytes 6 (format_mac m) = m"
  by (rule scan_bytes_format) auto

lemma format_mac_inj: "length m = 6 \<Longrightarrow> length k = 6 \<Longrightarrow> format_mac m = format_mac k \<Longrightarrow> m = k"
  by (metis mac_address_roundtrip_bytes)

text \<open>Library: as long as the prefix and the number of instances stay below \<open>2 ^ 16\<close> together, and so does the
  number of radios, the generator makes one address for each radio of each instance, and all of
  them and the address of the access point are different.\<close>

theorem cuttlefish_addresses_distinct:
  assumes "0 < mac_prefix" and "mac_prefix + instance_count \<le> 65536" and "radios \<le> 65536"
  shows "distinct (add_cuttlefish_mac_addresses [''02:00:00:00:00:00''] mac_prefix instance_count radios) \<and>
    length (add_cuttlefish_mac_addresses [''02:00:00:00:00:00''] mac_prefix instance_count radios) =
      1 + nat instance_count * nat radios"
proof -
  let ?f = "\<lambda>(i, r). format_mac (cuttlefish_mac mac_prefix i r)"
  let ?ps = "List.product [0..<nat instance_count] [0..<nat radios]"
  have "concat (map (\<lambda>i. map (\<lambda>r. format_mac (cuttlefish_mac mac_prefix i r)) (rs :: nat list)) is) = map ?f (List.product is rs)"
    for "is" rs by (induction "is") (simp_all add: comp_def)
  then have ids: "add_cuttlefish_mac_addresses [''02:00:00:00:00:00''] mac_prefix instance_count radios = ''02:00:00:00:00:00'' # map ?f ?ps"
    by (simp add: add_cuttlefish_mac_addresses_def)
  have inj: "inj_on ?f (set ?ps)"
  proof (rule inj_onI, clarify)
    fix i r j q
    assume p: "(i, r) \<in> set ?ps" "(j, q) \<in> set ?ps"
      and "format_mac (cuttlefish_mac mac_prefix i r) = format_mac (cuttlefish_mac mac_prefix j q)"
    then have "cuttlefish_mac mac_prefix i r = cuttlefish_mac mac_prefix j q" by (intro format_mac_inj) simp_all
    then show "i = j \<and> r = q" by (rule cuttlefish_mac_inj) (use p assms in auto)
  qed
  have zero: "''02:00:00:00:00:00'' = format_mac [2, 0, 0, 0, 0, 0]" by code_simp
  have "''02:00:00:00:00:00'' \<noteq> ?f x" if "x \<in> set ?ps" for x
  proof
    assume "''02:00:00:00:00:00'' = ?f x"
    then have "[2, 0, 0, 0, 0, 0] = cuttlefish_mac mac_prefix (fst x) (snd x)"
      unfolding zero case_prod_beta by (intro format_mac_inj) simp_all
    then have z: "(ucast (drop_bit 8 (word_of_int (mac_prefix + int (fst x)) :: u32) AND 0xff) :: u8) = 0"
      "(ucast ((word_of_int (mac_prefix + int (fst x)) :: u32) AND 0xff) :: u8) = 0"
      unfolding cuttlefish_mac_def Let_def list.inject by metis+
    have "0 \<le> mac_prefix + int (fst x)" "mac_prefix + int (fst x) < 65536" using that assms by auto
    from prefix_bytes [OF this] have "mac_prefix + int (fst x) = 0" unfolding z by simp
    then show False using assms(1) by simp
  qed
  then show ?thesis using inj unfolding ids by (auto simp: distinct_map distinct_product)
qed

lemma cuttlefish_addresses_distinct_witness:
  "distinct (add_cuttlefish_mac_addresses [''02:00:00:00:00:00''] 5554 16 2) \<and>
   length (add_cuttlefish_mac_addresses [''02:00:00:00:00:00''] 5554 16 2) = 33"
  using cuttlefish_addresses_distinct [of 5554 16 2] by simp

text \<open>Beyond, the prefix wraps around, and only the first character of a hexadecimal prefix needs to be one.\<close>

lemma prefix_wraps:
  "add_cuttlefish_mac_addresses [] 65535 2 1 = [''02:ff:ff:00:00:00'', ''02:00:00:00:00:00'']"
  by code_simp

lemma hex_prefix_without_digits: "parse_prefix_option ''0xzz'' = 0"
  by code_simp

end
