(* ===== verification/Uds.thy ===== *)
theory Uds
  imports Event_Loop
begin

text \<open>
  Unix sockets in the event loop (\<open>wmediumd/lib/uds.c\<close>): servers that call a function for each
  connection, and clients. What the operating system answers is an input: descriptors, and whether a
  call succeeds; the only files in the model are those at the paths of sockets.
\<close>

text \<open>What is allocated around an entry: a server with its path, a client, or something of another part
  of the program; \<open>'k\<close> are the functions to call with their data.\<close>

datatype 'k uds_handler = Accept_handler string 'k | Readable_handler 'k | Other_handler

datatype file_kind = Socket_file | Other_file

record 'k uds =
  ud_entries :: "nat list"
  ud_mem :: "nat \<Rightarrow> (loop_entry \<times> 'k uds_handler) option"
  ud_files :: "string \<Rightarrow> file_kind option"
  ud_open :: "int list"

text \<open>The answers: the address of the allocated memory and what it held, the descriptor, and which calls
  succeed.\<close>

record uds_answers =
  ua_ptr :: nat
  ua_garbage :: int
  ua_fd :: int
  ua_unlink :: bool
  ua_bind :: bool
  ua_listen :: bool
  ua_connect :: bool

abbreviation (input) SUN_PATH_LEN :: nat where "SUN_PATH_LEN \<equiv> 108"

definition loop_entry_at :: "'k uds \<Rightarrow> nat \<Rightarrow> loop_entry" where
  "loop_entry_at s p = (case ud_mem s p of None \<Rightarrow> \<lparr>le_fd = - 1, le_priority = 0\<rparr> | Some (e, _) \<Rightarrow> e)"

definition register_at :: "nat \<Rightarrow> loop_entry \<Rightarrow> 'k uds_handler \<Rightarrow> 'k uds \<Rightarrow> 'k uds" where
  "register_at p e h s =
     (let s = s\<lparr>ud_mem := (ud_mem s)(p \<mapsto> (e, h))\<rparr>
      in s\<lparr>ud_entries := usfstl_loop_register (loop_entry_at s) p (ud_entries s)\<rparr>)"

text \<open>The memory of a server is not cleared, so its priority is what was there.\<close>

definition usfstl_uds_create :: "uds_answers \<Rightarrow> string \<Rightarrow> 'k \<Rightarrow> 'k uds \<Rightarrow> 'k uds result" where
  "usfstl_uds_create ans path conn s =
     rbind (case ud_files s path of
        None \<Rightarrow> Inr s
      | Some kind \<Rightarrow> rassert (kind = Socket_file) (rassert (ua_unlink ans)
          (Inr (s\<lparr>ud_files := (ud_files s)(path := None)\<rparr>)))) (\<lambda>s.
     if length path \<ge> SUN_PATH_LEN then Inl Out_of_bounds
     else rassert (ua_bind ans) (rassert (ua_listen ans)
       (Inr (register_at (ua_ptr ans) \<lparr>le_fd = ua_fd ans, le_priority = ua_garbage ans\<rparr> (Accept_handler path conn)
         (s\<lparr>ud_files := (ud_files s)(path \<mapsto> Socket_file), ud_open := ua_fd ans # ud_open s\<rparr>)))))"

definition usfstl_uds_accept_handler ::
  "(int \<Rightarrow> 'k \<Rightarrow> 'k uds \<Rightarrow> 'k uds result) \<Rightarrow> int \<Rightarrow> nat \<Rightarrow> 'k uds \<Rightarrow> 'k uds result" where
  "usfstl_uds_accept_handler call fd entry s =
     rbind (rget Use_after_free (ud_mem s entry)) (\<lambda>(_, h).
     case h of
       Accept_handler path conn \<Rightarrow> call fd conn (s\<lparr>ud_open := fd # ud_open s\<rparr>)
     | _ \<Rightarrow> Inl Wild_pointer)"

definition unregister_at :: "nat \<Rightarrow> int \<Rightarrow> 'k uds \<Rightarrow> 'k uds result" where
  "unregister_at p fd s =
     rbind (usfstl_loop_unregister p (ud_entries s)) (\<lambda>es.
     Inr (s\<lparr>ud_entries := es, ud_mem := (ud_mem s)(p := None), ud_open := removeAll fd (ud_open s)\<rparr>))"

definition is_server :: "string \<Rightarrow> 'k uds \<Rightarrow> nat \<Rightarrow> bool" where
  "is_server path s p \<longleftrightarrow> (case ud_mem s p of
     Some (_, Accept_handler name _) \<Rightarrow> name = path | _ \<Rightarrow> False)"

definition usfstl_uds_remove :: "string \<Rightarrow> 'k uds \<Rightarrow> 'k uds result" where
  "usfstl_uds_remove path s =
     (case find (is_server path s) (ud_entries s) of
        None \<Rightarrow> Inl Assertion_failed
      | Some p \<Rightarrow>
          rbind (unregister_at p (le_fd (loop_entry_at s p)) s) (\<lambda>s.
          Inr (s\<lparr>ud_files := (ud_files s)(path := None)\<rparr>)))"

definition usfstl_uds_readable_handler ::
  "(int \<Rightarrow> 'k \<Rightarrow> 'k uds \<Rightarrow> 'k uds result) \<Rightarrow> nat \<Rightarrow> 'k uds \<Rightarrow> 'k uds result" where
  "usfstl_uds_readable_handler call entry s =
     rbind (rget Use_after_free (ud_mem s entry)) (\<lambda>(e, h).
     case h of
       Readable_handler readable \<Rightarrow> call (le_fd e) readable s
     | _ \<Rightarrow> Inl Wild_pointer)"

definition usfstl_uds_connect :: "uds_answers \<Rightarrow> string \<Rightarrow> 'k \<Rightarrow> 'k uds \<Rightarrow> (int \<times> 'k uds) result" where
  "usfstl_uds_connect ans path readable s =
     (if length path \<ge> SUN_PATH_LEN then Inl Out_of_bounds
      else rassert (ua_fd ans \<ge> 0) (rassert (ua_connect ans)
        (Inr (ua_fd ans, register_at (ua_ptr ans) \<lparr>le_fd = ua_fd ans, le_priority = 0\<rparr> (Readable_handler readable)
          (s\<lparr>ud_open := ua_fd ans # ud_open s\<rparr>)))))"

definition is_client :: "int \<Rightarrow> 'k uds \<Rightarrow> nat \<Rightarrow> bool" where
  "is_client fd s p \<longleftrightarrow> (case ud_mem s p of
     Some (e, Readable_handler _) \<Rightarrow> le_fd e = fd | _ \<Rightarrow> False)"

definition usfstl_uds_disconnect :: "int \<Rightarrow> 'k uds \<Rightarrow> 'k uds result" where
  "usfstl_uds_disconnect fd s =
     (case find (is_client fd s) (ud_entries s) of
        None \<Rightarrow> Inl Assertion_failed
      | Some p \<Rightarrow> unregister_at p fd s)"

section \<open>Registering and unregistering\<close>

text \<open>The first entry that satisfies a property only the new one has is the new one.\<close>

lemma find_registered:
  assumes "P p" and "\<And>q. q \<in> set es \<Longrightarrow> \<not> P q"
  shows "find P (usfstl_loop_register ent p es) = Some p"
proof -
  have "find P (insert_first Q p es) = Some p" for Q
    using assms by (induction es) (auto simp: insert_first_Cons)
  then show ?thesis by (simp add: usfstl_loop_register_def)
qed

lemma unregister_registered:
  assumes "p \<notin> set (ud_entries s)" and "ud_mem s p = None" and "fd \<notin> set (ud_open s)"
    and e: "le_fd e = fd"
  shows "unregister_at p fd (register_at p e h (s\<lparr>ud_open := fd # ud_open s\<rparr>)) = Inr s"
proof -
  have "(ud_mem s)(p := None) = ud_mem s" using assms(2) by auto
  moreover have "p \<in> set (usfstl_loop_register ent p (ud_entries s))" for ent
    by (simp add: usfstl_loop_register_def)
  ultimately show ?thesis
    using assms by (simp add: unregister_at_def Let_def register_at_def Let_def usfstl_loop_unregister_def usfstl_loop_register_def
        remove1_insert_first)
qed

text \<open>Claim C39: a server that was created for a path can be found there, is called for its connections
  with the function it was given, and removing it leaves the event loop, the memory and the
  descriptors as they were before, with no file at the path.\<close>

theorem uds_server_lifecycle:
  assumes at: "ud_files s path = None \<or> ud_files s path = Some Socket_file \<and> ua_unlink ans"
    and ok: "length path < 108" "ua_bind ans" "ua_listen ans"
    and fresh: "ua_ptr ans \<notin> set (ud_entries s)" "ud_mem s (ua_ptr ans) = None" "ua_fd ans \<notin> set (ud_open s)"
    and only: "\<forall>p \<in> set (ud_entries s). \<not> is_server path s p"
  shows "\<exists>t. usfstl_uds_create ans path conn s = Inr t \<and> ud_files t path = Some Socket_file \<and>
    set (ud_entries t) = insert (ua_ptr ans) (set (ud_entries s)) \<and>
    usfstl_uds_accept_handler call fd (ua_ptr ans) t = call fd conn (t\<lparr>ud_open := fd # ud_open t\<rparr>) \<and>
    usfstl_uds_remove path t = Inr (s\<lparr>ud_files := (ud_files s)(path := None)\<rparr>)"
proof -
  let ?p = "ua_ptr ans" and ?e = "\<lparr>le_fd = ua_fd ans, le_priority = ua_garbage ans\<rparr>" and ?h = "Accept_handler path conn"
  let ?s = "s\<lparr>ud_files := (ud_files s)(path \<mapsto> Socket_file)\<rparr>"
  let ?t = "register_at ?p ?e ?h (?s\<lparr>ud_open := ua_fd ans # ud_open ?s\<rparr>)"
  have create: "usfstl_uds_create ans path conn s = Inr ?t"
    using at ok by (auto simp: usfstl_uds_create_def)
  have t: "ud_files ?t path = Some Socket_file" "set (ud_entries ?t) = insert ?p (set (ud_entries s))" "ud_mem ?t ?p = Some (?e, ?h)"
    by (simp_all add: register_at_def Let_def usfstl_loop_register_def)
  have "find (is_server path ?t) (ud_entries ?t) = Some ?p"
  proof -
    have "ud_mem ?t q = ud_mem s q" if "q \<noteq> ?p" for q using that by (simp add: register_at_def Let_def)
    then have "\<not> is_server path ?t q" if "q \<in> set (ud_entries s)" for q
      using that only fresh(1) unfolding is_server_def by (metis (no_types, lifting))
    moreover have "is_server path ?t ?p" using t(3) by (simp add: is_server_def)
    moreover obtain ent where "ud_entries ?t = usfstl_loop_register ent ?p (ud_entries s)"
      by (auto simp: register_at_def Let_def)
    ultimately show ?thesis by (simp add: find_registered)
  qed
  moreover have "le_fd (loop_entry_at ?t ?p) = ua_fd ans" using t(3) by (simp add: loop_entry_at_def)
  moreover have "unregister_at ?p (ua_fd ans) ?t = Inr ?s"
    by (rule unregister_registered) (use fresh in simp_all)
  ultimately have "usfstl_uds_remove path ?t = Inr (s\<lparr>ud_files := (ud_files s)(path := None)\<rparr>)"
    by (simp add: usfstl_uds_remove_def)
  moreover have "usfstl_uds_accept_handler call fd ?p ?t = call fd conn (?t\<lparr>ud_open := fd # ud_open ?t\<rparr>)"
    using t(3) by (simp add: usfstl_uds_accept_handler_def)
  ultimately show ?thesis using create t(1,2) by blast
qed

lemma uds_server_lifecycle_witness:
  "\<exists>t. usfstl_uds_create \<lparr>ua_ptr = 1, ua_garbage = 77, ua_fd = 5, ua_unlink = True, ua_bind = True, ua_listen = True,
         ua_connect = True\<rparr> ''/tmp/s'' (CHR ''c'')
       \<lparr>ud_entries = [], ud_mem = (\<lambda>_. None), ud_files = (\<lambda>_. Some Socket_file), ud_open = []\<rparr> = Inr t \<and>
     usfstl_uds_remove ''/tmp/s'' t = Inr \<lparr>ud_entries = [], ud_mem = (\<lambda>_. None),
       ud_files = (\<lambda>_. Some Socket_file)(''/tmp/s'' := None), ud_open = []\<rparr>"
  using uds_server_lifecycle [where s = "\<lparr>ud_entries = [], ud_mem = (\<lambda>_. None), ud_files = (\<lambda>_. Some Socket_file), ud_open = []\<rparr>"
      and path = "''/tmp/s''" and conn = "CHR ''c''" and call = "\<lambda>_ _. Inr" and fd = 6
      and ans = "\<lparr>ua_ptr = 1, ua_garbage = 77, ua_fd = 5, ua_unlink = True, ua_bind = True, ua_listen = True, ua_connect = True\<rparr>"]
  by simp blast

text \<open>The same for a client.\<close>

lemma uds_client_lifecycle:
  assumes ok: "length path < 108" "ua_connect ans" "ua_fd ans \<ge> 0"
    and fresh: "ua_ptr ans \<notin> set (ud_entries s)" "ud_mem s (ua_ptr ans) = None" "ua_fd ans \<notin> set (ud_open s)"
    and only: "\<forall>p \<in> set (ud_entries s). \<not> is_client (ua_fd ans) s p"
  shows "\<exists>t. usfstl_uds_connect ans path readable s = Inr (ua_fd ans, t) \<and> usfstl_uds_disconnect (ua_fd ans) t = Inr s"
proof -
  let ?p = "ua_ptr ans" and ?e = "\<lparr>le_fd = ua_fd ans, le_priority = 0\<rparr>" and ?h = "Readable_handler readable"
  let ?t = "register_at ?p ?e ?h (s\<lparr>ud_open := ua_fd ans # ud_open s\<rparr>)"
  have "ud_mem ?t q = ud_mem s q" if "q \<noteq> ?p" for q using that by (simp add: register_at_def Let_def)
  then have "\<not> is_client (ua_fd ans) ?t q" if "q \<in> set (ud_entries s)" for q
    using that only fresh(1) unfolding is_client_def by (metis (no_types, lifting))
  moreover have "is_client (ua_fd ans) ?t ?p" by (simp add: is_client_def register_at_def Let_def)
  moreover obtain ent where "ud_entries ?t = usfstl_loop_register ent ?p (ud_entries s)"
    by (auto simp: register_at_def Let_def)
  ultimately have "find (is_client (ua_fd ans) ?t) (ud_entries ?t) = Some ?p" by (simp add: find_registered)
  moreover have "unregister_at ?p (ua_fd ans) ?t = Inr s" by (rule unregister_registered) (use fresh in simp_all)
  ultimately show ?thesis using ok by (simp add: usfstl_uds_connect_def usfstl_uds_disconnect_def)
qed

end
