(* ===== verification/Netlink_Setup.thy ===== *)
theory Netlink_Setup
  imports Delivery
begin

text \<open>
  The connection to the kernel (\<open>wmediumd/wmediumd.c\<close>): how \<open>init_netlink\<close> sets up the netlink socket, how
  \<open>send_register_msg\<close> asks for the frames, and the callbacks by which the library delivers messages. What the
  functions of the netlink library return is an input; the model keeps which of its objects are
  allocated, the requests that were sent, and the log.
\<close>

section \<open>The log\<close>

abbreviation LOG_ERR :: nat where "LOG_ERR \<equiv> 3"
abbreviation LOG_NOTICE :: nat where "LOG_NOTICE \<equiv> 5"

text \<open>A text is printed if the level of the log is at least its level.\<close>

definition w_logf :: "nat \<Rightarrow> nat \<Rightarrow> string \<Rightarrow> string list \<Rightarrow> string list" where
  "w_logf log_lvl level format printed = (if level \<le> log_lvl then printed @ [format] else printed)"

definition w_flogf :: "nat \<Rightarrow> nat \<Rightarrow> string \<Rightarrow> string list \<Rightarrow> string list" where
  "w_flogf log_lvl level format printed = (if level \<le> log_lvl then printed @ [format] else printed)"

section \<open>The library and the context\<close>

text \<open>The answers of \<open>nl_cb_alloc\<close>, \<open>nl_socket_alloc_cb\<close>, \<open>genl_connect\<close>, \<open>genl_ctrl_resolve\<close>, \<open>nl_socket_get_fd\<close>,
  \<open>nlmsg_alloc\<close>, \<open>genlmsg_put\<close> and \<open>nl_send_auto_complete\<close>; an allocation succeeds or not.\<close>

record nl_answers =
  na_cb :: bool
  na_socket :: bool
  na_connect :: int
  na_family :: int
  na_fd :: int
  na_msg :: bool
  na_put :: bool
  na_send :: int

datatype nl_object = Nl_callbacks | Nl_socket | Nl_message

text \<open>The members \<open>cb\<close>, \<open>sock\<close> and \<open>family_id\<close> of the context, and the state of the library. A request is its
  family, command and version.\<close>

record nl_context =
  ctx_cb :: bool
  ctx_sock :: bool
  family_id :: int
  nl_connected :: bool
  nl_handlers :: bool
  nl_allocated :: "nl_object list"
  nl_requests :: "(int \<times> nat \<times> nat) list"
  nl_log :: "string list"

definition no_netlink :: nl_context where
  "no_netlink = \<lparr>ctx_cb = False, ctx_sock = False, family_id = 0, nl_connected = False, nl_handlers = False,
     nl_allocated = [], nl_requests = [], nl_log = []\<rparr>"

abbreviation HWSIM_CMD_REGISTER :: nat where "HWSIM_CMD_REGISTER \<equiv> 1"
abbreviation VERSION_NR :: nat where "VERSION_NR \<equiv> 1"

section \<open>Set-up\<close>

definition init_netlink :: "nat \<Rightarrow> nl_answers \<Rightarrow> nl_context \<Rightarrow> int \<times> nl_context" where
  "init_netlink lvl ans c =
     (let c = c\<lparr>ctx_cb := na_cb ans\<rparr>
      in if \<not> na_cb ans
         then (- 1, c\<lparr>nl_log := w_logf lvl LOG_ERR ''Error allocating netlink callbacks'' (nl_log c)\<rparr>)
      else let c = c\<lparr>nl_allocated := Nl_callbacks # nl_allocated c\<rparr>
      in if \<not> na_socket ans
         then (- 1, c\<lparr>nl_log := w_logf lvl LOG_ERR ''Error allocating netlink socket'' (nl_log c)\<rparr>)
      else let c = c\<lparr>nl_allocated := Nl_socket # nl_allocated c, ctx_sock := True, nl_connected := na_connect ans \<ge> 0\<rparr>
      in if na_connect ans < 0
         then (- 1, c\<lparr>nl_log := w_logf lvl LOG_ERR ''Error connecting netlink socket ret=%d'' (nl_log c)\<rparr>)
      else let c = c\<lparr>family_id := na_family ans\<rparr>
      in if family_id c < 0
         then (- 1, c\<lparr>nl_log := w_logf lvl LOG_ERR ''Family MAC80211_HWSIM not registered'' (nl_log c)\<rparr>)
      else (0, c\<lparr>nl_handlers := True\<rparr>))"

definition send_register_msg :: "nat \<Rightarrow> nl_answers \<Rightarrow> nl_context \<Rightarrow> int \<times> nl_context" where
  "send_register_msg lvl ans c =
     (if \<not> na_msg ans
      then (- 1, c\<lparr>nl_log := w_logf lvl LOG_ERR ''Error allocating new message MSG!'' (nl_log c)\<rparr>)
      else let c = c\<lparr>nl_allocated := Nl_message # nl_allocated c\<rparr>;
               out = (\<lambda>ret c. (ret, c\<lparr>nl_allocated := remove1 Nl_message (nl_allocated c)\<rparr>))
        in if \<not> na_put ans
           then out (- 1) (c\<lparr>nl_log := w_logf lvl LOG_ERR ''%s: genlmsg_put failed'' (nl_log c)\<rparr>)
           else if na_send ans < 0
           then out (- 1) (c\<lparr>nl_log := w_logf lvl LOG_ERR ''%s: nl_send_auto failed'' (nl_log c)\<rparr>)
           else out 0 (c\<lparr>nl_requests := nl_requests c @ [(family_id c, HWSIM_CMD_REGISTER, VERSION_NR)]\<rparr>))"

section \<open>Callbacks\<close>

definition process_messages_cb ::
  "'z wm_io_scheme wm_env \<Rightarrow> nl_msg \<Rightarrow> 'z wm_io_scheme \<Rightarrow> (int \<times> 'z wm_io_scheme) result" where
  "process_messages_cb env m s =
     rbind (process_messages (wm_ops env) (wm_erfc env) m (nl_client s) s) (\<lambda>s. Inr (0, s))"

definition nl_err_cb :: "nat \<Rightarrow> string list \<Rightarrow> int \<times> string list" where
  "nl_err_cb lvl printed = (1, w_flogf lvl LOG_ERR ''nl: cmd %d, seq %d: %s'' printed)"

text \<open>\<open>nl_recvmsgs_default\<close> reads the socket and calls back for what it finds there: a message, or an
  error.\<close>

fun sock_event_cb ::
  "'z wm_io_scheme wm_env \<Rightarrow> nat \<Rightarrow> nl_msg option list \<Rightarrow> string list \<Rightarrow> 'z wm_io_scheme \<Rightarrow>
   (string list \<times> 'z wm_io_scheme) result" where
  "sock_event_cb env lvl [] printed s = Inr (printed, s)"
| "sock_event_cb env lvl (None # rs) printed s = sock_event_cb env lvl rs (snd (nl_err_cb lvl printed)) s"
| "sock_event_cb env lvl (Some m # rs) printed s =
     rbind (process_messages_cb env m s) (\<lambda>(_, s). sock_event_cb env lvl rs printed s)"

section \<open>Properties\<close>

text \<open>Errors of the library change nothing but the log, so that a socket with several messages is as good as
  that many events with one message each, which is what the main loop gets.\<close>

lemma socket_event_is_messages:
  "sock_event_cb env lvl rs printed s =
     rbind (handle_events env (map Netlink_event (List.map_filter (\<lambda>r. r) rs)) s) (\<lambda>t.
     Inr (printed @ replicate (if lvl < LOG_ERR then 0 else count_list rs None) ''nl: cmd %d, seq %d: %s'', t))"
proof (induction env lvl rs printed s rule: sock_event_cb.induct)
  case (1 env lvl printed s)
  then show ?case by (simp add: handle_events_def map_filter_simps)
next
  case (2 env lvl rs printed s)
  then show ?case by (simp add: nl_err_cb_def w_flogf_def map_filter_simps)
next
  case (3 env lvl m rs printed s)
  show ?case
  proof (cases "process_messages (wm_ops env) (wm_erfc env) m (nl_client s) s")
    case (Inl e)
    then show ?thesis by (simp add: process_messages_cb_def handle_events_def handle_event_def map_filter_simps)
  next
    case (Inr t)
    then have "sock_event_cb env lvl (Some m # rs) printed s = sock_event_cb env lvl rs printed t"
      by (simp add: process_messages_cb_def)
    moreover have "sock_event_cb env lvl rs printed t =
        rbind (handle_events env (map Netlink_event (List.map_filter (\<lambda>r. r) rs)) t) (\<lambda>u.
        Inr (printed @ replicate (if lvl < LOG_ERR then 0 else count_list rs None) ''nl: cmd %d, seq %d: %s'', u))"
      by (rule 3)
    ultimately show ?thesis using Inr
      by (simp add: process_messages_cb_def handle_events_def handle_event_def map_filter_simps)
  qed
qed

text \<open>Library: \<open>init_netlink\<close> returns 0 exactly if no call of the library fails, and then the socket is
  connected with its handlers; otherwise it returns -1 and no handler is set, but the callbacks and the socket that it
  has allocated by then stay allocated, and the socket may be connected. \<open>send_register_msg\<close> frees its message whatever fails, and it returns
  0 exactly if it sent one request, to register with the family that was found.\<close>

theorem netlink_connected_or_error:
  "(case init_netlink lvl ans no_netlink of (r, c) \<Rightarrow>
      (r = 0 \<longleftrightarrow> na_cb ans \<and> na_socket ans \<and> 0 \<le> na_connect ans \<and> 0 \<le> na_family ans) \<and>
      (if r = 0 then ctx_cb c \<and> ctx_sock c \<and> nl_connected c \<and> family_id c = na_family ans \<and> nl_handlers c \<and> nl_log c = []
       else r = - 1 \<and> \<not> nl_handlers c \<and> (nl_log c = [] \<longleftrightarrow> lvl < LOG_ERR)) \<and>
      nl_allocated c = (if ctx_sock c then [Nl_socket] else []) @ (if ctx_cb c then [Nl_callbacks] else [])) \<and>
   (case send_register_msg lvl ans d of (r, c) \<Rightarrow>
      (r = 0 \<longleftrightarrow> na_msg ans \<and> na_put ans \<and> 0 \<le> na_send ans) \<and> (r = 0 \<or> r = - 1) \<and>
      nl_requests c = nl_requests d @ (if r = 0 then [(family_id d, HWSIM_CMD_REGISTER, VERSION_NR)] else []) \<and>
      nl_allocated c = nl_allocated d)"
  by (simp add: init_netlink_def send_register_msg_def no_netlink_def w_logf_def Let_def)

end
