(* ===== verification/Startup.thy ===== *)
theory Startup
  imports Netlink_Setup Gen_Config Uds
begin

text \<open>
  The start of the daemon: \<open>main\<close> of \<open>wmediumd/wmediumd.c\<close> from its options to the first turn of its
  loop. It reads the configuration, decides whether the kernel is a client, schedules the update of
  the interference, opens its sockets and chooses the clock. The options as \<open>getopt\<close> delivers them,
  the netlink library and the operating system are inputs.
\<close>

section \<open>Options\<close>

text \<open>\<open>strtoul\<close> in base 10: the value, which saturates and is negated modulo 2 to the 64 after a minus
  sign, and the rest of the string, which is all of it if there is no number.\<close>

definition strtoul :: "string \<Rightarrow> nat \<times> string" where
  "strtoul str =
     (let s = dropWhile isspace str;
          neg = (s \<noteq> [] \<and> hd s = CHR ''-'');
          s = (if s \<noteq> [] \<and> (hd s = CHR ''-'' \<or> hd s = CHR ''+'') then tl s else s)
      in if starts_digit 10 s
         then let (v, r) = base_digits 10 0 s
           in (if v > 2 ^ 64 - 1 then 2 ^ 64 - 1 else if neg then nat ((- v) mod 2 ^ 64) else nat v, r)
         else (0, str))"

text \<open>An overflow gives more than 7, so that the test of \<open>errno\<close> adds nothing.\<close>

definition parse_log_lvl :: "string \<Rightarrow> nat option" where
  "parse_log_lvl optarg =
     (let (v, rest) = strtoul optarg in if length rest = length optarg \<or> v > 7 then None else Some v)"

abbreviation (input) EXIT_SUCCESS :: int where "EXIT_SUCCESS \<equiv> 0"
abbreviation (input) EXIT_FAILURE :: int where "EXIT_FAILURE \<equiv> 1"

record wm_options =
  op_config :: "string option"
  op_per :: "string option"
  op_log_lvl :: nat
  op_time :: "string option"
  op_vhost :: "string option"
  op_api :: "string option"
  op_netlink :: bool
  op_pcap :: "u8 list option"

text \<open>\<open>Inl\<close> is the exit code.\<close>

definition wm_option :: "(string \<Rightarrow> bool) \<Rightarrow> char \<Rightarrow> string \<Rightarrow> wm_options \<Rightarrow> (int + wm_options) result" where
  "wm_option can_open opt optarg p =
     (if opt = CHR ''h'' then Inr (Inl EXIT_SUCCESS)
      else if opt = CHR ''V'' then Inr (Inl EXIT_SUCCESS)
      else if opt = CHR ''c'' then Inr (Inr (p\<lparr>op_config := Some optarg\<rparr>))
      else if opt = CHR ''x'' then Inr (Inr (p\<lparr>op_per := Some optarg\<rparr>))
      else if opt = CHR '':'' then Inr (Inl EXIT_FAILURE)
      else if opt = CHR ''l'' then
        (case parse_log_lvl optarg of
           None \<Rightarrow> Inr (Inl EXIT_FAILURE)
         | Some v \<Rightarrow> Inr (Inr (p\<lparr>op_log_lvl := v\<rparr>)))
      else if opt = CHR ''t'' then Inr (Inr (p\<lparr>op_time := Some optarg\<rparr>))
      else if opt = CHR ''u'' then Inr (Inr (p\<lparr>op_vhost := Some optarg\<rparr>))
      else if opt = CHR ''a'' then Inr (Inr (p\<lparr>op_api := Some optarg\<rparr>))
      else if opt = CHR ''n'' then Inr (Inr (p\<lparr>op_netlink := True\<rparr>))
      else if opt = CHR ''p'' then
        rbind (init_pcapng True (can_open optarg) (op_pcap p)) (\<lambda>file. Inr (Inr (p\<lparr>op_pcap := file\<rparr>)))
      else if opt = CHR ''?'' then Inr (Inl EXIT_FAILURE)
      else Inr (Inr p))"

fun wm_options_loop ::
  "(string \<Rightarrow> bool) \<Rightarrow> (char \<times> string) list \<Rightarrow> wm_options \<Rightarrow> (int + wm_options) result" where
  "wm_options_loop can_open [] p = Inr (Inr p)"
| "wm_options_loop can_open ((opt, optarg) # opts) p =
     rbind (wm_option can_open opt optarg p) (\<lambda>r.
     case r of Inl code \<Rightarrow> Inr (Inl code) | Inr p \<Rightarrow> wm_options_loop can_open opts p)"

text \<open>The command line: the number of its words, the options in it, and whether words are left over. The
  result has the path of the configuration beside the options.\<close>

definition parse_command_line ::
  "(string \<Rightarrow> bool) \<Rightarrow> nat \<Rightarrow> (char \<times> string) list \<Rightarrow> bool \<Rightarrow> (int + (string \<times> wm_options)) result" where
  "parse_command_line can_open argc opts leftover =
     (if argc = 1 then Inr (Inl EXIT_FAILURE)
      else rbind (wm_options_loop can_open opts \<lparr>op_config = None, op_per = None, op_log_lvl = 6, op_time = None,
             op_vhost = None, op_api = None, op_netlink = False, op_pcap = None\<rparr>) (\<lambda>r.
        case r of
          Inl code \<Rightarrow> Inr (Inl code)
        | Inr p \<Rightarrow>
            if leftover then Inr (Inl EXIT_FAILURE)
            else (case op_config p of
                None \<Rightarrow> Inr (Inl EXIT_FAILURE)
              | Some path \<Rightarrow> Inr (Inr (path, p)))))"

section \<open>The services\<close>

text \<open>The zeroed context with the scheduler of the program. The netlink client is part of the context;
  the functions for links and losses are set before they are called. \<open>seed\<close> is the state of the random numbers and
  \<open>evs\<close> is what will happen.\<close>

definition initial_context :: "48 word \<Rightarrow> wm_event list \<Rightarrow> u8 list option \<Rightarrow> wm_main" where
  "initial_context seed evs pcap = \<lparr>job_of = (\<lambda>_. \<lparr>job_start = 0, job_priority = 0, job_group = 0\<rparr>),
     current_time = 0, prev_external_sync = 0, next_external_sync = 0, joblist = [], pending_jobs = [],
     allowed_job = None, blocked_groups = 0, next_external_sync_set = False, prev_external_sync_set = False,
     sched_waiting = False, sta_mem = (\<lambda>_. None), stations = [], sta_array = None, num_stas = 0,
     cl_mem = [0 \<mapsto> \<lparr>cl_type = CLIENT_NETLINK, cl_wait_for_ack = False, cl_flags = 0\<rparr>], clients = [],
     clients_to_free = [], nl_client = 0, frame_mem = (\<lambda>_. None), next_ptr = 1, snr_matrix = Null,
     error_prob_matrix = Null, intf = None,
     per_table = \<lparr>per_matrix = [], per_matrix_row_num = 0, per_matrix_signal_min = 0\<rparr>,
     fading_coefficient = 0, get_link_snr_fn = Snr_default, get_error_prob_fn = Prob_from_snr,
     get_fading_signal_fn = No_fading, calc_path_loss_fn = None, rng = seed, need_start_notify = 0,
     pcap_file = pcap, config_path = None, outbox = [], api_loop = [], broken = [], events = evs\<rparr>"

text \<open>The servers that the program creates, and what the operating system answers: the
  answers of the netlink library, the address of the entry of the netlink socket in the event loop, and the
  answers for the sockets.\<close>

datatype wm_service = Vhost_service | Api_service

record startup_answers =
  sa_nl :: nl_answers
  sa_nl_loop :: nat
  sa_vhost :: uds_answers
  sa_api :: uds_answers

definition usfstl_vhost_user_server_start ::
  "uds_answers \<Rightarrow> string \<Rightarrow> wm_service uds \<Rightarrow> wm_service uds result" where
  "usfstl_vhost_user_server_start ans socket us = usfstl_uds_create ans socket Vhost_service us"

definition usfstl_vhost_user_server_stop :: "string \<Rightarrow> wm_service uds \<Rightarrow> wm_service uds result" where
  "usfstl_vhost_user_server_stop socket us = usfstl_uds_remove socket us"

text \<open>The scheduler has no external part yet.\<close>

definition start_interference :: "wm_main \<Rightarrow> wm_main result" where
  "start_interference s =
     (if intf s \<noteq> None
      then usfstl_sched_add_job USFSTL_SCHEDULER_ops Intf_job (set_job_start Intf_job 10000 s)
      else Inr s)"

definition start_netlink ::
  "nat \<Rightarrow> startup_answers \<Rightarrow> wm_service uds \<times> nl_context \<times> wm_main \<Rightarrow> wm_service uds \<times> nl_context \<times> wm_main" where
  "start_netlink lvl ans = (\<lambda>(us, nl, s).
     let s = s\<lparr>clients := nl_client s # clients s\<rparr>;
         us = register_at (sa_nl_loop ans) \<lparr>le_fd = na_fd (sa_nl ans), le_priority = 0\<rparr> Other_handler us;
         (ret, nl) = send_register_msg lvl (sa_nl ans) nl
     in (us, if ret = 0 then nl\<lparr>nl_log := w_logf lvl LOG_NOTICE ''REGISTER SENT!'' (nl_log nl)\<rparr> else nl, s))"

text \<open>The clock. Of \<open>usfstl_sched_ctrl_start\<close> this is its test of the scheduler; its messages are in
  \<open>Sched_Control\<close>. The wall clock accepts any scheduler without an external part.\<close>

definition start_clock :: "wm_options \<Rightarrow> wm_main \<Rightarrow> wm_main result" where
  "start_clock p s =
     (case op_time p of
        Some socket \<Rightarrow> rassert (usfstl_sched_next_pending s = None) (Inr s)
      | None \<Rightarrow> Inr s)"

definition start_services ::
  "startup_answers \<Rightarrow> wm_options \<Rightarrow> wm_service uds \<Rightarrow> wm_main \<Rightarrow>
   (int + (wm_service uds \<times> nl_context \<times> wm_main)) result" where
  "start_services ans p us s =
     (let use_netlink = (op_netlink p \<or> op_vhost p = None);
          (ret, nl) = (if use_netlink then init_netlink (op_log_lvl p) (sa_nl ans) no_netlink else (0, no_netlink))
      in if ret < 0 then Inr (Inl EXIT_FAILURE)
      else rbind (start_interference s) (\<lambda>s.
        rbind (case op_vhost p of
            None \<Rightarrow> Inr us
          | Some socket \<Rightarrow> usfstl_vhost_user_server_start (sa_vhost ans) socket us) (\<lambda>us.
        let (us, nl, s) = (if use_netlink then start_netlink (op_log_lvl p) ans (us, nl, s) else (us, nl, s))
        in rbind (case op_api p of
              None \<Rightarrow> Inr us
            | Some socket \<Rightarrow> usfstl_uds_create (sa_api ans) socket Api_service us) (\<lambda>us.
          rbind (start_clock p s) (\<lambda>s.
          Inr (Inr (us, nl, s)))))))"

definition startup ::
  "wm_main wm_env \<Rightarrow> startup_answers \<Rightarrow> nat \<Rightarrow> (char \<times> string) list \<Rightarrow> bool \<Rightarrow> 48 word \<Rightarrow> wm_event list \<Rightarrow>
   wm_service uds \<Rightarrow> (int + (wm_options \<times> wm_service uds \<times> nl_context \<times> wm_main)) result" where
  "startup env ans argc opts leftover seed evs us =
     rbind (parse_command_line (wm_can_open env) argc opts leftover) (\<lambda>r.
     case r of
       Inl code \<Rightarrow> Inr (Inl code)
     | Inr (path, p) \<Rightarrow>
         rbind (load_config USFSTL_SCHEDULER_ops (wm_config_read env) (wm_scanf_f env) (wm_per_content env) Move_job
             path (op_per p) (initial_context seed evs (op_pcap p))) (\<lambda>(r, s).
         if r \<noteq> 0 then Inr (Inl EXIT_FAILURE)
         else rbind (start_services ans p us s) (\<lambda>r.
           case r of Inl code \<Rightarrow> Inr (Inl code) | Inr (us, nl, s) \<Rightarrow> Inr (Inr (p, us, nl, s)))))"

section \<open>The daemon\<close>

text \<open>Any number of turns of the main loop under the wall clock.\<close>

inductive main_runs :: "wm_main wm_env \<Rightarrow> wm_main \<Rightarrow> wm_main \<Rightarrow> bool" for env where
  main_runs_start: "main_runs env s s"
| main_runs_turn: "main_runs env s t \<Longrightarrow> main_step clock fuel env t = Inr u \<Longrightarrow> main_runs env s u"

section \<open>The clients when the daemon starts\<close>

lemma initial_inv: "clients_inv (initial_context seed evs pcap)"
proof -
  have "watchers (initial_context seed evs pcap) = {}"
    by (auto simp: watchers_def initial_context_def split: if_splits)
  then show ?thesis by (auto simp: clients_inv_def initial_context_def split: if_splits)
qed

lemma keeps_clients_internal: "keeps_clients USFSTL_SCHEDULER_ops"
  by (simp add: keeps_clients_def USFSTL_SCHEDULER_ops_def)

lemma start_interference_same:
  assumes "start_interference s = Inr t"
  shows "same_clients s t"
proof (cases "intf s = None")
  case False
  then have "usfstl_sched_add_job USFSTL_SCHEDULER_ops Intf_job (set_job_start Intf_job 10000 s) = Inr t"
    using assms by (simp add: start_interference_def)
  from add_job_same [OF keeps_clients_internal this] show ?thesis by (simp add: same_clients_def set_job_start_def)
qed (use assms in \<open>simp add: start_interference_def\<close>)

text \<open>A job that is added while no group is blocked waits in the queue.\<close>

lemma add_job_internal:
  assumes "usfstl_sched_add_job USFSTL_SCHEDULER_ops j s = Inr t" and "blocked_groups s = 0"
  shows "t = s\<lparr>joblist := insert_first (runs_after s j) j (joblist s)\<rparr>" and "joblist t \<noteq> []"
proof -
  have b: "\<not> (group_blocked (group_of s j) (blocked_groups s) \<and> Some j \<noteq> allowed_job s)"
    using assms(2) by (simp add: group_blocked_def)
  show t: "t = s\<lparr>joblist := insert_first (runs_after s j) j (joblist s)\<rparr>"
    using assms(1) unfolding usfstl_sched_add_job_def rassert_eq_Inr if_not_P [OF b]
    by (auto simp: usfstl_sched_external_request_def USFSTL_SCHEDULER_ops_def call_opt_def Let_def)
  have "set (joblist t) = insert j (set (joblist s))" by (simp add: t)
  then show "joblist t \<noteq> []" by auto
qed

lemma start_interference_queues:
  assumes "start_interference s = Inr t" and "blocked_groups s = 0"
  shows "(intf s = None \<longrightarrow> t = s) \<and> (intf s \<noteq> None \<longrightarrow> joblist t \<noteq> [])"
proof (cases "intf s = None")
  case False
  have "usfstl_sched_add_job USFSTL_SCHEDULER_ops Intf_job (set_job_start Intf_job 10000 s) = Inr t"
    using assms(1) False by (simp add: start_interference_def)
  from add_job_internal(2) [OF this] show ?thesis using False assms(2) by (auto simp: set_job_start_def)
qed (use assms in \<open>simp add: start_interference_def\<close>)





lemma start_services_running:
  assumes "start_services ans p us s = Inr (Inr (vs, nl, t))"
  obtains u where "start_interference s = Inr u"
    and "t = (if op_netlink p \<or> op_vhost p = None then u\<lparr>clients := nl_client u # clients u\<rparr> else u)"
    and "op_time p \<noteq> None \<longrightarrow> joblist t = []"
    and "nl_handlers nl \<longleftrightarrow> op_netlink p \<or> op_vhost p = None"
proof -
  let ?nl = "op_netlink p \<or> op_vhost p = None"
  obtain ret nl' where i: "(if ?nl then init_netlink (op_log_lvl p) (sa_nl ans) no_netlink else (0, no_netlink)) = (ret, nl')"
    by (rule prod.exhaust)
  obtain ret2 nl'' where r: "send_register_msg (op_log_lvl p) (sa_nl ans) nl' = (ret2, nl'')" by (rule prod.exhaust)
  have ret: "0 \<le> ret" using assms i by (simp add: start_services_def split: if_splits)
  then have "nl_handlers nl' \<longleftrightarrow> ?nl"
    using i by (auto simp: init_netlink_def no_netlink_def Let_def split: if_splits)
  moreover have "nl_handlers nl'' = nl_handlers nl'"
    using r by (auto simp: send_register_msg_def Let_def split: if_splits)
  ultimately have h: "nl_handlers nl' \<longleftrightarrow> ?nl" "nl_handlers nl'' \<longleftrightarrow> ?nl" by simp_all
  obtain u where u: "start_interference s = Inr u"
    using assms ret i by (auto simp: start_services_def rbind_eq_Inr Let_def)
  have "t = (if ?nl then u\<lparr>clients := nl_client u # clients u\<rparr> else u) \<and>
      (op_time p \<noteq> None \<longrightarrow> usfstl_sched_next_pending t = None) \<and> (nl_handlers nl \<longleftrightarrow> ?nl)"
    using assms ret i u r h
    by (auto simp: start_services_def start_netlink_def start_clock_def rbind_eq_Inr rassert_eq_Inr Let_def
        split: if_splits option.splits)
  then show thesis using that u by (auto simp: usfstl_sched_next_pending_def split: list.splits)
qed

text \<open>A client that is put at the head of the list.\<close>

lemma add_client_inv:
  assumes inv: "clients_inv s" and c: "cl_mem s c = Some cl" "cl_type cl = CLIENT_NETLINK"
    and "c \<notin> set (clients s)" and "c \<notin> set (clients_to_free s)"
  shows "clients_inv (s\<lparr>clients := c # clients s\<rparr>)"
proof -
  have "watchers (s\<lparr>clients := c # clients s\<rparr>) = watchers s" by (auto simp: watchers_def)
  then show ?thesis using assms unfolding clients_inv_def by auto
qed

lemma startup_loads:
  assumes "startup env ans argc opts leftover seed evs us = Inr (Inr (p, vs, nl, t))"
  obtains path s where "parse_command_line (wm_can_open env) argc opts leftover = Inr (Inr (path, p))"
    and "load_config USFSTL_SCHEDULER_ops (wm_config_read env) (wm_scanf_f env) (wm_per_content env)
      Move_job path (op_per p) (initial_context seed evs (op_pcap p)) = Inr (0, s)"
    and "start_services ans p us s = Inr (Inr (vs, nl, t))"
proof -
  obtain path q where parse: "parse_command_line (wm_can_open env) argc opts leftover = Inr (Inr (path, q))"
    and q: "rbind (load_config USFSTL_SCHEDULER_ops (wm_config_read env) (wm_scanf_f env)
        (wm_per_content env) Move_job path (op_per q) (initial_context seed evs (op_pcap q))) (\<lambda>(r, s).
      if r \<noteq> 0 then Inr (Inl EXIT_FAILURE)
      else rbind (start_services ans q us s) (\<lambda>r.
        case r of Inl code \<Rightarrow> Inr (Inl code) | Inr (us, nl, s) \<Rightarrow> Inr (Inr (q, us, nl, s)))) = Inr (Inr (p, vs, nl, t))"
    using assms by (cases "parse_command_line (wm_can_open env) argc opts leftover")
      (auto simp: startup_def split: sum.splits prod.splits)
  from q obtain r s where l: "load_config USFSTL_SCHEDULER_ops (wm_config_read env) (wm_scanf_f env)
      (wm_per_content env) Move_job path (op_per q) (initial_context seed evs (op_pcap q)) = Inr (r, s)"
    by (auto simp: rbind_eq_Inr)
  then have r: "r = 0" using q by (cases "r = 0") simp_all
  obtain x where x: "start_services ans q us s = Inr x" using q l r by (cases "start_services ans q us s") simp_all
  then have "q = p \<and> x = Inr (vs, nl, t)" using q l r by (cases x) auto
  then show thesis using that parse l r x by blast
qed

lemma startup_running:
  assumes "startup env ans argc opts leftover seed evs us = Inr (Inr (p, vs, nl, t))"
  shows "clients_inv t \<and> clients_to_free t = [] \<and>
    clients t = (if op_netlink p \<or> op_vhost p = None then [nl_client t] else []) \<and>
    (op_time p \<noteq> None \<longrightarrow> joblist t = [] \<and> intf t = None) \<and>
    (nl_handlers nl \<longleftrightarrow> op_netlink p \<or> op_vhost p = None)"
proof -
  obtain path s where "load_config USFSTL_SCHEDULER_ops (wm_config_read env) (wm_scanf_f env) (wm_per_content env)
      Move_job path (op_per p) (initial_context seed evs (op_pcap p)) = Inr (0, s)"
    and r: "start_services ans p us s = Inr (Inr (vs, nl, t))"
    by (rule startup_loads [OF assms])
  then have g: "grows (initial_context seed evs (op_pcap p)) s"
    by (intro load_config_grows [OF keeps_clients_internal])
  obtain u where u: "start_interference s = Inr u"
    "t = (if op_netlink p \<or> op_vhost p = None then u\<lparr>clients := nl_client u # clients u\<rparr> else u)"
    and time: "op_time p \<noteq> None \<longrightarrow> joblist t = []" and nl: "nl_handlers nl \<longleftrightarrow> op_netlink p \<or> op_vhost p = None"
    using r by (rule start_services_running)
  have su: "same_clients s u" by (rule start_interference_same [OF u(1)])
  then have gu: "grows (initial_context seed evs (op_pcap p)) u" using g same_grows grows_trans by blast
  have inv: "clients_inv u"
    using clients_inv_same(1) [OF initial_inv grows_same [OF gu]] gu by (simp add: grows_def)
  have c: "clients u = []" "clients_to_free u = []" "nl_client u = 0"
    "cl_mem u 0 = Some \<lparr>cl_type = CLIENT_NETLINK, cl_wait_for_ack = False, cl_flags = 0\<rparr>"
    using gu by (simp_all add: grows_def initial_context_def)
  have "clients_inv (u\<lparr>clients := 0 # clients u\<rparr>)"
    by (rule add_client_inv [OF inv c(4)]) (simp_all add: c)
  then have "clients_inv t" using inv by (simp add: u(2) c)
  moreover have "intf t = None" if "op_time p \<noteq> None"
  proof (rule ccontr)
    assume i: "intf t \<noteq> None"
    have "blocked_groups s = 0" using g by (simp add: grows_def initial_context_def)
    from start_interference_queues [OF u(1) this]
    show False using time that i by (auto simp: u(2) split: if_splits)
  qed
  ultimately show ?thesis using time nl by (simp add: u(2) c)
qed




section \<open>Properties\<close>

text \<open>Claim C7: a daemon that starts under the wall clock has a consistent set of clients, the kernel
  alone if it uses netlink, and then its messages are handled, and none otherwise; and after any number of turns of its main loop, whatever events
  arrive, the clients are consistent and no removed client is left behind.\<close>

theorem daemon_keeps_clients:
  assumes "startup (standalone_env erfc config_read scanf_f per_content can_open nlmsg) ans argc opts leftover seed evs us =
      Inr (Inr (p, vs, nl, s))"
    and "main_runs (standalone_env erfc config_read scanf_f per_content can_open nlmsg) s t"
  shows "clients s = (if op_netlink p \<or> op_vhost p = None then [nl_client s] else []) \<and>
    (nl_handlers nl \<longleftrightarrow> clients s \<noteq> []) \<and> clients_inv t \<and> clients_to_free t = []"
proof -
  note s = startup_running [OF assms(1)]
  have "clients_inv t \<and> clients_to_free t = []" if "clients_inv s \<and> clients_to_free s = []"
    using assms(2) that
  proof (induction rule: main_runs.induct)
    case (main_runs_turn s t clock fuel u)
    then have "clients_inv u" using main_loop.main_step_inv by blast
    moreover have "clients_to_free u = []"
      using main_runs_turn.hyps(2) by (auto simp: main_step_def rbind_eq_Inr free_removed_clients_def)
    ultimately show ?case by simp
  qed simp
  then show ?thesis using s by auto
qed

text \<open>Two radios with the default links.\<close>

definition example_setup :: "bool option \<Rightarrow> config" where
  "example_setup interference = (example_config [])\<lparr>cfg_iface_links := None, cfg_enable_interference := interference\<rparr>"

definition example_answers :: startup_answers where
  "example_answers = \<lparr>sa_nl = \<lparr>na_cb = True, na_socket = True, na_connect = 0, na_family = 29, na_fd = 4, na_msg = True, na_put = True, na_send = 0\<rparr>, sa_nl_loop = 100,
     sa_vhost = \<lparr>ua_ptr = 101, ua_garbage = 0, ua_fd = 5, ua_unlink = True, ua_bind = True, ua_listen = True, ua_connect = True\<rparr>,
     sa_api = \<lparr>ua_ptr = 102, ua_garbage = 0, ua_fd = 6, ua_unlink = True, ua_bind = True, ua_listen = True, ua_connect = True\<rparr>\<rparr>"

lemma example_setup_loads:
  "\<exists>s. load_config USFSTL_SCHEDULER_ops (\<lambda>_. Some (example_setup b)) (\<lambda>_. None) (\<lambda>_. None) Move_job path None
      (initial_context seed evs pcap) = Inr (0, s) \<and> (intf s = None \<longleftrightarrow> b \<noteq> Some True) \<and> joblist s = [] \<and>
      events s = evs \<and> current_time s = 0 \<and> pending_jobs s = [] \<and> blocked_groups s = 0 \<and>
      job_of s = (\<lambda>_. \<lparr>job_start = 0, job_priority = 0, job_group = 0\<rparr>)"
  by (cases "b = Some True") (simp_all add: load_config_def load_stations_def load_station_def example_macs example_setup_def example_config_def
      initial_context_def load_interference_def load_fading_def load_model_def load_per_def load_error_probs_def
      load_links_def mirror_pair_def nth_result_def Let_def upt_rec)

abbreviation (input) example_env :: "bool option \<Rightarrow> wm_main wm_env" where
  "example_env b \<equiv> standalone_env (\<lambda>_. 0) (\<lambda>_. Some (example_setup b)) (\<lambda>_. None) (\<lambda>_. None) (\<lambda>_. True) (\<lambda>_. None)"

abbreviation (input) no_sockets :: "wm_service uds" where
  "no_sockets \<equiv> \<lparr>ud_entries = [], ud_mem = (\<lambda>_. None), ud_files = (\<lambda>_. None), ud_open = []\<rparr>"

lemma example_parse:
  "parse_command_line can_open 5 [(CHR ''c'', ''wm.cfg''), (CHR ''t'', ''clock'')] False = Inr (Inr (''wm.cfg'',
     \<lparr>op_config = Some ''wm.cfg'', op_per = None, op_log_lvl = 6, op_time = Some ''clock'', op_vhost = None, op_api = None,
      op_netlink = False, op_pcap = None\<rparr>))"
  "parse_command_line can_open 5 [(CHR ''c'', ''wm.cfg''), (CHR ''a'', ''api'')] False = Inr (Inr (''wm.cfg'',
     \<lparr>op_config = Some ''wm.cfg'', op_per = None, op_log_lvl = 6, op_time = None, op_vhost = None, op_api = Some ''api'',
      op_netlink = False, op_pcap = None\<rparr>))"
  by (simp_all add: parse_command_line_def wm_option_def)

lemmas example_startup_simps = startup_def start_services_def start_clock_def start_netlink_def
  init_netlink_def send_register_msg_def no_netlink_def example_answers_def
  usfstl_uds_create_def standalone_env_def usfstl_sched_next_pending_def

text \<open>The daemon starts with the control socket, and the first turn of its loop accepts a client.\<close>

lemma daemon_keeps_clients_witness:
  "\<exists>p vs nl s t. startup (example_env None) example_answers 5 [(CHR ''c'', ''wm.cfg''), (CHR ''a'', ''api'')] False 0 [Api_connect]
       no_sockets = Inr (Inr (p, vs, nl, s)) \<and> ud_entries vs = [102, 100] \<and>
     main_step (\<lambda>_. None) 10 (example_env None) s = Inr t \<and> clients s = [nl_client s] \<and> clients_inv t"
proof -
  let ?p = "\<lparr>op_config = Some ''wm.cfg'', op_per = None, op_log_lvl = 6, op_time = None, op_vhost = None, op_api = Some ''api'',
      op_netlink = False, op_pcap = None\<rparr>"
  obtain s where s: "load_config USFSTL_SCHEDULER_ops (\<lambda>_. Some (example_setup None)) (\<lambda>_. None) (\<lambda>_. None) Move_job ''wm.cfg'' None
      (initial_context 0 [Api_connect] None) = Inr (0, s)" "intf s = None" "joblist s = []" "events s = [Api_connect]"
    using example_setup_loads [of None] by blast
  let ?s = "s\<lparr>clients := nl_client s # clients s\<rparr>"
  obtain vs nl where run: "startup (example_env None) example_answers 5 [(CHR ''c'', ''wm.cfg''), (CHR ''a'', ''api'')] False 0
      [Api_connect] no_sockets = Inr (Inr (?p, vs, nl, ?s))" and vs: "ud_entries vs = [102, 100]"
    using s by (simp add: example_startup_simps example_parse start_interference_def register_at_def usfstl_loop_register_def
        loop_entry_at_def insert_first_Cons)
  obtain t where t: "main_step (\<lambda>_. None) 10 (example_env None) ?s = Inr t"
    using s by (simp add: main_step_def usfstl_sched_next_pending_def handle_event_def wmediumd_api_connected_def set_client_def Let_def)
  have "main_runs (example_env None) ?s t" using main_runs_turn [OF main_runs_start t] .
  from daemon_keeps_clients [OF run this] show ?thesis using run vs t by auto
qed



text \<open>A level with letters behind its digit is accepted, and so is a negative number that wraps to a
  level.\<close>

lemma log_level_accepts_garbage:
  "parse_log_lvl ''7x'' = Some 7" "parse_log_lvl ''-18446744073709551611'' = Some 5"
  by code_simp+

end
