(* ===== verification/Ack_Client.thy ===== *)
theory Ack_Client
  imports Delivery
begin

text \<open>
  The test client of the control socket (\<open>tests/wmediumd_ack_test_client.c\<close>). It registers, asks for all frames,
  waits for a message, and sends another request before it acknowledges that message, while the server waits
  for the acknowledgement. Here too is what the server makes of the bytes that the client writes,
  and the conversation of both.

  How many bytes a call of \<open>write\<close> or \<open>read\<close> may transfer, and whether it fails, is an input.
\<close>

section \<open>The socket\<close>

record test_sock =
  sk_sent :: "u8 list"
  sk_in :: "u8 list"
  sk_writes :: "int list"
  sk_reads :: "int list"

text \<open>The loop of \<open>write_fixed\<close>: an answer is the most that \<open>write\<close> takes, or its result if it is not positive.\<close>

fun write_loop :: "int list \<Rightarrow> int \<Rightarrow> u8 list \<Rightarrow> test_sock \<Rightarrow> (int \<times> test_sock) result" where
  "write_loop [] pos data s = (if data = [] then Inr (pos, s\<lparr>sk_writes := []\<rparr>) else Inl Starved)"
| "write_loop (k # ks) pos data s =
     (if data = [] then Inr (pos, s\<lparr>sk_writes := k # ks\<rparr>)
      else if k \<le> 0 then Inr (k, s\<lparr>sk_writes := ks\<rparr>)
      else let n = min (nat k) (length data)
        in write_loop ks (pos + int n) (drop n data) (s\<lparr>sk_sent := sk_sent s @ take n data\<rparr>))"

definition write_fixed :: "u8 list \<Rightarrow> test_sock \<Rightarrow> (int \<times> test_sock) result" where
  "write_fixed data s = write_loop (sk_writes s) 0 data s"

text \<open>The loop of \<open>read_fixed\<close>, with the bytes \<open>buf\<close> read so far into a buffer of \<open>room\<close> bytes; a \<open>read\<close> waits
  while nothing has arrived.\<close>

fun read_loop ::
  "int list \<Rightarrow> nat \<Rightarrow> u8 list \<Rightarrow> nat \<Rightarrow> test_sock \<Rightarrow> (int \<times> u8 list \<times> test_sock) result" where
  "read_loop [] room buf remain s =
     (if remain = 0 then Inr (int (length buf), buf, s\<lparr>sk_reads := []\<rparr>) else Inl Starved)"
| "read_loop (k # ks) room buf remain s =
     (if remain = 0 then Inr (int (length buf), buf, s\<lparr>sk_reads := k # ks\<rparr>)
      else if k \<le> 0 then Inr (k, buf, s\<lparr>sk_reads := ks\<rparr>)
      else if sk_in s = [] then Inl Starved
      else let n = min (nat k) (min remain (length (sk_in s)))
        in if length buf + n > room then Inl Out_of_bounds
           else read_loop ks room (buf @ take n (sk_in s)) (remain - n) (s\<lparr>sk_in := drop n (sk_in s)\<rparr>))"

definition read_fixed :: "nat \<Rightarrow> int \<Rightarrow> test_sock \<Rightarrow> (int \<times> u8 list \<times> test_sock) result" where
  "read_fixed room len s = read_loop (sk_reads s) room [] (nat len) s"

section \<open>Packets\<close>

definition wmediumd_send_packet :: "u32 \<Rightarrow> u8 list \<Rightarrow> test_sock \<Rightarrow> test_sock result" where
  "wmediumd_send_packet type data s =
     (let len = (word_of_nat (length data) :: u32) in
      rbind (write_fixed (le_bytes 4 type @ le_bytes 4 len) s) (\<lambda>(_, s).
      if len \<noteq> 0 then rbind (write_fixed data s) (\<lambda>(_, s). Inr s) else Inr s))"

text \<open>The header is not initialised if it was not read; its length is converted to an \<open>int\<close>.\<close>

definition wmediumd_read_packet :: "test_sock \<Rightarrow> test_sock result" where
  "wmediumd_read_packet s =
     rbind (read_fixed 8 8 s) (\<lambda>(_, header, s).
     if length header < 8 then Inl Uninitialized
     else let data_len = (word_of_nat (from_le (drop 4 header)) :: u32)
       in if data_len \<noteq> 0 then rbind (read_fixed 4096 (sint data_len) s) (\<lambda>(_, _, s). Inr s) else Inr s)"

section \<open>The client\<close>

text \<open>\<open>Inl\<close> is the exit code; a second path replaces the first, and other options are ignored.\<close>

fun ack_client_options :: "(char \<times> string) list \<Rightarrow> string option \<Rightarrow> int + string option" where
  "ack_client_options [] path = Inr path"
| "ack_client_options ((opt, optarg) # opts) path =
     (if opt = CHR ''h'' then Inl 0
      else if opt = CHR ''s'' then ack_client_options opts (Some optarg)
      else ack_client_options opts path)"

definition control_message :: "u8 list" where
  "control_message = le_bytes 4 CTL_RX_ALL_FRAMES"

definition ack_client_conversation :: "test_sock \<Rightarrow> test_sock result" where
  "ack_client_conversation s =
     rbind (wmediumd_send_packet WMEDIUMD_MSG_REGISTER [] s) (\<lambda>s.
     rbind (wmediumd_read_packet s) (\<lambda>s.
     rbind (wmediumd_send_packet WMEDIUMD_MSG_SET_CONTROL control_message s) (\<lambda>s.
     rbind (wmediumd_read_packet s) (\<lambda>s.
     rbind (wmediumd_read_packet s) (\<lambda>s.
     rbind (wmediumd_send_packet WMEDIUMD_MSG_SET_CONTROL control_message s) (\<lambda>s.
     rbind (wmediumd_read_packet s) (\<lambda>s.
     wmediumd_send_packet WMEDIUMD_MSG_ACK [] s)))))))"

text \<open>\<open>strncpy\<close> copies the characters of the path without the zero byte, so that the address goes on with what
  was in the uninitialised structure, up to the first zero byte there.\<close>

definition client_address :: "string \<Rightarrow> string \<Rightarrow> string" where
  "client_address garbage path = takeWhile (\<lambda>c. c \<noteq> CHR 0x00) (path @ drop (length path) garbage)"

text \<open>The result is the exit code; \<open>connects\<close> says whether there is a server at an address.\<close>

definition ack_client_main ::
  "(string \<Rightarrow> bool) \<Rightarrow> string \<Rightarrow> (char \<times> string) list \<Rightarrow> test_sock \<Rightarrow> (int \<times> test_sock) result" where
  "ack_client_main connects garbage opts s =
     (case ack_client_options opts None of
        Inl code \<Rightarrow> Inr (code, s)
      | Inr None \<Rightarrow> Inr (- 1, s)
      | Inr (Some path) \<Rightarrow>
          if length path \<ge> 108 then Inr (- 1, s)
          else if \<not> connects (client_address garbage path) then Inr (- 1, s)
          else rbind (ack_client_conversation s) (\<lambda>s. Inr (0, s)))"

section \<open>What the server reads\<close>

text \<open>The two reads of \<open>wmediumd_api_handler\<close>, when all of the bytes have arrived: a message and the rest. More
  than a megabyte of data is not read.\<close>

definition api_read :: "u8 list \<Rightarrow> api_input \<times> u8 list" where
  "api_read bytes =
     (if length bytes < 8 then (\<lparr>ai_hdr = None, ai_data = []\<rparr>, [])
      else let type = word_of_nat (from_le (take 4 bytes));
               data_len = (word_of_nat (from_le (take 4 (drop 4 bytes))) :: u32);
               rest = drop 8 bytes
        in if data_len > 1024 * 1024 then (\<lparr>ai_hdr = Some (type, data_len), ai_data = []\<rparr>, rest)
           else (\<lparr>ai_hdr = Some (type, data_len), ai_data = take (unat data_len) rest\<rparr>, drop (unat data_len) rest))"

fun api_read_all :: "nat \<Rightarrow> u8 list \<Rightarrow> api_input list" where
  "api_read_all 0 bytes = []"
| "api_read_all (Suc n) bytes = (let (m, rest) = api_read bytes in m # api_read_all n rest)"

section \<open>Everything is transferred\<close>

text \<open>A socket that never fails and takes or gives at least one byte per call.\<close>

definition lively :: "nat \<Rightarrow> int list \<Rightarrow> bool" where
  "lively n ks \<longleftrightarrow> (\<forall>k \<in> set ks. 0 < k) \<and> n \<le> length ks"

lemma write_loop_all:
  assumes "lively (length data) ks"
  shows "\<exists>ks'. write_loop ks pos data s =
      Inr (pos + int (length data), s\<lparr>sk_sent := sk_sent s @ data, sk_writes := ks'\<rparr>) \<and>
    (\<forall>n. lively (length data + n) ks \<longrightarrow> lively n ks')"
  using assms
proof (induction ks arbitrary: pos data s)
  case Nil
  then show ?case by (auto simp: lively_def)
next
  case (Cons k ks)
  show ?case
  proof (cases "data = []")
    case True
    then show ?thesis by auto
  next
    case False
    let ?n = "min (nat k) (length data)"
    have k: "k > 0" and n: "1 \<le> ?n" using Cons.prems False by (auto simp: lively_def Suc_le_eq)
    have l: "lively (length (drop ?n data)) ks" using Cons.prems False n by (auto simp: lively_def)
    obtain ks' where ks': "write_loop ks (pos + int ?n) (drop ?n data) (s\<lparr>sk_sent := sk_sent s @ take ?n data\<rparr>) =
        Inr (pos + int ?n + int (length (drop ?n data)),
          s\<lparr>sk_sent := (sk_sent s @ take ?n data) @ drop ?n data, sk_writes := ks'\<rparr>)"
      and rest: "\<And>i. lively (length (drop ?n data) + i) ks \<Longrightarrow> lively i ks'"
      using Cons.IH [OF l, of "pos + int ?n" "s\<lparr>sk_sent := sk_sent s @ take ?n data\<rparr>"] by auto
    have "lively i ks'" if "lively (length data + i) (k # ks)" for i
      by (rule rest) (use that False n in \<open>auto simp: lively_def\<close>)
    moreover have "write_loop (k # ks) pos data s =
        Inr (pos + int (length data), s\<lparr>sk_sent := sk_sent s @ data, sk_writes := ks'\<rparr>)"
      using ks' k False by (simp add: Let_def of_nat_diff)
    ultimately show ?thesis by blast
  qed
qed

lemma read_loop_all:
  assumes "lively remain ks" and "remain \<le> length (sk_in s)" and "length buf + remain \<le> room"
  shows "\<exists>ks'. read_loop ks room buf remain s = Inr (int (length buf + remain), buf @ take remain (sk_in s),
      s\<lparr>sk_in := drop remain (sk_in s), sk_reads := ks'\<rparr>) \<and> (\<forall>n. lively (remain + n) ks \<longrightarrow> lively n ks')"
  using assms
proof (induction ks arbitrary: buf remain s)
  case Nil
  then show ?case by (auto simp: lively_def)
next
  case (Cons k ks)
  show ?case
  proof (cases "remain = 0")
    case True
    then show ?thesis by auto
  next
    case False
    let ?n = "min (nat k) (min remain (length (sk_in s)))"
    have k: "k > 0" and n: "1 \<le> ?n" "?n \<le> remain" and i: "sk_in s \<noteq> []"
      using Cons.prems False by (auto simp: lively_def Suc_le_eq)
    let ?s = "s\<lparr>sk_in := drop ?n (sk_in s)\<rparr>" and ?buf = "buf @ take ?n (sk_in s)"
    have l: "lively (remain - ?n) ks" "remain - ?n \<le> length (sk_in ?s)" "length ?buf + (remain - ?n) \<le> room"
      using Cons.prems n by (auto simp: lively_def)
    obtain ks' where ks': "read_loop ks room ?buf (remain - ?n) ?s =
        Inr (int (length ?buf + (remain - ?n)), ?buf @ take (remain - ?n) (sk_in ?s),
          ?s\<lparr>sk_in := drop (remain - ?n) (sk_in ?s), sk_reads := ks'\<rparr>)"
      and rest: "\<And>i. lively (remain - ?n + i) ks \<Longrightarrow> lively i ks'"
      using Cons.IH [OF l] by blast
    have "lively i ks'" if "lively (remain + i) (k # ks)" for i
      by (rule rest) (use that n in \<open>auto simp: lively_def\<close>)
    moreover have "take ?n (sk_in s) @ take (remain - ?n) (drop ?n (sk_in s)) = take remain (sk_in s)"
      using n(2) by (metis le_add_diff_inverse take_add)
    then have "read_loop (k # ks) room buf remain s = Inr (int (length buf + remain), buf @ take remain (sk_in s),
        s\<lparr>sk_in := drop remain (sk_in s), sk_reads := ks'\<rparr>)"
      using ks' k n i False Cons.prems(3) by (simp add: Let_def)
    ultimately show ?thesis by blast
  qed
qed

definition packet :: "u32 \<Rightarrow> u8 list \<Rightarrow> u8 list" where
  "packet type data = le_bytes 4 type @ le_bytes 4 (word_of_nat (length data) :: u32) @ data"

lemma length_packet [simp]: "length (packet type data) = 8 + length data"
  by (simp add: packet_def)

lemma length_word:
  assumes "length data < 2 ^ 32"
  shows "unat (word_of_nat (length data) :: u32) = length data"
  using assms by (simp add: unat_of_nat take_bit_nat_eq_self)

lemma send_packet_all:
  assumes "lively (8 + length data + n) (sk_writes s)" and len: "length data < 2 ^ 32"
  obtains t where "wmediumd_send_packet type data s = Inr t" and "sk_sent t = sk_sent s @ packet type data"
    and "sk_in t = sk_in s" and "sk_reads t = sk_reads s" and "lively n (sk_writes t)"
proof -
  let ?header = "le_bytes 4 type @ le_bytes 4 (word_of_nat (length data) :: u32)"
  have z: "(word_of_nat (length data) :: u32) = 0 \<longleftrightarrow> data = []"
    using length_word [OF len] by (metis length_0_conv unsigned_eq_0_iff)
  have "lively (length ?header) (sk_writes s)" using assms(1) by (simp add: lively_def)
  from write_loop_all [OF this, of 0 s] obtain ks where
    w: "write_fixed ?header s = Inr (8, s\<lparr>sk_sent := sk_sent s @ ?header, sk_writes := ks\<rparr>)"
      "\<And>i. lively (8 + i) (sk_writes s) \<Longrightarrow> lively i ks"
    by (auto simp: write_fixed_def)
  let ?s = "s\<lparr>sk_sent := sk_sent s @ ?header, sk_writes := ks\<rparr>"
  have ks: "lively (length data + n) ks" using w(2) [of "length data + n"] assms(1) by (simp add: add.assoc)
  show thesis
  proof (cases "data = []")
    case True
    then have "wmediumd_send_packet type data s = Inr ?s" using w(1) by (simp add: wmediumd_send_packet_def)
    then show thesis by (rule that) (use True ks in \<open>simp_all add: packet_def\<close>)
  next
    case False
    have "lively (length data) ks" using ks by (simp add: lively_def)
    from write_loop_all [OF this, of 0 ?s] obtain ks' where
      w': "write_fixed data ?s = Inr (int (length data), ?s\<lparr>sk_sent := sk_sent ?s @ data, sk_writes := ks'\<rparr>)"
        "\<And>i. lively (length data + i) ks \<Longrightarrow> lively i ks'"
      by (auto simp: write_fixed_def)
    have "wmediumd_send_packet type data s = Inr (?s\<lparr>sk_sent := sk_sent ?s @ data, sk_writes := ks'\<rparr>)"
      using w(1) w'(1) False z by (simp add: wmediumd_send_packet_def)
    then show thesis by (rule that) (use ks w'(2) in \<open>simp_all add: packet_def\<close>)
  qed
qed

lemma read_packet_all:
  assumes "sk_in s = packet type data @ rest" and len: "length data \<le> 4096"
    and "lively (8 + length data + n) (sk_reads s)"
  obtains t where "wmediumd_read_packet s = Inr t" and "sk_in t = rest" and "sk_sent t = sk_sent s"
    and "sk_writes t = sk_writes s" and "lively n (sk_reads t)"
proof -
  let ?l = "word_of_nat (length data) :: u32"
  let ?header = "le_bytes 4 type @ le_bytes 4 ?l"
  have u: "unat ?l = length data" by (rule length_word) (use len in simp)
  then have z: "?l = 0 \<longleftrightarrow> data = []" by (metis length_0_conv unsigned_eq_0_iff)
  have "(word_of_nat (from_le (drop 4 ?header)) :: u32) = ?l" by simp
  have si: "nat (sint ?l) = length data"
  proof -
    have "sint ?l = int (length data)"
      using len by (simp add: signed_of_nat signed_take_bit_int_eq_self)
    then show ?thesis by simp
  qed
  have i: "sk_in s = ?header @ data @ rest" using assms(1) by (simp add: packet_def)
  have "lively 8 (sk_reads s)" using assms(3) by (simp add: lively_def)
  from read_loop_all [OF this, of s "[]" 8] obtain ks where
    r: "read_fixed 8 8 s = Inr (8, ?header, s\<lparr>sk_in := data @ rest, sk_reads := ks\<rparr>)"
      "\<And>i. lively (8 + i) (sk_reads s) \<Longrightarrow> lively i ks"
    by (auto simp: read_fixed_def i)
  let ?s = "s\<lparr>sk_in := data @ rest, sk_reads := ks\<rparr>"
  have ks: "lively (length data + n) ks" using r(2) [of "length data + n"] assms(3) by (simp add: add.assoc)
  show thesis
  proof (cases "data = []")
    case True
    then have "wmediumd_read_packet s = Inr ?s" using r(1) by (simp add: wmediumd_read_packet_def)
    then show thesis by (rule that) (use True ks in simp_all)
  next
    case False
    have "lively (length data) ks" using ks by (simp add: lively_def)
    from read_loop_all [OF this, of ?s "[]" 4096] obtain ks' where
      r': "read_fixed 4096 (sint ?l) ?s = Inr (int (length data), data, ?s\<lparr>sk_in := rest, sk_reads := ks'\<rparr>)"
        "\<And>i. lively (length data + i) ks \<Longrightarrow> lively i ks'"
      using len by (auto simp: read_fixed_def si)
    have "wmediumd_read_packet s = Inr (?s\<lparr>sk_in := rest, sk_reads := ks'\<rparr>)"
      using r(1) r'(1) False z by (simp add: wmediumd_read_packet_def)
    then show thesis by (rule that) (use ks r'(2) in simp_all)
  qed
qed

lemma api_read_packet:
  assumes "length data \<le> 1024 * 1024"
  shows "api_read (packet type data @ rest) =
    (\<lparr>ai_hdr = Some (type, word_of_nat (length data)), ai_data = data\<rparr>, rest)"
proof -
  have u: "unat (word_of_nat (length data) :: u32) = length data" by (rule length_word) (use assms in simp)
  then have "\<not> (word_of_nat (length data) :: u32) > 1024 * 1024" using assms by (simp add: word_less_nat_alt)
  then show ?thesis using u by (simp add: api_read_def packet_def)
qed

section \<open>Properties\<close>

text \<open>What the client writes: its registration, the request for all frames twice, and the acknowledgement.\<close>

definition client_bytes :: "u8 list" where
  "client_bytes = packet WMEDIUMD_MSG_REGISTER [] @ packet WMEDIUMD_MSG_SET_CONTROL control_message @
     packet WMEDIUMD_MSG_SET_CONTROL control_message @ packet WMEDIUMD_MSG_ACK []"

lemma control_message_length [simp]: "length control_message = 4"
  by (simp add: control_message_def)

text \<open>Claim C40: if the test client reaches its server, its socket transfers something with every call and four packets of at most 4096 bytes of
  data arrive, it ends with exit code 0, having read exactly these packets and written
  exactly its four messages, however the transfers are split.\<close>

theorem ack_client_completes:
  assumes path: "ack_client_options opts None = Inr (Some path)" "length path < 108" "connects (client_address garbage path)"
    and arrives: "sk_in s = packet t1 d1 @ packet t2 d2 @ packet t3 d3 @ packet t4 d4 @ rest"
    and len: "length d1 \<le> 4096" "length d2 \<le> 4096" "length d3 \<le> 4096" "length d4 \<le> 4096"
    and ready: "lively 40 (sk_writes s)" "lively (32 + length (d1 @ d2 @ d3 @ d4)) (sk_reads s)"
  shows "\<exists>t. ack_client_main connects garbage opts s = Inr (0, t) \<and> sk_sent t = sk_sent s @ client_bytes \<and> sk_in t = rest"
proof -
  have l: "length ([] :: u8 list) < 2 ^ 32" "length control_message < 2 ^ 32" by simp_all
  have "lively (8 + length ([] :: u8 list) + 32) (sk_writes s)" using ready(1) by simp
  from send_packet_all [OF this l(1), of WMEDIUMD_MSG_REGISTER] obtain a where
    a: "wmediumd_send_packet WMEDIUMD_MSG_REGISTER [] s = Inr a" "sk_sent a = sk_sent s @ packet WMEDIUMD_MSG_REGISTER []"
      "sk_in a = sk_in s" "sk_reads a = sk_reads s" "lively 32 (sk_writes a)" .
  have "lively (8 + length d1 + (24 + length (d2 @ d3 @ d4))) (sk_reads a)" using ready(2) a(4) by (simp add: lively_def)
  from read_packet_all [OF arrives [folded a(3)] len(1) this] obtain b where
    b: "wmediumd_read_packet a = Inr b" "sk_in b = packet t2 d2 @ packet t3 d3 @ packet t4 d4 @ rest" "sk_sent b = sk_sent a"
      "sk_writes b = sk_writes a" "lively (24 + length (d2 @ d3 @ d4)) (sk_reads b)" .
  have "lively (8 + length control_message + 20) (sk_writes b)" using a(5) b(4) by simp
  from send_packet_all [OF this l(2), of WMEDIUMD_MSG_SET_CONTROL] obtain c where
    c: "wmediumd_send_packet WMEDIUMD_MSG_SET_CONTROL control_message b = Inr c"
      "sk_sent c = sk_sent b @ packet WMEDIUMD_MSG_SET_CONTROL control_message"
      "sk_in c = sk_in b" "sk_reads c = sk_reads b" "lively 20 (sk_writes c)" .
  have "lively (8 + length d2 + (16 + length (d3 @ d4))) (sk_reads c)" using b(5) c(4) by (simp add: lively_def)
  from read_packet_all [OF b(2) [folded c(3)] len(2) this] obtain d where
    d: "wmediumd_read_packet c = Inr d" "sk_in d = packet t3 d3 @ packet t4 d4 @ rest" "sk_sent d = sk_sent c"
      "sk_writes d = sk_writes c" "lively (16 + length (d3 @ d4)) (sk_reads d)" .
  have "lively (8 + length d3 + (8 + length d4)) (sk_reads d)" using d(5) by (simp add: lively_def)
  from read_packet_all [OF d(2) len(3) this] obtain e where
    e: "wmediumd_read_packet d = Inr e" "sk_in e = packet t4 d4 @ rest" "sk_sent e = sk_sent d"
      "sk_writes e = sk_writes d" "lively (8 + length d4) (sk_reads e)" .
  have "lively (8 + length control_message + 8) (sk_writes e)" using c(5) d(4) e(4) by simp
  from send_packet_all [OF this l(2), of WMEDIUMD_MSG_SET_CONTROL] obtain f where
    f: "wmediumd_send_packet WMEDIUMD_MSG_SET_CONTROL control_message e = Inr f"
      "sk_sent f = sk_sent e @ packet WMEDIUMD_MSG_SET_CONTROL control_message"
      "sk_in f = sk_in e" "sk_reads f = sk_reads e" "lively 8 (sk_writes f)" .
  have "lively (8 + length d4 + 0) (sk_reads f)" using e(5) f(4) by simp
  from read_packet_all [OF e(2) [folded f(3)] len(4) this] obtain g where
    g: "wmediumd_read_packet f = Inr g" "sk_in g = rest" "sk_sent g = sk_sent f" "sk_writes g = sk_writes f" .
  have "lively (8 + length ([] :: u8 list) + 0) (sk_writes g)" using f(5) g(4) by simp
  from send_packet_all [OF this l(1), of WMEDIUMD_MSG_ACK] obtain h where
    h: "wmediumd_send_packet WMEDIUMD_MSG_ACK [] g = Inr h" "sk_sent h = sk_sent g @ packet WMEDIUMD_MSG_ACK []"
      "sk_in h = sk_in g" .
  have "ack_client_main connects garbage opts s = Inr (0, h)"
    using path a(1) b(1) c(1) d(1) e(1) f(1) g(1) h(1) by (simp add: ack_client_main_def ack_client_conversation_def)
  then show ?thesis using a(2) b(3) c(2) d(3) e(3) f(2) g(2,3) h(2,3) by (simp add: client_bytes_def)
qed

text \<open>A packet with more data than the buffer of the client overruns it.\<close>

lemma packet_overruns_buffer:
  "wmediumd_read_packet \<lparr>sk_sent = [], sk_in = packet 4 (replicate 4097 0), sk_writes = [], sk_reads = [8, 4097]\<rparr> =
     Inl Out_of_bounds"
  by (simp add: wmediumd_read_packet_def read_fixed_def packet_def)

text \<open>The address of a short path goes on with what was in memory.\<close>

lemma address_needs_zero: "client_address (replicate 5 (CHR ''x'')) ''ab'' = ''abxxx''"
  by code_simp

text \<open>The server answers, and the calls transfer one byte each.\<close>

lemma ack_client_completes_witness:
  "\<exists>t. ack_client_main (\<lambda>_. True) [] [(CHR ''s'', ''/tmp/api'')] \<lparr>sk_sent = [], sk_in = packet 1 [] @ packet 1 [] @ packet 4 [7] @ packet 1 [],
       sk_writes = replicate 40 1, sk_reads = replicate 40 1\<rparr> = Inr (0, t) \<and> sk_sent t = client_bytes \<and> sk_in t = []"
  using ack_client_completes [of "[(CHR ''s'', ''/tmp/api'')]" "''/tmp/api''" "\<lambda>_. True" "[]"
      "\<lparr>sk_sent = [], sk_in = packet 1 [] @ packet 1 [] @ packet 4 [7] @ packet 1 [], sk_writes = replicate 40 1, sk_reads = replicate 40 1\<rparr>"
      1 "[]" 1 "[]" 4 "[7]" 1 "[]" "[]"]
  by (simp add: lively_def)

text \<open>Claim C11: the server survives the conversation that the test client was written for. The bytes of the
  client are four messages; the first two register it and are acknowledged. While the server waits for the
  acknowledgement of a message that it has sent to the client, it handles and answers the second request, and
  then takes the acknowledgement and goes on, with the other events untouched.\<close>

theorem server_survives_conversation:
  assumes c: "cl_mem s c = Some cl" "cl_type cl = CLIENT_API_SOCK" "cl_flags cl = 0" "\<not> client_linked c s"
    and loop: "c \<in> set (api_loop s)" "c \<notin> set (broken s)"
  shows "\<exists>i1 i2 i3 i4 u t. api_read_all 4 client_bytes = [i1, i2, i3, i4] \<and>
    handle_events (standalone_env erfc config_read scanf_f per_content can_open nlmsg) [Api_event c i1, Api_event c i2] s = Inr u \<and>
    wmediumd_send_to_client (standalone_env erfc config_read scanf_f per_content can_open nlmsg) c m
      (u\<lparr>events := Api_event c i3 # Api_event c i4 # rest\<rparr>) = Inr t \<and>
    outbox t = outbox s @ [(c, Response WMEDIUMD_MSG_ACK), (c, Response WMEDIUMD_MSG_ACK), (c, m), (c, Response WMEDIUMD_MSG_ACK)] \<and>
    clients t = c # clients s \<and> events t = rest \<and>
    cl_mem t c = Some (cl\<lparr>cl_flags := CTL_RX_ALL_FRAMES, cl_wait_for_ack := False\<rparr>)"
proof -
  let ?reg = "\<lparr>ai_hdr = Some (WMEDIUMD_MSG_REGISTER, 0), ai_data = []\<rparr>" and ?ack = "\<lparr>ai_hdr = Some (WMEDIUMD_MSG_ACK, 0), ai_data = []\<rparr>"
  let ?ctl = "\<lparr>ai_hdr = Some (WMEDIUMD_MSG_SET_CONTROL, 4), ai_data = control_message\<rparr>"
  let ?env = "standalone_env erfc config_read scanf_f per_content can_open nlmsg"
  have four: "(4 :: nat) = Suc (Suc (Suc (Suc 0)))" by simp
  have read: "api_read_all 4 client_bytes = [?reg, ?ctl, ?ctl, ?ack]"
    using api_read_packet [of "[]" WMEDIUMD_MSG_ACK "[]"]
    unfolding four by (simp add: client_bytes_def api_read_packet)
  have flags: "(word_of_nat (from_le control_message) :: u32) = CTL_RX_ALL_FRAMES"
    by (simp add: control_message_def)
  have h: "\<exists>u. handle_events ?env [Api_event c ?reg, Api_event c ?ctl] s = Inr u \<and>
      outbox u = outbox s @ [(c, Response 1), (c, Response 1)] \<and> clients u = c # clients s \<and>
      cl_mem u c = Some (cl\<lparr>cl_flags := CTL_RX_ALL_FRAMES\<rparr>) \<and> api_loop u = api_loop s \<and> broken u = broken s"
    using assms
    by (simp add: handle_events_def handle_event_def wmediumd_api_handler_def api_message_def process_register_def
        process_set_control_def client_at_def set_client_def emit_def flags Let_def)
  then obtain u where u: "handle_events ?env [Api_event c ?reg, Api_event c ?ctl] s = Inr u"
    "outbox u = outbox s @ [(c, Response 1), (c, Response 1)]" "clients u = c # clients s"
    "cl_mem u c = Some (cl\<lparr>cl_flags := CTL_RX_ALL_FRAMES\<rparr>)" "api_loop u = api_loop s" "broken u = broken s"
    by blast
  have "\<exists>t. wmediumd_send_to_client ?env c m (u\<lparr>events := Api_event c ?ctl # Api_event c ?ack # rest\<rparr>) = Inr t \<and>
      outbox t = outbox u @ [(c, m), (c, Response 1)] \<and> clients t = clients u \<and> events t = rest \<and>
      cl_mem t c = Some (cl\<lparr>cl_flags := CTL_RX_ALL_FRAMES, cl_wait_for_ack := False\<rparr>)"
    using assms u
    by (simp add: wmediumd_send_to_client_def wmediumd_wait_for_client_ack_def client_at_def handle_event_def
        wait_loop_step [of _ _ "_ # _"] wait_loop_step [of _ _ rest]
        wmediumd_api_handler_def api_message_def process_set_control_def set_client_def emit_def flags Let_def)
  then show ?thesis using read u(1-3) by fastforce
qed

text \<open>A client that has connected, and the daemon sends it a frame.\<close>

lemma server_survives_conversation_witness:
  "\<exists>i1 i2 i3 i4 c s u t. api_read_all 4 client_bytes = [i1, i2, i3, i4] \<and>
     wmediumd_api_connected (example_main []) = (c, s) \<and>
     handle_events (standalone_env (\<lambda>_. 0) (\<lambda>_. None) (\<lambda>_. None) (\<lambda>_. None) (\<lambda>_. True) (\<lambda>_. None))
       [Api_event c i1, Api_event c i2] s = Inr u \<and>
     wmediumd_send_to_client (standalone_env (\<lambda>_. 0) (\<lambda>_. None) (\<lambda>_. None) (\<lambda>_. None) (\<lambda>_. True) (\<lambda>_. None)) c
       (Tx_start 7 2412) (u\<lparr>events := [Api_event c i3, Api_event c i4, Timer_event]\<rparr>) = Inr t \<and> events t = [Timer_event]"
proof -
  obtain c s where c: "wmediumd_api_connected (example_main []) = (c, s)" by (rule prod.exhaust)
  then have s: "cl_mem s c = Some \<lparr>cl_type = CLIENT_API_SOCK, cl_wait_for_ack = False, cl_flags = 0\<rparr>"
    "\<not> client_linked c s" "c \<in> set (api_loop s)" "c \<notin> set (broken s)"
    by (auto simp: wmediumd_api_connected_def set_client_def client_linked_def example_main_defs Let_def)
  have "\<exists>i1 i2 i3 i4 u t. api_read_all 4 client_bytes = [i1, i2, i3, i4] \<and>
     handle_events (standalone_env (\<lambda>_. 0) (\<lambda>_. None) (\<lambda>_. None) (\<lambda>_. None) (\<lambda>_. True) (\<lambda>_. None))
       [Api_event c i1, Api_event c i2] s = Inr u \<and>
     wmediumd_send_to_client (standalone_env (\<lambda>_. 0) (\<lambda>_. None) (\<lambda>_. None) (\<lambda>_. None) (\<lambda>_. True) (\<lambda>_. None)) c
       (Tx_start 7 2412) (u\<lparr>events := [Api_event c i3, Api_event c i4, Timer_event]\<rparr>) = Inr t \<and> events t = [Timer_event]"
    using server_survives_conversation [OF s(1) _ _ s(2-4), where erfc = "\<lambda>_. 0" and config_read = "\<lambda>_. None"
        and scanf_f = "\<lambda>_. None" and per_content = "\<lambda>_. None" and can_open = "\<lambda>_. True" and nlmsg = "\<lambda>_. None"
        and m = "Tx_start 7 2412" and rest = "[Timer_event]"] by simp blast
  then show ?thesis using c by blast
qed

end
